(* ===== verification/DriveBus_Prelude.thy ===== *)
theory DriveBus_Prelude
  imports Main "HOL-Library.Word" "HOL-Library.Monad_Syntax"
begin

unbundle bit_operations_syntax

text \<open>
  Shared vocabulary of the development: the machine integers, arrays and byte stores of the
  modelled C++ program, the little-endian representation its \<open>memcpy\<close> calls rely on,
  and the generic lemmas on words, lists and options that the components share.

  A computation whose C++ counterpart can run into undefined behaviour (an index outside an
  array, an overflow of a signed \<open>int\<close>) has an \<open>option\<close> type: \<^term>\<open>None\<close> is
  the undefined behaviour, never an error return of the program.  Error returns are values
  of a sum type inside the \<open>Some\<close>.
\<close>

named_theorems array_simps \<open>evaluation of bounds-checked array and memory accesses\<close>
named_theorems layout_simps \<open>the numeric constants of the shared memory layout\<close>
named_theorems protocol_simps \<open>the numeric constants of the broker protocol\<close>

type_synonym u8 = "8 word"
type_synonym u32 = "32 word"
type_synonym u64 = "64 word"

text \<open>A C \<open>int\<close>: 32 bits read as two's complement (\<^term>\<open>sint\<close>).\<close>
type_synonym s32 = "32 word"

type_synonym bytes = "u8 list"

text \<open>A byte store, and an array of statically known length (the accessors carry the length).\<close>
type_synonym mem = "nat \<Rightarrow> u8"

section \<open>Arrays with bounds\<close>

definition arr_get :: "nat \<Rightarrow> (nat \<Rightarrow> 'a) \<Rightarrow> nat \<Rightarrow> 'a option" where
  "arr_get n a i = (if i < n then Some (a i) else None)"

definition arr_set :: "nat \<Rightarrow> (nat \<Rightarrow> 'a) \<Rightarrow> nat \<Rightarrow> 'a \<Rightarrow> (nat \<Rightarrow> 'a) option" where
  "arr_set n a i x = (if i < n then Some (a(i := x)) else None)"

text \<open>Indexing a constant table with a C \<open>int\<close>, which may be negative.\<close>

definition table_get :: "'a list \<Rightarrow> int \<Rightarrow> 'a option" where
  "table_get xs i = (if 0 \<le> i \<and> nat i < length xs then Some (xs ! nat i) else None)"

definition mem_load :: "nat \<Rightarrow> mem \<Rightarrow> nat \<Rightarrow> nat \<Rightarrow> bytes option" where
  "mem_load sz m off len = (if off + len \<le> sz then Some (map m [off..<off + len]) else None)"

definition mem_put :: "mem \<Rightarrow> nat \<Rightarrow> bytes \<Rightarrow> mem" where
  "mem_put m off bs = (\<lambda>a. if off \<le> a \<and> a < off + length bs then bs ! (a - off) else m a)"

definition mem_store :: "nat \<Rightarrow> mem \<Rightarrow> nat \<Rightarrow> bytes \<Rightarrow> mem option" where
  "mem_store sz m off bs = (if off + length bs \<le> sz then Some (mem_put m off bs) else None)"

lemma arr_get_in [array_simps]: "i < n \<Longrightarrow> arr_get n a i = Some (a i)"
  by (simp add: arr_get_def)

lemma arr_set_in [array_simps]: "i < n \<Longrightarrow> arr_set n a i x = Some (a(i := x))"
  by (simp add: arr_set_def)

lemma table_get_in [array_simps]: "i < length xs \<Longrightarrow> table_get xs (int i) = Some (xs ! i)"
  by (simp add: table_get_def)

lemma mem_load_in [array_simps]:
  "off + len \<le> sz \<Longrightarrow> mem_load sz m off len = Some (map m [off..<off + len])"
  by (simp add: mem_load_def)

lemma mem_store_in [array_simps]:
  "off + length bs \<le> sz \<Longrightarrow> mem_store sz m off bs = Some (mem_put m off bs)"
  by (simp add: mem_store_def)

text \<open>A read that does not overlap the bytes written sees the old contents.\<close>

lemma mem_put_outside:
  assumes "a + n \<le> off \<or> off + length bs \<le> a"
  shows "map (mem_put m off bs) [a..<a + n] = map m [a..<a + n]"
  using assms by (auto simp: mem_put_def)

lemma mem_put_same:
  "map (mem_put m off bs) [off..<off + length bs] = bs"
  by (rule nth_equalityI) (auto simp: mem_put_def)

lemma mem_put_sub:
  assumes "off \<le> a" "a + n \<le> off + length bs"
  shows "map (mem_put m off bs) [a..<a + n] = take n (drop (a - off) bs)"
  using assms by (intro nth_equalityI) (auto simp: mem_put_def)

section \<open>Little-endian representation\<close>

text \<open>The bytes that \<open>memcpy\<close> of an \<open>n\<close>-byte unsigned integer writes on the
  little-endian target, and the integer read back from them.\<close>

definition le_bytes :: "nat \<Rightarrow> 'a::len word \<Rightarrow> bytes" where
  "le_bytes n w = map (\<lambda>i. ucast (drop_bit (8 * i) w)) [0..<n]"

fun of_le_bytes :: "bytes \<Rightarrow> 'a::len word" where
  "of_le_bytes [] = 0"
| "of_le_bytes (b # bs) = (ucast b OR push_bit 8 (of_le_bytes bs))"

lemma length_le_bytes [simp]: "length (le_bytes n w) = n"
  by (simp add: le_bytes_def)

lemma bit_of_le_bytes:
  "bit (of_le_bytes bs :: 'a::len word) k
     \<longleftrightarrow> k < LENGTH('a) \<and> k div 8 < length bs \<and> bit (bs ! (k div 8)) (k mod 8)"
proof (induction bs arbitrary: k)
  case Nil
  then show ?case by simp
next
  case (Cons b bs)
  show ?case
  proof (cases "k < 8")
    case True
    then show ?thesis by (auto simp: bit_simps Cons.IH)
  next
    case False
    then have d: "k div 8 = Suc ((k - 8) div 8)" and m: "k mod 8 = (k - 8) mod 8"
      by (simp_all add: le_div_geq le_mod_geq)
    have "bit b k = False" using False by (simp add: impossible_bit)
    then show ?thesis using False by (auto simp: bit_simps Cons.IH d m)
  qed
qed

lemma of_le_bytes_inverse:
  fixes w :: "'a::len word"
  assumes "LENGTH('a) \<le> 8 * n"
  shows "of_le_bytes (le_bytes n w) = w"
proof (rule bit_word_eqI)
  fix k assume k: "k < LENGTH('a)"
  with assms have n: "k div 8 < n" by (simp add: less_mult_imp_div_less)
  have "8 * (k div 8) + k mod 8 = k" by simp
  with k n show "bit (of_le_bytes (le_bytes n w) :: 'a word) k = bit w k"
    by (simp add: bit_of_le_bytes le_bytes_def bit_simps)
qed

lemma of_le_bytes_u32 [simp]: "of_le_bytes (le_bytes 4 (w :: u32)) = w"
  by (rule of_le_bytes_inverse) simp

lemma of_le_bytes_u64 [simp]: "of_le_bytes (le_bytes 8 (w :: u64)) = w"
  by (rule of_le_bytes_inverse) simp

section \<open>Words\<close>

lemma unat_add_no_wrap:
  fixes a b :: "'a::len word"
  shows "unat a + unat b < 2 ^ LENGTH('a) \<Longrightarrow> unat (a + b) = unat a + unat b"
  by (simp add: unat_add_lem)

lemma unat_Suc_no_wrap:
  fixes a :: u32
  shows "unat a < 4294967295 \<Longrightarrow> unat (a + 1) = Suc (unat a)"
  by (simp add: unat_add_no_wrap)

lemma unat_of_nat_small:
  "n < 2 ^ LENGTH('a) \<Longrightarrow> unat (of_nat n :: 'a::len word) = n"
  by (simp add: unat_of_nat)

text \<open>The reference bit \<open>1 << slot\<close> of a subscriber slot.\<close>

definition slot_bit :: "nat \<Rightarrow> u32" where
  "slot_bit s = push_bit s 1"

lemma bit_slot_bit: "bit (slot_bit s) k \<longleftrightarrow> k = s \<and> s < 32"
  by (auto simp: slot_bit_def bit_simps)

lemma slot_bit_nonzero: "s < 32 \<Longrightarrow> slot_bit s \<noteq> 0"
  by (metis bit_0_eq bit_slot_bit bot_apply bot_bool_def)

lemma eq_slot_bit_iff:
  assumes "s < 32"
  shows "w = slot_bit s \<longleftrightarrow> (\<forall>k<32. bit w k \<longleftrightarrow> k = s)"
  using assms by (auto simp: bit_slot_bit intro!: bit_word_eqI)

text \<open>Adding the reference bits of distinct slots sets exactly their bits.\<close>

lemma bit_add_slot_bit:
  assumes "\<not> bit w s" "s < 32"
  shows "bit (w + slot_bit s) k \<longleftrightarrow> bit w k \<or> k = s"
proof -
  have "w + slot_bit s = w OR slot_bit s"
    using assms by (intro disjunctive_add) (auto simp: bit_slot_bit)
  then show ?thesis using assms by (auto simp: bit_or_iff bit_slot_bit)
qed

lemma bit_fold_slot_bits:
  assumes "distinct ss" "\<forall>s \<in> set ss. s < 32 \<and> \<not> bit w s"
  shows "bit (fold (\<lambda>s m. m + slot_bit s) ss w) k \<longleftrightarrow> bit w k \<or> k \<in> set ss"
  using assms
proof (induction ss arbitrary: w)
  case Nil
  then show ?case by simp
next
  case (Cons s ss)
  have "\<forall>t \<in> set ss. t < 32 \<and> \<not> bit (w + slot_bit s) t"
    using Cons.prems by (auto simp: bit_add_slot_bit)
  with Cons show ?case by (auto simp: bit_add_slot_bit)
qed

section \<open>Lists and folds\<close>

lemma those_Some: "(\<And>x. x \<in> set xs \<Longrightarrow> f x = Some (g x)) \<Longrightarrow> those (map f xs) = Some (map g xs)"
  by (induction xs) auto

lemma fold_invariant:
  assumes "I s" "\<And>x s. x \<in> set xs \<Longrightarrow> I s \<Longrightarrow> I (f x s)"
  shows "I (fold f xs s)"
  using assms by (induction xs arbitrary: s) auto

lemma distinct_hd_notin_tl: "distinct xs \<Longrightarrow> xs \<noteq> [] \<Longrightarrow> hd xs \<notin> set (tl xs)"
  by (cases xs) auto

lemma set_tl_distinct: "distinct xs \<Longrightarrow> xs \<noteq> [] \<Longrightarrow> set (tl xs) = set xs - {hd xs}"
  by (cases xs) auto

end
