(* ===== verification/Shm_Layout.thy ===== *)
theory Shm_Layout
  imports DriveBus_Prelude
begin

text \<open>
  The shared memory segment of one publisher (\<open>include/shared_memory_layout.hpp\<close>,
  \<open>include/shared_memory_layout_helpers.hpp\<close>) and its initialisation
  (\<open>initialize_shared_data\<close>, \<open>initialize_chunk_usage_tracker\<close> in
  \<open>src/publisher.cpp\<close>).  \<open>ENABLE_DEBUG_CHECKS\<close> is defined by the Makefile, so the
  chunk usage tracker is part of the segment.  Arrays are functions from the index, read and
  written through the bounds-checked accessors of the prelude; \<open>data\<close> is a byte store.
\<close>

section \<open>Constants\<close>

definition kDescriptorSlotCount :: u32 where [layout_simps]: "kDescriptorSlotCount = 16"
definition kMaxSubscribers :: nat where [layout_simps]: "kMaxSubscribers = 16"
definition kInvalidIndex :: u32 where [layout_simps]: "kInvalidIndex = 4294967295"

definition kClassCount :: nat where [layout_simps]: "kClassCount = 5"

definition kClassSizeBytes :: "u32 list" where
  [layout_simps]: "kClassSizeBytes = [16, 128, 256, 512, 1024]"

definition kChunkCountBySizeClass :: "u32 list" where
  [layout_simps]: "kChunkCountBySizeClass = [64, 32, 16, 8, 8]"

definition kTotalChunkCount :: nat where [layout_simps]: "kTotalChunkCount = 64 + 32 + 16 + 8 + 8"

definition kChunkIndexBaseBySizeClass :: "u32 list" where
  [layout_simps]: "kChunkIndexBaseBySizeClass = [0, 64, 96, 112, 120]"

definition kMaxChunkCountPerSizeClass :: nat where
  [layout_simps]: "kMaxChunkCountPerSizeClass = 64"

definition kPayloadPoolSizeBytes :: nat where
  [layout_simps]: "kPayloadPoolSizeBytes = 1024 * 21"

definition kInvalidOffset :: u32 where [layout_simps]: "kInvalidOffset = 4294967295"

definition kMagic :: s32 where [layout_simps]: "kMagic = 21354532"

definition kFirstOffset :: "u32 list" where
  [layout_simps]: "kFirstOffset =
    [0,
     16 * 64,
     16 * 64 + 128 * 32,
     16 * 64 + 128 * 32 + 256 * 16,
     16 * 64 + 128 * 32 + 256 * 16 + 512 * 8]"

definition kLastOffset :: "u32 list" where
  [layout_simps]: "kLastOffset =
    [kFirstOffset ! 1 - kClassSizeBytes ! 0,
     kFirstOffset ! 2 - kClassSizeBytes ! 1,
     kFirstOffset ! 3 - kClassSizeBytes ! 2,
     kFirstOffset ! 4 - kClassSizeBytes ! 3,
     of_nat kPayloadPoolSizeBytes - kClassSizeBytes ! 4]"

section \<open>The segment\<close>

record message_descriptor =
  md_offset :: u32
  md_len :: u32

record shared_data =
  descriptor_read_indices :: "nat \<Rightarrow> u32"       \<comment> \<open>\<open>[kMaxSubscribers]\<close>\<close>
  descriptor_write_index :: u32
  desc_ring :: "nat \<Rightarrow> message_descriptor"      \<comment> \<open>\<open>[kDescriptorSlotCount]\<close>\<close>
  head_offset :: "nat \<Rightarrow> u32"                   \<comment> \<open>\<open>[kClassCount]\<close>\<close>
  tail_offset :: "nat \<Rightarrow> u32"                   \<comment> \<open>\<open>[kClassCount]\<close>\<close>
  chunk_reference_counts :: "nat \<Rightarrow> u32"        \<comment> \<open>\<open>[kTotalChunkCount]\<close>\<close>
  data :: mem                                    \<comment> \<open>\<open>char[1024 * 21]\<close>\<close>
  is_in_use :: "nat \<Rightarrow> nat \<Rightarrow> bool"             \<comment> \<open>\<open>[kClassCount][kMaxChunkCountPerSizeClass]\<close>\<close>

text \<open>The contents of a fresh mapping: \<open>ftruncate\<close> extends the object with zero bytes.\<close>

definition zero_shared_data :: shared_data where
  "zero_shared_data =
    \<lparr>descriptor_read_indices = (\<lambda>_. 0), descriptor_write_index = 0,
     desc_ring = (\<lambda>_. \<lparr>md_offset = 0, md_len = 0\<rparr>),
     head_offset = (\<lambda>_. 0), tail_offset = (\<lambda>_. 0), chunk_reference_counts = (\<lambda>_. 0),
     data = (\<lambda>_. 0), is_in_use = (\<lambda>_ _. False)\<rparr>"

abbreviation data_load :: "shared_data \<Rightarrow> nat \<Rightarrow> nat \<Rightarrow> bytes option" where
  "data_load sd \<equiv> mem_load kPayloadPoolSizeBytes (data sd)"

definition data_store :: "shared_data \<Rightarrow> nat \<Rightarrow> bytes \<Rightarrow> shared_data option" where
  "data_store sd off bs =
     map_option (\<lambda>m. sd\<lparr>data := m\<rparr>) (mem_store kPayloadPoolSizeBytes (data sd) off bs)"

text \<open>\<open>memcpy\<close> of a \<open>uint32_t\<close> (or \<open>int\<close>) out of and into the pool.\<close>

definition load_u32 :: "shared_data \<Rightarrow> u32 \<Rightarrow> u32 option" where
  "load_u32 sd off = map_option of_le_bytes (data_load sd (unat off) 4)"

definition store_u32 :: "shared_data \<Rightarrow> u32 \<Rightarrow> u32 \<Rightarrow> shared_data option" where
  "store_u32 sd off v = data_store sd (unat off) (le_bytes 4 v)"

section \<open>Size classes\<close>

text \<open>\<open>find_size_class\<close>: the loop over the size classes, \<open>-1\<close> when none is large enough.\<close>

function find_size_class_from :: "nat \<Rightarrow> u32 \<Rightarrow> int" where
  "find_size_class_from i size_bytes =
     (if i < kClassCount
      then (if size_bytes \<le> kClassSizeBytes ! i then int i
            else find_size_class_from (Suc i) size_bytes)
      else -1)"
  by pat_completeness auto
termination
  by (relation "measure (\<lambda>(i, size_bytes). kClassCount - i)") (auto simp: layout_simps)

declare find_size_class_from.simps [simp del]

definition find_size_class :: "u32 \<Rightarrow> int" where
  "find_size_class size_bytes = find_size_class_from 0 size_bytes"

text \<open>\<open>(offset - kFirstOffset[cls]) / kClassSizeBytes[cls]\<close>, and the index
  of the chunk's reference mask.\<close>

definition local_chunk_index :: "u32 \<Rightarrow> int \<Rightarrow> u32 option" where
  "local_chunk_index offset cls = do {
     first \<leftarrow> table_get kFirstOffset cls;
     class_size \<leftarrow> table_get kClassSizeBytes cls;
     Some ((offset - first) div class_size)
   }"

definition global_chunk_index :: "u32 \<Rightarrow> int \<Rightarrow> u32 option" where
  "global_chunk_index offset cls = do {
     local_index \<leftarrow> local_chunk_index offset cls;
     base \<leftarrow> table_get kChunkIndexBaseBySizeClass cls;
     Some (base + local_index)
   }"

section \<open>Initialisation\<close>

text \<open>The lambda \<open>init\<close>: link \<open>remaining + 1\<close> chunks starting at \<open>offset\<close>.\<close>

fun init_links :: "u32 \<Rightarrow> nat \<Rightarrow> u32 \<Rightarrow> shared_data \<Rightarrow> shared_data option" where
  "init_links chunk_size_bytes 0 offset sd = store_u32 sd offset kInvalidOffset"
| "init_links chunk_size_bytes (Suc remaining) offset sd = do {
     let next_offset = offset + chunk_size_bytes;
     sd \<leftarrow> store_u32 sd offset next_offset;
     init_links chunk_size_bytes remaining next_offset sd
   }"

fun init_classes :: "nat list \<Rightarrow> shared_data \<Rightarrow> shared_data option" where
  "init_classes [] sd = Some sd"
| "init_classes (i # is) sd = do {
     sd \<leftarrow> init_links (kClassSizeBytes ! i) (unat (kChunkCountBySizeClass ! i - 1)) (head_offset sd i) sd;
     init_classes is sd
   }"

definition init_heads :: "shared_data \<Rightarrow> shared_data" where
  "init_heads sd = fold
     (\<lambda>i sd. sd\<lparr>head_offset := (head_offset sd)(i := head_offset sd (i - 1)
        + kClassSizeBytes ! (i - 1) * kChunkCountBySizeClass ! (i - 1))\<rparr>)
     [1..<kClassCount] (sd\<lparr>head_offset := (head_offset sd)(0 := 0)\<rparr>)"

definition init_tails :: "shared_data \<Rightarrow> shared_data" where
  "init_tails sd =
     (let sd = fold
        (\<lambda>i sd. sd\<lparr>tail_offset := (tail_offset sd)(i := head_offset sd (i + 1) - kClassSizeBytes ! i)\<rparr>)
        [0..<kClassCount - 1] sd
      in sd\<lparr>tail_offset := (tail_offset sd)(kClassCount - 1 :=
            of_nat kPayloadPoolSizeBytes - kClassSizeBytes ! (kClassCount - 1))\<rparr>)"

definition initialize_shared_data :: "shared_data \<Rightarrow> shared_data option" where
  "initialize_shared_data sd =
     (let sd = fold (\<lambda>s sd. sd\<lparr>descriptor_read_indices := (descriptor_read_indices sd)(s := kInvalidIndex)\<rparr>)
                 [0..<kMaxSubscribers] sd;
          sd = sd\<lparr>descriptor_write_index := 0\<rparr>;
          sd = init_tails (init_heads sd);
          sd = fold (\<lambda>c sd. sd\<lparr>chunk_reference_counts := (chunk_reference_counts sd)(c := 0)\<rparr>)
                 [0..<kTotalChunkCount] sd
      in init_classes [0..<kClassCount] sd)"

definition initialize_chunk_usage_tracker :: "shared_data \<Rightarrow> shared_data" where
  "initialize_chunk_usage_tracker sd = sd\<lparr>is_in_use := (\<lambda>_ _. False)\<rparr>"

text \<open>What \<open>create_and_map_shared_data\<close> leaves in a fresh segment.\<close>

definition create_shared_data :: "shared_data \<Rightarrow> shared_data option" where
  "create_shared_data sd = map_option initialize_chunk_usage_tracker (initialize_shared_data sd)"

section \<open>The chunks as numbers\<close>

text \<open>The layout read in natural numbers: class \<open>c\<close> has \<open>class_count c\<close> chunks of
  \<open>class_size c\<close> bytes from \<open>class_first c\<close> on; a chunk is a pair of its class and its
  index in the class.\<close>

type_synonym chunk = "nat \<times> nat"

definition class_size :: "nat \<Rightarrow> nat" where "class_size c = [16, 128, 256, 512, 1024] ! c"
definition class_count :: "nat \<Rightarrow> nat" where "class_count c = [64, 32, 16, 8, 8] ! c"
definition class_first :: "nat \<Rightarrow> nat" where "class_first c = [0, 1024, 5120, 9216, 13312] ! c"
definition class_base :: "nat \<Rightarrow> nat" where "class_base c = [0, 64, 96, 112, 120] ! c"

definition chunk_ok :: "chunk \<Rightarrow> bool" where
  "chunk_ok = (\<lambda>(c, i). c < 5 \<and> i < class_count c)"

definition chunk_off :: "chunk \<Rightarrow> nat" where
  "chunk_off = (\<lambda>(c, i). class_first c + i * class_size c)"

definition chunk_gidx :: "chunk \<Rightarrow> nat" where
  "chunk_gidx = (\<lambda>(c, i). class_base c + i)"

lemmas class_defs = class_size_def class_count_def class_first_def class_base_def
lemmas chunk_defs = chunk_ok_def chunk_off_def chunk_gidx_def

lemma less_5_cases: "(c::nat) < 5 \<longleftrightarrow> c = 0 \<or> c = 1 \<or> c = 2 \<or> c = 3 \<or> c = 4"
  by auto

lemma class_tables:
  assumes "c < 5"
  shows "unat (kClassSizeBytes ! c) = class_size c"
    "unat (kChunkCountBySizeClass ! c) = class_count c"
    "unat (kFirstOffset ! c) = class_first c"
    "unat (kChunkIndexBaseBySizeClass ! c) = class_base c"
    "unat (kLastOffset ! c) = chunk_off (c, class_count c - 1)"
  using assms by (auto simp: less_5_cases layout_simps class_defs chunk_defs)

lemma class_table_get:
  assumes "c < 5"
  shows "table_get kClassSizeBytes (int c) = Some (kClassSizeBytes ! c)"
    "table_get kFirstOffset (int c) = Some (kFirstOffset ! c)"
    "table_get kLastOffset (int c) = Some (kLastOffset ! c)"
    "table_get kChunkIndexBaseBySizeClass (int c) = Some (kChunkIndexBaseBySizeClass ! c)"
  using assms by (simp_all add: table_get_def layout_simps)

lemma class_bounds:
  assumes "c < 5"
  shows "16 \<le> class_size c" "class_size c \<le> 1024" "8 \<le> class_count c" "class_count c \<le> 64"
  using assms by (auto simp: less_5_cases class_defs)

lemma chunk_fits:
  assumes "chunk_ok (c, i)"
  shows "chunk_off (c, i) + class_size c \<le> kPayloadPoolSizeBytes"
  using assms by (auto simp: chunk_defs less_5_cases class_defs layout_simps)

lemma chunk_off_less: "chunk_ok ch \<Longrightarrow> chunk_off ch < 21504"
  using chunk_fits [of "fst ch" "snd ch"] class_bounds(1) [of "fst ch"]
  by (cases ch) (auto simp: chunk_ok_def layout_simps)

lemma chunk_gidx_less: "chunk_ok ch \<Longrightarrow> chunk_gidx ch < kTotalChunkCount"
  by (cases ch) (auto simp: chunk_defs less_5_cases class_defs layout_simps)

lemma chunk_gidx_inj: "chunk_ok a \<Longrightarrow> chunk_ok b \<Longrightarrow> chunk_gidx a = chunk_gidx b \<longleftrightarrow> a = b"
  by (cases a; cases b) (auto simp: chunk_defs less_5_cases class_defs)

text \<open>Distinct chunks do not overlap.\<close>

lemma chunk_disjoint:
  assumes "chunk_ok (c, i)" "chunk_ok (d, j)" "(c, i) \<noteq> (d, j)"
  shows "chunk_off (c, i) + class_size c \<le> chunk_off (d, j)
    \<or> chunk_off (d, j) + class_size d \<le> chunk_off (c, i)"
  using assms by (auto simp: chunk_defs less_5_cases class_defs)

lemma chunk_off_inj:
  assumes "chunk_ok a" "chunk_ok b" "chunk_off a = chunk_off b"
  shows "a = b"
proof (rule ccontr)
  assume "a \<noteq> b"
  with assms chunk_disjoint [of "fst a" "snd a" "fst b" "snd b"]
    class_bounds(1) [of "fst a"] class_bounds(1) [of "fst b"]
  show False by (cases a; cases b) (auto simp: chunk_ok_def)
qed

text \<open>The chunk of an offset: what \<open>local_chunk_index\<close> and \<open>global_chunk_index\<close> compute.\<close>

definition off_word :: "chunk \<Rightarrow> u32" where
  "off_word ch = of_nat (chunk_off ch)"

lemma unat_off_word: "chunk_ok ch \<Longrightarrow> unat (off_word ch) = chunk_off ch"
  using chunk_off_less [of ch] by (simp add: off_word_def unat_of_nat_small)

lemma off_word_inj: "chunk_ok a \<Longrightarrow> chunk_ok b \<Longrightarrow> off_word a = off_word b \<longleftrightarrow> a = b"
  using chunk_off_inj unat_off_word by metis

lemma local_chunk_index_off:
  assumes ok: "chunk_ok (c, i)"
  shows "local_chunk_index (off_word (c, i)) (int c) = Some (of_nat i)"
proof -
  from ok have c: "c < 5" and i: "i < class_count c" by (auto simp: chunk_ok_def)
  have le: "kFirstOffset ! c \<le> off_word (c, i)"
    using c by (simp add: word_le_nat_alt unat_off_word [OF ok] class_tables chunk_off_def)
  have "unat ((off_word (c, i) - kFirstOffset ! c) div (kClassSizeBytes ! c)) = i"
    using c class_bounds(1) [OF c]
    by (simp add: unat_div unat_sub [OF le] unat_off_word [OF ok] class_tables chunk_off_def)
  moreover have "unat (of_nat i :: u32) = i"
    using i class_bounds(4) [OF c] by (simp add: unat_of_nat_small)
  ultimately have "(off_word (c, i) - kFirstOffset ! c) div (kClassSizeBytes ! c) = of_nat i"
    by (metis unsigned_word_eqI)
  then show ?thesis by (simp add: local_chunk_index_def class_table_get [OF c])
qed

lemma global_chunk_index_off:
  assumes ok: "chunk_ok (c, i)"
  shows "\<exists>g. global_chunk_index (off_word (c, i)) (int c) = Some g \<and> unat g = chunk_gidx (c, i)"
proof -
  from ok have c: "c < 5" and i: "i < class_count c" by (auto simp: chunk_ok_def)
  have "unat (of_nat i :: u32) = i" using i class_bounds(4) [OF c] by (simp add: unat_of_nat_small)
  moreover have "class_base c \<le> 120" using c by (auto simp: less_5_cases class_defs)
  ultimately have "unat (kChunkIndexBaseBySizeClass ! c + of_nat i) = class_base c + i"
    using i class_bounds(4) [OF c] by (subst unat_add_no_wrap) (simp_all add: class_tables [OF c])
  then show ?thesis
    by (simp add: global_chunk_index_def local_chunk_index_off [OF ok] class_table_get [OF c]
      chunk_gidx_def)
qed

section \<open>The size class of a message\<close>

lemma find_size_class_unfold:
  "find_size_class n =
    (if n \<le> 16 then 0 else if n \<le> 128 then 1 else if n \<le> 256 then 2
     else if n \<le> 512 then 3 else if n \<le> 1024 then 4 else -1)"
  by (simp add: find_size_class_def find_size_class_from.simps layout_simps)

lemma find_size_class_cases:
  "find_size_class n = -1 \<and> 1024 < unat n
   \<or> (\<exists>c<5. find_size_class n = int c \<and> unat n \<le> class_size c \<and> (\<forall>d<c. class_size d < unat n))"
proof -
  have *: "n \<le> 16 \<longleftrightarrow> unat n \<le> 16" "n \<le> 128 \<longleftrightarrow> unat n \<le> 128" "n \<le> 256 \<longleftrightarrow> unat n \<le> 256"
    "n \<le> 512 \<longleftrightarrow> unat n \<le> 512" "n \<le> 1024 \<longleftrightarrow> unat n \<le> 1024"
    by (simp_all add: word_le_nat_alt)
  show ?thesis
    by (simp add: find_size_class_unfold *)
      (auto simp: class_size_def less_Suc_eq eval_nat_numeral(2,3) intro: exI [of _ 0] exI [of _ 1] exI [of _ 2] exI [of _ 3] exI [of _ 4])
qed

end
