(* ===== verification/Publisher_State.thy ===== *)
theory Publisher_State
  imports Shm_Layout
begin

text \<open>
  The types of \<open>include/publisher.hpp\<close>: the error and result enumerations, the pending and
  in-flight messages, the state of a \<open>Publisher\<close> object, and the outside world an operation
  acts on.  A promise is identified by a number, its ticket; completing it appends to the
  \<open>completions\<close> of the world.  Whether \<open>signal_eventfd\<close> succeeds on a descriptor is the
  kernel's answer and therefore a parameter \<open>sig\<close> of the operations.
\<close>

datatype create_error =
    SharedMemoryUnlinkFailed | SharedMemoryOpenFailed | SharedMemoryResizeFailed
  | SharedMemoryMapFailed | EpollCreateFailed | BrokerSocketCreateFailed | BrokerConnectFailed
  | BrokerEpollAddFailed | SpaceAvailableEventFdCreateFailed | SpaceAvailableEpollAddFailed
  | TopicRegistrationSendFailed | PublishWorkEventFdCreateFailed | PublishWorkEpollAddFailed
  | PublishWorkInitialSignalFailed | ShutdownEventFdCreateFailed | ShutdownEpollAddFailed
  | WorkerExitEventFdCreateFailed | RunThreadCreateFailed | PublisherModeFlagsInvalid
  | InitialSubscriberCountReceiveFailed | InitialSubscriberRegistrationReceiveFailed
  | InitialSubscriberRegistrationEventFdMissing | InitialSubscriberRegistrationTypeInvalid
  | SubscriberSlotOutOfRange | SubscriberSlotAlreadyTracked | SubscriberEventFdAlreadyTracked

datatype publish_attempt = Succeeded | Blocked

text \<open>\<open>RunError::None\<close> is \<open>RunNone\<close>.\<close>

datatype run_error =
    RunNone | EpollWaitFailed | UnexpectedEpollTimeout | PublishWorkEventReadFailed
  | MessageSizeClassInvalid | PublishAttemptFailed | PublishWorkRescheduleFailed
  | SpaceAvailableEventReadFailed | PublishWorkResumeFailed | ChunkReferenceReleaseFailed
  | DeadSubscriberReapFailed | BrokerClosed | BrokerControlMessageTooShort
  | BrokerControlMessageProcessingFailed | DynamicSubscriberRegistrationFailed
  | PublishWorkBrokerResumeFailed | DataAvailableSignalFailed | ShutdownEventReadFailed
  | WorkerException

datatype publish_disposition = DPublished | Enqueued | EnqueuedAfterOverwritingOldest

datatype publish_error =
    ModeMismatch | PayloadTooLarge | WorkerExited | NotificationFailed | Timeout
  | EventWaitFailed | BrokerUnavailable | DataPathFailed

datatype publish_completion = CPublished | Overwritten | WorkerStopped | WorkerFailed

datatype subscriber_tracking_error = SlotOutOfRange | SlotAlreadyTracked | EventFdAlreadyTracked

datatype publish_readiness = Ready | NotReady | NoMessage

datatype in_flight_state = Publishing | InFlightBlocked

datatype worker_stop_intent = Destroy | Transfer

definition SYNCHRONOUS :: u32 where "SYNCHRONOUS = push_bit 0 1"
definition ASYNCHRONOUS :: u32 where "ASYNCHRONOUS = push_bit 1 1"

definition kMessageHeaderSizeBytes :: nat where [layout_simps]: "kMessageHeaderSizeBytes = 2 * 4"
definition kMaxPayloadSizeBytes :: nat where
  [layout_simps]: "kMaxPayloadSizeBytes = 1024 - kMessageHeaderSizeBytes"
definition kMaxOutstandingMessages :: nat where [layout_simps]: "kMaxOutstandingMessages = 64"
definition kMaxPublishesPerWorkEvent :: nat where [layout_simps]: "kMaxPublishesPerWorkEvent = 64"

record subscriber_registration =
  reg_event_fd :: int
  reg_slot_index :: u32

record pending_message =
  msg_payload :: bytes
  ticket :: nat

record in_flight_message =
  in_flight_msg :: pending_message
  in_flight_status :: in_flight_state

record publisher =
  data_available_event_fds :: "int list"
  slot_by_event_fd :: "int \<rightharpoonup> nat"
  event_fd_by_slot :: "nat \<Rightarrow> int"               \<comment> \<open>\<open>[kMaxSubscribers]\<close>\<close>
  pub_flags :: u32
  run_thread_active :: bool
  worker_stop_intent :: worker_stop_intent
  pending_messages :: "pending_message list"
  in_flight :: "in_flight_message option"
  pub_broker_fd :: int
  pub_epoll_fd :: int
  space_available_event_fd :: int
  publish_work_event_fd :: int
  pub_shutdown_event_fd :: int
  pub_worker_exit_event_fd :: int
  pub_events :: "int list"                      \<comment> \<open>\<open>events_[event_index_ ..< event_count_]\<close>\<close>
  seq :: s32

text \<open>What an operation does to the world: the shared segment, the eventfds written, the
  descriptors closed or removed from epoll, and the promises completed, oldest first.\<close>

record io =
  shm :: shared_data
  signalled :: "int list"
  closed :: "int list"
  unwatched :: "int list"
  completions :: "(nat \<times> publish_completion) list"

text \<open>\<open>all_ok\<close>: the eventfd writes succeed.\<close>

abbreviation all_ok :: "int \<Rightarrow> bool" where "all_ok \<equiv> \<lambda>_. True"

text \<open>\<open>signal_eventfd\<close> on each descriptor until one fails.\<close>

fun signal_each :: "(int \<Rightarrow> bool) \<Rightarrow> int list \<Rightarrow> io \<Rightarrow> bool \<times> io" where
  "signal_each sig [] w = (True, w)"
| "signal_each sig (fd # fds) w =
     (if sig fd then signal_each sig fds (w\<lparr>signalled := signalled w @ [fd]\<rparr>) else (False, w))"

text \<open>\<open>close_fd\<close>: nothing for a negative descriptor.\<close>

definition close_fd :: "int \<Rightarrow> io \<Rightarrow> io" where
  "close_fd fd w = (if 0 \<le> fd then w\<lparr>closed := closed w @ [fd]\<rparr> else w)"

text \<open>\<open>++\<close> on an \<open>int\<close>: overflow is undefined.\<close>

definition int_incr :: "s32 \<Rightarrow> s32 option" where
  "int_incr x = (if x = 2147483647 then None else Some (x + 1))"

lemma signal_each_all:
  "\<forall>fd \<in> set fds. sig fd \<Longrightarrow> signal_each sig fds w = (True, w\<lparr>signalled := signalled w @ fds\<rparr>)"
  by (induction fds arbitrary: w) auto

lemma signal_each_shm: "shm (snd (signal_each sig fds w)) = shm w"
  by (induction fds arbitrary: w) auto

lemma close_fd_shm [simp]: "shm (close_fd fd w) = shm w"
  by (simp add: close_fd_def)

end
