(* ===== verification/Free_List.thy ===== *)
theory Free_List
  imports Shm_Layout
begin

text \<open>
  The free lists of the payload pool: one per size class, linked through the first four bytes
  of the free chunks, popped at the head by the publisher (\<open>Publisher::try_publish_one\<close>)
  and extended at the tail by whoever drops the last reference to a chunk
  (\<open>Subscriber::read_data\<close>, \<open>Publisher::release_chunk_references_in_descriptor_range\<close>).
  The last chunk of a list is never handed out: head and tail equal means empty.  The
  interface is the locale \<open>chunk_pool\<close>, interpreted on the operations of every class.
\<close>

section \<open>Operations\<close>

text \<open>\<open>head_off == tail_off\<close>.\<close>

definition free_list_empty :: "nat \<Rightarrow> shared_data \<Rightarrow> bool" where
  "free_list_empty c sd \<longleftrightarrow> head_offset sd c = tail_offset sd c"

text \<open>Read the link in the head chunk and make it the new head.\<close>

definition free_list_pop :: "nat \<Rightarrow> shared_data \<Rightarrow> shared_data option" where
  "free_list_pop c sd = do {
     head_off \<leftarrow> arr_get kClassCount (head_offset sd) c;
     next_head_off \<leftarrow> load_u32 sd head_off;
     heads \<leftarrow> arr_set kClassCount (head_offset sd) c next_head_off;
     Some (sd\<lparr>head_offset := heads\<rparr>)
   }"

text \<open>Link \<open>offset\<close> behind the tail chunk and make it the new tail.\<close>

definition free_list_append :: "nat \<Rightarrow> u32 \<Rightarrow> shared_data \<Rightarrow> shared_data option" where
  "free_list_append c offset sd = do {
     last_tail_off \<leftarrow> arr_get kClassCount (tail_offset sd) c;
     sd \<leftarrow> store_u32 sd last_tail_off offset;
     tails \<leftarrow> arr_set kClassCount (tail_offset sd) c offset;
     Some (sd\<lparr>tail_offset := tails\<rparr>)
   }"

section \<open>Chunk contents\<close>

definition chunk_bytes :: "shared_data \<Rightarrow> chunk \<Rightarrow> nat \<Rightarrow> nat \<Rightarrow> bytes" where
  "chunk_bytes sd ch k n = map (data sd) [chunk_off ch + k..<chunk_off ch + k + n]"

lemma length_chunk_bytes [simp]: "length (chunk_bytes sd ch k n) = n"
  by (simp add: chunk_bytes_def)

lemma chunk_bytes_data_cong: "data sd' = data sd \<Longrightarrow> chunk_bytes sd' ch k n = chunk_bytes sd ch k n"
  by (simp add: chunk_bytes_def)

lemma chunk_load:
  assumes "chunk_ok ch" "k + n \<le> class_size (fst ch)"
  shows "data_load sd (chunk_off ch + k) n = Some (chunk_bytes sd ch k n)"
  using assms chunk_fits [of "fst ch" "snd ch"]
  by (cases ch) (auto simp: chunk_bytes_def array_simps)

lemma load_u32_chunk:
  assumes "chunk_ok ch"
  shows "load_u32 sd (off_word ch) = Some (of_le_bytes (chunk_bytes sd ch 0 4))"
proof -
  have "4 \<le> class_size (fst ch)"
    using assms class_bounds(1) [of "fst ch"] by (cases ch) (auto simp: chunk_ok_def)
  then show ?thesis
    using chunk_load [OF assms, of 0 4] by (simp add: load_u32_def unat_off_word [OF assms])
qed

text \<open>A store inside one chunk succeeds and leaves every other chunk alone.\<close>

definition chunk_put :: "shared_data \<Rightarrow> chunk \<Rightarrow> nat \<Rightarrow> bytes \<Rightarrow> shared_data" where
  "chunk_put sd ch k bs = sd\<lparr>data := mem_put (data sd) (chunk_off ch + k) bs\<rparr>"

lemma chunk_put_select [simp]:
  "descriptor_read_indices (chunk_put sd ch k bs) = descriptor_read_indices sd"
  "descriptor_write_index (chunk_put sd ch k bs) = descriptor_write_index sd"
  "desc_ring (chunk_put sd ch k bs) = desc_ring sd"
  "head_offset (chunk_put sd ch k bs) = head_offset sd"
  "tail_offset (chunk_put sd ch k bs) = tail_offset sd"
  "chunk_reference_counts (chunk_put sd ch k bs) = chunk_reference_counts sd"
  "is_in_use (chunk_put sd ch k bs) = is_in_use sd"
  by (simp_all add: chunk_put_def)

lemma chunk_store:
  assumes "chunk_ok ch" "k + length bs \<le> class_size (fst ch)"
  shows "data_store sd (chunk_off ch + k) bs = Some (chunk_put sd ch k bs)"
  using assms chunk_fits [of "fst ch" "snd ch"]
  by (cases ch) (auto simp: data_store_def chunk_put_def array_simps)

lemma store_u32_chunk:
  assumes "chunk_ok ch"
  shows "store_u32 sd (off_word ch) v = Some (chunk_put sd ch 0 (le_bytes 4 v))"
proof -
  have "4 \<le> class_size (fst ch)"
    using assms class_bounds(1) [of "fst ch"] by (cases ch) (auto simp: chunk_ok_def)
  then show ?thesis
    using chunk_store [OF assms, of 0 "le_bytes 4 v"]
    by (simp add: store_u32_def unat_off_word [OF assms])
qed

lemma chunk_bytes_put_other:
  assumes "chunk_ok a" "chunk_ok b" "a \<noteq> b"
    "k + length bs \<le> class_size (fst a)" "l + n \<le> class_size (fst b)"
  shows "chunk_bytes (chunk_put sd a k bs) b l n = chunk_bytes sd b l n"
proof -
  have "chunk_off a + class_size (fst a) \<le> chunk_off b \<or> chunk_off b + class_size (fst b) \<le> chunk_off a"
    using chunk_disjoint [of "fst a" "snd a" "fst b" "snd b"] assms(1-3) by simp
  then show ?thesis
    using assms(4,5) unfolding chunk_bytes_def chunk_put_def
    by (auto simp: mem_put_def)
qed

lemma chunk_bytes_put_same:
  "chunk_bytes (chunk_put sd ch k bs) ch k (length bs) = bs"
  by (simp add: chunk_bytes_def chunk_put_def mem_put_same)

lemma chunk_bytes_put_apart:
  assumes "l + n \<le> k \<or> k + length bs \<le> l"
  shows "chunk_bytes (chunk_put sd ch k bs) ch l n = chunk_bytes sd ch l n"
  using assms unfolding chunk_bytes_def chunk_put_def by (auto simp: mem_put_def)

section \<open>The representation of a free list\<close>

fun links :: "nat \<Rightarrow> shared_data \<Rightarrow> nat list \<Rightarrow> bool" where
  "links c sd (x # y # ys) \<longleftrightarrow>
     load_u32 sd (off_word (c, x)) = Some (off_word (c, y)) \<and> links c sd (y # ys)"
| "links c sd _ \<longleftrightarrow> True"

definition free_list :: "nat \<Rightarrow> shared_data \<Rightarrow> nat list \<Rightarrow> bool" where
  "free_list c sd xs \<longleftrightarrow>
     c < 5 \<and> xs \<noteq> [] \<and> distinct xs \<and> (\<forall>i \<in> set xs. i < class_count c) \<and>
     head_offset sd c = off_word (c, hd xs) \<and> tail_offset sd c = off_word (c, last xs) \<and>
     links c sd xs"

lemma links_cong:
  assumes "\<And>x. x \<in> set (butlast xs) \<Longrightarrow>
    load_u32 sd' (off_word (c, x)) = load_u32 sd (off_word (c, x))"
  shows "links c sd' xs \<longleftrightarrow> links c sd xs"
  using assms by (induction c sd xs rule: links.induct) auto

lemma links_append:
  "links c sd (xs @ [y, z])
     \<longleftrightarrow> links c sd (xs @ [y]) \<and> load_u32 sd (off_word (c, y)) = Some (off_word (c, z))"
  by (induction xs rule: induct_list012) auto

lemma links_iff_nth:
  "links c sd xs \<longleftrightarrow> (\<forall>k. Suc k < length xs \<longrightarrow>
     load_u32 sd (off_word (c, xs ! k)) = Some (off_word (c, xs ! Suc k)))"
proof (induction c sd xs rule: links.induct)
  case (1 c sd x y ys)
  show ?case (is "?l \<longleftrightarrow> (\<forall>k. ?P k)")
  proof
    assume ?l
    with 1 show "\<forall>k. ?P k" by (auto simp: nth_Cons split: nat.splits)
  next
    assume a: "\<forall>k. ?P k"
    have "?P 0" "\<And>k. ?P (Suc k)" using a by blast+
    with 1 show ?l by simp
  qed
qed simp_all

lemma free_list_okD: "free_list c sd xs \<Longrightarrow> i \<in> set xs \<Longrightarrow> chunk_ok (c, i)"
  by (auto simp: free_list_def chunk_ok_def)

lemma free_list_frame:
  assumes "free_list c sd xs" "head_offset sd' c = head_offset sd c"
    "tail_offset sd' c = tail_offset sd c"
    "\<And>i. i \<in> set (butlast xs) \<Longrightarrow> chunk_bytes sd' (c, i) 0 4 = chunk_bytes sd (c, i) 0 4"
  shows "free_list c sd' xs"
proof -
  have "links c sd' xs \<longleftrightarrow> links c sd xs"
  proof (rule links_cong)
    fix x assume x: "x \<in> set (butlast xs)"
    then have "chunk_ok (c, x)" using assms(1) by (auto dest: in_set_butlastD free_list_okD)
    then show "load_u32 sd' (off_word (c, x)) = load_u32 sd (off_word (c, x))"
      using assms(4) [OF x] by (simp add: load_u32_chunk)
  qed
  with assms show ?thesis by (simp add: free_list_def)
qed

section \<open>The interface of the pool\<close>

text \<open>
  What the publisher and the subscribers rely on: a queue of free chunks whose last element
  stays behind as a sentinel.  \<open>repr\<close> relates a state to the chunks it holds free.
\<close>

locale chunk_pool =
  fixes repr :: "'s \<Rightarrow> nat list \<Rightarrow> bool"
    and valid :: "nat \<Rightarrow> bool"
    and is_empty :: "'s \<Rightarrow> bool"
    and first :: "'s \<Rightarrow> u32"
    and pop :: "'s \<Rightarrow> 's option"
    and append :: "u32 \<Rightarrow> 's \<Rightarrow> 's option"
    and off :: "nat \<Rightarrow> u32"
  assumes repr_distinct: "repr s xs \<Longrightarrow> xs \<noteq> [] \<and> distinct xs \<and> (\<forall>x \<in> set xs. valid x)"
    and is_empty_iff: "repr s xs \<Longrightarrow> is_empty s \<longleftrightarrow> length xs = 1"
    and first_eq: "repr s xs \<Longrightarrow> first s = off (hd xs)"
    and pop_repr: "repr s (x # y # ys) \<Longrightarrow> \<exists>s'. pop s = Some s' \<and> repr s' (y # ys)"
    and append_repr: "repr s xs \<Longrightarrow> valid x \<Longrightarrow> x \<notin> set xs \<Longrightarrow>
      \<exists>s'. append (off x) s = Some s' \<and> repr s' (xs @ [x])"
begin

lemma alloc:
  assumes "repr s xs" "\<not> is_empty s"
  shows "first s = off (hd xs) \<and> (\<exists>s'. pop s = Some s' \<and> repr s' (tl xs)) \<and> hd xs \<notin> set (tl xs)"
proof -
  from assms have "length xs \<noteq> 1" and "xs \<noteq> []" and d: "distinct xs"
    using repr_distinct is_empty_iff by auto
  then obtain x y ys where xs: "xs = x # y # ys"
    by (cases xs; cases "tl xs") auto
  with pop_repr [of s x y ys] first_eq [OF assms(1)] assms(1) d show ?thesis by auto
qed

lemma alloc_removes:
  assumes "repr s xs" "\<not> is_empty s" "pop s = Some s'"
  shows "repr s' (tl xs) \<and> set (tl xs) = set xs - {hd xs}"
  using alloc [OF assms(1,2)] assms repr_distinct [OF assms(1)] by (auto simp: set_tl_distinct)

text \<open>Chunks come back in the order in which they were returned: popping after an append
  never yields the appended chunk while others are free.\<close>

lemma append_then_pop:
  assumes "repr s xs" "valid x" "x \<notin> set xs" "append (off x) s = Some s'"
  shows "\<not> is_empty s' \<and> first s' = off (hd xs) \<and> (\<exists>s''. pop s' = Some s'' \<and> repr s'' (tl xs @ [x]))"
proof -
  from append_repr [OF assms(1-3)] assms(4) have r: "repr s' (xs @ [x])" by simp
  from repr_distinct [OF assms(1)] have "xs \<noteq> []" by simp
  with is_empty_iff [OF r] have ne: "\<not> is_empty s'" by simp
  with alloc [OF r ne] \<open>xs \<noteq> []\<close> show ?thesis by simp
qed

end

lemma free_list_empty_iff:
  assumes "free_list c sd xs"
  shows "free_list_empty c sd \<longleftrightarrow> length xs = 1"
proof -
  have "hd xs \<in> set xs" "last xs \<in> set xs" using assms by (auto simp: free_list_def)
  then have "free_list_empty c sd \<longleftrightarrow> hd xs = last xs"
    using assms free_list_okD [OF assms] by (simp add: free_list_empty_def free_list_def off_word_inj)
  also have "\<dots> \<longleftrightarrow> length xs = 1"
    using assms by (cases xs; cases "tl xs") (auto simp: free_list_def)
  finally show ?thesis .
qed

lemma free_list_pop_repr:
  assumes "free_list c sd (x # y # ys)"
  shows "\<exists>sd'. free_list_pop c sd = Some sd' \<and> free_list c sd' (y # ys)
    \<and> sd' = sd\<lparr>head_offset := (head_offset sd)(c := off_word (c, y))\<rparr>"
proof -
  have c: "c < kClassCount" using assms by (simp add: free_list_def layout_simps)
  have "links c (sd\<lparr>head_offset := h\<rparr>) (y # ys) \<longleftrightarrow> links c sd (y # ys)" for h
    by (rule links_cong) (simp add: load_u32_def)
  with assms c show ?thesis
    by (auto simp: free_list_pop_def array_simps free_list_def)
qed

lemma free_list_append_eq:
  assumes "free_list c sd xs"
  shows "free_list_append c off sd = Some
    ((chunk_put sd (c, last xs) 0 (le_bytes 4 off))\<lparr>tail_offset := (tail_offset sd)(c := off)\<rparr>)"
proof -
  have c: "c < kClassCount" using assms by (simp add: free_list_def layout_simps)
  have ok: "chunk_ok (c, last xs)" using assms free_list_okD [OF assms] by (simp add: free_list_def)
  show ?thesis
    using assms c store_u32_chunk [OF ok, of sd off]
    by (simp add: free_list_append_def array_simps free_list_def)
qed

lemma free_list_append_repr:
  assumes fl: "free_list c sd xs" and x: "x < class_count c" "x \<notin> set xs"
  shows "\<exists>sd'. free_list_append c (off_word (c, x)) sd = Some sd' \<and> free_list c sd' (xs @ [x])"
proof -
  let ?bs = "le_bytes 4 (off_word (c, x))"
  let ?sd = "chunk_put sd (c, last xs) 0 ?bs"
  have ne: "xs \<noteq> []" and c: "c < 5" and d: "distinct xs" using fl by (auto simp: free_list_def)
  have okl: "chunk_ok (c, last xs)" using free_list_okD [OF fl] ne by simp
  have sz: "4 \<le> class_size c" using class_bounds(1) [OF c] by simp
  have last: "last xs \<notin> set (butlast xs)"
    using d ne by (metis append_butlast_last_id distinct_butlast not_distinct_conv_prefix)
  have "free_list c ?sd xs"
  proof (rule free_list_frame [OF fl])
    fix i assume i: "i \<in> set (butlast xs)"
    then have "chunk_ok (c, i)" and "i \<noteq> last xs"
      using fl last by (auto dest: in_set_butlastD free_list_okD)
    then show "chunk_bytes ?sd (c, i) 0 4 = chunk_bytes sd (c, i) 0 4"
      using okl sz by (intro chunk_bytes_put_other) auto
  qed auto
  moreover have "load_u32 ?sd (off_word (c, last xs)) = Some (off_word (c, x))"
    using chunk_bytes_put_same [of sd "(c, last xs)" 0 ?bs] by (simp add: load_u32_chunk [OF okl])
  ultimately have "links c ?sd (butlast xs @ [last xs, x])"
    using ne by (simp add: links_append free_list_def)
  moreover have "butlast xs @ [last xs, x] = xs @ [x]"
    using ne by (metis append.assoc append_Cons append_Nil append_butlast_last_id)
  ultimately have "links c ?sd (xs @ [x])" by metis
  then have "links c (?sd\<lparr>tail_offset := t\<rparr>) (xs @ [x])" for t
    by (subst links_cong [of _ _ c ?sd]) (simp_all add: load_u32_def)
  with free_list_append_eq [OF fl] fl x ne c show ?thesis
    by (auto simp: free_list_def)
qed

interpretation fl: chunk_pool "free_list c" "\<lambda>i. i < class_count c" "free_list_empty c"
  "\<lambda>sd. head_offset sd c" "free_list_pop c" "free_list_append c" "\<lambda>i. off_word (c, i)" for c
proof unfold_locales
  show "free_list c s xs \<Longrightarrow> xs \<noteq> [] \<and> distinct xs \<and> (\<forall>x\<in>set xs. x < class_count c)" for s xs
    by (simp add: free_list_def)
  show "free_list c s xs \<Longrightarrow> free_list_empty c s = (length xs = 1)" for s xs
    by (rule free_list_empty_iff)
  show "free_list c s xs \<Longrightarrow> head_offset s c = off_word (c, hd xs)" for s xs
    by (simp add: free_list_def)
  show "free_list c s (x # y # ys) \<Longrightarrow> \<exists>s'. free_list_pop c s = Some s' \<and> free_list c s' (y # ys)"
    for s x y ys using free_list_pop_repr by blast
  show "free_list c s xs \<Longrightarrow> x < class_count c \<Longrightarrow> x \<notin> set xs \<Longrightarrow>
    \<exists>s'. free_list_append c (off_word (c, x)) s = Some s' \<and> free_list c s' (xs @ [x])" for s xs x
    by (rule free_list_append_repr)
qed

section \<open>Initialisation links every chunk\<close>

lemma init_links_correct:
  assumes "c < 5" "i + Suc remaining \<le> class_count c"
  shows "\<exists>m. init_links (kClassSizeBytes ! c) remaining (off_word (c, i)) sd = Some (sd\<lparr>data := m\<rparr>)
    \<and> (\<forall>j. i \<le> j \<and> j < i + remaining \<longrightarrow>
         load_u32 (sd\<lparr>data := m\<rparr>) (off_word (c, j)) = Some (off_word (c, Suc j)))
    \<and> (\<forall>ch. chunk_ok ch \<and> (fst ch \<noteq> c \<or> snd ch < i) \<longrightarrow>
         chunk_bytes (sd\<lparr>data := m\<rparr>) ch 0 4 = chunk_bytes sd ch 0 4)"
  using assms(2)
proof (induction remaining arbitrary: i sd)
  case 0
  have ok: "chunk_ok (c, i)" using 0 assms(1) by (simp add: chunk_ok_def)
  have "chunk_bytes (chunk_put sd (c, i) 0 (le_bytes 4 kInvalidOffset)) ch 0 4 = chunk_bytes sd ch 0 4"
    if "chunk_ok ch" "fst ch \<noteq> c \<or> snd ch < i" for ch
    using that ok class_bounds(1) [of "fst ch"] class_bounds(1) [of c] assms(1)
    by (intro chunk_bytes_put_other) (auto simp: chunk_ok_def)
  then show ?case
    by (auto simp: store_u32_chunk [OF ok] chunk_put_def intro!: exI)
next
  case (Suc remaining)
  have ok: "chunk_ok (c, i)" using Suc.prems assms(1) by (simp add: chunk_ok_def)
  have ok': "chunk_ok (c, Suc i)" using Suc.prems assms(1) by (simp add: chunk_ok_def)
  let ?sd = "chunk_put sd (c, i) 0 (le_bytes 4 (off_word (c, Suc i)))"
  have next_off: "off_word (c, i) + kClassSizeBytes ! c = off_word (c, Suc i)"
  proof (rule unsigned_word_eqI)
    have "unat (off_word (c, i)) + unat (kClassSizeBytes ! c) = chunk_off (c, Suc i)"
      using assms(1) by (simp add: unat_off_word [OF ok] class_tables chunk_off_def)
    then show "unat (off_word (c, i) + kClassSizeBytes ! c) = unat (off_word (c, Suc i))"
      using chunk_off_less [OF ok'] by (subst unat_add_no_wrap) (simp_all add: unat_off_word [OF ok'])
  qed
  from Suc.IH [of "Suc i" ?sd] Suc.prems obtain m where
    m: "init_links (kClassSizeBytes ! c) remaining (off_word (c, Suc i)) ?sd = Some (?sd\<lparr>data := m\<rparr>)"
    and l: "\<forall>j. Suc i \<le> j \<and> j < Suc i + remaining \<longrightarrow>
         load_u32 (?sd\<lparr>data := m\<rparr>) (off_word (c, j)) = Some (off_word (c, Suc j))"
    and fr: "\<forall>ch. chunk_ok ch \<and> (fst ch \<noteq> c \<or> snd ch < Suc i) \<longrightarrow>
         chunk_bytes (?sd\<lparr>data := m\<rparr>) ch 0 4 = chunk_bytes ?sd ch 0 4"
    by auto
  have eq: "?sd\<lparr>data := m\<rparr> = sd\<lparr>data := m\<rparr>" by (simp add: chunk_put_def)
  have "load_u32 (sd\<lparr>data := m\<rparr>) (off_word (c, i)) = Some (off_word (c, Suc i))"
    using fr ok chunk_bytes_put_same [of sd "(c, i)" 0 "le_bytes 4 (off_word (c, Suc i))"]
    by (simp add: load_u32_chunk [OF ok] eq)
  with l have l': "\<forall>j. i \<le> j \<and> j < i + Suc remaining \<longrightarrow>
      load_u32 (sd\<lparr>data := m\<rparr>) (off_word (c, j)) = Some (off_word (c, Suc j))"
    unfolding eq by (metis add_Suc_right add_Suc Suc_le_eq le_neq_implies_less)
  have "chunk_bytes ?sd ch 0 4 = chunk_bytes sd ch 0 4"
    if "chunk_ok ch" "fst ch \<noteq> c \<or> snd ch < i" for ch
    using that ok class_bounds(1) [of "fst ch"] class_bounds(1) [of c] assms(1)
    by (intro chunk_bytes_put_other) (auto simp: chunk_ok_def)
  with fr have fr': "\<forall>ch. chunk_ok ch \<and> (fst ch \<noteq> c \<or> snd ch < i) \<longrightarrow>
      chunk_bytes (sd\<lparr>data := m\<rparr>) ch 0 4 = chunk_bytes sd ch 0 4"
    unfolding eq by auto
  have "init_links (kClassSizeBytes ! c) (Suc remaining) (off_word (c, i)) sd = Some (sd\<lparr>data := m\<rparr>)"
    using m by (simp add: store_u32_chunk [OF ok, of sd] next_off eq)
  with l' fr' show ?case by blast
qed

lemma links_upt:
  assumes "\<forall>j. i \<le> j \<and> j < i + n \<longrightarrow> load_u32 sd (off_word (c, j)) = Some (off_word (c, Suc j))"
  shows "links c sd [i..<Suc (i + n)]"
  using assms by (simp add: links_iff_nth del: upt_Suc)

lemma init_class_links:
  assumes "c < 5" "head_offset sd c = off_word (c, 0)"
  shows "\<exists>m. init_links (kClassSizeBytes ! c) (unat (kChunkCountBySizeClass ! c - 1))
      (head_offset sd c) sd = Some (sd\<lparr>data := m\<rparr>)
    \<and> links c (sd\<lparr>data := m\<rparr>) [0..<class_count c]
    \<and> (\<forall>ch. chunk_ok ch \<and> fst ch \<noteq> c \<longrightarrow>
         chunk_bytes (sd\<lparr>data := m\<rparr>) ch 0 4 = chunk_bytes sd ch 0 4)"
proof -
  have n: "unat (kChunkCountBySizeClass ! c - 1) = class_count c - 1"
    using assms(1) by (auto simp: less_5_cases layout_simps class_count_def)
  have "Suc (class_count c - 1) = class_count c" using class_bounds(3) [OF assms(1)] by simp
  with init_links_correct [OF assms(1), of 0 "class_count c - 1" sd] obtain m where
    m: "init_links (kClassSizeBytes ! c) (class_count c - 1) (off_word (c, 0)) sd = Some (sd\<lparr>data := m\<rparr>)"
    and l: "\<forall>j. 0 \<le> j \<and> j < 0 + (class_count c - 1) \<longrightarrow>
         load_u32 (sd\<lparr>data := m\<rparr>) (off_word (c, j)) = Some (off_word (c, Suc j))"
    and fr: "\<forall>ch. chunk_ok ch \<and> (fst ch \<noteq> c \<or> snd ch < 0) \<longrightarrow>
         chunk_bytes (sd\<lparr>data := m\<rparr>) ch 0 4 = chunk_bytes sd ch 0 4"
    by auto
  from links_upt [OF l] \<open>Suc (class_count c - 1) = class_count c\<close>
  have "links c (sd\<lparr>data := m\<rparr>) [0..<class_count c]" by simp
  with m fr show ?thesis unfolding n assms(2) by blast
qed

lemma init_classes_correct:
  assumes "distinct cs" "\<forall>c \<in> set cs. c < 5" "\<forall>c<5. head_offset sd c = off_word (c, 0)"
  shows "\<exists>m. init_classes cs sd = Some (sd\<lparr>data := m\<rparr>)
    \<and> (\<forall>c \<in> set cs. links c (sd\<lparr>data := m\<rparr>) [0..<class_count c])
    \<and> (\<forall>ch. chunk_ok ch \<and> fst ch \<notin> set cs \<longrightarrow>
         chunk_bytes (sd\<lparr>data := m\<rparr>) ch 0 4 = chunk_bytes sd ch 0 4)"
  using assms
proof (induction cs arbitrary: sd)
  case Nil
  have "sd\<lparr>data := data sd\<rparr> = sd" by simp
  then show ?case by (metis init_classes.simps(1) empty_iff empty_set)
next
  case (Cons c cs)
  then have c: "c < 5" by simp
  with Cons.prems obtain m where
    m: "init_links (kClassSizeBytes ! c) (unat (kChunkCountBySizeClass ! c - 1)) (head_offset sd c) sd
         = Some (sd\<lparr>data := m\<rparr>)"
    and l: "links c (sd\<lparr>data := m\<rparr>) [0..<class_count c]"
    and fr: "\<forall>ch. chunk_ok ch \<and> fst ch \<noteq> c \<longrightarrow>
         chunk_bytes (sd\<lparr>data := m\<rparr>) ch 0 4 = chunk_bytes sd ch 0 4"
    using init_class_links [OF c, of sd] by auto
  from Cons.IH [of "sd\<lparr>data := m\<rparr>"] Cons.prems obtain m' where
    m': "init_classes cs (sd\<lparr>data := m\<rparr>) = Some (sd\<lparr>data := m'\<rparr>)"
    and l': "\<forall>d \<in> set cs. links d (sd\<lparr>data := m'\<rparr>) [0..<class_count d]"
    and fr': "\<forall>ch. chunk_ok ch \<and> fst ch \<notin> set cs \<longrightarrow>
         chunk_bytes (sd\<lparr>data := m'\<rparr>) ch 0 4 = chunk_bytes (sd\<lparr>data := m\<rparr>) ch 0 4"
    by auto
  have "links c (sd\<lparr>data := m'\<rparr>) [0..<class_count c]
      \<longleftrightarrow> links c (sd\<lparr>data := m\<rparr>) [0..<class_count c]"
  proof (rule links_cong)
    fix x assume "x \<in> set (butlast [0..<class_count c])"
    then have ok: "chunk_ok (c, x)" using c by (auto simp: chunk_ok_def dest: in_set_butlastD)
    then show "load_u32 (sd\<lparr>data := m'\<rparr>) (off_word (c, x)) = load_u32 (sd\<lparr>data := m\<rparr>) (off_word (c, x))"
      using fr' Cons.prems(1) by (simp add: load_u32_chunk)
  qed
  with l l' m m' fr fr' show ?case by auto
qed

end
