(* ===== verification/Descriptor_Ring.thy ===== *)
theory Descriptor_Ring
  imports Shm_Layout
begin

text \<open>
  The descriptor ring: the read index of every subscriber slot, the write index of the
  publisher, and the two computations of \<open>src/publisher.cpp\<close> on them,
  \<open>find_slowest_read_index\<close> and the back-pressure test shared by \<open>try_publish_one\<close>
  and \<open>can_publish_next_message\<close>.  \<open>ring_span\<close> reads a pair of indices as the list
  of ring positions still to be consumed, in order.
\<close>

section \<open>Code\<close>

definition slowest_step :: "shared_data \<Rightarrow> nat \<Rightarrow> u32 \<times> u32 \<Rightarrow> u32 \<times> u32" where
  "slowest_step sd subscriber_index mins =
     (let (min_before, min_after) = mins;
          wr = descriptor_write_index sd;
          rd = descriptor_read_indices sd subscriber_index
      in if rd = kInvalidIndex then mins
         else if rd \<le> wr then (min_before, min min_after rd)
         else (min min_before rd, min_after))"

definition find_slowest_read_index :: "shared_data \<Rightarrow> u32" where
  "find_slowest_read_index sd =
     (let (min_before, min_after) =
        fold (slowest_step sd) [0..<kMaxSubscribers] (kInvalidIndex, kInvalidIndex)
      in if min_before \<noteq> kInvalidIndex then min_before else min_after)"

definition ring_blocked :: "u32 \<Rightarrow> u32 \<Rightarrow> bool" where
  "ring_blocked min_rd wr \<longleftrightarrow>
     min_rd = kInvalidIndex \<or> (min_rd > wr \<and> min_rd \<le> wr + 1) \<or> wr + 1 \<ge> min_rd + kDescriptorSlotCount"

section \<open>Ring positions\<close>

definition rdx :: "shared_data \<Rightarrow> nat \<Rightarrow> nat" where "rdx sd s = unat (descriptor_read_indices sd s)"
definition wrx :: "shared_data \<Rightarrow> nat" where "wrx sd = unat (descriptor_write_index sd)"

definition active :: "shared_data \<Rightarrow> nat \<Rightarrow> bool" where
  "active sd s \<longleftrightarrow> s < kMaxSubscribers \<and> descriptor_read_indices sd s \<noteq> kInvalidIndex"

definition ring_ok :: "shared_data \<Rightarrow> bool" where
  "ring_ok sd \<longleftrightarrow> wrx sd < 16 \<and> (\<forall>s. active sd s \<longrightarrow> rdx sd s < 16)"

definition ring_span :: "nat \<Rightarrow> nat \<Rightarrow> nat list" where
  "ring_span r w = (if r \<le> w then [r..<w] else [r..<16] @ [0..<w])"

text \<open>The positions slot \<open>s\<close> has still to consume.\<close>

definition unread :: "shared_data \<Rightarrow> nat \<Rightarrow> nat list" where
  "unread sd s = (if active sd s then ring_span (rdx sd s) (wrx sd) else [])"

lemma ring_span_same [simp]: "ring_span r r = []"
  by (simp add: ring_span_def)

lemma distinct_ring_span [simp]: "distinct (ring_span r w)"
  by (auto simp: ring_span_def)

lemma ring_span_less: "r < 16 \<Longrightarrow> w < 16 \<Longrightarrow> q \<in> set (ring_span r w) \<Longrightarrow> q < 16"
  by (auto simp: ring_span_def split: if_splits)

lemma ring_span_end: "w \<notin> set (ring_span r w)"
  by (auto simp: ring_span_def)

lemma ring_span_empty_iff: "r < 16 \<Longrightarrow> ring_span r w = [] \<longleftrightarrow> r = w"
  by (auto simp: ring_span_def)

lemma ring_span_Cons:
  assumes "r < 16" "w < 16" "r \<noteq> w"
  shows "ring_span r w = r # ring_span ((r + 1) mod 16) w"
proof (cases "r = 15")
  case True
  with assms show ?thesis by (simp add: ring_span_def upt_rec)
next
  case False
  with assms have "(r + 1) mod 16 = r + 1" by simp
  with assms show ?thesis by (auto simp: ring_span_def upt_rec [of r])
qed

lemma ring_span_snoc:
  assumes "r < 16" "w < 16" "(w + 1) mod 16 \<noteq> r"
  shows "ring_span r ((w + 1) mod 16) = ring_span r w @ [w]"
proof (cases "w = 15")
  case True
  with assms have "0 < r" by simp
  with True assms show ?thesis
    using upt_Suc_append [of r 15] by (simp add: ring_span_def)
next
  case False
  with assms have "(w + 1) mod 16 = w + 1" by simp
  with assms show ?thesis by (auto simp: ring_span_def)
qed

lemma length_ring_span:
  "r < 16 \<Longrightarrow> w < 16 \<Longrightarrow> length (ring_span r w) = (if r \<le> w then w - r else 16 + w - r)"
  by (auto simp: ring_span_def)

lemma length_ring_span_le: "r < 16 \<Longrightarrow> w < 16 \<Longrightarrow> length (ring_span r w) \<le> 15"
  by (auto simp: length_ring_span)

lemma ring_span_full_iff:
  "r < 16 \<Longrightarrow> w < 16 \<Longrightarrow> length (ring_span r w) = 15 \<longleftrightarrow> (w + 1) mod 16 = r"
  by (auto simp: length_ring_span mod_Suc split: if_splits)

lemma kInvalidIndex_unat: "unat kInvalidIndex = 4294967295"
  by (simp add: kInvalidIndex_def)

lemma active_less: "active sd s \<Longrightarrow> s < 16"
  by (simp add: active_def layout_simps)

text \<open>Distance from a ring position forward to the write index.\<close>

definition back_dist :: "nat \<Rightarrow> nat \<Rightarrow> nat" where
  "back_dist w q = (w + 16 - q) mod 16"

lemma back_dist_eq:
  assumes "w < 16" "q < 16"
  shows "back_dist w q = (if q \<le> w then w - q else w + 16 - q)"
proof (cases "q \<le> w")
  case True
  then have "w + 16 - q = (w - q) + 16" by simp
  moreover have "((w - q) + 16) mod 16 = w - q" using assms by simp
  ultimately show ?thesis using True by (simp only: back_dist_def if_True)
qed (use assms in \<open>simp add: back_dist_def\<close>)

lemma next_index:
  fixes w :: nat
  assumes "w < 16"
  shows "(w + 1) mod 16 = (if w = 15 then 0 else w + 1)"
  using assms by simp

lemma back_dist_Suc:
  assumes "w < 16" "q < 16" "q \<noteq> (w + 1) mod 16"
  shows "back_dist ((w + 1) mod 16) q = back_dist w q + 1"
  using assms(3) unfolding next_index [OF assms(1)]
  by (cases "w = 15") (use assms(1,2) in \<open>auto simp: back_dist_eq\<close>)

lemma back_dist_last:
  assumes "w < 16"
  shows "back_dist ((w + 1) mod 16) w = 1"
  unfolding next_index [OF assms] using assms by (simp add: back_dist_eq)

lemma unread_inactive: "\<not> active sd s \<Longrightarrow> unread sd s = []"
  by (simp add: unread_def)

lemma unread_position_less: "ring_ok sd \<Longrightarrow> q \<in> set (unread sd s) \<Longrightarrow> q < 16"
  by (auto simp: unread_def ring_ok_def dest: ring_span_less split: if_splits)

section \<open>The slowest reader\<close>

lemma fold_slowest:
  assumes "fold (slowest_step sd) ss (b, a) = (B, A)"
  shows "B \<le> b \<and> A \<le> a
    \<and> (B = b \<or> (\<exists>s \<in> set ss. descriptor_read_indices sd s = B \<and> B \<noteq> kInvalidIndex
          \<and> descriptor_write_index sd < B))
    \<and> (A = a \<or> (\<exists>s \<in> set ss. descriptor_read_indices sd s = A \<and> A \<noteq> kInvalidIndex
          \<and> A \<le> descriptor_write_index sd))
    \<and> (\<forall>s \<in> set ss. descriptor_read_indices sd s \<noteq> kInvalidIndex \<longrightarrow>
          (if descriptor_read_indices sd s \<le> descriptor_write_index sd
           then A \<le> descriptor_read_indices sd s else B \<le> descriptor_read_indices sd s))"
  using assms
proof (induction ss arbitrary: b a)
  case Nil
  then show ?case by simp
next
  case (Cons s ss)
  obtain b' a' where st: "slowest_step sd s (b, a) = (b', a')" by fastforce
  with Cons.prems have "fold (slowest_step sd) ss (b', a') = (B, A)" by simp
  from Cons.IH [OF this] st show ?case
    by (auto simp: slowest_step_def Let_def min_def split: if_splits)
qed

text \<open>With a subscriber tracked, \<open>find_slowest_read_index\<close> is the read index of a reader
  with the most unread descriptors; without one it is \<open>kInvalidIndex\<close>.\<close>

lemma find_slowest_none:
  assumes "\<forall>s. \<not> active sd s"
  shows "find_slowest_read_index sd = kInvalidIndex"
proof -
  obtain B A where f: "fold (slowest_step sd) [0..<kMaxSubscribers] (kInvalidIndex, kInvalidIndex) = (B, A)"
    by fastforce
  from fold_slowest [OF f] assms have "B = kInvalidIndex" "A = kInvalidIndex"
    by (auto simp: active_def)
  with f show ?thesis by (simp add: find_slowest_read_index_def)
qed

lemma find_slowest_some:
  assumes ok: "ring_ok sd" and act: "active sd t"
  shows "\<exists>s. active sd s \<and> find_slowest_read_index sd = descriptor_read_indices sd s
    \<and> (\<forall>u. active sd u \<longrightarrow> length (unread sd u) \<le> length (unread sd s))"
proof -
  obtain B A where f: "fold (slowest_step sd) [0..<kMaxSubscribers] (kInvalidIndex, kInvalidIndex) = (B, A)"
    by fastforce
  note fs = fold_slowest [OF f]
  have w: "unat (descriptor_write_index sd) < 16" using ok by (simp add: ring_ok_def wrx_def)
  have r: "unat (descriptor_read_indices sd u) < 16" if "active sd u" for u
    using ok that by (simp add: ring_ok_def rdx_def)
  have low: "\<forall>u. active sd u \<longrightarrow>
      (if descriptor_read_indices sd u \<le> descriptor_write_index sd
       then A \<le> descriptor_read_indices sd u else B \<le> descriptor_read_indices sd u)"
    using fs by (auto simp: active_def)
  have lag: "length (unread sd u) = (if descriptor_read_indices sd u \<le> descriptor_write_index sd
      then unat (descriptor_write_index sd) - unat (descriptor_read_indices sd u)
      else 16 + unat (descriptor_write_index sd) - unat (descriptor_read_indices sd u))"
    if "active sd u" for u
    using that r [OF that] w
    by (simp add: unread_def length_ring_span rdx_def wrx_def word_le_nat_alt)
  show ?thesis
  proof (cases "B = kInvalidIndex")
    case False
    with fs obtain s where s: "active sd s" "descriptor_read_indices sd s = B"
      "descriptor_write_index sd < B" by (auto simp: active_def)
    have "length (unread sd u) \<le> length (unread sd s)" if u: "active sd u" for u
      using low u s r [OF u] r [OF s(1)] w by (auto simp: lag word_le_nat_alt word_less_nat_alt)
    with s False f show ?thesis by (auto simp: find_slowest_read_index_def)
  next
    case True
    have all: "descriptor_read_indices sd u \<le> descriptor_write_index sd" if u: "active sd u" for u
    proof (rule ccontr)
      assume "\<not> ?thesis"
      with low u True have "kInvalidIndex \<le> descriptor_read_indices sd u" by auto
      with r [OF u] show False by (simp add: word_le_nat_alt kInvalidIndex_unat)
    qed
    have "A \<le> descriptor_read_indices sd t" using low act all by auto
    with r [OF act] have "A \<noteq> kInvalidIndex" by (auto simp: word_le_nat_alt kInvalidIndex_unat)
    with fs obtain s where s: "active sd s" "descriptor_read_indices sd s = A"
      by (auto simp: active_def)
    have "length (unread sd u) \<le> length (unread sd s)" if u: "active sd u" for u
      using low u s r [OF u] r [OF s(1)] w all by (auto simp: lag word_le_nat_alt)
    with s True f show ?thesis by (auto simp: find_slowest_read_index_def)
  qed
qed

text \<open>The back-pressure test blocks exactly when nobody listens or some reader is fifteen
  descriptors behind: one ring position always stays free.\<close>

lemma ring_blocked_iff:
  assumes ok: "ring_ok sd"
  shows "ring_blocked (find_slowest_read_index sd) (descriptor_write_index sd)
    \<longleftrightarrow> (\<forall>s. \<not> active sd s) \<or> (\<exists>s. active sd s \<and> length (unread sd s) = 15)"
proof (cases "\<exists>t. active sd t")
  case False
  then show ?thesis by (simp add: find_slowest_none ring_blocked_def)
next
  case True
  then obtain s where s: "active sd s" "find_slowest_read_index sd = descriptor_read_indices sd s"
    and max: "\<forall>u. active sd u \<longrightarrow> length (unread sd u) \<le> length (unread sd s)"
    using find_slowest_some [OF ok] by blast
  have w: "wrx sd < 16" and r: "rdx sd s < 16" using ok s(1) by (auto simp: ring_ok_def)
  have w1: "unat (descriptor_write_index sd + 1) = wrx sd + 1"
    using w by (simp add: wrx_def unat_add_no_wrap)
  have r16: "unat (descriptor_read_indices sd s + kDescriptorSlotCount) = rdx sd s + 16"
    using r by (simp add: rdx_def unat_add_no_wrap layout_simps)
  have "ring_blocked (find_slowest_read_index sd) (descriptor_write_index sd)
      \<longleftrightarrow> (wrx sd < rdx sd s \<and> rdx sd s \<le> wrx sd + 1) \<or> rdx sd s + 16 \<le> wrx sd + 1"
    using s by (simp add: ring_blocked_def active_def word_less_nat_alt word_le_nat_alt w1 r16)
      (simp add: rdx_def wrx_def)
  also have "\<dots> \<longleftrightarrow> length (unread sd s) = 15"
    using s(1) w r by (auto simp: unread_def length_ring_span)
  also have "\<dots> \<longleftrightarrow> (\<exists>s. active sd s \<and> length (unread sd s) = 15)"
  proof
    assume "\<exists>s. active sd s \<and> length (unread sd s) = 15"
    then obtain u where "active sd u" "length (unread sd u) = 15" by blast
    moreover have "length (unread sd s) \<le> 15"
      using s(1) w r by (simp add: unread_def length_ring_span_le)
    ultimately show "length (unread sd s) = 15" using max by fastforce
  qed (use s(1) in blast)
  finally show ?thesis using True by blast
qed

end
