(* ===== verification/Chunk_References.thy ===== *)
theory Chunk_References
  imports Free_List Descriptor_Ring
begin

text \<open>
  Reference masks of the chunks: bit \<open>s\<close> of \<open>chunk_reference_counts[chunk]\<close> says that
  subscriber slot \<open>s\<close> has still to consume the message in the chunk.  The two halves of
  dropping a reference, shared by \<open>Subscriber::read_data\<close> and
  \<open>Publisher::release_chunk_references_in_descriptor_range\<close>, are \<open>clear_reference\<close>
  (the atomic \<open>fetch_and\<close>) and \<open>return_chunk\<close> (usage check and tail append).

  The core invariant of the data plane lives here.  It is stated for an arbitrary assignment
  \<open>hold\<close> of ring positions to the slots that still hold a reference, and for a set
  \<open>orphans\<close> of chunks between the two halves, so that it also describes the intermediate
  states of an operation.
\<close>

section \<open>Code\<close>

text \<open>\<open>fetch_and(~subscriber_reference_bit)\<close>: the previous mask and the new state.\<close>

definition clear_reference :: "u32 \<Rightarrow> u32 \<Rightarrow> shared_data \<Rightarrow> (u32 \<times> shared_data) option" where
  "clear_reference chunk_index subscriber_reference_bit sd = do {
     previous \<leftarrow> arr_get kTotalChunkCount (chunk_reference_counts sd) (unat chunk_index);
     counts \<leftarrow> arr_set kTotalChunkCount (chunk_reference_counts sd) (unat chunk_index)
       (previous AND NOT subscriber_reference_bit);
     Some (previous, sd\<lparr>chunk_reference_counts := counts\<rparr>)
   }"

text \<open>The debug tracker \<open>is_in_use[size_class][chunk_index]\<close>.\<close>

definition tracker_get :: "nat \<Rightarrow> nat \<Rightarrow> shared_data \<Rightarrow> bool option" where
  "tracker_get c i sd = do {
     row \<leftarrow> arr_get kClassCount (is_in_use sd) c;
     arr_get kMaxChunkCountPerSizeClass row i
   }"

definition tracker_set :: "nat \<Rightarrow> nat \<Rightarrow> bool \<Rightarrow> shared_data \<Rightarrow> shared_data option" where
  "tracker_set c i b sd = do {
     row \<leftarrow> arr_get kClassCount (is_in_use sd) c;
     row \<leftarrow> arr_set kMaxChunkCountPerSizeClass row i b;
     rows \<leftarrow> arr_set kClassCount (is_in_use sd) c row;
     Some (sd\<lparr>is_in_use := rows\<rparr>)
   }"

text \<open>The last holder gives the chunk back; \<open>False\<close> is the double-free branch.\<close>

definition return_chunk :: "int \<Rightarrow> u32 \<Rightarrow> shared_data \<Rightarrow> (bool \<times> shared_data) option" where
  "return_chunk cls offset sd = do {
     chunk_index \<leftarrow> local_chunk_index offset cls;
     in_use \<leftarrow> tracker_get (nat cls) (unat chunk_index) sd;
     if \<not> in_use then Some (False, sd)
     else do {
       sd \<leftarrow> tracker_set (nat cls) (unat chunk_index) False sd;
       sd \<leftarrow> free_list_append (nat cls) offset sd;
       Some (True, sd)
     }
   }"

section \<open>Descriptors and the chunks they name\<close>

definition desc_chunk :: "message_descriptor \<Rightarrow> chunk" where
  "desc_chunk d =
     (let c = nat (find_size_class (md_len d))
      in (c, (unat (md_offset d) - class_first c) div class_size c))"

definition desc_ok :: "message_descriptor \<Rightarrow> bool" where
  "desc_ok d \<longleftrightarrow> 0 \<le> find_size_class (md_len d) \<and> chunk_ok (desc_chunk d)
     \<and> md_offset d = off_word (desc_chunk d) \<and> 8 \<le> unat (md_len d)"

definition chunk_at :: "shared_data \<Rightarrow> nat \<Rightarrow> chunk" where
  "chunk_at sd q = desc_chunk (desc_ring sd q)"

definition refmask :: "shared_data \<Rightarrow> chunk \<Rightarrow> u32" where
  "refmask sd ch = chunk_reference_counts sd (chunk_gidx ch)"

text \<open>The bytes of the message at a ring position: header and payload.\<close>

definition message_bytes :: "shared_data \<Rightarrow> nat \<Rightarrow> bytes" where
  "message_bytes sd q = chunk_bytes sd (chunk_at sd q) 0 (unat (md_len (desc_ring sd q)))"

lemma desc_class:
  assumes "desc_ok d"
  shows "fst (desc_chunk d) < 5" "find_size_class (md_len d) = int (fst (desc_chunk d))"
    "unat (md_len d) \<le> class_size (fst (desc_chunk d))"
  using assms find_size_class_cases [of "md_len d"]
  by (auto simp: desc_ok_def desc_chunk_def Let_def)

lemma desc_global_index:
  assumes "desc_ok d"
  shows "\<exists>g. global_chunk_index (md_offset d) (find_size_class (md_len d)) = Some g
    \<and> unat g = chunk_gidx (desc_chunk d)"
  using global_chunk_index_off [of "fst (desc_chunk d)" "snd (desc_chunk d)"] assms desc_class [OF assms]
  by (simp add: desc_ok_def)

lemma desc_chunk_of:
  assumes "find_size_class len = int c" "chunk_ok (c, i)"
  shows "desc_chunk \<lparr>md_offset = off_word (c, i), md_len = len\<rparr> = (c, i)"
  using assms class_bounds(1) [of c]
  by (simp add: desc_chunk_def unat_off_word) (simp add: chunk_off_def chunk_ok_def)

lemma desc_ok_of:
  assumes "find_size_class len = int c" "chunk_ok (c, i)" "8 \<le> unat len"
  shows "desc_ok \<lparr>md_offset = off_word (c, i), md_len = len\<rparr>"
  using assms desc_chunk_of [OF assms(1,2)] by (simp add: desc_ok_def)

section \<open>The core invariant\<close>

definition live :: "(nat \<Rightarrow> nat set) \<Rightarrow> nat set" where
  "live hold = (\<Union>s. hold s)"

definition free_chunks :: "chunk set \<Rightarrow> shared_data \<Rightarrow> nat \<Rightarrow> nat set" where
  "free_chunks orphans sd c = {i. chunk_ok (c, i) \<and> refmask sd (c, i) = 0 \<and> (c, i) \<notin> orphans}"

definition core_inv :: "(nat \<Rightarrow> nat set) \<Rightarrow> chunk set \<Rightarrow> shared_data \<Rightarrow> bool" where
  "core_inv hold orphans sd \<longleftrightarrow>
     (\<forall>s q. q \<in> hold s \<longrightarrow> s < 16 \<and> q < 16 \<and> desc_ok (desc_ring sd q)) \<and>
     inj_on (chunk_at sd) (live hold) \<and>
     (\<forall>ch s. chunk_ok ch \<longrightarrow> (bit (refmask sd ch) s \<longleftrightarrow> (\<exists>q \<in> hold s. chunk_at sd q = ch))) \<and>
     (\<forall>c<5. \<exists>xs. free_list c sd xs \<and> set xs = free_chunks orphans sd c) \<and>
     (\<forall>c i. chunk_ok (c, i) \<longrightarrow> (is_in_use sd c i \<longleftrightarrow> refmask sd (c, i) \<noteq> 0 \<or> (c, i) \<in> orphans)) \<and>
     (\<forall>ch \<in> orphans. chunk_ok ch \<and> refmask sd ch = 0)"

lemma core_invI:
  assumes "\<And>s q. q \<in> hold s \<Longrightarrow> s < 16 \<and> q < 16 \<and> desc_ok (desc_ring sd q)"
    "inj_on (chunk_at sd) (live hold)"
    "\<And>ch s. chunk_ok ch \<Longrightarrow> bit (refmask sd ch) s \<longleftrightarrow> (\<exists>q \<in> hold s. chunk_at sd q = ch)"
    "\<And>c. c < 5 \<Longrightarrow> \<exists>xs. free_list c sd xs \<and> set xs = free_chunks orphans sd c"
    "\<And>c i. chunk_ok (c, i) \<Longrightarrow> is_in_use sd c i \<longleftrightarrow> refmask sd (c, i) \<noteq> 0 \<or> (c, i) \<in> orphans"
    "\<And>ch. ch \<in> orphans \<Longrightarrow> chunk_ok ch \<and> refmask sd ch = 0"
  shows "core_inv hold orphans sd"
  using assms unfolding core_inv_def by blast

lemma core_invD:
  assumes "core_inv hold orphans sd"
  shows "q \<in> hold s \<Longrightarrow> s < 16" "q \<in> hold s \<Longrightarrow> q < 16" "q \<in> hold s \<Longrightarrow> desc_ok (desc_ring sd q)"
    "inj_on (chunk_at sd) (live hold)"
    "chunk_ok ch \<Longrightarrow> bit (refmask sd ch) s \<longleftrightarrow> (\<exists>q \<in> hold s. chunk_at sd q = ch)"
    "c < 5 \<Longrightarrow> \<exists>xs. free_list c sd xs \<and> set xs = free_chunks orphans sd c"
    "chunk_ok (c, i) \<Longrightarrow> is_in_use sd c i \<longleftrightarrow> refmask sd (c, i) \<noteq> 0 \<or> (c, i) \<in> orphans"
    "ch \<in> orphans \<Longrightarrow> chunk_ok ch \<and> refmask sd ch = 0"
  using assms unfolding core_inv_def by blast+

lemma in_live: "q \<in> hold s \<Longrightarrow> q \<in> live hold"
  by (auto simp: live_def)

lemma desc_ok_chunk_ok: "desc_ok (desc_ring sd q) \<Longrightarrow> chunk_ok (chunk_at sd q)"
  by (simp add: desc_ok_def chunk_at_def)

lemma refmask_zero_iff:
  assumes inv: "core_inv hold orphans sd" and ok: "chunk_ok ch"
  shows "refmask sd ch = 0 \<longleftrightarrow> (\<forall>q \<in> live hold. chunk_at sd q \<noteq> ch)"
proof
  assume "refmask sd ch = 0"
  then have "\<not> bit (refmask sd ch) s" for s by simp
  with core_invD(5) [OF inv ok] show "\<forall>q \<in> live hold. chunk_at sd q \<noteq> ch"
    by (auto simp: live_def)
next
  assume "\<forall>q \<in> live hold. chunk_at sd q \<noteq> ch"
  with core_invD(5) [OF inv ok] have "\<not> bit (refmask sd ch) s" for s
    by (auto simp: live_def)
  then show "refmask sd ch = 0" by (intro bit_eqI) simp
qed

text \<open>The core invariant depends on the descriptors, masks, lists and the links only.\<close>

lemma core_inv_cong:
  assumes "core_inv hold orphans sd" "desc_ring sd' = desc_ring sd"
    "chunk_reference_counts sd' = chunk_reference_counts sd" "data sd' = data sd"
    "head_offset sd' = head_offset sd" "tail_offset sd' = tail_offset sd" "is_in_use sd' = is_in_use sd"
  shows "core_inv hold orphans sd'"
proof -
  have fl: "free_list c sd' xs \<longleftrightarrow> free_list c sd xs" for c xs
    using assms links_cong [of xs sd' c sd] by (simp add: free_list_def load_u32_def)
  have [simp]: "chunk_at sd' = chunk_at sd" "refmask sd' = refmask sd"
    using assms by (auto simp: chunk_at_def refmask_def)
  show ?thesis
    using assms(1) by (simp add: core_inv_def fl free_chunks_def assms(2,7))
qed

section \<open>Dropping a reference\<close>

lemma bit_clear_slot:
  "bit (w AND NOT (slot_bit s)) k \<longleftrightarrow> bit w k \<and> k \<noteq> s" for w :: u32
proof (cases "k < 32")
  case True
  then show ?thesis by (auto simp: bit_simps bit_slot_bit)
next
  case False
  then show ?thesis by (auto simp: bit_simps impossible_bit)
qed

text \<open>The previous mask is exactly the caller's bit when no other slot holds the position.\<close>

lemma last_reference_iff:
  assumes inv: "core_inv hold orphans sd" and q: "q \<in> hold s"
  shows "refmask sd (chunk_at sd q) = slot_bit s \<longleftrightarrow> q \<notin> live (hold(s := hold s - {q}))"
proof -
  from core_invD [OF inv] q have s: "s < 16" and ok: "chunk_ok (chunk_at sd q)"
    by (auto simp: desc_ok_chunk_ok)
  have inj: "inj_on (chunk_at sd) (live hold)" by (rule core_invD(4) [OF inv])
  have b: "bit (refmask sd (chunk_at sd q)) t \<longleftrightarrow> q \<in> hold t" for t
    using core_invD(5) [OF inv ok] inj in_live [where hold = hold, OF q] in_live [of _ hold t] by (auto dest: inj_onD)
  have "refmask sd (chunk_at sd q) = slot_bit s \<longleftrightarrow> (\<forall>k<32. q \<in> hold k \<longleftrightarrow> k = s)"
    using s by (simp add: eq_slot_bit_iff b)
  also have "\<dots> \<longleftrightarrow> (\<forall>k. k \<noteq> s \<longrightarrow> q \<notin> hold k)"
    using q core_invD(1) [OF inv] by fastforce
  also have "\<dots> \<longleftrightarrow> q \<notin> live (hold(s := hold s - {q}))"
    by (auto simp: live_def)
  finally show ?thesis .
qed


lemma mask_cleared_zero_iff:
  fixes w :: u32
  assumes "bit w s" "s < 32"
  shows "w AND NOT (slot_bit s) = 0 \<longleftrightarrow> w = slot_bit s"
proof
  assume z: "w AND NOT (slot_bit s) = 0"
  have "\<not> bit w k" if "k \<noteq> s" for k
    using z bit_clear_slot [of w s k] that by simp
  with assms show "w = slot_bit s" by (auto simp: eq_slot_bit_iff)
next
  assume w: "w = slot_bit s"
  show "w AND NOT (slot_bit s) = 0"
    by (rule bit_word_eqI) (simp add: bit_clear_slot w bit_slot_bit)
qed

lemma refmask_upd:
  assumes "chunk_ok a" "chunk_ok b"
  shows "refmask (sd\<lparr>chunk_reference_counts := (chunk_reference_counts sd)(chunk_gidx a := m)\<rparr>) b
    = (if b = a then m else refmask sd b)"
  using assms chunk_gidx_inj by (auto simp: refmask_def)

lemma free_list_counts [simp]:
  "free_list c (sd\<lparr>chunk_reference_counts := m\<rparr>) xs \<longleftrightarrow> free_list c sd xs"
  "free_list c (sd\<lparr>is_in_use := t\<rparr>) xs \<longleftrightarrow> free_list c sd xs"
  "free_list c (sd\<lparr>descriptor_read_indices := r\<rparr>) xs \<longleftrightarrow> free_list c sd xs"
  "free_list c (sd\<lparr>descriptor_write_index := w\<rparr>) xs \<longleftrightarrow> free_list c sd xs"
  "free_list c (sd\<lparr>desc_ring := d\<rparr>) xs \<longleftrightarrow> free_list c sd xs"
  by (simp_all add: free_list_def links_iff_nth load_u32_def)

lemma clear_reference_inv:
  assumes inv: "core_inv hold orphans sd" and q: "q \<in> hold s"
  defines "ch \<equiv> chunk_at sd q"
  defines "sd' \<equiv> sd\<lparr>chunk_reference_counts :=
      (chunk_reference_counts sd)(chunk_gidx ch := refmask sd ch AND NOT (slot_bit s))\<rparr>"
  shows "\<exists>g. global_chunk_index (md_offset (desc_ring sd q)) (find_size_class (md_len (desc_ring sd q))) = Some g
      \<and> clear_reference g (slot_bit s) sd = Some (refmask sd ch, sd')"
    and "core_inv (hold(s := hold s - {q}))
      (if refmask sd ch = slot_bit s then insert ch orphans else orphans) sd'"
proof -
  from core_invD [OF inv] q have s: "s < 16" and ok: "chunk_ok ch" and d: "desc_ok (desc_ring sd q)"
    by (auto simp: desc_ok_chunk_ok ch_def)
  from desc_global_index [OF d] obtain g where
    g: "global_chunk_index (md_offset (desc_ring sd q)) (find_size_class (md_len (desc_ring sd q))) = Some g"
      "unat g = chunk_gidx ch" by (auto simp: ch_def chunk_at_def)
  with chunk_gidx_less [OF ok]
  show "\<exists>g. global_chunk_index (md_offset (desc_ring sd q)) (find_size_class (md_len (desc_ring sd q))) = Some g
      \<and> clear_reference g (slot_bit s) sd = Some (refmask sd ch, sd')"
    by (simp add: clear_reference_def array_simps sd'_def refmask_def)
  let ?hold = "hold(s := hold s - {q})"
  let ?orph = "if refmask sd ch = slot_bit s then insert ch orphans else orphans"
  have inj: "inj_on (chunk_at sd) (live hold)" by (rule core_invD(4) [OF inv])
  have at: "chunk_at sd' = chunk_at sd" by (auto simp: chunk_at_def sd'_def)
  have mask: "refmask sd' b = (if b = ch then refmask sd ch AND NOT (slot_bit s) else refmask sd b)"
    if "chunk_ok b" for b using refmask_upd [OF ok that] by (simp add: sd'_def)
  have bs: "bit (refmask sd ch) s" using core_invD(5) [OF inv ok] q ch_def by auto
  have zero: "refmask sd' ch = 0 \<longleftrightarrow> refmask sd ch = slot_bit s"
    using mask [OF ok] mask_cleared_zero_iff [OF bs] s by simp
  have uniq: "r = q" if "r \<in> hold t" "chunk_at sd r = ch" for r t
    using inj that in_live [where hold = hold, OF q] in_live [of r hold t]
    by (auto dest: inj_onD simp: ch_def)
  have bits: "bit (refmask sd' b) t \<longleftrightarrow> (\<exists>r \<in> ?hold t. chunk_at sd' r = b)" if b: "chunk_ok b" for b t
  proof (cases "b = ch")
    case True
    have "(\<exists>r \<in> ?hold t. chunk_at sd r = ch) \<longleftrightarrow> t \<noteq> s \<and> (\<exists>r \<in> hold t. chunk_at sd r = ch)"
      using uniq by auto
    with core_invD(5) [OF inv ok, of t]
    have "bit (refmask sd' ch) t \<longleftrightarrow> (\<exists>r \<in> ?hold t. chunk_at sd r = ch)"
      unfolding mask [OF ok] by (simp only: if_True simp_thms bit_clear_slot) blast
    then show ?thesis unfolding True at .
  next
    case False
    then have "(\<exists>r \<in> ?hold t. chunk_at sd r = b) \<longleftrightarrow> (\<exists>r \<in> hold t. chunk_at sd r = b)"
      by (auto simp: ch_def)
    with False core_invD(5) [OF inv b, of t] show ?thesis by (simp add: mask [OF b] at)
  qed
  have chno: "ch \<notin> orphans" using core_invD(8) [OF inv, of ch] bs by auto
  have free: "free_chunks ?orph sd' c = free_chunks orphans sd c" for c
  proof -
    have "chunk_ok (c, j) \<and> refmask sd' (c, j) = 0 \<and> (c, j) \<notin> ?orph
        \<longleftrightarrow> chunk_ok (c, j) \<and> refmask sd (c, j) = 0 \<and> (c, j) \<notin> orphans" for j
    proof (cases "(c, j) = ch")
      case True
      have "refmask sd ch \<noteq> 0" using bs by auto
      with True zero show ?thesis by auto
    qed (use mask [of "(c, j)"] in auto)
    then show ?thesis by (simp only: free_chunks_def)
  qed
  have "inj_on (chunk_at sd') (live ?hold)"
    using inj_on_subset [OF inj, of "live ?hold"] by (auto simp: at live_def)
  moreover have "\<exists>xs. free_list c sd' xs \<and> set xs = free_chunks ?orph sd' c" if "c < 5" for c
    using core_invD(6) [OF inv that] unfolding free by (simp add: sd'_def)
  moreover have "is_in_use sd' c i \<longleftrightarrow> refmask sd' (c, i) \<noteq> 0 \<or> (c, i) \<in> ?orph"
    if "chunk_ok (c, i)" for c i
  proof (cases "(c, i) = ch")
    case True
    have "refmask sd ch \<noteq> 0" using bs by auto
    with True core_invD(7) [OF inv that] zero chno show ?thesis by (auto simp: sd'_def)
  next
    case False
    with core_invD(7) [OF inv that] mask [OF that] show ?thesis by (auto simp: sd'_def)
  qed
  moreover have "chunk_ok b \<and> refmask sd' b = 0" if "b \<in> ?orph" for b
  proof (cases "b = ch")
    case True
    with that chno zero ok show ?thesis by (metis insertE)
  next
    case False
    with that have "b \<in> orphans" by (metis insertE)
    with core_invD(8) [OF inv, of b] mask [of b] False show ?thesis by metis
  qed
  moreover have "s' < 16 \<and> r < 16 \<and> desc_ok (desc_ring sd' r)" if "r \<in> ?hold s'" for s' r
    using that core_invD(1-3) [OF inv, of r s'] by (auto simp: sd'_def split: if_splits)
  ultimately show "core_inv ?hold ?orph sd'"
    using bits by (intro core_invI) blast+
qed

lemma return_chunk_inv:
  assumes inv: "core_inv hold orphans sd" and ch: "(c, i) \<in> orphans"
  shows "\<exists>sd'. return_chunk (int c) (off_word (c, i)) sd = Some (True, sd')
    \<and> core_inv hold (orphans - {(c, i)}) sd'
    \<and> desc_ring sd' = desc_ring sd \<and> descriptor_read_indices sd' = descriptor_read_indices sd
    \<and> descriptor_write_index sd' = descriptor_write_index sd
    \<and> chunk_reference_counts sd' = chunk_reference_counts sd
    \<and> (\<forall>b k n. chunk_ok b \<and> refmask sd b \<noteq> 0 \<and> k + n \<le> class_size (fst b) \<longrightarrow>
         chunk_bytes sd' b k n = chunk_bytes sd b k n)"
proof -
  from core_invD(8) [OF inv ch] have ok: "chunk_ok (c, i)" and z: "refmask sd (c, i) = 0" by auto
  then have c: "c < 5" and i: "i < class_count c" by (auto simp: chunk_ok_def)
  have i64: "i < 64" using i class_bounds(4) [OF c] by simp
  have ui: "unat (of_nat i :: u32) = i" using i64 by (simp add: unat_of_nat_small)
  from core_invD(6) [OF inv c] obtain xs where
    fl: "free_list c sd xs" and xs: "set xs = free_chunks orphans sd c" by blast
  have fresh: "i \<notin> set xs" using xs ch by (simp add: free_chunks_def)
  let ?t = "(is_in_use sd)(c := (is_in_use sd c)(i := False))"
  let ?sd1 = "sd\<lparr>is_in_use := ?t\<rparr>"
  let ?bs = "le_bytes 4 (off_word (c, i))"
  let ?sd' = "(chunk_put ?sd1 (c, last xs) 0 ?bs)\<lparr>tail_offset := (tail_offset ?sd1)(c := off_word (c, i))\<rparr>"
  have fl1: "free_list c ?sd1 xs" using fl by simp
  have app: "free_list_append c (off_word (c, i)) ?sd1 = Some ?sd'" by (rule free_list_append_eq [OF fl1])
  have "is_in_use sd c i" using core_invD(7) [OF inv ok] ch by simp
  then have ret: "return_chunk (int c) (off_word (c, i)) sd = Some (True, ?sd')"
    using c i64 app
    by (simp add: return_chunk_def local_chunk_index_off [OF ok] tracker_get_def tracker_set_def
      array_simps layout_simps ui)
  have last: "chunk_ok (c, last xs)" "refmask sd (c, last xs) = 0" "(c, last xs) \<notin> orphans"
    using fl xs by (auto simp: free_list_def free_chunks_def)
  have mask: "refmask ?sd' = refmask sd" by (auto simp: refmask_def)
  have at: "chunk_at ?sd' = chunk_at sd" by (auto simp: chunk_at_def)
  have frame: "chunk_bytes ?sd' b k n = chunk_bytes sd b k n"
    if "chunk_ok b" "b \<noteq> (c, last xs)" "k + n \<le> class_size (fst b)" for b k n
  proof -
    have "chunk_bytes (chunk_put ?sd1 (c, last xs) 0 ?bs) b k n = chunk_bytes ?sd1 b k n"
      using last(1) that class_bounds(1) [OF c] by (intro chunk_bytes_put_other) auto
    then show ?thesis by (simp add: chunk_bytes_def)
  qed
  have lists: "\<exists>ys. free_list d ?sd' ys \<and> set ys = free_chunks (orphans - {(c, i)}) ?sd' d" if d: "d < 5" for d
  proof (cases "d = c")
    case True
    from fl.append_repr [OF fl1 i fresh] app have "free_list c ?sd' (xs @ [i])" by simp
    moreover have "free_chunks (orphans - {(c, i)}) ?sd' c = insert i (free_chunks orphans sd c)"
      unfolding free_chunks_def mask using ok z by blast
    then have "set (xs @ [i]) = free_chunks (orphans - {(c, i)}) ?sd' c" using xs by simp
    ultimately show ?thesis using True by blast
  next
    case False
    from core_invD(6) [OF inv d] obtain ys where
      ys: "free_list d sd ys" "set ys = free_chunks orphans sd d" by blast
    have "free_list d ?sd' ys"
    proof (rule free_list_frame [OF ys(1)])
      fix j assume "j \<in> set (butlast ys)"
      then have "chunk_ok (d, j)" using ys(1) by (auto dest: in_set_butlastD free_list_okD)
      then show "chunk_bytes ?sd' (d, j) 0 4 = chunk_bytes sd (d, j) 0 4"
        using False class_bounds(1) [OF d] by (intro frame) auto
    qed (use False in auto)
    moreover have "free_chunks (orphans - {(c, i)}) ?sd' d = free_chunks orphans sd d"
      unfolding free_chunks_def mask using False by blast
    ultimately show ?thesis using ys(2) by blast
  qed
  have use: "is_in_use ?sd' d j \<longleftrightarrow> refmask ?sd' (d, j) \<noteq> 0 \<or> (d, j) \<in> orphans - {(c, i)}"
    if "chunk_ok (d, j)" for d j
    unfolding mask using core_invD(7) [OF inv that] z by auto
  have "core_inv hold (orphans - {(c, i)}) ?sd'"
  proof (rule core_invI)
    show "s < 16 \<and> q < 16 \<and> desc_ok (desc_ring ?sd' q)" if "q \<in> hold s" for s q
      using core_invD(1-3) [OF inv that] by simp
    show "inj_on (chunk_at ?sd') (live hold)" unfolding at by (rule core_invD(4) [OF inv])
    show "bit (refmask ?sd' ch) s \<longleftrightarrow> (\<exists>q \<in> hold s. chunk_at ?sd' q = ch)" if "chunk_ok ch" for ch s
      unfolding at mask by (rule core_invD(5) [OF inv that])
    show "chunk_ok b \<and> refmask ?sd' b = 0" if "b \<in> orphans - {(c, i)}" for b
      unfolding mask using core_invD(8) [OF inv, of b] that by blast
  qed (fact lists, fact use)
  moreover have "chunk_bytes ?sd' b k n = chunk_bytes sd b k n"
    if "chunk_ok b" "refmask sd b \<noteq> 0" "k + n \<le> class_size (fst b)" for b k n
    using that last(2) by (intro frame) auto
  ultimately show ?thesis using ret by (intro exI [of _ ?sd'] conjI allI impI) simp_all
qed

text \<open>Messages still held by some slot survive the return of a chunk.\<close>

lemma message_bytes_frame:
  assumes inv: "core_inv hold orphans sd" and q: "q \<in> hold s"
    and ring: "desc_ring sd' = desc_ring sd"
    and fr: "\<And>b k n. chunk_ok b \<Longrightarrow> refmask sd b \<noteq> 0 \<Longrightarrow> k + n \<le> class_size (fst b) \<Longrightarrow>
      chunk_bytes sd' b k n = chunk_bytes sd b k n"
  shows "message_bytes sd' q = message_bytes sd q"
proof -
  have d: "desc_ok (desc_ring sd q)" using core_invD(3) [OF inv q] .
  then have ok: "chunk_ok (chunk_at sd q)" by (rule desc_ok_chunk_ok)
  have "refmask sd (chunk_at sd q) \<noteq> 0"
    using refmask_zero_iff [OF inv ok] in_live [where hold = hold, OF q] by auto
  with fr [OF ok] desc_class(3) [OF d] ring show ?thesis
    by (simp add: message_bytes_def chunk_at_def)
qed

end
