(* ===== verification/Publisher_Data.thy ===== *)
theory Publisher_Data
  imports Publisher_State Chunk_References
begin

text \<open>
  The data path of the publisher (\<open>src/publisher.cpp\<close>): tracking a subscriber, releasing the
  references of a dead one, and writing a message.
\<close>

section \<open>Tracking a subscriber\<close>

text \<open>The \<open>FdGuard\<close> closes the received descriptor on every error return.\<close>

definition track_subscriber ::
  "subscriber_registration \<Rightarrow> publisher \<Rightarrow> io \<Rightarrow> (subscriber_tracking_error option \<times> publisher \<times> io) option"
where
  "track_subscriber reg p w =
     (let fd = reg_event_fd reg; slot = unat (reg_slot_index reg) in
      if kMaxSubscribers \<le> slot then Some (Some SlotOutOfRange, p, close_fd fd w)
      else do {
        rd \<leftarrow> arr_get kMaxSubscribers (descriptor_read_indices (shm w)) slot;
        if rd \<noteq> kInvalidIndex then Some (Some SlotAlreadyTracked, p, close_fd fd w)
        else if slot_by_event_fd p fd \<noteq> None then Some (Some EventFdAlreadyTracked, p, close_fd fd w)
        else do {
          fd_of_slot \<leftarrow> arr_set kMaxSubscribers (event_fd_by_slot p) slot fd;
          indices \<leftarrow> arr_set kMaxSubscribers (descriptor_read_indices (shm w)) slot
            (descriptor_write_index (shm w));
          Some (None,
            p\<lparr>slot_by_event_fd := (slot_by_event_fd p)(fd \<mapsto> slot),
              data_available_event_fds := data_available_event_fds p @ [fd],
              event_fd_by_slot := fd_of_slot\<rparr>,
            w\<lparr>shm := (shm w)\<lparr>descriptor_read_indices := indices\<rparr>\<rparr>)
        }
      })"

section \<open>Reaping a dead subscriber\<close>

text \<open>One iteration of the loop: drop the reference at ring position \<open>start\<close>.\<close>

definition release_descriptor :: "nat \<Rightarrow> u32 \<Rightarrow> shared_data \<Rightarrow> (run_error \<times> shared_data) option" where
  "release_descriptor start subscriber_reference_bit sd = do {
     d \<leftarrow> arr_get (unat kDescriptorSlotCount) (desc_ring sd) start;
     let offset = md_offset d;
     let cls = find_size_class (md_len d);
     chunk_index \<leftarrow> global_chunk_index offset cls;
     (previous, sd) \<leftarrow> clear_reference chunk_index subscriber_reference_bit sd;
     if previous = subscriber_reference_bit then do {
       (returned, sd) \<leftarrow> return_chunk cls offset sd;
       Some (if returned then RunNone else ChunkReferenceReleaseFailed, sd)
     } else Some (RunNone, sd)
   }"

function release_chunk_references_in_descriptor_range ::
  "nat \<Rightarrow> nat \<Rightarrow> u32 \<Rightarrow> shared_data \<Rightarrow> (run_error \<times> shared_data) option"
where
  "release_chunk_references_in_descriptor_range start stop subscriber_reference_bit sd =
     (if start < stop then do {
        (result, sd) \<leftarrow> release_descriptor start subscriber_reference_bit sd;
        if result \<noteq> RunNone then Some (result, sd)
        else release_chunk_references_in_descriptor_range (Suc start) stop subscriber_reference_bit sd
      } else Some (RunNone, sd))"
  by pat_completeness auto
termination
  by (relation "measure (\<lambda>(start, stop, bit, sd). stop - start)") auto

declare release_chunk_references_in_descriptor_range.simps [simp del]

text \<open>Drop the references of the descriptors between the two indices, wrapping once.\<close>

definition release_unread_references :: "u32 \<Rightarrow> u32 \<Rightarrow> u32 \<Rightarrow> shared_data \<Rightarrow> (run_error \<times> shared_data) option" where
  "release_unread_references rd wr subscriber_reference_bit sd = do {
     (wrapped_release_result, sd, rd) \<leftarrow>
       (if rd > wr then do {
          (result, sd) \<leftarrow> release_chunk_references_in_descriptor_range (unat rd)
            (unat kDescriptorSlotCount) subscriber_reference_bit sd;
          Some (result, sd, 0)
        } else Some (RunNone, sd, rd));
     if wrapped_release_result \<noteq> RunNone then Some (wrapped_release_result, sd)
     else release_chunk_references_in_descriptor_range (unat rd) (unat wr) subscriber_reference_bit sd
   }"

text \<open>Free the slot and forget the subscriber's eventfd.\<close>

definition untrack_subscriber :: "nat \<Rightarrow> publisher \<Rightarrow> io \<Rightarrow> (run_error \<times> publisher \<times> io) option" where
  "untrack_subscriber slot p w = do {
     indices \<leftarrow> arr_set kMaxSubscribers (descriptor_read_indices (shm w)) slot kInvalidIndex;
     let w = w\<lparr>shm := (shm w)\<lparr>descriptor_read_indices := indices\<rparr>\<rparr>;
     fd \<leftarrow> arr_get kMaxSubscribers (event_fd_by_slot p) slot;
     if slot_by_event_fd p fd \<noteq> Some slot then Some (DeadSubscriberReapFailed, p, w)
     else Some (RunNone,
       p\<lparr>slot_by_event_fd := (slot_by_event_fd p)(fd := None),
         data_available_event_fds := filter (\<lambda>x. x \<noteq> fd) (data_available_event_fds p)\<rparr>,
       w\<lparr>closed := closed w @ [fd]\<rparr>)
   }"

definition reap_dead_subscribers :: "u32 \<Rightarrow> publisher \<Rightarrow> io \<Rightarrow> (run_error \<times> publisher \<times> io) option" where
  "reap_dead_subscribers slot_index p w =
     (if kMaxSubscribers \<le> unat slot_index then Some (DeadSubscriberReapFailed, p, w)
      else do {
        let subscriber_reference_bit = slot_bit (unat slot_index);
        rd \<leftarrow> arr_get kMaxSubscribers (descriptor_read_indices (shm w)) (unat slot_index);
        if rd = kInvalidIndex then Some (DeadSubscriberReapFailed, p, w)
        else do {
          let wr = descriptor_write_index (shm w);
          (release_result, sd) \<leftarrow> release_unread_references rd wr subscriber_reference_bit (shm w);
          if release_result \<noteq> RunNone then Some (release_result, p, w\<lparr>shm := sd\<rparr>)
          else untrack_subscriber (unat slot_index) p (w\<lparr>shm := sd\<rparr>)
        }
      })"

section \<open>Publishing one message\<close>

text \<open>The debug checks on the chunk at the head of the free list; \<open>False\<close> is an error return.\<close>

definition claim_chunk :: "int \<Rightarrow> u32 \<Rightarrow> shared_data \<Rightarrow> (bool \<times> shared_data) option" where
  "claim_chunk cls head_off sd = do {
     first_off \<leftarrow> table_get kFirstOffset cls;
     last_off \<leftarrow> table_get kLastOffset cls;
     if head_off < first_off \<or> head_off > last_off then Some (False, sd)
     else do {
       chunk_index \<leftarrow> local_chunk_index head_off cls;
       in_use \<leftarrow> tracker_get (nat cls) (unat chunk_index) sd;
       if in_use then Some (False, sd)
       else do {
         sd \<leftarrow> tracker_set (nat cls) (unat chunk_index) True sd;
         Some (True, sd)
       }
     }
   }"

text \<open>Write the descriptor and the header, count the message, write the payload.\<close>

definition write_message ::
  "u32 \<Rightarrow> u32 \<Rightarrow> u32 \<Rightarrow> s32 \<Rightarrow> bytes \<Rightarrow> shared_data \<Rightarrow> (s32 \<times> shared_data) option"
where
  "write_message wr head_off message_size_bytes seq_number payload sd = do {
     ring \<leftarrow> arr_set (unat kDescriptorSlotCount) (desc_ring sd) (unat wr)
       \<lparr>md_offset = head_off, md_len = message_size_bytes\<rparr>;
     sd \<leftarrow> data_store (sd\<lparr>desc_ring := ring\<rparr>) (unat head_off) (le_bytes 4 kMagic);
     sd \<leftarrow> data_store sd (unat head_off + 4) (le_bytes 4 seq_number);
     next_seq \<leftarrow> int_incr seq_number;
     sd \<leftarrow> (if payload \<noteq> [] then data_store sd (unat head_off + kMessageHeaderSizeBytes) payload
           else Some sd);
     Some (next_seq, sd)
   }"

fun chunk_reference_mask :: "(int \<rightharpoonup> nat) \<Rightarrow> int list \<Rightarrow> u32 \<Rightarrow> (run_error + u32) option" where
  "chunk_reference_mask slots [] refs = Some (Inr refs)"
| "chunk_reference_mask slots (fd # fds) refs =
     (case slots fd of
        None \<Rightarrow> Some (Inl PublishAttemptFailed)
      | Some slot \<Rightarrow> if slot < 32 then chunk_reference_mask slots fds (refs + slot_bit slot) else None)"

definition add_references :: "u32 \<Rightarrow> u32 \<Rightarrow> shared_data \<Rightarrow> shared_data option" where
  "add_references chunk_index refs sd = do {
     previous \<leftarrow> arr_get kTotalChunkCount (chunk_reference_counts sd) (unat chunk_index);
     counts \<leftarrow> arr_set kTotalChunkCount (chunk_reference_counts sd) (unat chunk_index) (previous + refs);
     Some (sd\<lparr>chunk_reference_counts := counts\<rparr>)
   }"

definition advance_write_index :: "u32 \<Rightarrow> shared_data \<Rightarrow> shared_data" where
  "advance_write_index wr sd =
     (let candidate = (wr + 1) mod kDescriptorSlotCount
      in sd\<lparr>descriptor_write_index :=
           (if kDescriptorSlotCount \<le> candidate then candidate mod kDescriptorSlotCount else candidate)\<rparr>)"

definition publish_into_chunk ::
  "(int \<Rightarrow> bool) \<Rightarrow> int \<Rightarrow> u32 \<Rightarrow> bytes \<Rightarrow> publisher \<Rightarrow> io
     \<Rightarrow> ((run_error + publish_attempt) \<times> publisher \<times> io) option"
where
  "publish_into_chunk sig cls message_size_bytes payload p w = do {
     let wr = descriptor_write_index (shm w);
     head_off \<leftarrow> arr_get kClassCount (head_offset (shm w)) (nat cls);
     (claimed, sd) \<leftarrow> claim_chunk cls head_off (shm w);
     if \<not> claimed then Some (Inl PublishAttemptFailed, p, w\<lparr>shm := sd\<rparr>)
     else do {
       sd \<leftarrow> free_list_pop (nat cls) sd;
       (next_seq, sd) \<leftarrow> write_message wr head_off message_size_bytes (seq p) payload sd;
       let p = p\<lparr>seq := next_seq\<rparr>;
       chunk_index \<leftarrow> global_chunk_index head_off cls;
       mask_result \<leftarrow> chunk_reference_mask (slot_by_event_fd p) (data_available_event_fds p) 0;
       case mask_result of
         Inl e \<Rightarrow> Some (Inl e, p, w\<lparr>shm := sd\<rparr>)
       | Inr refs \<Rightarrow> do {
           sd \<leftarrow> add_references chunk_index refs sd;
           let (all_signalled, w) = signal_each sig (data_available_event_fds p)
             (w\<lparr>shm := advance_write_index wr sd\<rparr>);
           Some (if all_signalled then Inr Succeeded else Inl PublishAttemptFailed, p, w)
         }
     }
   }"

definition try_publish_one ::
  "(int \<Rightarrow> bool) \<Rightarrow> bytes \<Rightarrow> publisher \<Rightarrow> io
     \<Rightarrow> ((run_error + publish_attempt) \<times> publisher \<times> io) option"
where
  "try_publish_one sig payload p w =
     (let min_rd = find_slowest_read_index (shm w) in
      if length payload > 4294967295 - kMessageHeaderSizeBytes
      then Some (Inl MessageSizeClassInvalid, p, w)
      else
        let message_size_bytes = of_nat (length payload + kMessageHeaderSizeBytes) :: u32;
            cls = find_size_class message_size_bytes in
        if cls < 0 then Some (Inl MessageSizeClassInvalid, p, w)
        else if ring_blocked min_rd (descriptor_write_index (shm w)) then Some (Inr Blocked, p, w)
        else if free_list_empty (nat cls) (shm w) then Some (Inr Blocked, p, w)
        else publish_into_chunk sig cls message_size_bytes payload p w)"

definition can_publish_next_message :: "publisher \<Rightarrow> io \<Rightarrow> run_error + publish_readiness" where
  "can_publish_next_message p w =
     (let min_rd = find_slowest_read_index (shm w) in
      case (case in_flight p of Some m \<Rightarrow> Some (msg_payload (in_flight_msg m))
            | None \<Rightarrow> (case pending_messages p of m # _ \<Rightarrow> Some (msg_payload m) | [] \<Rightarrow> None)) of
        None \<Rightarrow> Inr NoMessage
      | Some bytes \<Rightarrow>
          let message_size_bytes = of_nat kMessageHeaderSizeBytes + of_nat (length bytes) :: u32;
              cls = find_size_class message_size_bytes in
          if cls < 0 then Inl MessageSizeClassInvalid
          else if ring_blocked min_rd (descriptor_write_index (shm w)) then Inr NotReady
          else if free_list_empty (nat cls) (shm w) then Inr NotReady
          else Inr Ready)"


section \<open>Invariant of the data path\<close>

text \<open>The publisher's tables agree with each other and with the active read indices.\<close>

definition tables_ok :: "int list \<Rightarrow> (int \<rightharpoonup> nat) \<Rightarrow> (nat \<Rightarrow> int) \<Rightarrow> (nat \<Rightarrow> bool) \<Rightarrow> bool" where
  "tables_ok fds slots fd_of act \<longleftrightarrow>
     distinct fds \<and> set fds = dom slots \<and>
     (\<forall>fd s. slots fd = Some s \<longrightarrow> act s \<and> fd_of s = fd) \<and>
     (\<forall>s. act s \<longrightarrow> slots (fd_of s) = Some s)"

definition slots_inv :: "publisher \<Rightarrow> shared_data \<Rightarrow> bool" where
  "slots_inv p sd \<longleftrightarrow>
     tables_ok (data_available_event_fds p) (slot_by_event_fd p) (event_fd_by_slot p) (active sd)"

lemma tables_okD:
  assumes "tables_ok fds slots fd_of act"
  shows "distinct fds" "set fds = dom slots" "slots fd = Some s \<Longrightarrow> act s"
    "slots fd = Some s \<Longrightarrow> fd_of s = fd" "act s \<Longrightarrow> slots (fd_of s) = Some s"
  using assms by (auto simp: tables_ok_def)

lemma tables_remove:
  assumes t: "tables_ok fds slots fd_of act" and s: "act s"
  shows "tables_ok (filter (\<lambda>x. x \<noteq> fd_of s) fds) (slots(fd_of s := None)) fd_of (\<lambda>t. t \<noteq> s \<and> act t)"
proof -
  have ne: "fd_of u \<noteq> fd_of s" if "act u" "u \<noteq> s" for u
    using tables_okD(5) [OF t that(1)] tables_okD(5) [OF t s] that(2) by auto
  show ?thesis
    unfolding tables_ok_def
  proof (intro conjI allI impI)
    show "set (filter (\<lambda>x. x \<noteq> fd_of s) fds) = dom (slots(fd_of s := None))"
      using tables_okD(2) [OF t] by auto
    fix fd u assume u: "(slots(fd_of s := None)) fd = Some u"
    then have "fd \<noteq> fd_of s" "slots fd = Some u" by (auto split: if_splits)
    with tables_okD(3,4) [OF t] show "act u" "fd_of u = fd" "u \<noteq> s" by auto
  next
    fix u assume "u \<noteq> s \<and> act u"
    with ne tables_okD(5) [OF t] show "(slots(fd_of s := None)) (fd_of u) = Some u" by simp
  qed (use tables_okD(1) [OF t] in simp)
qed

lemma tables_add:
  assumes t: "tables_ok fds slots fd_of act" and s: "\<not> act s" and fd: "fd \<notin> set fds"
  shows "tables_ok (fds @ [fd]) (slots(fd \<mapsto> s)) (fd_of(s := fd)) (\<lambda>t. t = s \<or> act t)"
proof -
  have none: "slots fd = None" using fd tables_okD(2) [OF t] by auto
  show ?thesis
    unfolding tables_ok_def
  proof (intro conjI allI impI)
    show "set (fds @ [fd]) = dom (slots(fd \<mapsto> s))" using tables_okD(2) [OF t] by auto
    fix x u assume u: "(slots(fd \<mapsto> s)) x = Some u"
    show "u = s \<or> act u" using u tables_okD(3) [OF t] by (auto split: if_splits)
    show "(fd_of(s := fd)) u = x"
      using u s tables_okD(3,4) [OF t] by (auto split: if_splits)
  next
    fix u assume u: "u = s \<or> act u"
    show "(slots(fd \<mapsto> s)) ((fd_of(s := fd)) u) = Some u"
    proof (cases "u = s")
      case False
      with u have "slots (fd_of u) = Some u" using tables_okD(5) [OF t] by simp
      with none False show ?thesis by auto
    qed simp
  qed (use tables_okD(1) [OF t] fd in simp)
qed

definition header_ok :: "shared_data \<Rightarrow> nat \<Rightarrow> s32 \<Rightarrow> bool" where
  "header_ok sd q n \<longleftrightarrow> take 4 (message_bytes sd q) = le_bytes 4 kMagic
     \<and> take 4 (drop 4 (message_bytes sd q)) = le_bytes 4 n"

text \<open>Every unread message carries the magic number and its sequence number; \<open>n\<close>, the number of
  the next message, has not left the non-negative \<open>int\<close>s.\<close>

definition headers_inv :: "s32 \<Rightarrow> shared_data \<Rightarrow> bool" where
  "headers_inv n sd \<longleftrightarrow> unat n \<le> 2147483647 \<and>
     (\<forall>s. \<forall>q \<in> set (unread sd s). header_ok sd q (n - of_nat (back_dist (wrx sd) q))
        \<and> back_dist (wrx sd) q \<le> unat n)"

definition data_inv :: "publisher \<Rightarrow> shared_data \<Rightarrow> bool" where
  "data_inv p sd \<longleftrightarrow> ring_ok sd \<and> core_inv (\<lambda>s. set (unread sd s)) {} sd
     \<and> slots_inv p sd \<and> headers_inv (seq p) sd"

text \<open>The abstract state of the channel: the payloads each slot has still to receive.\<close>

definition queue :: "shared_data \<Rightarrow> nat \<Rightarrow> bytes list" where
  "queue sd s = map (\<lambda>q. drop 8 (message_bytes sd q)) (unread sd s)"

lemma data_invD:
  assumes "data_inv p sd"
  shows "ring_ok sd" "core_inv (\<lambda>s. set (unread sd s)) {} sd" "slots_inv p sd" "headers_inv (seq p) sd"
  using assms by (auto simp: data_inv_def)

lemma unread_cong:
  assumes "descriptor_read_indices sd' s = descriptor_read_indices sd s"
    "descriptor_write_index sd' = descriptor_write_index sd"
  shows "unread sd' s = unread sd s"
  using assms by (simp add: unread_def active_def rdx_def wrx_def)

text \<open>Two states that differ only outside the messages at the positions \<open>L\<close>.\<close>

definition same_messages :: "nat set \<Rightarrow> shared_data \<Rightarrow> shared_data \<Rightarrow> bool" where
  "same_messages L sd sd' \<longleftrightarrow> desc_ring sd' = desc_ring sd
     \<and> descriptor_write_index sd' = descriptor_write_index sd
     \<and> (\<forall>q \<in> L. message_bytes sd' q = message_bytes sd q)"

lemma same_messages_refl: "same_messages L sd sd"
  by (simp add: same_messages_def)

lemma same_messages_trans:
  "same_messages L sd sd' \<Longrightarrow> same_messages L' sd' sd'' \<Longrightarrow> L' \<subseteq> L \<Longrightarrow> same_messages L' sd sd''"
  by (auto simp: same_messages_def)

lemma same_messages_queue:
  assumes "same_messages L sd sd'" "descriptor_read_indices sd' s = descriptor_read_indices sd s"
    "set (unread sd s) \<subseteq> L"
  shows "queue sd' s = queue sd s"
  using assms unread_cong [of sd' s sd] by (auto simp: queue_def same_messages_def)

section \<open>Reaping\<close>

lemma release_descriptor_inv:
  assumes inv: "core_inv hold {} sd" and q: "q \<in> hold s"
  shows "\<exists>sd'. release_descriptor q (slot_bit s) sd = Some (RunNone, sd')
    \<and> core_inv (hold(s := hold s - {q})) {} sd'
    \<and> descriptor_read_indices sd' = descriptor_read_indices sd
    \<and> same_messages (live (hold(s := hold s - {q}))) sd sd'"
proof -
  let ?hold = "hold(s := hold s - {q})"
  let ?d = "desc_ring sd q"
  let ?ch = "chunk_at sd q"
  from core_invD [OF inv] q have q16: "q < 16" and d: "desc_ok ?d" by auto
  from clear_reference_inv [OF inv q] obtain g sd1 where
    g: "global_chunk_index (md_offset ?d) (find_size_class (md_len ?d)) = Some g"
    and clr: "clear_reference g (slot_bit s) sd = Some (refmask sd ?ch, sd1)"
    and inv1: "core_inv ?hold (if refmask sd ?ch = slot_bit s then {?ch} else {}) sd1"
    and sd1: "sd1 = sd\<lparr>chunk_reference_counts :=
      (chunk_reference_counts sd)(chunk_gidx ?ch := refmask sd ?ch AND NOT (slot_bit s))\<rparr>"
    by fastforce
  have ring: "arr_get (unat kDescriptorSlotCount) (desc_ring sd) q = Some ?d"
    using q16 by (simp add: array_simps layout_simps)
  have same1: "same_messages (live ?hold) sd sd1"
    by (auto simp: same_messages_def message_bytes_def chunk_at_def chunk_bytes_def sd1)
  show ?thesis
  proof (cases "refmask sd ?ch = slot_bit s")
    case False
    then show ?thesis
      using g clr inv1 ring same1 sd1 by (simp add: release_descriptor_def Let_def)
  next
    case True
    obtain c i where ch: "?ch = (c, i)" by fastforce
    have off: "md_offset ?d = off_word (c, i)" and cls: "find_size_class (md_len ?d) = int c"
      using d desc_class(2) [OF d] ch by (auto simp: desc_ok_def chunk_at_def)
    from return_chunk_inv [of ?hold "{?ch}" sd1 c i] inv1 True ch obtain sd2 where
      ret: "return_chunk (int c) (off_word (c, i)) sd1 = Some (True, sd2)"
      and inv2: "core_inv ?hold {} sd2"
      and same2: "desc_ring sd2 = desc_ring sd1" "descriptor_read_indices sd2 = descriptor_read_indices sd1"
        "descriptor_write_index sd2 = descriptor_write_index sd1"
      and fr: "\<And>b k n. chunk_ok b \<Longrightarrow> refmask sd1 b \<noteq> 0 \<Longrightarrow> k + n \<le> class_size (fst b) \<Longrightarrow>
         chunk_bytes sd2 b k n = chunk_bytes sd1 b k n"
      by auto
    have "message_bytes sd2 r = message_bytes sd1 r" if "r \<in> live ?hold" for r
      using message_bytes_frame [OF inv1 _ same2(1)] fr that unfolding live_def by blast
    with same2 have "same_messages (live ?hold) sd1 sd2" by (simp add: same_messages_def)
    with same1 have "same_messages (live ?hold) sd sd2" by (auto intro: same_messages_trans)
    moreover have "release_descriptor q (slot_bit s) sd = Some (RunNone, sd2)"
      using g clr ring ret True by (simp add: release_descriptor_def Let_def off cls)
    ultimately show ?thesis using inv2 same2 sd1 by auto
  qed
qed

lemma release_range_inv:
  assumes "core_inv hold {} sd" "{start..<stop} \<subseteq> hold s"
  shows "\<exists>sd'. release_chunk_references_in_descriptor_range start stop (slot_bit s) sd = Some (RunNone, sd')
    \<and> core_inv (hold(s := hold s - {start..<stop})) {} sd'
    \<and> descriptor_read_indices sd' = descriptor_read_indices sd
    \<and> same_messages (live (hold(s := hold s - {start..<stop}))) sd sd'"
  using assms
proof (induction "stop - start" arbitrary: start hold sd)
  case 0
  then have "{start..<stop} = {}" by simp
  with 0 show ?case
    by (simp add: release_chunk_references_in_descriptor_range.simps [of start] same_messages_refl)
next
  case (Suc n)
  then have lt: "start < stop" and n: "n = stop - Suc start" by auto
  let ?h1 = "hold(s := hold s - {start})"
  from lt Suc.prems have "start \<in> hold s" by auto
  from release_descriptor_inv [OF Suc.prems(1) this] obtain sd1 where
    r1: "release_descriptor start (slot_bit s) sd = Some (RunNone, sd1)"
    and inv1: "core_inv ?h1 {} sd1"
    and idx1: "descriptor_read_indices sd1 = descriptor_read_indices sd"
    and same1: "same_messages (live ?h1) sd sd1" by blast
  have "{Suc start..<stop} \<subseteq> ?h1 s" using Suc.prems(2) by auto
  from Suc.hyps(1) [OF n inv1 this] obtain sd2 where
    r2: "release_chunk_references_in_descriptor_range (Suc start) stop (slot_bit s) sd1 = Some (RunNone, sd2)"
    and inv2: "core_inv (?h1(s := ?h1 s - {Suc start..<stop})) {} sd2"
    and idx2: "descriptor_read_indices sd2 = descriptor_read_indices sd1"
    and same2: "same_messages (live (?h1(s := ?h1 s - {Suc start..<stop}))) sd1 sd2" by blast
  have h: "?h1(s := ?h1 s - {Suc start..<stop}) = hold(s := hold s - {start..<stop})"
    using lt by (auto simp: fun_eq_iff)
  have "live (hold(s := hold s - {start..<stop})) \<subseteq> live ?h1"
    using lt by (auto simp: live_def split: if_splits)
  with same1 same2 have "same_messages (live (hold(s := hold s - {start..<stop}))) sd sd2"
    unfolding h by (rule same_messages_trans)
  moreover have "release_chunk_references_in_descriptor_range start stop (slot_bit s) sd = Some (RunNone, sd2)"
    using lt r1 r2 by (simp add: release_chunk_references_in_descriptor_range.simps [of start])
  ultimately show ?case using inv2 idx1 idx2 unfolding h by simp
qed


text \<open>After a reap nothing is held by the slot, and no other slot notices.\<close>

lemma unread_split:
  assumes "ring_ok sd" "active sd s"
  shows "wrx sd < rdx sd s \<Longrightarrow> set (unread sd s) = {rdx sd s..<16} \<union> {0..<wrx sd}"
    "rdx sd s \<le> wrx sd \<Longrightarrow> set (unread sd s) = {rdx sd s..<wrx sd}"
  using assms by (auto simp: unread_def ring_span_def)

lemma headers_inv_frame:
  assumes "headers_inv n sd" "same_messages L sd sd'"
    "\<And>s. set (unread sd' s) \<subseteq> set (unread sd s) \<inter> L"
  shows "headers_inv n sd'"
proof -
  have "wrx sd' = wrx sd" using assms(2) by (simp add: wrx_def same_messages_def)
  then show ?thesis
    using assms unfolding headers_inv_def header_ok_def same_messages_def by fastforce
qed

lemma core_inv_indices:
  "core_inv hold orphans (sd\<lparr>descriptor_read_indices := r\<rparr>) \<longleftrightarrow> core_inv hold orphans sd"
  by (rule iffI; erule core_inv_cong) simp_all

lemma message_bytes_indices [simp]:
  "message_bytes (sd\<lparr>descriptor_read_indices := r\<rparr>) q = message_bytes sd q"
  by (simp add: message_bytes_def chunk_at_def chunk_bytes_def)

lemma reap_releases:
  assumes inv: "data_inv p sd" and act: "active sd s"
  shows "\<exists>sd'. release_unread_references (descriptor_read_indices sd s) (descriptor_write_index sd)
        (slot_bit s) sd = Some (RunNone, sd')
    \<and> core_inv (\<lambda>t. if t = s then {} else set (unread sd t)) {} sd'
    \<and> descriptor_read_indices sd' = descriptor_read_indices sd
    \<and> same_messages (\<Union>t \<in> - {s}. set (unread sd t)) sd sd'"
proof -
  let ?hold = "\<lambda>t. set (unread sd t)"
  let ?L = "\<Union>t \<in> - {s}. set (unread sd t)"
  have ok: "ring_ok sd" and core: "core_inv ?hold {} sd" using inv by (auto simp: data_inv_def)
  have r16: "rdx sd s < 16" and w16: "wrx sd < 16" using ok act by (auto simp: ring_ok_def)
  show ?thesis
  proof (cases "wrx sd < rdx sd s")
    case False
    then have span: "set (unread sd s) = {rdx sd s..<wrx sd}"
      using unread_split [OF ok act] by simp
    from release_range_inv [OF core, of "rdx sd s" "wrx sd" s] span obtain sd' where
      r: "release_chunk_references_in_descriptor_range (rdx sd s) (wrx sd) (slot_bit s) sd = Some (RunNone, sd')"
      and i: "core_inv (?hold(s := ?hold s - {rdx sd s..<wrx sd})) {} sd'"
      and x: "descriptor_read_indices sd' = descriptor_read_indices sd"
      and m: "same_messages (live (?hold(s := ?hold s - {rdx sd s..<wrx sd}))) sd sd'" by auto
    have h: "?hold(s := ?hold s - {rdx sd s..<wrx sd}) = (\<lambda>t. if t = s then {} else set (unread sd t))"
      using span by (auto simp: fun_eq_iff)
    have "live (\<lambda>t. if t = s then {} else set (unread sd t)) = ?L" by (auto simp: live_def split: if_splits)
    with r i x m False show ?thesis
      unfolding h
      by (intro exI [of _ sd']) (simp add: release_unread_references_def rdx_def wrx_def word_less_nat_alt)
  next
    case True
    then have span: "set (unread sd s) = {rdx sd s..<16} \<union> {0..<wrx sd}"
      using unread_split [OF ok act] by simp
    let ?h1 = "?hold(s := ?hold s - {rdx sd s..<16})"
    from release_range_inv [OF core, of "rdx sd s" 16 s] span obtain sd1 where
      r1: "release_chunk_references_in_descriptor_range (rdx sd s) 16 (slot_bit s) sd = Some (RunNone, sd1)"
      and i1: "core_inv ?h1 {} sd1"
      and x1: "descriptor_read_indices sd1 = descriptor_read_indices sd"
      and m1: "same_messages (live ?h1) sd sd1" by auto
    have "{0..<wrx sd} \<subseteq> ?h1 s" using span True by auto
    from release_range_inv [OF i1 this] obtain sd2 where
      r2: "release_chunk_references_in_descriptor_range 0 (wrx sd) (slot_bit s) sd1 = Some (RunNone, sd2)"
      and i2: "core_inv (?h1(s := ?h1 s - {0..<wrx sd})) {} sd2"
      and x2: "descriptor_read_indices sd2 = descriptor_read_indices sd1"
      and m2: "same_messages (live (?h1(s := ?h1 s - {0..<wrx sd}))) sd1 sd2" by blast
    have h: "?h1(s := ?h1 s - {0..<wrx sd}) = (\<lambda>t. if t = s then {} else set (unread sd t))"
      using span by (auto simp: fun_eq_iff)
    have l: "live (\<lambda>t. if t = s then {} else set (unread sd t)) = ?L"
      by (auto simp: live_def split: if_splits)
    have sub: "?L \<subseteq> live ?h1" by (auto simp: live_def)
    have "same_messages ?L sd sd2"
      by (rule same_messages_trans [OF m1 m2 [unfolded h l] sub])
    with r1 r2 i2 x1 x2 True show ?thesis
      unfolding h
      by (intro exI [of _ sd2])
        (simp add: release_unread_references_def rdx_def wrx_def word_less_nat_alt layout_simps)
  qed
qed


lemma reap_correct:
  assumes inv: "data_inv p (shm w)" and act: "active (shm w) (unat slot)"
  shows "\<exists>p' w'. reap_dead_subscribers slot p w = Some (RunNone, p', w')
    \<and> data_inv p' (shm w') \<and> \<not> active (shm w') (unat slot)
    \<and> (\<forall>t. t \<noteq> unat slot \<longrightarrow> (active (shm w') t \<longleftrightarrow> active (shm w) t) \<and> queue (shm w') t = queue (shm w) t)
    \<and> descriptor_write_index (shm w') = descriptor_write_index (shm w)
    \<and> (\<forall>t. t \<noteq> unat slot \<longrightarrow> descriptor_read_indices (shm w') t = descriptor_read_indices (shm w) t)
    \<and> seq p' = seq p \<and> pub_flags p' = pub_flags p \<and> event_fd_by_slot p' = event_fd_by_slot p
    \<and> pending_messages p' = pending_messages p \<and> in_flight p' = in_flight p
    \<and> data_available_event_fds p' = filter (\<lambda>x. x \<noteq> event_fd_by_slot p (unat slot)) (data_available_event_fds p)
    \<and> closed w' = closed w @ [event_fd_by_slot p (unat slot)]
    \<and> signalled w' = signalled w \<and> completions w' = completions w"
proof -
  define s where "s = unat slot"
  let ?sd = "shm w"
  let ?fd = "event_fd_by_slot p s"
  let ?hold = "\<lambda>t. if t = s then {} else set (unread ?sd t)"
  have act': "active ?sd s" using act s_def by simp
  have s16: "s < 16" and rdv: "descriptor_read_indices ?sd s \<noteq> kInvalidIndex"
    using act' by (auto simp: active_def layout_simps)
  from reap_releases [OF inv act'] obtain sd' where
    rel: "release_unread_references (descriptor_read_indices ?sd s) (descriptor_write_index ?sd)
        (slot_bit s) ?sd = Some (RunNone, sd')"
    and core: "core_inv ?hold {} sd'"
    and idx: "descriptor_read_indices sd' = descriptor_read_indices ?sd"
    and same: "same_messages (\<Union>t \<in> - {s}. set (unread ?sd t)) ?sd sd'"
    by blast
  let ?sd' = "sd'\<lparr>descriptor_read_indices := (descriptor_read_indices ?sd)(s := kInvalidIndex)\<rparr>"
  let ?p' = "p\<lparr>slot_by_event_fd := (slot_by_event_fd p)(?fd := None),
    data_available_event_fds := filter (\<lambda>x. x \<noteq> ?fd) (data_available_event_fds p)\<rparr>"
  let ?w' = "w\<lparr>shm := ?sd', closed := closed w @ [?fd]\<rparr>"
  have slots: "slots_inv p ?sd" by (rule data_invD(3) [OF inv])
  then have fd: "slot_by_event_fd p ?fd = Some s" using act' tables_okD(5) by (simp add: slots_inv_def)
  have code: "reap_dead_subscribers slot p w = Some (RunNone, ?p', ?w')"
    unfolding reap_dead_subscribers_def Let_def s_def [symmetric]
    using s16 rdv fd rel
    by (simp add: untrack_subscriber_def array_simps kMaxSubscribers_def idx Let_def)
  have wr: "descriptor_write_index sd' = descriptor_write_index ?sd"
    using same by (simp add: same_messages_def)
  have acts: "active ?sd' t \<longleftrightarrow> t \<noteq> s \<and> active ?sd t" for t
    by (auto simp: active_def)
  have unr: "unread ?sd' t = (if t = s then [] else unread ?sd t)" for t
    using acts [of t] wr by (simp add: unread_def rdx_def wrx_def)
  have "(\<lambda>t. set (unread ?sd' t)) = ?hold" by (auto simp: unr fun_eq_iff)
  with core have "core_inv (\<lambda>t. set (unread ?sd' t)) {} ?sd'" by (simp add: core_inv_indices)
  moreover have "ring_ok ?sd'"
    using data_invD(1) [OF inv] acts wr by (auto simp: ring_ok_def rdx_def wrx_def)
  moreover have "headers_inv (seq ?p') ?sd'"
  proof (rule headers_inv_frame [of _ ?sd])
    show "headers_inv (seq ?p') ?sd" using data_invD(4) [OF inv] by simp
    show "same_messages (\<Union>t \<in> - {s}. set (unread ?sd t)) ?sd ?sd'"
      using same by (simp add: same_messages_def)
  qed (auto simp: unr)
  moreover have "slots_inv ?p' ?sd'"
    using tables_remove [OF slots [unfolded slots_inv_def] act'] ext [of "active ?sd'", OF acts] by (simp add: slots_inv_def)
  ultimately have inv': "data_inv ?p' ?sd'" by (simp add: data_inv_def)
  have "queue ?sd' t = queue ?sd t" if "t \<noteq> s" for t
    using same that by (auto simp: queue_def unr same_messages_def)
  then show ?thesis
    using code inv' acts wr unfolding s_def [symmetric]
    by (intro exI [of _ ?p'] exI [of _ ?w']) simp
qed

lemma reap_errors:
  assumes "\<not> active (shm w) (unat slot)"
  shows "reap_dead_subscribers slot p w = Some (DeadSubscriberReapFailed, p, w)"
  using assms by (auto simp: reap_dead_subscribers_def active_def array_simps)

section \<open>Tracking\<close>

lemma track_correct:
  assumes inv: "data_inv p (shm w)"
    and slot: "unat (reg_slot_index reg) < kMaxSubscribers"
    and new: "\<not> active (shm w) (unat (reg_slot_index reg))"
    and fd: "reg_event_fd reg \<notin> set (data_available_event_fds p)"
  shows "\<exists>p' w'. track_subscriber reg p w = Some (None, p', w')
    \<and> data_inv p' (shm w') \<and> active (shm w') (unat (reg_slot_index reg))
    \<and> queue (shm w') (unat (reg_slot_index reg)) = []
    \<and> (\<forall>t. t \<noteq> unat (reg_slot_index reg) \<longrightarrow>
         (active (shm w') t \<longleftrightarrow> active (shm w) t) \<and> queue (shm w') t = queue (shm w) t)
    \<and> shm w' = (shm w)\<lparr>descriptor_read_indices := (descriptor_read_indices (shm w))
         (unat (reg_slot_index reg) := descriptor_write_index (shm w))\<rparr>
    \<and> p' = p\<lparr>slot_by_event_fd := (slot_by_event_fd p)(reg_event_fd reg \<mapsto> unat (reg_slot_index reg)),
         data_available_event_fds := data_available_event_fds p @ [reg_event_fd reg],
         event_fd_by_slot := (event_fd_by_slot p)(unat (reg_slot_index reg) := reg_event_fd reg)\<rparr>
    \<and> w' = w\<lparr>shm := shm w'\<rparr>"
proof -
  define s where "s = unat (reg_slot_index reg)"
  let ?sd = "shm w"
  let ?fd = "reg_event_fd reg"
  let ?sd' = "?sd\<lparr>descriptor_read_indices := (descriptor_read_indices ?sd)(s := descriptor_write_index ?sd)\<rparr>"
  let ?p' = "p\<lparr>slot_by_event_fd := (slot_by_event_fd p)(?fd \<mapsto> s),
         data_available_event_fds := data_available_event_fds p @ [?fd],
         event_fd_by_slot := (event_fd_by_slot p)(s := ?fd)\<rparr>"
  let ?w' = "w\<lparr>shm := ?sd'\<rparr>"
  have slots: "slots_inv p ?sd" and ok: "ring_ok ?sd" and core: "core_inv (\<lambda>t. set (unread ?sd t)) {} ?sd"
    and hd: "headers_inv (seq p) ?sd" using inv by (auto simp: data_inv_def)
  have s16: "s < kMaxSubscribers" using slot s_def by simp
  have inact: "\<not> active ?sd s" using new s_def by simp
  then have rd: "descriptor_read_indices ?sd s = kInvalidIndex" using s16 by (simp add: active_def)
  have nofd: "slot_by_event_fd p ?fd = None" using slots fd tables_okD(2) by (fastforce simp: slots_inv_def)
  have code: "track_subscriber reg p w = Some (None, ?p', ?w')"
    unfolding track_subscriber_def Let_def s_def [symmetric]
    using s16 rd nofd by (simp add: array_simps)
  have w16: "wrx ?sd < 16" using ok by (simp add: ring_ok_def)
  then have "descriptor_write_index ?sd \<noteq> kInvalidIndex"
    using kInvalidIndex_unat by (auto simp: wrx_def)
  then have acts: "active ?sd' t \<longleftrightarrow> t = s \<or> active ?sd t" for t
    using s16 by (auto simp: active_def)
  have unr: "unread ?sd' t = unread ?sd t" for t
    using acts [of t] inact by (auto simp: unread_def rdx_def wrx_def)
  have "core_inv (\<lambda>t. set (unread ?sd' t)) {} ?sd'" using core by (simp add: unr core_inv_indices)
  moreover have "ring_ok ?sd'"
    using ok acts w16 by (auto simp: ring_ok_def rdx_def wrx_def)
  moreover have "headers_inv (seq ?p') ?sd'"
    using hd by (simp add: headers_inv_def header_ok_def unr wrx_def)
  moreover have "slots_inv ?p' ?sd'"
    using tables_add [OF slots [unfolded slots_inv_def] inact fd] ext [of "active ?sd'", OF acts] by (simp add: slots_inv_def)
  ultimately have inv': "data_inv ?p' ?sd'" by (simp add: data_inv_def)
  have "queue ?sd' t = queue ?sd t" for t by (simp add: queue_def unr)
  moreover have "unread ?sd s = []" using inact by (simp add: unread_def)
  ultimately show ?thesis
    using code inv' acts unfolding s_def [symmetric]
    by (intro exI [of _ ?p'] exI [of _ ?w']) (simp add: queue_def)
qed

text \<open>On every error the publisher and the segment are untouched and the descriptor is closed.\<close>

lemma track_errors:
  assumes "kMaxSubscribers \<le> unat (reg_slot_index reg)
    \<or> active (shm w) (unat (reg_slot_index reg)) \<or> slot_by_event_fd p (reg_event_fd reg) \<noteq> None"
  shows "\<exists>e. track_subscriber reg p w = Some (Some e, p, close_fd (reg_event_fd reg) w)"
  using assms by (auto simp: track_subscriber_def Let_def active_def array_simps not_le)

end
