(* ===== verification/Publish_Message.thy ===== *)
theory Publish_Message
  imports Publisher_Data
begin

text \<open>
  Correctness of \<open>Publisher::try_publish_one\<close> (\<open>src/publisher.cpp\<close>), step by step along the
  code: the chunk taken from the free list, the message written into it, the reference mask,
  the advance of the write index and the notifications.
\<close>

section \<open>Acquiring a chunk\<close>

lemma claim_pop_inv:
  assumes inv: "core_inv hold orphans sd" and c: "c < 5" and ne: "\<not> free_list_empty c sd"
  shows "\<exists>i sd1 sd2. head_offset sd c = off_word (c, i) \<and> chunk_ok (c, i) \<and> (c, i) \<notin> orphans
    \<and> claim_chunk (int c) (off_word (c, i)) sd = Some (True, sd1) \<and> free_list_pop c sd1 = Some sd2
    \<and> core_inv hold (insert (c, i) orphans) sd2
    \<and> data sd2 = data sd \<and> desc_ring sd2 = desc_ring sd
    \<and> descriptor_read_indices sd2 = descriptor_read_indices sd
    \<and> descriptor_write_index sd2 = descriptor_write_index sd"
proof -
  from core_invD(6) [OF inv c] obtain xs where
    fl: "free_list c sd xs" and xs: "set xs = free_chunks orphans sd c" by blast
  from free_list_empty_iff [OF fl] ne have "length xs \<noteq> 1" by simp
  with fl obtain i j ys where x: "xs = i # j # ys"
    by (cases xs; cases "tl xs") (auto simp: free_list_def)
  have i: "chunk_ok (c, i)" "refmask sd (c, i) = 0" "(c, i) \<notin> orphans"
    using xs x by (auto simp: free_chunks_def)
  then have ic: "i < class_count c" by (simp add: chunk_ok_def)
  then have i64: "i < 64" using class_bounds(4) [OF c] by simp
  have ui: "unat (of_nat i :: u32) = i" using i64 by (simp add: unat_of_nat_small)
  have "\<not> is_in_use sd c i" using core_invD(7) [OF inv i(1)] i by simp
  moreover have "\<not> off_word (c, i) < kFirstOffset ! c"
    using c by (simp add: word_less_nat_alt unat_off_word [OF i(1)] class_tables chunk_off_def)
  moreover have "\<not> kLastOffset ! c < off_word (c, i)"
    using c ic by (auto simp: word_less_nat_alt unat_off_word [OF i(1)] class_tables chunk_off_def)
  moreover define sd1 where "sd1 = sd\<lparr>is_in_use := (is_in_use sd)(c := (is_in_use sd c)(i := True))\<rparr>"
  ultimately have claim: "claim_chunk (int c) (off_word (c, i)) sd = Some (True, sd1)"
    using c i64
    by (simp add: claim_chunk_def class_table_get local_chunk_index_off [OF i(1)] tracker_get_def
      tracker_set_def array_simps layout_simps(4,11) kClassCount_def kMaxChunkCountPerSizeClass_def ui)
  have fl1: "free_list c sd1 (i # j # ys)" using fl x by (simp add: sd1_def)
  from free_list_pop_repr [OF fl1] obtain sd2 where
    pop: "free_list_pop c sd1 = Some sd2" and fl2: "free_list c sd2 (j # ys)"
    and sd2: "sd2 = sd1\<lparr>head_offset := (head_offset sd1)(c := off_word (c, j))\<rparr>" by blast
  have at: "chunk_at sd2 = chunk_at sd" and refs: "refmask sd2 = refmask sd"
    by (auto simp: chunk_at_def refmask_def sd2 sd1_def)
  have "core_inv hold (insert (c, i) orphans) sd2"
  proof (rule core_invI)
    show "s < 16 \<and> q < 16 \<and> desc_ok (desc_ring sd2 q)" if "q \<in> hold s" for s q
      using core_invD(1-3) [OF inv that] by (simp add: sd2 sd1_def)
    show "inj_on (chunk_at sd2) (live hold)" unfolding at by (rule core_invD(4) [OF inv])
    show "bit (refmask sd2 ch) s \<longleftrightarrow> (\<exists>q \<in> hold s. chunk_at sd2 q = ch)" if "chunk_ok ch" for ch s
      unfolding at refs by (rule core_invD(5) [OF inv that])
    show "\<exists>zs. free_list d sd2 zs \<and> set zs = free_chunks (insert (c, i) orphans) sd2 d" if d: "d < 5" for d
    proof (cases "d = c")
      case True
      have "i \<notin> set (j # ys)" using fl x by (simp add: free_list_def)
      with xs x have "set (j # ys) = free_chunks (insert (c, i) orphans) sd2 c"
        unfolding free_chunks_def refs by auto
      with fl2 True show ?thesis by blast
    next
      case False
      from core_invD(6) [OF inv d] obtain zs where
        zs: "free_list d sd zs" "set zs = free_chunks orphans sd d" by blast
      have "free_list d sd2 zs"
        by (rule free_list_frame [OF zs(1)]) (use False in \<open>auto simp: sd2 sd1_def chunk_bytes_def\<close>)
      with zs(2) False show ?thesis unfolding free_chunks_def refs by auto
    qed
    show "is_in_use sd2 d j \<longleftrightarrow> refmask sd2 (d, j) \<noteq> 0 \<or> (d, j) \<in> insert (c, i) orphans"
      if "chunk_ok (d, j)" for d j
      using core_invD(7) [OF inv that] unfolding refs by (auto simp: sd2 sd1_def)
    show "chunk_ok b \<and> refmask sd2 b = 0" if "b \<in> insert (c, i) orphans" for b
      using that core_invD(8) [OF inv, of b] i unfolding refs by auto
  qed
  moreover have "head_offset sd c = off_word (c, i)" using fl x by (simp add: free_list_def)
  ultimately show ?thesis using i claim pop by (auto simp: sd2 sd1_def)
qed

lemma orphan_put_inv:
  assumes inv: "core_inv hold orphans sd" and ch: "ch \<in> orphans"
    and fits: "k + length bs \<le> class_size (fst ch)"
  shows "data_store sd (chunk_off ch + k) bs = Some (chunk_put sd ch k bs)"
    and "core_inv hold orphans (chunk_put sd ch k bs)"
    and "q \<in> live hold \<Longrightarrow> message_bytes (chunk_put sd ch k bs) q = message_bytes sd q"
proof -
  from core_invD(8) [OF inv ch] have ok: "chunk_ok ch" and z: "refmask sd ch = 0" by auto
  show "data_store sd (chunk_off ch + k) bs = Some (chunk_put sd ch k bs)"
    by (rule chunk_store [OF ok fits])
  have at: "chunk_at (chunk_put sd ch k bs) = chunk_at sd"
    and refs: "refmask (chunk_put sd ch k bs) = refmask sd"
    by (auto simp: chunk_at_def refmask_def)
  have lists: "\<exists>xs. free_list c (chunk_put sd ch k bs) xs
      \<and> set xs = free_chunks orphans (chunk_put sd ch k bs) c" if c: "c < 5" for c
  proof -
    from core_invD(6) [OF inv c] obtain xs where
      xs: "free_list c sd xs" "set xs = free_chunks orphans sd c" by blast
    have "free_list c (chunk_put sd ch k bs) xs"
    proof (rule free_list_frame [OF xs(1)])
      fix i assume "i \<in> set (butlast xs)"
      then have "chunk_ok (c, i)" "(c, i) \<notin> orphans"
        using xs by (auto simp: free_chunks_def dest: in_set_butlastD)
      with ch ok fits class_bounds(1) [OF c]
      show "chunk_bytes (chunk_put sd ch k bs) (c, i) 0 4 = chunk_bytes sd (c, i) 0 4"
        by (intro chunk_bytes_put_other) auto
    qed simp_all
    with xs(2) show ?thesis unfolding free_chunks_def refs by blast
  qed
  show "core_inv hold orphans (chunk_put sd ch k bs)"
  proof (rule core_invI)
    show "s < 16 \<and> q < 16 \<and> desc_ok (desc_ring (chunk_put sd ch k bs) q)" if "q \<in> hold s" for s q
      using core_invD(1-3) [OF inv that] by simp
    show "inj_on (chunk_at (chunk_put sd ch k bs)) (live hold)"
      unfolding at by (rule core_invD(4) [OF inv])
    show "bit (refmask (chunk_put sd ch k bs) b) s \<longleftrightarrow> (\<exists>q \<in> hold s. chunk_at (chunk_put sd ch k bs) q = b)"
      if "chunk_ok b" for b s
      unfolding at refs by (rule core_invD(5) [OF inv that])
    show "is_in_use (chunk_put sd ch k bs) c i \<longleftrightarrow> refmask (chunk_put sd ch k bs) (c, i) \<noteq> 0 \<or> (c, i) \<in> orphans"
      if "chunk_ok (c, i)" for c i
      using core_invD(7) [OF inv that] unfolding refs by simp
    show "chunk_ok b \<and> refmask (chunk_put sd ch k bs) b = 0" if "b \<in> orphans" for b
      using core_invD(8) [OF inv that] unfolding refs .
  qed (fact lists)
  show "message_bytes (chunk_put sd ch k bs) q = message_bytes sd q" if "q \<in> live hold"
  proof -
    from that obtain s where q: "q \<in> hold s" by (auto simp: live_def)
    show ?thesis
    proof (rule message_bytes_frame [OF inv q])
      fix b l n assume b: "chunk_ok b" "refmask sd b \<noteq> 0" "l + n \<le> class_size (fst b)"
      with z ok fits show "chunk_bytes (chunk_put sd ch k bs) b l n = chunk_bytes sd b l n"
        by (intro chunk_bytes_put_other) auto
    qed simp
  qed
qed

lemma ring_put_inv:
  assumes inv: "core_inv hold orphans sd" and q: "q \<notin> live hold"
  shows "core_inv hold orphans (sd\<lparr>desc_ring := (desc_ring sd)(q := d)\<rparr>)"
    and "r \<in> live hold \<Longrightarrow>
      message_bytes (sd\<lparr>desc_ring := (desc_ring sd)(q := d)\<rparr>) r = message_bytes sd r"
proof -
  let ?sd = "sd\<lparr>desc_ring := (desc_ring sd)(q := d)\<rparr>"
  have at: "chunk_at ?sd r = chunk_at sd r" if "r \<in> live hold" for r
    using that q by (auto simp: chunk_at_def)
  have hl: "r \<in> live hold" if "r \<in> hold s" for r s using that by (auto simp: live_def)
  have refs: "refmask ?sd = refmask sd" by (auto simp: refmask_def)
  show "core_inv hold orphans ?sd"
  proof (rule core_invI)
    show "s < 16 \<and> r < 16 \<and> desc_ok (desc_ring ?sd r)" if "r \<in> hold s" for s r
      using core_invD(1-3) [OF inv that] hl [OF that] q by auto
    show "inj_on (chunk_at ?sd) (live hold)"
      using core_invD(4) [OF inv] at by (auto simp: inj_on_def)
    show "bit (refmask ?sd b) s \<longleftrightarrow> (\<exists>r \<in> hold s. chunk_at ?sd r = b)" if "chunk_ok b" for b s
      using core_invD(5) [OF inv that, of s] at hl unfolding refs by auto
    show "\<exists>xs. free_list c ?sd xs \<and> set xs = free_chunks orphans ?sd c" if "c < 5" for c
      using core_invD(6) [OF inv that] unfolding free_chunks_def refs by simp
    show "is_in_use ?sd c i \<longleftrightarrow> refmask ?sd (c, i) \<noteq> 0 \<or> (c, i) \<in> orphans" if "chunk_ok (c, i)" for c i
      using core_invD(7) [OF inv that] unfolding refs by simp
    show "chunk_ok b \<and> refmask ?sd b = 0" if "b \<in> orphans" for b
      using core_invD(8) [OF inv that] unfolding refs .
  qed
  show "message_bytes ?sd r = message_bytes sd r" if "r \<in> live hold"
    using that q at [OF that] by (auto simp: message_bytes_def chunk_bytes_def)
qed


lemma write_message_inv:
  assumes inv: "core_inv hold orphans sd" and ch: "ch \<in> orphans"
    and wr: "unat wr < 16" "unat wr \<notin> live hold"
    and len: "unat len = length bytes + 8" "length bytes + 8 \<le> class_size (fst ch)"
    and cls: "find_size_class len = int (fst ch)"
    and n: "n \<noteq> 2147483647"
  shows "\<exists>sd'. write_message wr (off_word ch) len n bytes sd = Some (n + 1, sd')
    \<and> core_inv hold orphans sd'
    \<and> desc_ring sd' = (desc_ring sd)(unat wr := \<lparr>md_offset = off_word ch, md_len = len\<rparr>)
    \<and> message_bytes sd' (unat wr) = le_bytes 4 kMagic @ le_bytes 4 n @ bytes
    \<and> (\<forall>q \<in> live hold. message_bytes sd' q = message_bytes sd q)
    \<and> descriptor_read_indices sd' = descriptor_read_indices sd
    \<and> descriptor_write_index sd' = descriptor_write_index sd"
proof -
  from core_invD(8) [OF inv ch] have ok: "chunk_ok ch" by simp
  let ?d = "\<lparr>md_offset = off_word ch, md_len = len\<rparr>"
  let ?sd1 = "sd\<lparr>desc_ring := (desc_ring sd)(unat wr := ?d)\<rparr>"
  let ?sd2 = "chunk_put ?sd1 ch 0 (le_bytes 4 kMagic)"
  let ?sd3 = "chunk_put ?sd2 ch 4 (le_bytes 4 n)"
  let ?sd4 = "if bytes \<noteq> [] then chunk_put ?sd3 ch 8 bytes else ?sd3"
  note inv1 = ring_put_inv(1) [OF inv wr(2), of ?d]
  note put1 = orphan_put_inv [OF inv1 ch, of 0 "le_bytes 4 kMagic"]
  have inv2: "core_inv hold orphans ?sd2" using put1(2) len by simp
  note put2 = orphan_put_inv [OF inv2 ch, of 4 "le_bytes 4 n"]
  have inv3: "core_inv hold orphans ?sd3" using put2(2) len by simp
  note put3 = orphan_put_inv [OF inv3 ch, of 8 bytes]
  have inv4: "core_inv hold orphans ?sd4" using put3(2) len inv3 by simp
  have s1: "data_store ?sd1 (unat (off_word ch)) (le_bytes 4 kMagic) = Some ?sd2"
    using put1(1) len by (simp add: unat_off_word [OF ok])
  have s2: "data_store ?sd2 (unat (off_word ch) + 4) (le_bytes 4 n) = Some ?sd3"
    using put2(1) len by (simp add: unat_off_word [OF ok])
  have s3: "data_store ?sd3 (unat (off_word ch) + kMessageHeaderSizeBytes) bytes = Some (chunk_put ?sd3 ch 8 bytes)"
    using put3(1) len by (simp add: unat_off_word [OF ok] kMessageHeaderSizeBytes_def)
  have code: "write_message wr (off_word ch) len n bytes sd = Some (n + 1, ?sd4)"
    using wr(1) s1 s2 s3 n
    by (simp add: write_message_def array_simps kDescriptorSlotCount_def int_incr_def)
  have at: "chunk_at ?sd4 (unat wr) = ch"
    using desc_chunk_of [of len "fst ch" "snd ch"] cls ok by (simp add: chunk_at_def)
  have "message_bytes ?sd4 (unat wr) = chunk_bytes ?sd4 ch 0 (8 + length bytes)"
    using at len(1) by (simp add: message_bytes_def add.commute)
  also have "\<dots> = chunk_bytes ?sd4 ch 0 4 @ chunk_bytes ?sd4 ch 4 4 @ chunk_bytes ?sd4 ch 8 (length bytes)"
  proof -
    have "[chunk_off ch..<chunk_off ch + (8 + length bytes)] =
        [chunk_off ch..<chunk_off ch + 4] @ [chunk_off ch + 4..<chunk_off ch + 8]
        @ [chunk_off ch + 8..<chunk_off ch + 8 + length bytes]"
      using upt_add_eq_append [of "chunk_off ch" "chunk_off ch + 4" "4 + length bytes"]
        upt_add_eq_append [of "chunk_off ch + 4" "chunk_off ch + 8" "length bytes"]
      by (simp add: add.assoc)
    then show ?thesis by (simp add: chunk_bytes_def add.assoc)
  qed
  also have "chunk_bytes ?sd4 ch 0 4 = le_bytes 4 kMagic"
    using chunk_bytes_put_same [of ?sd1 ch 0 "le_bytes 4 kMagic"]
    by (simp add: chunk_bytes_put_apart)
  also have "chunk_bytes ?sd4 ch 4 4 = le_bytes 4 n"
    using chunk_bytes_put_same [of ?sd2 ch 4 "le_bytes 4 n"]
    by (simp add: chunk_bytes_put_apart)
  also have "chunk_bytes ?sd4 ch 8 (length bytes) = bytes"
    using chunk_bytes_put_same [of ?sd3 ch 8 bytes] by (simp add: chunk_bytes_def)
  finally have msg: "message_bytes ?sd4 (unat wr) = le_bytes 4 kMagic @ le_bytes 4 n @ bytes" .
  have "message_bytes ?sd4 q = message_bytes sd q" if q: "q \<in> live hold" for q
  proof -
    have "message_bytes ?sd4 q = message_bytes ?sd3 q" using put3(3) [OF _ q] len by simp
    also have "\<dots> = message_bytes ?sd2 q" using put2(3) [OF _ q] len by simp
    also have "\<dots> = message_bytes ?sd1 q" using put1(3) [OF _ q] len by simp
    also have "\<dots> = message_bytes sd q" by (rule ring_put_inv(2) [OF inv wr(2) q])
    finally show ?thesis .
  qed
  then show ?thesis using code inv4 msg by auto
qed

lemma add_references_inv:
  assumes inv: "core_inv hold orphans sd" and ch: "chunk_at sd q \<in> orphans"
    and q: "q \<notin> live hold" "q < 16" "desc_ok (desc_ring sd q)"
    and g: "unat g = chunk_gidx (chunk_at sd q)"
    and refs: "\<And>k. bit refs k \<longleftrightarrow> k \<in> S" and S: "S \<subseteq> {..<16}" "S \<noteq> {}"
  shows "\<exists>sd'. add_references g refs sd = Some sd'
    \<and> core_inv (\<lambda>s. if s \<in> S then insert q (hold s) else hold s) (orphans - {chunk_at sd q}) sd'
    \<and> sd' = sd\<lparr>chunk_reference_counts := chunk_reference_counts sd'\<rparr>"
proof -
  let ?ch = "chunk_at sd q"
  let ?hold = "\<lambda>s. if s \<in> S then insert q (hold s) else hold s"
  from core_invD(8) [OF inv ch] have ok: "chunk_ok ?ch" and z: "refmask sd ?ch = 0" by auto
  let ?sd' = "sd\<lparr>chunk_reference_counts := (chunk_reference_counts sd)(chunk_gidx ?ch := refs)\<rparr>"
  have code: "add_references g refs sd = Some ?sd'"
    using chunk_gidx_less [OF ok] z
    by (simp add: add_references_def g array_simps refmask_def)
  have at: "chunk_at ?sd' = chunk_at sd" by (auto simp: chunk_at_def)
  have nz: "refs \<noteq> 0" using refs S(2) by auto
  have new: "refmask ?sd' b = (if b = ?ch then refs else refmask sd b)" if "chunk_ok b" for b
    by (rule refmask_upd [OF ok that])
  have fresh: "chunk_at sd r \<noteq> ?ch" if "r \<in> hold s" for r s
    using refmask_zero_iff [OF inv ok] z in_live [of r hold s, OF that] by auto
  have lv: "live ?hold = insert q (live hold)"
    using S(2) by (auto simp: live_def split: if_splits)
  have "core_inv ?hold (orphans - {?ch}) ?sd'"
  proof (rule core_invI)
    show "s < 16 \<and> r < 16 \<and> desc_ok (desc_ring ?sd' r)" if "r \<in> ?hold s" for s r
      using that core_invD(1-3) [OF inv, of r s] q S(1) by (auto split: if_splits)
    show "inj_on (chunk_at ?sd') (live ?hold)"
    proof -
      have "?ch \<notin> chunk_at sd ` live hold" using fresh unfolding live_def by fastforce
      with core_invD(4) [OF inv] q(1) show ?thesis unfolding at lv by simp
    qed
    show "bit (refmask ?sd' b) s \<longleftrightarrow> (\<exists>r \<in> ?hold s. chunk_at ?sd' r = b)" if b: "chunk_ok b" for b s
    proof (cases "b = ?ch")
      case True
      then show ?thesis using new [OF ok] refs fresh unfolding at by auto
    next
      case False
      then show ?thesis using new [OF b] core_invD(5) [OF inv b, of s] unfolding at by auto
    qed
    show "\<exists>xs. free_list c ?sd' xs \<and> set xs = free_chunks (orphans - {?ch}) ?sd' c" if c: "c < 5" for c
    proof -
      have "chunk_ok (c, i) \<and> refmask ?sd' (c, i) = 0 \<and> (c, i) \<notin> orphans - {?ch}
          \<longleftrightarrow> chunk_ok (c, i) \<and> refmask sd (c, i) = 0 \<and> (c, i) \<notin> orphans" for i
        using new [of "(c, i)"] nz ch by (cases "(c, i) = ?ch") auto
      then have "free_chunks (orphans - {?ch}) ?sd' c = free_chunks orphans sd c"
        by (simp only: free_chunks_def)
      with core_invD(6) [OF inv c] show ?thesis by simp
    qed
    show "is_in_use ?sd' c i \<longleftrightarrow> refmask ?sd' (c, i) \<noteq> 0 \<or> (c, i) \<in> orphans - {?ch}"
      if b: "chunk_ok (c, i)" for c i
      using core_invD(7) [OF inv b] new [OF b] nz ch by (cases "(c, i) = ?ch") auto
    show "chunk_ok b \<and> refmask ?sd' b = 0" if "b \<in> orphans - {?ch}" for b
      using core_invD(8) [OF inv, of b] new [of b] that by auto
  qed
  with code show ?thesis by (intro exI [of _ ?sd']) simp
qed

section \<open>Publishing\<close>

lemma chunk_reference_mask_fold:
  assumes "\<forall>fd \<in> set fds. \<exists>s<32. slots fd = Some s"
  shows "chunk_reference_mask slots fds refs =
    Some (Inr (fold (\<lambda>s m. m + slot_bit s) (map (\<lambda>fd. the (slots fd)) fds) refs))"
  using assms by (induction fds arbitrary: refs) auto

text \<open>The mask written for a message holds exactly the active slots.\<close>

lemma chunk_reference_mask_active:
  assumes "slots_inv p sd"
  shows "\<exists>refs. chunk_reference_mask (slot_by_event_fd p) (data_available_event_fds p) 0 = Some (Inr refs)
    \<and> (\<forall>k. bit refs k \<longleftrightarrow> k \<in> {s. active sd s})"
proof -
  let ?slots = "slot_by_event_fd p"
  let ?fds = "data_available_event_fds p"
  let ?ss = "map (\<lambda>fd. the (?slots fd)) ?fds"
  note t = tables_okD [OF assms [unfolded slots_inv_def]]
  have slot: "\<exists>s. ?slots fd = Some s \<and> active sd s" if "fd \<in> set ?fds" for fd
  proof -
    from that t(2) obtain s where "?slots fd = Some s" by blast
    with t(3) show ?thesis by blast
  qed
  have "\<exists>s<32. ?slots fd = Some s" if fd: "fd \<in> set ?fds" for fd
  proof -
    from slot [OF fd] obtain s where s: "?slots fd = Some s" "active sd s" by blast
    from active_less [OF s(2)] have "s < 32" by simp
    with s(1) show ?thesis by blast
  qed
  then have m: "chunk_reference_mask ?slots ?fds 0 = Some (Inr (fold (\<lambda>s m. m + slot_bit s) ?ss 0))"
    by (intro chunk_reference_mask_fold ballI)
  have "inj_on (\<lambda>fd. the (?slots fd)) (set ?fds)"
  proof (rule inj_onI)
    fix x y assume x: "x \<in> set ?fds" and y: "y \<in> set ?fds" and eq: "the (?slots x) = the (?slots y)"
    from slot [OF x] slot [OF y] eq obtain s where s: "?slots x = Some s" "?slots y = Some s" by auto
    from t(4) [OF s(1)] t(4) [OF s(2)] show "x = y" by simp
  qed
  with t(1) have d: "distinct ?ss" by (simp add: distinct_map)
  have act: "s \<in> set ?ss \<longleftrightarrow> active sd s" for s
  proof
    assume "s \<in> set ?ss"
    then obtain fd where "fd \<in> set ?fds" "s = the (?slots fd)" by auto
    with slot [of fd] show "active sd s" by auto
  next
    assume "active sd s"
    from t(5) [OF this] have e: "?slots (event_fd_by_slot p s) = Some s" .
    then have "event_fd_by_slot p s \<in> set ?fds" using t(2) by (simp add: domI)
    with e show "s \<in> set ?ss" by (simp add: image_iff) (metis option.sel)
  qed
  have "s < 32 \<and> \<not> bit (0::u32) s" if "s \<in> set ?ss" for s
    using that active_less [of sd s] unfolding act by simp
  then have "\<forall>s \<in> set ?ss. s < 32 \<and> \<not> bit (0::u32) s" by (intro ballI)
  from bit_fold_slot_bits [OF d this]
  have "bit (fold (\<lambda>s m. m + slot_bit s) ?ss 0) k \<longleftrightarrow> k \<in> {s. active sd s}" for k
    unfolding act by simp
  with m show ?thesis by blast
qed

lemma advance_write_index_eq:
  assumes "wr = descriptor_write_index sd" "unat wr < 16"
  shows "wrx (advance_write_index wr sd) = (wrx sd + 1) mod 16"
proof -
  have u: "unat ((wr + 1) mod 16) = (unat wr + 1) mod 16"
    using assms(2) by (simp add: unat_mod unat_add_no_wrap)
  then have "\<not> 16 \<le> (wr + 1) mod 16" by (simp add: word_le_nat_alt not_le)
  with u show ?thesis
    using assms(1) by (simp add: advance_write_index_def Let_def wrx_def kDescriptorSlotCount_def)
qed

lemma advance_select [simp]:
  "desc_ring (advance_write_index wr sd) = desc_ring sd"
  "data (advance_write_index wr sd) = data sd"
  "head_offset (advance_write_index wr sd) = head_offset sd"
  "tail_offset (advance_write_index wr sd) = tail_offset sd"
  "is_in_use (advance_write_index wr sd) = is_in_use sd"
  "chunk_reference_counts (advance_write_index wr sd) = chunk_reference_counts sd"
  "descriptor_read_indices (advance_write_index wr sd) = descriptor_read_indices sd"
  by (simp_all add: advance_write_index_def Let_def)

lemma message_bytes_cong:
  "desc_ring sd' = desc_ring sd \<Longrightarrow> data sd' = data sd \<Longrightarrow> message_bytes sd' q = message_bytes sd q"
  by (simp add: message_bytes_def chunk_at_def chunk_bytes_def)

text \<open>Every active slot sees one more position, the one just written.\<close>

lemma unread_advance:
  assumes ok: "ring_ok sd" and room: "\<And>s. active sd s \<Longrightarrow> length (unread sd s) \<noteq> 15"
    and wr: "wr = descriptor_write_index sd"
    and same: "descriptor_read_indices sd' = descriptor_read_indices sd"
      "descriptor_write_index sd' = wr"
  shows "ring_ok (advance_write_index wr sd')"
    "active (advance_write_index wr sd') s \<longleftrightarrow> active sd s"
    "unread (advance_write_index wr sd') s = (if active sd s then unread sd s @ [wrx sd] else [])"
proof -
  let ?sd = "advance_write_index wr sd'"
  have act: "active ?sd s \<longleftrightarrow> active sd s" for s using same by (simp add: active_def)
  then show "active ?sd s \<longleftrightarrow> active sd s" .
  have w16: "wrx sd < 16" using ok by (simp add: ring_ok_def)
  have w: "wrx ?sd = (wrx sd + 1) mod 16"
    using advance_write_index_eq [of wr sd'] same w16 by (simp add: wrx_def wr)
  then show "ring_ok ?sd" using ok act same by (simp add: ring_ok_def rdx_def)
  show "unread ?sd s = (if active sd s then unread sd s @ [wrx sd] else [])"
  proof (cases "active sd s")
    case True
    then have r: "rdx sd s < 16" using ok by (simp add: ring_ok_def)
    from room [OF True] True ring_span_full_iff [OF r w16]
    have ne: "(wrx sd + 1) mod 16 \<noteq> rdx sd s" by (simp add: unread_def)
    have "rdx ?sd s = rdx sd s" using same by (simp add: rdx_def)
    with True act w ring_span_snoc [OF r w16 ne] show ?thesis by (simp add: unread_def)
  qed (use act in \<open>simp add: unread_def\<close>)
qed

lemma headers_publish:
  assumes hd: "headers_inv n sd" and ok: "ring_ok sd" and n: "n \<noteq> 2147483647"
    and w': "wrx sd' = (wrx sd + 1) mod 16"
    and unr: "\<And>s. unread sd' s = (if active sd s then unread sd s @ [wrx sd] else [])"
    and old: "\<And>s q. q \<in> set (unread sd s) \<Longrightarrow> message_bytes sd' q = message_bytes sd q"
    and new: "message_bytes sd' (wrx sd) = le_bytes 4 kMagic @ le_bytes 4 n @ payload"
  shows "headers_inv (n + 1) sd'"
proof -
  have nle: "unat n \<le> 2147483647" using hd by (simp add: headers_inv_def)
  moreover have "unat n \<noteq> 2147483647" using n by (simp add: word_unat_eq_iff)
  ultimately have "unat n < 2147483647" by simp
  then have n1: "unat (n + 1) = Suc (unat n)" by (intro unat_Suc_no_wrap) simp
  have w16: "wrx sd < 16" using ok by (simp add: ring_ok_def)
  have "header_ok sd' q (n + 1 - of_nat (back_dist (wrx sd') q)) \<and> back_dist (wrx sd') q \<le> unat (n + 1)"
    if q: "q \<in> set (unread sd' s)" for s q
  proof -
    have no: "q \<noteq> (wrx sd + 1) mod 16"
      using q ring_span_end [of "wrx sd'"] by (auto simp: unread_def w' split: if_splits)
    from q unr [of s] consider "q \<in> set (unread sd s)" | "q = wrx sd" by (auto split: if_splits)
    then show ?thesis
    proof cases
      case 1
      note b = back_dist_Suc [OF w16 unread_position_less [OF ok 1] no]
      have e: "n + 1 - of_nat (back_dist (wrx sd') q) = n - of_nat (back_dist (wrx sd) q)"
        unfolding w' b by simp
      have "header_ok sd q (n - of_nat (back_dist (wrx sd) q))" "back_dist (wrx sd) q \<le> unat n"
        using hd 1 by (auto simp: headers_inv_def)
      then show ?thesis unfolding e header_ok_def old [OF 1] using b by (simp add: n1 w')
    next
      case 2
      have "header_ok sd' (wrx sd) n" by (simp add: header_ok_def new)
      then show ?thesis unfolding 2 w' back_dist_last [OF w16] by (simp add: n1)
    qed
  qed
  with n1 \<open>unat n < 2147483647\<close> show ?thesis by (simp add: headers_inv_def)
qed

lemma publish_into_chunk_correct:
  assumes inv: "data_inv p (shm w)" and c: "c < 5" and cls: "find_size_class len = int c"
    and len: "unat len = length payload + 8"
    and ne: "\<not> free_list_empty c (shm w)"
    and act: "active (shm w) t" and room: "\<And>s. active (shm w) s \<Longrightarrow> length (unread (shm w) s) \<noteq> 15"
    and n: "seq p \<noteq> 2147483647"
    and sig: "\<forall>fd \<in> set (data_available_event_fds p). sig fd"
  shows "\<exists>sd'. publish_into_chunk sig (int c) len payload p w
      = Some (Inr Succeeded, p\<lparr>seq := seq p + 1\<rparr>,
          w\<lparr>shm := sd', signalled := signalled w @ data_available_event_fds p\<rparr>)
    \<and> data_inv (p\<lparr>seq := seq p + 1\<rparr>) sd'
    \<and> (\<forall>s. active sd' s \<longleftrightarrow> active (shm w) s)
    \<and> (\<forall>s. queue sd' s = (if active (shm w) s then queue (shm w) s @ [payload] else []))
    \<and> descriptor_read_indices sd' = descriptor_read_indices (shm w)
    \<and> wrx sd' = (wrx (shm w) + 1) mod 16"
proof -
  let ?sd = "shm w" let ?wr = "descriptor_write_index ?sd"
  let ?hold = "\<lambda>s. set (unread ?sd s)"
  note ok = data_invD(1) [OF inv] and core = data_invD(2) [OF inv]
  have w16: "wrx ?sd < 16" using ok by (simp add: ring_ok_def)
  have wl: "wrx ?sd \<notin> live ?hold"
    using ring_span_end [of "wrx ?sd"] by (auto simp: live_def unread_def split: if_splits)
  obtain i sd1 sd2 where hd: "head_offset ?sd c = off_word (c, i)" and ci: "chunk_ok (c, i)"
    and clm: "claim_chunk (int c) (off_word (c, i)) ?sd = Some (True, sd1)"
    and pop: "free_list_pop c sd1 = Some sd2" and inv2: "core_inv ?hold {(c, i)} sd2"
    and same2: "data sd2 = data ?sd" "desc_ring sd2 = desc_ring ?sd"
      "descriptor_read_indices sd2 = descriptor_read_indices ?sd" "descriptor_write_index sd2 = ?wr"
    using claim_pop_inv [OF core c ne] by blast
  have fits: "length payload + 8 \<le> class_size c"
    using find_size_class_cases [of len] cls len by auto
  obtain sd3 where wrt: "write_message ?wr (off_word (c, i)) len (seq p) payload sd2 = Some (seq p + 1, sd3)"
    and inv3: "core_inv ?hold {(c, i)} sd3"
    and ring3: "desc_ring sd3 = (desc_ring sd2)(wrx ?sd := \<lparr>md_offset = off_word (c, i), md_len = len\<rparr>)"
    and new3: "message_bytes sd3 (wrx ?sd) = le_bytes 4 kMagic @ le_bytes 4 (seq p) @ payload"
    and old3: "\<forall>q \<in> live ?hold. message_bytes sd3 q = message_bytes sd2 q"
    and same3: "descriptor_read_indices sd3 = descriptor_read_indices sd2"
      "descriptor_write_index sd3 = descriptor_write_index sd2"
    using write_message_inv [OF inv2, of "(c, i)" ?wr len payload "seq p"] w16 wl len fits cls n
    unfolding wrx_def by auto
  obtain g where g: "global_chunk_index (off_word (c, i)) (int c) = Some g" "unat g = chunk_gidx (c, i)"
    using global_chunk_index_off [OF ci] by blast
  obtain refs where refs: "chunk_reference_mask (slot_by_event_fd p) (data_available_event_fds p) 0 = Some (Inr refs)"
    "\<And>k. bit refs k \<longleftrightarrow> k \<in> {s. active ?sd s}"
    using chunk_reference_mask_active [OF data_invD(3) [OF inv]] by blast
  have ch: "chunk_at sd3 (wrx ?sd) = (c, i)" and dok: "desc_ok (desc_ring sd3 (wrx ?sd))"
    using desc_chunk_of [OF cls ci] desc_ok_of [OF cls ci] len by (simp_all add: chunk_at_def ring3)
  obtain sd4 where add: "add_references g refs sd3 = Some sd4"
    and inv4: "core_inv (\<lambda>s. if active ?sd s then insert (wrx ?sd) (?hold s) else ?hold s) {} sd4"
    and sd4: "sd4 = sd3\<lparr>chunk_reference_counts := chunk_reference_counts sd4\<rparr>"
    using add_references_inv [OF inv3 _ wl w16 dok _ refs(2), of g] g(2) ch act active_less by auto
  define sd5 where "sd5 = advance_write_index ?wr sd4"
  have ring4: "desc_ring sd4 = desc_ring sd3" "data sd4 = data sd3"
    "descriptor_read_indices sd4 = descriptor_read_indices ?sd" "descriptor_write_index sd4 = ?wr"
    using same2 same3 by (subst sd4, simp)+
  note adv = unread_advance [OF ok room refl ring4(3,4), folded sd5_def]
  have msg: "message_bytes sd5 = message_bytes sd3"
    unfolding sd5_def using ring4 by (intro ext message_bytes_cong) simp_all
  have new: "message_bytes sd5 (wrx ?sd) = le_bytes 4 kMagic @ le_bytes 4 (seq p) @ payload"
    unfolding msg by (rule new3)
  have old: "message_bytes sd5 q = message_bytes ?sd q" if "q \<in> ?hold s" for q s
    using old3 in_live [of q ?hold s, OF that] message_bytes_cong [OF same2(2,1)] by (simp add: msg)
  have hold: "(\<lambda>s. set (unread sd5 s)) = (\<lambda>s. if active ?sd s then insert (wrx ?sd) (?hold s) else ?hold s)"
    by (rule ext) (auto simp: adv(3) unread_inactive)
  have "core_inv (\<lambda>s. set (unread sd5 s)) {} sd5"
    unfolding hold by (rule core_inv_cong [OF inv4]) (simp_all add: sd5_def)
  moreover have "headers_inv (seq p + 1) sd5"
    using advance_write_index_eq [of ?wr sd4] ring4(4) w16
    by (intro headers_publish [OF data_invD(4) [OF inv] ok n _ adv(3) old new]) (simp_all add: sd5_def wrx_def)
  moreover have "slots_inv (p\<lparr>seq := seq p + 1\<rparr>) sd5"
    using data_invD(3) [OF inv] ext [of "active sd5", OF adv(2)] by (simp add: slots_inv_def)
  ultimately have "data_inv (p\<lparr>seq := seq p + 1\<rparr>) sd5" using adv(1) by (simp add: data_inv_def)
  moreover have "queue sd5 s = (if active ?sd s then queue ?sd s @ [payload] else [])" for s
    using old new by (simp add: queue_def adv(3) unread_inactive)
  moreover have "publish_into_chunk sig (int c) len payload p w
      = Some (Inr Succeeded, p\<lparr>seq := seq p + 1\<rparr>,
          w\<lparr>shm := sd5, signalled := signalled w @ data_available_event_fds p\<rparr>)"
    using c clm pop wrt g refs(1) add
    by (simp add: publish_into_chunk_def array_simps kClassCount_def hd signal_each_all [OF sig] sd5_def [symmetric])
  moreover have "descriptor_read_indices sd5 = descriptor_read_indices ?sd" "wrx sd5 = (wrx ?sd + 1) mod 16"
    using advance_write_index_eq [of ?wr sd4] ring4(3,4) w16 by (simp_all add: sd5_def wrx_def)
  ultimately show ?thesis using adv(2) by blast
qed

section \<open>The whole attempt\<close>

text \<open>The attempt is held back exactly when nobody listens, some reader is fifteen
  messages behind, or the size class has a single chunk left.\<close>

definition held_back :: "bytes \<Rightarrow> shared_data \<Rightarrow> bool" where
  "held_back payload sd \<longleftrightarrow>
     (\<forall>s. \<not> active sd s) \<or> (\<exists>s. active sd s \<and> length (queue sd s) = 15)
     \<or> free_list_empty (nat (find_size_class (of_nat (length payload + 8)))) sd"

lemma payload_size_class:
  assumes "length payload \<le> kMaxPayloadSizeBytes"
  shows "unat (of_nat (length payload + 8) :: u32) = length payload + 8"
    "\<exists>c<5. find_size_class (of_nat (length payload + 8)) = int c"
proof -
  have l: "length payload + 8 \<le> 1024"
    using assms by (simp add: kMaxPayloadSizeBytes_def kMessageHeaderSizeBytes_def)
  then show u: "unat (of_nat (length payload + 8) :: u32) = length payload + 8"
    by (intro unat_of_nat_small) simp
  from find_size_class_cases [of "of_nat (length payload + 8)"] l
  show "\<exists>c<5. find_size_class (of_nat (length payload + 8)) = int c" unfolding u by auto
qed

lemma try_publish_one_body:
  assumes "length payload \<le> kMaxPayloadSizeBytes" "data_inv p (shm w)"
  shows "try_publish_one sig payload p w =
    (if held_back payload (shm w) then Some (Inr Blocked, p, w)
     else publish_into_chunk sig (find_size_class (of_nat (length payload + 8)))
       (of_nat (length payload + 8)) payload p w)"
proof -
  have l: "length payload \<le> 1016"
    using assms(1) by (simp add: kMaxPayloadSizeBytes_def kMessageHeaderSizeBytes_def)
  from payload_size_class(2) [OF assms(1)] obtain c where
    c: "find_size_class (of_nat (length payload + 8)) = int c" by blast
  have q: "length (queue sd s) = length (unread sd s)" for sd s by (simp add: queue_def)
  show ?thesis
    using l ring_blocked_iff [OF data_invD(1) [OF assms(2)]]
    unfolding try_publish_one_def Let_def kMessageHeaderSizeBytes_def held_back_def q
    by (auto simp: c simp del: of_nat_add)
qed

lemma try_publish_one_too_large:
  assumes "kMaxPayloadSizeBytes < length payload"
  shows "try_publish_one sig payload p w = Some (Inl MessageSizeClassInvalid, p, w)"
proof (cases "length payload > 4294967295 - kMessageHeaderSizeBytes")
  case False
  let ?n = "of_nat (length payload + kMessageHeaderSizeBytes) :: u32"
  have u: "unat ?n = length payload + 8"
    using False by (intro trans [OF unat_of_nat_small]) (simp_all add: kMessageHeaderSizeBytes_def)
  have "class_size c \<le> 1024" if "c < 5" for c using class_bounds(2) [OF that] .
  with assms find_size_class_cases [of ?n] have "find_size_class ?n = -1"
    unfolding u by (fastforce simp: kMaxPayloadSizeBytes_def kMessageHeaderSizeBytes_def)
  with False show ?thesis by (simp add: try_publish_one_def Let_def)
qed (simp add: try_publish_one_def Let_def)

lemma try_publish_one_ok:
  assumes inv: "data_inv p (shm w)" and len: "length payload \<le> kMaxPayloadSizeBytes"
    and go: "\<not> held_back payload (shm w)" and n: "seq p \<noteq> 2147483647"
    and sig: "\<forall>fd \<in> set (data_available_event_fds p). sig fd"
  shows "\<exists>sd'. try_publish_one sig payload p w
      = Some (Inr Succeeded, p\<lparr>seq := seq p + 1\<rparr>,
          w\<lparr>shm := sd', signalled := signalled w @ data_available_event_fds p\<rparr>)
    \<and> data_inv (p\<lparr>seq := seq p + 1\<rparr>) sd'
    \<and> (\<forall>s. active sd' s \<longleftrightarrow> active (shm w) s)
    \<and> (\<forall>s. queue sd' s = (if active (shm w) s then queue (shm w) s @ [payload] else []))
    \<and> descriptor_read_indices sd' = descriptor_read_indices (shm w)
    \<and> wrx sd' = (wrx (shm w) + 1) mod 16"
proof -
  from payload_size_class(2) [OF len] obtain c where
    c: "c < 5" "find_size_class (of_nat (length payload + 8)) = int c" by blast
  have q: "length (queue sd s) = length (unread sd s)" for sd s by (simp add: queue_def)
  from go obtain t where t: "active (shm w) t" by (auto simp: held_back_def)
  have room: "length (unread (shm w) s) \<noteq> 15" if "active (shm w) s" for s
    using go that unfolding held_back_def q by blast
  have ne: "\<not> free_list_empty c (shm w)" using go unfolding held_back_def c(2) by simp
  note r = publish_into_chunk_correct
    [OF inv c(1) c(2) payload_size_class(1) [OF len] ne t room n sig]
  show ?thesis unfolding try_publish_one_body [OF len inv] c(2) using go r by simp
qed

lemma try_publish_one_blocked:
  assumes "data_inv p (shm w)" "length payload \<le> kMaxPayloadSizeBytes" "held_back payload (shm w)"
  shows "try_publish_one sig payload p w = Some (Inr Blocked, p, w)"
  using assms by (simp add: try_publish_one_body)

text \<open>\<open>can_publish_next_message\<close> predicts the outcome of the next attempt.\<close>

definition next_payload :: "publisher \<Rightarrow> bytes option" where
  "next_payload p = (case in_flight p of Some m \<Rightarrow> Some (msg_payload (in_flight_msg m))
     | None \<Rightarrow> (case pending_messages p of m # _ \<Rightarrow> Some (msg_payload m) | [] \<Rightarrow> None))"

lemma can_publish_next_message_iff:
  assumes inv: "data_inv p (shm w)"
  shows "next_payload p = None \<Longrightarrow> can_publish_next_message p w = Inr NoMessage"
    "next_payload p = Some payload \<Longrightarrow> length payload \<le> kMaxPayloadSizeBytes \<Longrightarrow>
      can_publish_next_message p w = Inr (if held_back payload (shm w) then NotReady else Ready)"
proof -
  show "next_payload p = None \<Longrightarrow> can_publish_next_message p w = Inr NoMessage"
    by (simp add: can_publish_next_message_def next_payload_def [symmetric])
  assume a: "next_payload p = Some payload" "length payload \<le> kMaxPayloadSizeBytes"
  from payload_size_class(2) [OF a(2)] obtain c where
    c: "find_size_class (of_nat (length payload + 8)) = int c" by blast
  have e: "of_nat kMessageHeaderSizeBytes + of_nat (length payload) = (of_nat (length payload + 8) :: u32)"
    by (simp add: kMessageHeaderSizeBytes_def)
  have q: "length (queue sd s) = length (unread sd s)" for sd s by (simp add: queue_def)
  show "can_publish_next_message p w = Inr (if held_back payload (shm w) then NotReady else Ready)"
    using a(1) ring_blocked_iff [OF data_invD(1) [OF inv]]
    unfolding can_publish_next_message_def next_payload_def [symmetric] held_back_def q
    by (simp add: Let_def e c del: of_nat_add)
qed

end
