(* ===== verification/Subscriber_State.thy ===== *)
theory Subscriber_State
  imports Shm_Layout
begin

text \<open>
  The types of \<open>include/subscriber.hpp\<close>: the error enumerations (a constructor of \<open>RunError\<close>,
  \<open>SubscribeError\<close> or \<open>CreateError\<close> carries the prefix \<open>Sub\<close> when the publisher's
  enumeration has the same name), the attachment to one publisher, and the state of a
  \<open>Subscriber\<close> object.  A mapped segment is named by its address; \<open>nullptr\<close> is \<open>None\<close>.
\<close>

datatype sub_run_error =
    SubRunNone | SubEpollWaitFailed | SubUnexpectedEpollTimeout
  | DataAvailableEventAttachmentMissing | DataAvailableEventReadFailed
  | WrappedDescriptorReadFailed | ContiguousMessageConsumptionFailed
  | SubBrokerControlMessageProcessingFailed | PublisherDisconnectedPayloadSizeMismatch
  | PublisherDisconnectedAttachmentMissing | PublisherDisconnectedEventFdMissing
  | SubShutdownEventReadFailed | SubWorkerException

datatype subscribe_error = SubTimeout | SubEventWaitFailed | SubBrokerUnavailable | SubDataPathFailed

type_synonym message_batch = "bytes list"

definition SUB_SYNCHRONOUS :: u32 where "SUB_SYNCHRONOUS = push_bit 0 1"
definition SUB_ASYNCHRONOUS :: u32 where "SUB_ASYNCHRONOUS = push_bit 1 1"

definition is_synchronous :: "u32 \<Rightarrow> bool" where
  "is_synchronous flags \<longleftrightarrow> flags AND SUB_SYNCHRONOUS \<noteq> 0"

record publisher_attachment =
  att_topic_id :: u8
  shm_fd :: int
  shared_data_at :: "nat option"
  att_space_available_event_fd :: int
  att_data_available_event_fd :: int
  slot_index :: u32
  subscriber_read_index :: u32
  expected_seq :: s32

text \<open>The default member initialisers.\<close>

definition empty_attachment :: publisher_attachment where
  "empty_attachment =
    \<lparr>att_topic_id = 0, shm_fd = -1, shared_data_at = None, att_space_available_event_fd = -1,
     att_data_available_event_fd = -1, slot_index = kInvalidIndex,
     subscriber_read_index = kInvalidIndex, expected_seq = -1\<rparr>"

record subscriber =
  sub_flags :: u32
  sub_epoll_fd :: int
  sub_broker_fd :: int
  sub_shutdown_event_fd :: int
  sub_worker_exit_event_fd :: int
  sub_events :: "u64 list"       \<comment> \<open>\<open>events_[event_index_ ..< event_count_]\<close>\<close>
  publisher_attachment_by_data_available_event_fd :: "int \<rightharpoonup> publisher_attachment"
  data_available_event_fd_by_attachment_id :: "u64 \<rightharpoonup> int"

text \<open>What consuming does to the world: the space eventfds written and the payloads handed to
  the callback, in order.\<close>

record consumer_io =
  space_signals :: "int list"
  callbacks :: "bytes list"

record sub_world =
  segments :: "nat \<rightharpoonup> shared_data"     \<comment> \<open>the mapped segments\<close>
  consumer :: consumer_io
  sub_closed :: "int list"
  sub_unwatched :: "int list"          \<comment> \<open>\<open>EPOLL_CTL_DEL\<close>\<close>
  sub_watched :: "(int \<times> u64) list"     \<comment> \<open>\<open>EPOLL_CTL_ADD\<close>\<close>

definition sub_close_fd :: "int \<Rightarrow> sub_world \<Rightarrow> sub_world" where
  "sub_close_fd fd w = (if 0 \<le> fd then w\<lparr>sub_closed := sub_closed w @ [fd]\<rparr> else w)"

end
