(* ===== verification/Subscriber_Data.thy ===== *)
theory Subscriber_Data
  imports Publisher_Data Subscriber_State
begin

text \<open>
  The data path of the subscriber (\<open>src/subscriber.cpp\<close>): \<open>read_data\<close>,
  \<open>consume_contiguous_messages\<close> and \<open>handle_data_available_event\<close>.  \<open>sig\<close> and \<open>drain\<close>
  are the kernel's answers to \<open>signal_eventfd\<close> and \<open>drain_eventfd\<close>.  A loop that does not
  end is \<^term>\<open>None\<close>, as is undefined behaviour; the theorems show \<open>Some\<close>.
\<close>

section \<open>Code\<close>

text \<open>The checks on one descriptor up to the sequence number; the payload on success.\<close>

definition check_descriptor ::
  "message_descriptor \<Rightarrow> publisher_attachment \<Rightarrow> shared_data
     \<Rightarrow> ((sub_run_error + bytes) \<times> publisher_attachment) option"
where
  "check_descriptor d a sd =
     (let offset = md_offset d;
          message_size_bytes = md_len d;
          cls = find_size_class message_size_bytes in
      if cls < 0 then Some (Inl ContiguousMessageConsumptionFailed, a)
      else do {
        first_off \<leftarrow> table_get kFirstOffset cls;
        last_off \<leftarrow> table_get kLastOffset cls;
        if offset < first_off \<or> offset > last_off then Some (Inl ContiguousMessageConsumptionFailed, a)
        else if unat message_size_bytes < 2 * 4 then Some (Inl ContiguousMessageConsumptionFailed, a)
        else do {
          magic \<leftarrow> map_option of_le_bytes (data_load sd (unat offset) 4);
          sequence \<leftarrow> map_option of_le_bytes (data_load sd (unat offset + 4) 4);
          let a = (if expected_seq a = -1 then a\<lparr>expected_seq := sequence\<rparr> else a);
          if magic \<noteq> kMagic \<or> sequence \<noteq> expected_seq a
          then Some (Inl ContiguousMessageConsumptionFailed, a)
          else do {
            payload \<leftarrow> data_load sd (unat offset + 2 * 4) (unat message_size_bytes - 2 * 4);
            Some (Inr payload, a)
          }
        }
      })"

text \<open>Drop the reference, publish the new read index, give the chunk back if it was the last
  reference, and then tell the publisher.\<close>

definition release_message ::
  "(int \<Rightarrow> bool) \<Rightarrow> message_descriptor \<Rightarrow> publisher_attachment \<Rightarrow> shared_data \<Rightarrow> consumer_io
     \<Rightarrow> (sub_run_error option \<times> publisher_attachment \<times> shared_data \<times> consumer_io) option"
where
  "release_message sig d a sd w = do {
     let offset = md_offset d;
     let cls = find_size_class (md_len d);
     chunk_index \<leftarrow> global_chunk_index offset cls;
     subscriber_reference_bit \<leftarrow> (if unat (slot_index a) < 32 then Some (slot_bit (unat (slot_index a))) else None);
     (previous, sd) \<leftarrow> clear_reference chunk_index subscriber_reference_bit sd;
     let rd = subscriber_read_index a + 1;
     let a = a\<lparr>subscriber_read_index := (if kDescriptorSlotCount \<le> rd then rd mod kDescriptorSlotCount else rd)\<rparr>;
     indices \<leftarrow> arr_set kMaxSubscribers (descriptor_read_indices sd) (unat (slot_index a))
       (subscriber_read_index a);
     let sd = sd\<lparr>descriptor_read_indices := indices\<rparr>;
     if previous = subscriber_reference_bit then do {
       (returned, sd) \<leftarrow> return_chunk cls offset sd;
       if \<not> returned then Some (Some ContiguousMessageConsumptionFailed, a, sd, w)
       else if \<not> sig (att_space_available_event_fd a)
       then Some (Some ContiguousMessageConsumptionFailed, a, sd, w)
       else Some (None, a, sd, w\<lparr>space_signals := space_signals w @ [att_space_available_event_fd a]\<rparr>)
     } else Some (None, a, sd, w)
   }"

text \<open>One iteration of the loop in \<open>read_data\<close>.\<close>

definition read_descriptor ::
  "(int \<Rightarrow> bool) \<Rightarrow> u32 \<Rightarrow> message_descriptor \<Rightarrow> publisher_attachment \<Rightarrow> shared_data \<Rightarrow> consumer_io
     \<Rightarrow> ((sub_run_error + message_batch) \<times> publisher_attachment \<times> shared_data \<times> consumer_io) option"
where
  "read_descriptor sig flags d a sd w = do {
     (checked, a) \<leftarrow> check_descriptor d a sd;
     case checked of
       Inl e \<Rightarrow> Some (Inl e, a, sd, w)
     | Inr payload \<Rightarrow> do {
         let messages = (if is_synchronous flags then [payload] else []);
         let w = (if is_synchronous flags then w else w\<lparr>callbacks := callbacks w @ [payload]\<rparr>);
         next_seq \<leftarrow> (if expected_seq a = 2147483647 then None else Some (expected_seq a + 1));
         let a = a\<lparr>expected_seq := next_seq\<rparr>;
         (failed, a, sd, w) \<leftarrow> release_message sig d a sd w;
         Some (case failed of Some e \<Rightarrow> Inl e | None \<Rightarrow> Inr messages, a, sd, w)
       }
   }"

fun read_data ::
  "(int \<Rightarrow> bool) \<Rightarrow> u32 \<Rightarrow> message_descriptor list \<Rightarrow> publisher_attachment \<Rightarrow> shared_data \<Rightarrow> consumer_io
     \<Rightarrow> ((sub_run_error + message_batch) \<times> publisher_attachment \<times> shared_data \<times> consumer_io) option"
where
  "read_data sig flags [] a sd w = Some (Inr [], a, sd, w)"
| "read_data sig flags (d # ds) a sd w = do {
     (result, a, sd, w) \<leftarrow> read_descriptor sig flags d a sd w;
     case result of
       Inl e \<Rightarrow> Some (Inl e, a, sd, w)
     | Inr messages \<Rightarrow> do {
         (result, a, sd, w) \<leftarrow> read_data sig flags ds a sd w;
         Some (map_sum id ((@) messages) result, a, sd, w)
       }
   }"

text \<open>The copy of the descriptors \<open>desc_ring[start ..< stop]\<close> into a vector.\<close>

definition copy_descriptors :: "shared_data \<Rightarrow> nat \<Rightarrow> nat \<Rightarrow> message_descriptor list option" where
  "copy_descriptors sd start stop =
     (if start \<le> stop \<and> stop \<le> unat kDescriptorSlotCount
      then Some (map (desc_ring sd) [start..<stop]) else None)"

partial_function (option) consume_loop ::
  "(int \<Rightarrow> bool) \<Rightarrow> u32 \<Rightarrow> u32 \<Rightarrow> message_batch \<Rightarrow> publisher_attachment \<Rightarrow> shared_data \<Rightarrow> consumer_io
     \<Rightarrow> ((sub_run_error + message_batch) \<times> publisher_attachment \<times> shared_data \<times> consumer_io) option"
where
  "consume_loop sig flags wr messages a sd w =
     (if wr > subscriber_read_index a then do {
        descriptors \<leftarrow> copy_descriptors sd (unat (subscriber_read_index a)) (unat wr);
        (result, a, sd, w) \<leftarrow> read_data sig flags descriptors a sd w;
        case result of
          Inl e \<Rightarrow> Some (Inl e, a, sd, w)
        | Inr batch \<Rightarrow> consume_loop sig flags (descriptor_write_index sd) (messages @ batch) a sd w
      } else Some (Inr messages, a, sd, w))"

definition consume_contiguous_messages ::
  "(int \<Rightarrow> bool) \<Rightarrow> u32 \<Rightarrow> publisher_attachment \<Rightarrow> shared_data \<Rightarrow> consumer_io
     \<Rightarrow> ((sub_run_error + message_batch) \<times> publisher_attachment \<times> shared_data \<times> consumer_io) option"
where
  "consume_contiguous_messages sig flags a sd w =
     consume_loop sig flags (descriptor_write_index sd) [] a sd w"

definition initialize_subscriber_read_index ::
  "publisher_attachment \<Rightarrow> shared_data \<Rightarrow> publisher_attachment option"
where
  "initialize_subscriber_read_index a sd =
     (if subscriber_read_index a = kInvalidIndex then do {
        rd \<leftarrow> arr_get kMaxSubscribers (descriptor_read_indices sd) (unat (slot_index a));
        Some (a\<lparr>subscriber_read_index := rd\<rparr>)
      } else Some a)"

text \<open>Everything \<open>handle_data_available_event\<close> does with one attachment.\<close>

definition consume_attachment ::
  "(int \<Rightarrow> bool) \<Rightarrow> u32 \<Rightarrow> publisher_attachment \<Rightarrow> shared_data \<Rightarrow> consumer_io
     \<Rightarrow> ((sub_run_error + message_batch) \<times> publisher_attachment \<times> shared_data \<times> consumer_io) option"
where
  "consume_attachment sig flags a sd w = do {
     a \<leftarrow> initialize_subscriber_read_index a sd;
     (wrapped, a, sd, w) \<leftarrow>
       (if subscriber_read_index a > descriptor_write_index sd then do {
          descriptors \<leftarrow> copy_descriptors sd (unat (subscriber_read_index a)) (unat kDescriptorSlotCount);
          read_data sig flags descriptors a sd w
        } else Some (Inr [], a, sd, w));
     case wrapped of
       Inl e \<Rightarrow> Some (Inl WrappedDescriptorReadFailed, a, sd, w)
     | Inr messages \<Rightarrow> do {
         (result, a, sd, w) \<leftarrow> consume_contiguous_messages sig flags a sd w;
         Some (map_sum id ((@) messages) result, a, sd, w)
       }
   }"

definition handle_data_available_event ::
  "(int \<Rightarrow> bool) \<Rightarrow> (int \<Rightarrow> bool) \<Rightarrow> int \<Rightarrow> subscriber \<Rightarrow> sub_world
     \<Rightarrow> ((sub_run_error + message_batch) \<times> subscriber \<times> sub_world) option"
where
  "handle_data_available_event sig drain event_fd s w =
     (case publisher_attachment_by_data_available_event_fd s event_fd of
        None \<Rightarrow> Some (Inl DataAvailableEventAttachmentMissing, s, w)
      | Some a \<Rightarrow>
          if \<not> drain event_fd then Some (Inl DataAvailableEventReadFailed, s, w)
          else do {
            addr \<leftarrow> shared_data_at a;
            sd \<leftarrow> segments w addr;
            (result, a, sd, io) \<leftarrow> consume_attachment sig (sub_flags s) a sd (consumer w);
            Some (result,
              s\<lparr>publisher_attachment_by_data_available_event_fd :=
                  (publisher_attachment_by_data_available_event_fd s)(event_fd \<mapsto> a)\<rparr>,
              w\<lparr>segments := (segments w)(addr \<mapsto> sd), consumer := io\<rparr>)
          })"

end
