(* ===== verification/Consume_Messages.thy ===== *)
theory Consume_Messages
  imports Subscriber_Data
begin

text \<open>
  Correctness of the subscriber's data path: a subscriber receives exactly the payloads of its
  queue, in order, and its reads keep the invariant of the segment.
\<close>

section \<open>One descriptor\<close>

lemma chunk_bytes_sub:
  "k + m \<le> n \<Longrightarrow> take m (drop k (chunk_bytes sd ch 0 n)) = chunk_bytes sd ch k m"
  by (intro nth_equalityI) (simp_all add: chunk_bytes_def add.assoc)

lemma chunk_offset_range:
  assumes "chunk_ok (c, i)"
  shows "\<not> off_word (c, i) < kFirstOffset ! c" "\<not> kLastOffset ! c < off_word (c, i)"
proof -
  from assms have c: "c < 5" and i: "i < class_count c" by (auto simp: chunk_ok_def)
  show "\<not> off_word (c, i) < kFirstOffset ! c"
    using c by (simp add: word_less_nat_alt unat_off_word [OF assms] class_tables chunk_off_def)
  show "\<not> kLastOffset ! c < off_word (c, i)"
    using c i by (auto simp: word_less_nat_alt unat_off_word [OF assms] class_tables chunk_off_def)
qed

lemma check_descriptor_ok:
  assumes d: "desc_ok (desc_ring sd q)" and hd: "header_ok sd q m"
    and e: "expected_seq a = -1 \<or> expected_seq a = m"
  shows "check_descriptor (desc_ring sd q) a sd
    = Some (Inr (drop 8 (message_bytes sd q)), a\<lparr>expected_seq := m\<rparr>)"
proof -
  let ?d = "desc_ring sd q"
  obtain c i where ch: "chunk_at sd q = (c, i)" by fastforce
  have ok: "chunk_ok (c, i)" using desc_ok_chunk_ok [OF d] ch by simp
  then have c: "c < 5" by (simp add: chunk_ok_def)
  have off: "md_offset ?d = off_word (c, i)" and cls: "find_size_class (md_len ?d) = int c"
    and len: "8 \<le> unat (md_len ?d)" "unat (md_len ?d) \<le> class_size c"
    using d desc_class [OF d] ch by (auto simp: desc_ok_def chunk_at_def)
  let ?ch = "(c, i)" let ?n = "unat (md_len ?d)"
  have msg: "message_bytes sd q = chunk_bytes sd ?ch 0 ?n" by (simp add: message_bytes_def ch)
  have ld: "data_load sd (chunk_off ?ch + k) l = Some (chunk_bytes sd ?ch k l)" if "k + l \<le> class_size c" for k l
    using chunk_load [OF ok] that by simp
  have l0: "data_load sd (chunk_off ?ch) 4 = Some (le_bytes 4 kMagic)"
    using ld [of 0 4] len hd chunk_bytes_sub [of 0 4 ?n sd ?ch] by (simp add: header_ok_def msg)
  have l4: "data_load sd (chunk_off ?ch + 4) 4 = Some (le_bytes 4 m)"
    using ld [of 4 4] len hd chunk_bytes_sub [of 4 4 ?n sd ?ch] by (simp add: header_ok_def msg)
  have l8: "data_load sd (chunk_off ?ch + 8) (?n - 8) = Some (drop 8 (message_bytes sd q))"
    using ld [of 8 "?n - 8"] len chunk_bytes_sub [of 8 "?n - 8" ?n sd ?ch] by (simp add: msg)
  have a: "a\<lparr>expected_seq := m\<rparr> = a" if "expected_seq a = m" using that by simp
  show ?thesis
    using e len a
    by (auto simp: check_descriptor_def Let_def cls off class_table_get [OF c] chunk_offset_range [OF ok]
      unat_off_word [OF ok] l0 l4 l8)
qed

text \<open>The attachment agrees with the segment: it sees the shared read index, and expects the
  sequence number of the next message.\<close>

definition att_inv :: "s32 \<Rightarrow> publisher_attachment \<Rightarrow> shared_data \<Rightarrow> bool" where
  "att_inv n a sd \<longleftrightarrow> active sd (unat (slot_index a))
     \<and> subscriber_read_index a = descriptor_read_indices sd (unat (slot_index a))
     \<and> (expected_seq a = -1
        \<or> expected_seq a = n - of_nat (back_dist (wrx sd) (rdx sd (unat (slot_index a)))))"

text \<open>The slot of the attachment has consumed the positions \<open>qs\<close>.\<close>

definition consumed ::
  "publisher \<Rightarrow> nat list \<Rightarrow> publisher_attachment \<Rightarrow> shared_data \<Rightarrow> publisher_attachment \<Rightarrow> shared_data \<Rightarrow> bool"
where
  "consumed p qs a sd a' sd' \<longleftrightarrow>
     (let s = unat (slot_index a) in
      data_inv p sd' \<and> att_inv (seq p) a' sd' \<and>
      a' = a\<lparr>subscriber_read_index := subscriber_read_index a', expected_seq := expected_seq a'\<rparr> \<and>
      unread sd s = qs @ unread sd' s \<and> (\<forall>t. t \<noteq> s \<longrightarrow> unread sd' t = unread sd t) \<and>
      (\<forall>t. active sd' t \<longleftrightarrow> active sd t) \<and>
      same_messages (\<Union>t. set (unread sd' t)) sd sd')"

lemma consumedD:
  assumes "consumed p qs a sd a' sd'"
  shows "data_inv p sd'" "att_inv (seq p) a' sd'" "slot_index a' = slot_index a"
    "att_space_available_event_fd a' = att_space_available_event_fd a"
    "a' = a\<lparr>subscriber_read_index := subscriber_read_index a', expected_seq := expected_seq a'\<rparr>"
    "unread sd (unat (slot_index a)) = qs @ unread sd' (unat (slot_index a))"
    "t \<noteq> unat (slot_index a) \<Longrightarrow> unread sd' t = unread sd t" "active sd' t \<longleftrightarrow> active sd t"
    "same_messages (\<Union>t. set (unread sd' t)) sd sd'"
proof -
  show a': "a' = a\<lparr>subscriber_read_index := subscriber_read_index a', expected_seq := expected_seq a'\<rparr>"
    using assms by (simp add: consumed_def Let_def)
  show "slot_index a' = slot_index a" "att_space_available_event_fd a' = att_space_available_event_fd a"
    by (subst a', simp)+
qed (use assms in \<open>auto simp: consumed_def Let_def\<close>)

lemma unread_Cons:
  assumes ok: "ring_ok sd" and unr: "unread sd s = r # rest"
  shows "active sd s" "s < 16" "r = rdx sd s" "r < 16" "r \<noteq> wrx sd"
    "ring_span ((r + 1) mod 16) (wrx sd) = rest"
proof -
  show act: "active sd s" using unr by (auto simp: unread_def split: if_splits)
  then show "s < 16" by (rule active_less)
  have r16: "rdx sd s < 16" and w16: "wrx sd < 16" using ok act by (auto simp: ring_ok_def)
  have span: "ring_span (rdx sd s) (wrx sd) = r # rest" using unr act by (simp add: unread_def)
  then have ne: "rdx sd s \<noteq> wrx sd" by auto
  from ring_span_Cons [OF r16 w16 ne] span
  show "r = rdx sd s" "ring_span ((r + 1) mod 16) (wrx sd) = rest" by auto
  then show "r < 16" "r \<noteq> wrx sd" using r16 ne by auto
qed

lemma next_read_index:
  assumes "unat (rd :: u32) < 16"
  shows "unat (if kDescriptorSlotCount \<le> rd + 1 then (rd + 1) mod kDescriptorSlotCount else rd + 1)
    = (unat rd + 1) mod 16"
proof -
  have "unat (rd + 1) = unat rd + 1" using assms by (simp add: unat_add_no_wrap)
  then show ?thesis using assms by (auto simp: kDescriptorSlotCount_def word_le_nat_alt unat_mod)
qed

lemma release_message_ok:
  assumes ok: "ring_ok sd" and core: "core_inv (\<lambda>t. set (unread sd t)) {} sd"
    and s: "s = unat (slot_index a)" and rd: "subscriber_read_index a = descriptor_read_indices sd s"
    and unr: "unread sd s = r # rest" and sig: "sig (att_space_available_event_fd a)"
  shows "\<exists>sd'. release_message sig (desc_ring sd r) a sd w = Some (None,
        a\<lparr>subscriber_read_index := descriptor_read_indices sd' s\<rparr>, sd',
        w\<lparr>space_signals := space_signals w
          @ (if \<exists>t. r \<in> set (unread sd' t) then [] else [att_space_available_event_fd a])\<rparr>)
    \<and> core_inv (\<lambda>t. set (unread sd' t)) {} sd' \<and> ring_ok sd'
    \<and> rdx sd' s = (r + 1) mod 16 \<and> unread sd' s = rest
    \<and> (\<forall>t. t \<noteq> s \<longrightarrow> unread sd' t = unread sd t) \<and> (\<forall>t. active sd' t \<longleftrightarrow> active sd t)
    \<and> same_messages (\<Union>t. set (unread sd' t)) sd sd'
    \<and> ((\<exists>t. r \<in> set (unread sd' t)) \<longrightarrow> head_offset sd' = head_offset sd \<and> tail_offset sd' = tail_offset sd)"
proof -
  note u = unread_Cons [OF ok unr]
  let ?hold = "\<lambda>t. set (unread sd t)"
  let ?h1 = "?hold(s := ?hold s - {r})"
  let ?d = "desc_ring sd r" let ?ch = "chunk_at sd r"
  have r: "r \<in> ?hold s" using unr by simp
  from clear_reference_inv [OF core r] obtain g sd1 where
    g: "global_chunk_index (md_offset ?d) (find_size_class (md_len ?d)) = Some g"
    and clr: "clear_reference g (slot_bit s) sd = Some (refmask sd ?ch, sd1)"
    and inv1: "core_inv ?h1 (if refmask sd ?ch = slot_bit s then {?ch} else {}) sd1"
    and sd1: "sd1 = sd\<lparr>chunk_reference_counts :=
      (chunk_reference_counts sd)(chunk_gidx ?ch := refmask sd ?ch AND NOT (slot_bit s))\<rparr>"
    by fastforce
  define rd' where "rd' = (if kDescriptorSlotCount \<le> subscriber_read_index a + 1
    then (subscriber_read_index a + 1) mod kDescriptorSlotCount else subscriber_read_index a + 1)"
  let ?idx = "(descriptor_read_indices sd)(s := rd')"
  define sd2 where "sd2 = sd1\<lparr>descriptor_read_indices := ?idx\<rparr>"
  have urd: "unat rd' = (r + 1) mod 16"
    using next_read_index [of "subscriber_read_index a"] u(3,4) by (simp add: rd'_def rd rdx_def)
  have act: "active sd2 t \<longleftrightarrow> active sd t" for t
    using u(1) urd kInvalidIndex_unat by (auto simp: active_def sd2_def sd1)
  have unr2: "unread sd2 t = (if t = s then rest else unread sd t)" for t
    using act [of t] u(1,6) urd by (simp add: unread_def rdx_def wrx_def sd2_def sd1)
  have h1: "?h1 = (\<lambda>t. set (unread sd2 t))"
  proof
    fix t
    have "distinct (r # rest)" unfolding unr [symmetric] by (simp add: unread_def)
    then show "?h1 t = set (unread sd2 t)" using unr by (auto simp: unr2)
  qed
  have inv2: "core_inv (\<lambda>t. set (unread sd2 t)) (if refmask sd ?ch = slot_bit s then {?ch} else {}) sd2"
    using inv1 unfolding h1 by (simp add: sd2_def core_inv_indices)
  have ok2: "ring_ok sd2" using ok act urd by (auto simp: ring_ok_def rdx_def wrx_def sd2_def sd1)
  have last: "refmask sd ?ch = slot_bit s \<longleftrightarrow> (\<forall>t. r \<notin> set (unread sd2 t))"
    using last_reference_iff [OF core r] unfolding h1 by (simp add: live_def)
  have same2: "same_messages L sd sd2" for L
    by (auto simp: same_messages_def message_bytes_def chunk_at_def chunk_bytes_def sd1 sd2_def)
  have read: "release_message sig ?d a sd w =
     (if refmask sd ?ch = slot_bit s then do {
        (returned, sd) \<leftarrow> return_chunk (find_size_class (md_len ?d)) (md_offset ?d) sd2;
        if \<not> returned then Some (Some ContiguousMessageConsumptionFailed, a\<lparr>subscriber_read_index := rd'\<rparr>, sd, w)
        else Some (None, a\<lparr>subscriber_read_index := rd'\<rparr>, sd,
          w\<lparr>space_signals := space_signals w @ [att_space_available_event_fd a]\<rparr>)
      } else Some (None, a\<lparr>subscriber_read_index := rd'\<rparr>, sd2, w))"
    using u(2) g clr sig
    by (simp add: release_message_def Let_def s [symmetric] array_simps kMaxSubscribers_def rd'_def sd2_def sd1
      cong: if_cong)
  show ?thesis
  proof (cases "refmask sd ?ch = slot_bit s")
    case False
    then have "\<exists>t. r \<in> set (unread sd2 t)" using last by blast
    with False read inv2 ok2 act unr2 same2 urd show ?thesis
      by (intro exI [of _ sd2]) (auto simp: sd2_def sd1 rdx_def)
  next
    case True
    obtain c i where ch: "?ch = (c, i)" by fastforce
    have dok: "desc_ok ?d" using core_invD(3) [OF core r] .
    have off: "md_offset ?d = off_word (c, i)" and cls: "find_size_class (md_len ?d) = int c"
      using dok desc_class(2) [OF dok] ch by (auto simp: desc_ok_def chunk_at_def)
    from return_chunk_inv [of "\<lambda>t. set (unread sd2 t)" "{?ch}" sd2 c i] inv2 True ch obtain sd3 where
      ret: "return_chunk (int c) (off_word (c, i)) sd2 = Some (True, sd3)"
      and inv3: "core_inv (\<lambda>t. set (unread sd2 t)) {} sd3"
      and same3: "desc_ring sd3 = desc_ring sd2" "descriptor_read_indices sd3 = descriptor_read_indices sd2"
        "descriptor_write_index sd3 = descriptor_write_index sd2"
      and fr: "\<And>b k n. chunk_ok b \<Longrightarrow> refmask sd2 b \<noteq> 0 \<Longrightarrow> k + n \<le> class_size (fst b) \<Longrightarrow>
         chunk_bytes sd3 b k n = chunk_bytes sd2 b k n"
      by auto
    have unr3: "unread sd3 = unread sd2" using same3 by (intro ext unread_cong) simp_all
    have act3: "active sd3 t \<longleftrightarrow> active sd t" for t using act same3 by (simp add: active_def)
    have "message_bytes sd3 q = message_bytes sd2 q" if "q \<in> set (unread sd2 t)" for q t
      using message_bytes_frame [OF inv2 that same3(1)] fr by blast
    with same3 have "same_messages (\<Union>t. set (unread sd2 t)) sd2 sd3" by (auto simp: same_messages_def)
    from same_messages_trans [OF same2 this subset_refl]
    have m3: "same_messages (\<Union>t. set (unread sd3 t)) sd sd3" unfolding unr3 .
    have none: "\<not> (\<exists>t. r \<in> set (unread sd3 t))" using True last unfolding unr3 by blast
    have "ring_ok sd3" using ok2 act act3 same3 by (simp add: ring_ok_def rdx_def wrx_def)
    with True read ret inv3 act3 m3 none unr2 same3 urd show ?thesis
      unfolding off cls
      by (intro exI [of _ sd3]) (auto simp: unr3 rdx_def sd2_def)
  qed
qed

abbreviation payload_at :: "shared_data \<Rightarrow> nat \<Rightarrow> bytes" where
  "payload_at sd q \<equiv> drop 8 (message_bytes sd q)"

text \<open>The synchronous batch and the asynchronous callbacks carry the same payloads.\<close>

definition delivered :: "u32 \<Rightarrow> bytes list \<Rightarrow> message_batch" where
  "delivered flags payloads = (if is_synchronous flags then payloads else [])"

definition called_back :: "u32 \<Rightarrow> bytes list \<Rightarrow> consumer_io \<Rightarrow> consumer_io \<Rightarrow> bool" where
  "called_back flags payloads w w' \<longleftrightarrow>
     callbacks w' = callbacks w @ (if is_synchronous flags then [] else payloads)"

lemma read_descriptor_ok:
  assumes inv: "data_inv p sd" and att: "att_inv (seq p) a sd"
    and unr: "unread sd (unat (slot_index a)) = r # rest" and sig: "sig (att_space_available_event_fd a)"
  shows "\<exists>a' sd' w'. read_descriptor sig flags (desc_ring sd r) a sd w
      = Some (Inr (delivered flags [payload_at sd r]), a', sd', w')
    \<and> consumed p [r] a sd a' sd' \<and> called_back flags [payload_at sd r] w w'
    \<and> space_signals w' = space_signals w
        @ (if \<exists>t. r \<in> set (unread sd' t) then [] else [att_space_available_event_fd a])
    \<and> ((\<exists>t. r \<in> set (unread sd' t)) \<longrightarrow> head_offset sd' = head_offset sd \<and> tail_offset sd' = tail_offset sd)"
proof -
  define s where "s = unat (slot_index a)"
  have ok: "ring_ok sd" and core: "core_inv (\<lambda>t. set (unread sd t)) {} sd" and slots: "slots_inv p sd"
    and hd: "headers_inv (seq p) sd" using inv by (auto simp: data_inv_def)
  have unr': "unread sd s = r # rest" using unr s_def by simp
  note u = unread_Cons [OF ok unr']
  have r: "r \<in> set (unread sd s)" using unr' by simp
  let ?b = "back_dist (wrx sd) r"
  let ?m = "seq p - of_nat ?b"
  have w16: "wrx sd < 16" using ok by (simp add: ring_ok_def)
  have n: "unat (seq p) \<le> 2147483647" and hok: "header_ok sd r ?m" and ble: "?b \<le> unat (seq p)"
    using hd r by (auto simp: headers_inv_def)
  have b0: "?b \<noteq> 0" using u(4,5) w16 by (auto simp: back_dist_eq)
  have b16: "?b < 16" by (simp add: back_dist_def)
  have "of_nat ?b \<le> seq p" using ble b16 by (simp add: word_le_nat_alt unat_of_nat_small)
  then have um: "unat ?m = unat (seq p) - ?b" using b16 by (simp add: unat_sub unat_of_nat_small)
  have m1: "?m \<noteq> 2147483647"
  proof
    assume "?m = 2147483647"
    then have "unat ?m = 2147483647" by simp
    with um n b0 show False by simp
  qed
  have "expected_seq a = -1 \<or> expected_seq a = ?m"
    using att u(3) by (auto simp: att_inv_def s_def)
  from check_descriptor_ok [OF core_invD(3) [OF core r] hok this]
  have chk: "check_descriptor (desc_ring sd r) a sd = Some (Inr (payload_at sd r), a\<lparr>expected_seq := ?m\<rparr>)" .
  define a1 where "a1 = a\<lparr>expected_seq := ?m + 1\<rparr>"
  define w1 where "w1 = (if is_synchronous flags then w else w\<lparr>callbacks := callbacks w @ [payload_at sd r]\<rparr>)"
  have a1: "s = unat (slot_index a1)" "subscriber_read_index a1 = descriptor_read_indices sd s"
    "att_space_available_event_fd a1 = att_space_available_event_fd a"
    using att by (simp_all add: a1_def s_def att_inv_def)
  from release_message_ok [OF ok core a1(1,2) unr', of sig w1] sig a1(3) obtain sd' where
    rel: "release_message sig (desc_ring sd r) a1 sd w1 = Some (None,
        a1\<lparr>subscriber_read_index := descriptor_read_indices sd' s\<rparr>, sd',
        w1\<lparr>space_signals := space_signals w1
          @ (if \<exists>t. r \<in> set (unread sd' t) then [] else [att_space_available_event_fd a])\<rparr>)"
    and core': "core_inv (\<lambda>t. set (unread sd' t)) {} sd'" and ok': "ring_ok sd'"
    and rdx': "rdx sd' s = (r + 1) mod 16" and unrs: "unread sd' s = rest"
    and unrt: "\<forall>t. t \<noteq> s \<longrightarrow> unread sd' t = unread sd t" and act': "\<And>t. active sd' t \<longleftrightarrow> active sd t"
    and same: "same_messages (\<Union>t. set (unread sd' t)) sd sd'"
    and heads: "(\<exists>t. r \<in> set (unread sd' t)) \<longrightarrow> head_offset sd' = head_offset sd \<and> tail_offset sd' = tail_offset sd"
    by auto
  let ?a' = "a1\<lparr>subscriber_read_index := descriptor_read_indices sd' s\<rparr>"
  have w': "wrx sd' = wrx sd" using same by (simp add: same_messages_def wrx_def)
  have sub: "set (unread sd' t) \<subseteq> set (unread sd t)" for t
    using unr' unrs unrt by (cases "t = s") auto
  have "headers_inv (seq p) sd'"
    using sub by (intro headers_inv_frame [OF hd same]) auto
  moreover have "slots_inv p sd'"
    using slots ext [of "active sd'", OF act'] by (simp add: slots_inv_def)
  ultimately have inv': "data_inv p sd'" using ok' core' by (simp add: data_inv_def)
  have bd: "back_dist (wrx sd) ((r + 1) mod 16) = ?b - 1"
    using w16 u(4,5) unfolding next_index [OF u(4)]
    by (cases "r = 15") (auto simp: back_dist_eq split: if_splits)
  have mb: "?m + 1 = seq p - of_nat (?b - 1)"
    using b0 by (simp add: of_nat_diff)
  have e: "expected_seq ?a' = seq p - of_nat (back_dist (wrx sd') (rdx sd' s))"
    unfolding w' rdx' bd mb [symmetric] by (simp add: a1_def)
  have "unat (slot_index ?a') = s" by (simp add: a1_def s_def)
  then have att': "att_inv (seq p) ?a' sd'"
    unfolding att_inv_def using act' u(1) by (simp only:) (intro conjI disjI2 e; simp)
  have "consumed p [r] a sd ?a' sd'"
    using inv' att' unr' unrs unrt act' same
    by (simp add: consumed_def s_def [symmetric] Let_def) (simp add: a1_def)
  moreover define w2 where "w2 = w1\<lparr>space_signals := space_signals w1
    @ (if \<exists>t. r \<in> set (unread sd' t) then [] else [att_space_available_event_fd a])\<rparr>"
  have "read_descriptor sig flags (desc_ring sd r) a sd w
      = Some (Inr (delivered flags [payload_at sd r]), ?a', sd', w2)"
    unfolding read_descriptor_def Let_def chk
    using m1 rel by (simp add: a1_def [symmetric] w1_def [symmetric] w2_def [symmetric] delivered_def)
  moreover have "called_back flags [payload_at sd r] w w2" "space_signals w2 = space_signals w
      @ (if \<exists>t. r \<in> set (unread sd' t) then [] else [att_space_available_event_fd a])"
    by (simp_all add: called_back_def w1_def w2_def)
  ultimately show ?thesis using heads by blast
qed

section \<open>Runs of descriptors\<close>

lemma consumed_refl: "data_inv p sd \<Longrightarrow> att_inv (seq p) a sd \<Longrightarrow> consumed p [] a sd a sd"
  by (simp add: consumed_def Let_def same_messages_refl)

lemma consumed_unread_subset: "consumed p qs a sd a' sd' \<Longrightarrow> set (unread sd' t) \<subseteq> set (unread sd t)"
  by (cases "t = unat (slot_index a)") (auto simp: consumed_def Let_def)

lemma consumed_trans:
  assumes c1: "consumed p qs a sd a1 sd1" and c2: "consumed p rs a1 sd1 a2 sd2"
  shows "consumed p (qs @ rs) a sd a2 sd2"
proof -
  have slot: "slot_index a1 = slot_index a" using consumedD(3) [OF c1] .
  have "(\<Union>t. set (unread sd2 t)) \<subseteq> (\<Union>t. set (unread sd1 t))"
    using consumed_unread_subset [OF c2] by blast
  from same_messages_trans [OF consumedD(9) [OF c1] consumedD(9) [OF c2] this]
  have "same_messages (\<Union>t. set (unread sd2 t)) sd sd2" .
  moreover have "a2 = a\<lparr>subscriber_read_index := subscriber_read_index a2, expected_seq := expected_seq a2\<rparr>"
    by (subst consumedD(5) [OF c2], subst consumedD(5) [OF c1]) simp
  ultimately show ?thesis
    using c1 c2 consumedD(6-8) [OF c1] consumedD(6-8) [OF c2] slot
    by (simp add: consumed_def Let_def)
qed

lemma consumed_payload:
  assumes "consumed p qs a sd a' sd'" "q \<in> set (unread sd' t)"
  shows "payload_at sd' q = payload_at sd q"
  using consumedD(9) [OF assms(1)] assms(2) by (auto simp: same_messages_def)

lemma consumed_desc_ring: "consumed p qs a sd a' sd' \<Longrightarrow> desc_ring sd' = desc_ring sd"
  by (auto simp: consumed_def Let_def same_messages_def)

lemma consumed_write_index:
  "consumed p qs a sd a' sd' \<Longrightarrow> descriptor_write_index sd' = descriptor_write_index sd"
  by (auto simp: consumed_def Let_def same_messages_def)

lemma consumed_queues:
  assumes c: "consumed p qs a sd a' sd'"
  shows "queue sd (unat (slot_index a)) = map (payload_at sd) qs @ queue sd' (unat (slot_index a))"
    "t \<noteq> unat (slot_index a) \<Longrightarrow> queue sd' t = queue sd t"
proof -
  have q: "queue sd' t = map (payload_at sd) (unread sd' t)" for t
    unfolding queue_def by (intro map_cong refl) (rule consumed_payload [OF c])
  show "queue sd (unat (slot_index a)) = map (payload_at sd) qs @ queue sd' (unat (slot_index a))"
    unfolding q using consumedD(6) [OF c] by (simp add: queue_def)
  show "queue sd' t = queue sd t" if "t \<noteq> unat (slot_index a)"
    unfolding q using consumedD(7) [OF c that] by (simp add: queue_def)
qed

text \<open>A successful run: what is returned, what happened to the segment, the callbacks and the
  signals.\<close>

definition good_run ::
  "publisher \<Rightarrow> u32 \<Rightarrow> nat list \<Rightarrow> publisher_attachment \<Rightarrow> shared_data \<Rightarrow> consumer_io
     \<Rightarrow> (sub_run_error + message_batch) \<Rightarrow> publisher_attachment \<Rightarrow> shared_data \<Rightarrow> consumer_io \<Rightarrow> bool"
where
  "good_run p flags qs a sd w result a' sd' w' \<longleftrightarrow>
     result = Inr (delivered flags (map (payload_at sd) qs)) \<and> consumed p qs a sd a' sd'
     \<and> called_back flags (map (payload_at sd) qs) w w'
     \<and> (\<exists>k. space_signals w' = space_signals w @ replicate k (att_space_available_event_fd a))"

lemma good_runD:
  assumes "good_run p flags qs a sd w result a' sd' w'"
  shows "result = Inr (delivered flags (map (payload_at sd) qs))" "consumed p qs a sd a' sd'"
    "called_back flags (map (payload_at sd) qs) w w'"
    "\<exists>k. space_signals w' = space_signals w @ replicate k (att_space_available_event_fd a)"
  using assms by (simp_all add: good_run_def)

lemma good_run_refl:
  "data_inv p sd \<Longrightarrow> att_inv (seq p) a sd \<Longrightarrow> good_run p flags [] a sd w (Inr []) a sd w"
  by (auto simp: good_run_def consumed_refl delivered_def called_back_def intro: exI [of _ 0])

lemma good_run_trans:
  assumes g1: "good_run p flags qs a sd w (Inr ms) a1 sd1 w1"
    and g2: "good_run p flags rs a1 sd1 w1 (Inr ns) a2 sd2 w2"
  shows "good_run p flags (qs @ rs) a sd w (Inr (ms @ ns)) a2 sd2 w2"
proof -
  note c1 = good_runD(2) [OF g1] and c2 = good_runD(2) [OF g2]
  have "q \<in> set (unread sd1 (unat (slot_index a1)))" if "q \<in> set rs" for q
    using consumedD(6) [OF c2] that by simp
  then have pay: "map (payload_at sd1) rs = map (payload_at sd) rs"
    using consumed_payload [OF c1] by (intro map_cong refl) blast
  obtain k l where "space_signals w1 = space_signals w @ replicate k (att_space_available_event_fd a)"
    "space_signals w2 = space_signals w1 @ replicate l (att_space_available_event_fd a)"
    using good_runD(4) [OF g1] good_runD(4) [OF g2] consumedD(4) [OF c1] by auto
  then have "space_signals w2 = space_signals w @ replicate (k + l) (att_space_available_event_fd a)"
    by (simp add: replicate_add)
  then show ?thesis
    using good_runD(1,3) [OF g1] good_runD(1,3) [OF g2] consumed_trans [OF c1 c2]
    unfolding good_run_def pay by (auto simp: delivered_def called_back_def)
qed

lemma read_data_ok:
  assumes "data_inv p sd" "att_inv (seq p) a sd" "unread sd (unat (slot_index a)) = qs @ rest"
    "sig (att_space_available_event_fd a)"
  shows "\<exists>result a' sd' w'. read_data sig flags (map (desc_ring sd) qs) a sd w = Some (result, a', sd', w')
    \<and> good_run p flags qs a sd w result a' sd' w'"
  using assms
proof (induction qs arbitrary: a sd w)
  case Nil
  then show ?case by (auto intro: good_run_refl)
next
  case (Cons q qs)
  from read_descriptor_ok [OF Cons.prems(1,2), of q "qs @ rest" sig flags w] Cons.prems obtain a1 sd1 w1 where
    r1: "read_descriptor sig flags (desc_ring sd q) a sd w
      = Some (Inr (delivered flags [payload_at sd q]), a1, sd1, w1)"
    and c1: "consumed p [q] a sd a1 sd1" and cb1: "called_back flags [payload_at sd q] w w1"
    and sp1: "space_signals w1 = space_signals w
        @ (if \<exists>t. q \<in> set (unread sd1 t) then [] else [att_space_available_event_fd a])" by auto
  have "\<exists>k. space_signals w1 = space_signals w @ replicate k (att_space_available_event_fd a)"
    using sp1 by (cases "\<exists>t. q \<in> set (unread sd1 t)") (auto intro: exI [of _ 0] exI [of _ 1])
  then have g1: "good_run p flags [q] a sd w (Inr (delivered flags [payload_at sd q])) a1 sd1 w1"
    using c1 cb1 by (simp add: good_run_def)
  have "unread sd1 (unat (slot_index a1)) = qs @ rest"
    using consumedD(3,6) [OF c1] Cons.prems(3) by simp
  moreover have "sig (att_space_available_event_fd a1)" using consumedD(4) [OF c1] Cons.prems(4) by simp
  ultimately obtain result a2 sd2 w2 where
    r2: "read_data sig flags (map (desc_ring sd1) qs) a1 sd1 w1 = Some (result, a2, sd2, w2)"
    and g2: "good_run p flags qs a1 sd1 w1 result a2 sd2 w2"
    using Cons.IH [OF consumedD(1,2) [OF c1], of w1] by blast
  obtain ns where ns: "result = Inr ns" using good_runD(1) [OF g2] by blast
  have "read_data sig flags (map (desc_ring sd) (q # qs)) a sd w
      = Some (Inr (delivered flags [payload_at sd q] @ ns), a2, sd2, w2)"
    using r1 r2 ns consumed_desc_ring [OF c1] by simp
  moreover have "good_run p flags (q # qs) a sd w (Inr (delivered flags [payload_at sd q] @ ns)) a2 sd2 w2"
    using good_run_trans [OF g1 g2 [unfolded ns]] by simp
  ultimately show ?case by blast
qed

text \<open>The loop ends after one round when nothing is published meanwhile.\<close>

lemma read_all_caught_up:
  assumes "data_inv p sd" "att_inv (seq p) a sd" "unread sd (unat (slot_index a)) = []"
  shows "subscriber_read_index a = descriptor_write_index sd"
proof -
  have act: "active sd (unat (slot_index a))"
    and rd: "subscriber_read_index a = descriptor_read_indices sd (unat (slot_index a))"
    using assms(2) by (simp_all add: att_inv_def)
  then have "rdx sd (unat (slot_index a)) < 16" using data_invD(1) [OF assms(1)] by (simp add: ring_ok_def)
  then have "rdx sd (unat (slot_index a)) = wrx sd"
    using assms(3) act by (simp add: unread_def ring_span_empty_iff)
  then show ?thesis unfolding rd by (simp add: rdx_def wrx_def word_unat_eq_iff)
qed

lemma consume_contiguous_ok:
  assumes inv: "data_inv p sd" and att: "att_inv (seq p) a sd"
    and le: "subscriber_read_index a \<le> descriptor_write_index sd"
    and sig: "sig (att_space_available_event_fd a)"
  shows "\<exists>result a' sd' w'. consume_contiguous_messages sig flags a sd w = Some (result, a', sd', w')
    \<and> good_run p flags (unread sd (unat (slot_index a))) a sd w result a' sd' w'"
proof (cases "subscriber_read_index a = descriptor_write_index sd")
  case True
  then have "rdx sd (unat (slot_index a)) = wrx sd" using att by (simp add: att_inv_def rdx_def wrx_def)
  then have "unread sd (unat (slot_index a)) = []" by (simp add: unread_def)
  moreover have "consume_contiguous_messages sig flags a sd w = Some (Inr [], a, sd, w)"
    using True by (simp add: consume_contiguous_messages_def consume_loop.simps)
  ultimately show ?thesis using good_run_refl [OF inv att] by auto
next
  case False
  let ?s = "unat (slot_index a)"
  have act: "active sd ?s" and rd: "subscriber_read_index a = descriptor_read_indices sd ?s"
    using att by (simp_all add: att_inv_def)
  have lt: "rdx sd ?s < wrx sd" "subscriber_read_index a < descriptor_write_index sd"
    using order.not_eq_order_implies_strict [OF False le] by (simp_all add: rd rdx_def wrx_def word_less_nat_alt)
  have w16: "wrx sd < 16" using data_invD(1) [OF inv] by (simp add: ring_ok_def)
  have unr: "unread sd ?s = [rdx sd ?s..<wrx sd]" using act lt by (simp add: unread_def ring_span_def)
  then have cp: "copy_descriptors sd (unat (subscriber_read_index a)) (unat (descriptor_write_index sd))
      = Some (map (desc_ring sd) (unread sd ?s))"
    using lt w16 by (simp add: copy_descriptors_def rd rdx_def wrx_def kDescriptorSlotCount_def)
  from read_data_ok [OF inv att, of "unread sd ?s" "[]" sig flags w] sig obtain result a' sd' w' where
    r: "read_data sig flags (map (desc_ring sd) (unread sd ?s)) a sd w = Some (result, a', sd', w')"
    and g: "good_run p flags (unread sd ?s) a sd w result a' sd' w'" by auto
  note c = good_runD(2) [OF g]
  have "unread sd' (unat (slot_index a')) = []" using consumedD(3,6) [OF c] by simp
  from read_all_caught_up [OF consumedD(1,2) [OF c] this]
  have stop: "subscriber_read_index a' = descriptor_write_index sd'" .
  obtain ms where ms: "result = Inr ms" using good_runD(1) [OF g] by blast
  have "consume_contiguous_messages sig flags a sd w = Some (Inr ms, a', sd', w')"
    unfolding consume_contiguous_messages_def
    by (subst consume_loop.simps, simp add: lt(2) cp r ms, subst consume_loop.simps, simp add: stop)
  with g ms show ?thesis by auto
qed

section \<open>The whole event\<close>

text \<open>What holds of an attachment between two events; the read index may not have been loaded
  yet.\<close>

definition att_start :: "s32 \<Rightarrow> publisher_attachment \<Rightarrow> shared_data \<Rightarrow> bool" where
  "att_start n a sd \<longleftrightarrow> active sd (unat (slot_index a))
     \<and> (subscriber_read_index a = kInvalidIndex
        \<or> subscriber_read_index a = descriptor_read_indices sd (unat (slot_index a)))
     \<and> (expected_seq a = -1
        \<or> expected_seq a = n - of_nat (back_dist (wrx sd) (rdx sd (unat (slot_index a)))))"

lemma initialize_subscriber_read_index_ok:
  assumes "att_start n a sd"
  shows "\<exists>a1. initialize_subscriber_read_index a sd = Some a1 \<and> att_inv n a1 sd
    \<and> slot_index a1 = slot_index a \<and> att_space_available_event_fd a1 = att_space_available_event_fd a
    \<and> a1 = a\<lparr>subscriber_read_index := subscriber_read_index a1\<rparr>"
proof -
  have "unat (slot_index a) < kMaxSubscribers"
    using assms by (simp add: att_start_def active_def)
  with assms show ?thesis
    by (auto simp: initialize_subscriber_read_index_def att_start_def att_inv_def array_simps)
qed

lemma after_wrap:
  assumes inv: "data_inv p sd" and att: "att_inv (seq p) a sd"
    and unr: "unread sd (unat (slot_index a)) = [0..<wrx sd]"
  shows "subscriber_read_index a \<le> descriptor_write_index sd"
proof (cases "wrx sd = 0")
  case True
  with read_all_caught_up [OF inv att] unr show ?thesis by simp
next
  case False
  then have "unread sd (unat (slot_index a)) = 0 # [1..<wrx sd]" using unr by (simp add: upt_rec)
  from unread_Cons(3) [OF data_invD(1) [OF inv] this] att show ?thesis
    by (simp add: att_inv_def rdx_def word_le_nat_alt)
qed

text \<open>The slot's queue is delivered completely and in order, and is empty afterwards.\<close>

lemma consume_attachment_ok:
  assumes inv: "data_inv p sd" and att: "att_start (seq p) a sd"
    and sig: "sig (att_space_available_event_fd a)"
  shows "\<exists>a' sd' w'. consume_attachment sig flags a sd w
      = Some (Inr (delivered flags (queue sd (unat (slot_index a)))), a', sd', w')
    \<and> data_inv p sd' \<and> att_inv (seq p) a' sd'
    \<and> a' = a\<lparr>subscriber_read_index := subscriber_read_index a', expected_seq := expected_seq a'\<rparr>
    \<and> queue sd' (unat (slot_index a)) = []
    \<and> (\<forall>t. t \<noteq> unat (slot_index a) \<longrightarrow> queue sd' t = queue sd t)
    \<and> (\<forall>t. active sd' t \<longleftrightarrow> active sd t)
    \<and> called_back flags (queue sd (unat (slot_index a))) w w'
    \<and> (\<exists>k. space_signals w' = space_signals w @ replicate k (att_space_available_event_fd a))"
proof -
  define s where "s = unat (slot_index a)"
  obtain a1 where init: "initialize_subscriber_read_index a sd = Some a1" and att1: "att_inv (seq p) a1 sd"
    and sl1: "unat (slot_index a1) = s" and fd1: "att_space_available_event_fd a1 = att_space_available_event_fd a"
    and a1: "a1 = a\<lparr>subscriber_read_index := subscriber_read_index a1\<rparr>"
    using initialize_subscriber_read_index_ok [OF att] s_def by auto
  have rd: "subscriber_read_index a1 = descriptor_read_indices sd s" and act: "active sd s"
    using att1 sl1 by (simp_all add: att_inv_def)
  have ok: "ring_ok sd" by (rule data_invD(1) [OF inv])
  have r16: "rdx sd s < 16" and w16: "wrx sd < 16" using ok act by (auto simp: ring_ok_def)
  have run: "\<exists>result a' sd' w'. consume_attachment sig flags a sd w = Some (result, a', sd', w')
      \<and> good_run p flags (unread sd s) a1 sd w result a' sd' w'"
  proof (cases "subscriber_read_index a1 > descriptor_write_index sd")
    case False
    with consume_contiguous_ok [OF inv att1, of sig flags w] sig fd1 obtain result a' sd' w' where
      r: "consume_contiguous_messages sig flags a1 sd w = Some (result, a', sd', w')"
      and g: "good_run p flags (unread sd s) a1 sd w result a' sd' w'" by (auto simp: sl1 not_less)
    have "consume_attachment sig flags a sd w = Some (map_sum id ((@) []) result, a', sd', w')"
      using False init r by (simp add: consume_attachment_def)
    moreover have "map_sum id ((@) []) result = result" using good_runD(1) [OF g] by simp
    ultimately show ?thesis using g by auto
  next
    case True
    then have lt: "wrx sd < rdx sd s" by (simp add: rd rdx_def wrx_def word_less_nat_alt)
    have unr: "unread sd s = [rdx sd s..<16] @ [0..<wrx sd]"
      using act lt by (simp add: unread_def ring_span_def)
    have cp: "copy_descriptors sd (unat (subscriber_read_index a1)) (unat kDescriptorSlotCount)
        = Some (map (desc_ring sd) [rdx sd s..<16])"
      using r16 by (simp add: copy_descriptors_def rd rdx_def kDescriptorSlotCount_def)
    from read_data_ok [OF inv att1, of "[rdx sd s..<16]" "[0..<wrx sd]" sig flags w] unr sig fd1 sl1
    obtain result a2 sd2 w2 where
      r: "read_data sig flags (map (desc_ring sd) [rdx sd s..<16]) a1 sd w = Some (result, a2, sd2, w2)"
      and g: "good_run p flags [rdx sd s..<16] a1 sd w result a2 sd2 w2" by auto
    note c = good_runD(2) [OF g]
    obtain ms where ms: "result = Inr ms" using good_runD(1) [OF g] by blast
    have sl2: "slot_index a2 = slot_index a1" using consumedD(3) [OF c] .
    have unr2: "unread sd2 (unat (slot_index a2)) = [0..<wrx sd]"
      using consumedD(6) [OF c] unr sl1 sl2 by simp
    have w2: "wrx sd2 = wrx sd" using consumed_write_index [OF c] by (simp add: wrx_def)
    have le: "subscriber_read_index a2 \<le> descriptor_write_index sd2"
      using after_wrap [OF consumedD(1,2) [OF c]] unr2 w2 by simp
    from consume_contiguous_ok [OF consumedD(1,2) [OF c] le, of sig flags w2] sig fd1 consumedD(4) [OF c]
    obtain result' a' sd' w' where
      r': "consume_contiguous_messages sig flags a2 sd2 w2 = Some (result', a', sd', w')"
      and g': "good_run p flags [0..<wrx sd] a2 sd2 w2 result' a' sd' w'"
      unfolding unr2 by auto
    obtain ns where ns: "result' = Inr ns" using good_runD(1) [OF g'] by blast
    have "consume_attachment sig flags a sd w = Some (Inr (ms @ ns), a', sd', w')"
      using True init cp r r' ms ns by (simp add: consume_attachment_def)
    moreover have "good_run p flags (unread sd s) a1 sd w (Inr (ms @ ns)) a' sd' w'"
      unfolding unr by (rule good_run_trans [OF g [unfolded ms] g' [unfolded ns]])
    ultimately show ?thesis by blast
  qed
  then obtain result a' sd' w' where code: "consume_attachment sig flags a sd w = Some (result, a', sd', w')"
    and g: "good_run p flags (unread sd s) a1 sd w result a' sd' w'" by blast
  note c = good_runD(2) [OF g]
  have q: "map (payload_at sd) (unread sd s) = queue sd s" by (simp add: queue_def)
  have a': "a' = a\<lparr>subscriber_read_index := subscriber_read_index a', expected_seq := expected_seq a'\<rparr>"
    by (subst consumedD(5) [OF c], subst a1) simp
  show ?thesis
    using code good_runD(1,3,4) [OF g] consumedD(1,2) [OF c] consumed_queues [OF c] consumedD(8) [OF c] a' fd1
    unfolding s_def [symmetric] sl1 q by auto
qed

lemma att_inv_start: "att_inv n a sd \<Longrightarrow> att_start n a sd"
  by (simp add: att_inv_def att_start_def)

text \<open>The handler of a data event of one attachment.\<close>

lemma handle_data_available_event_ok:
  assumes "publisher_attachment_by_data_available_event_fd s fd = Some a"
    "shared_data_at a = Some addr" "segments w addr = Some sd"
    "data_inv p sd" "att_start (seq p) a sd"
    "drain fd" "sig (att_space_available_event_fd a)"
  shows "\<exists>a' sd' io'. handle_data_available_event sig drain fd s w
      = Some (Inr (delivered (sub_flags s) (queue sd (unat (slot_index a)))),
          s\<lparr>publisher_attachment_by_data_available_event_fd :=
              (publisher_attachment_by_data_available_event_fd s)(fd \<mapsto> a')\<rparr>,
          w\<lparr>segments := (segments w)(addr \<mapsto> sd'), consumer := io'\<rparr>)
    \<and> called_back (sub_flags s) (queue sd (unat (slot_index a))) (consumer w) io'
    \<and> data_inv p sd' \<and> att_start (seq p) a' sd'
    \<and> queue sd' (unat (slot_index a)) = []
    \<and> (\<forall>t. t \<noteq> unat (slot_index a) \<longrightarrow> queue sd' t = queue sd t)"
proof -
  from consume_attachment_ok [where sig = sig and p = p and a = a, OF assms(4,5,7), of "sub_flags s" "consumer w"]
  obtain a' sd' io' where
    c: "consume_attachment sig (sub_flags s) a sd (consumer w)
      = Some (Inr (delivered (sub_flags s) (queue sd (unat (slot_index a)))), a', sd', io')"
    and r: "called_back (sub_flags s) (queue sd (unat (slot_index a))) (consumer w) io'"
      "data_inv p sd'" "att_inv (seq p) a' sd'" "queue sd' (unat (slot_index a)) = []"
      "\<forall>t. t \<noteq> unat (slot_index a) \<longrightarrow> queue sd' t = queue sd t" by blast
  have "handle_data_available_event sig drain fd s w
      = Some (Inr (delivered (sub_flags s) (queue sd (unat (slot_index a)))),
          s\<lparr>publisher_attachment_by_data_available_event_fd :=
              (publisher_attachment_by_data_available_event_fd s)(fd \<mapsto> a')\<rparr>,
          w\<lparr>segments := (segments w)(addr \<mapsto> sd'), consumer := io'\<rparr>)"
    using assms(1-3,6) c by (simp add: handle_data_available_event_def)
  then show ?thesis
    by (intro exI conjI) (rule r att_inv_start [OF r(3)] | assumption)+
qed

end
