(* ===== verification/Wake_Up.thy ===== *)
theory Wake_Up
  imports Publish_Message Consume_Messages
begin

text \<open>
  Back-pressure and wake-up: a publisher that is held back is told when a read makes room.
  The publisher waits on its space eventfd (\<open>try_publish_one\<close> returned \<open>Blocked\<close>), and the
  subscriber writes that eventfd only when it returns a chunk to the pool; the lemmas show
  that this is often enough.
\<close>

lemma free_list_empty_cong:
  "head_offset sd' = head_offset sd \<Longrightarrow> tail_offset sd' = tail_offset sd \<Longrightarrow>
    free_list_empty c sd' = free_list_empty c sd"
  by (simp add: free_list_empty_def)

text \<open>A position fifteen behind the write index is the oldest of any queue that contains it.\<close>

lemma full_span_member:
  assumes "r < 16" "u < 16" "w < 16" "length (ring_span r w) = 15" "r \<in> set (ring_span u w)"
  shows "u = r"
proof -
  have r: "(w + 1) mod 16 = r" using ring_span_full_iff [OF assms(1,3)] assms(4) by simp
  show ?thesis
  proof (cases "w = 15")
    case True
    with r have "r = 0" by simp
    with assms(2,5) True show ?thesis by (auto simp: ring_span_def split: if_splits)
  next
    case False
    with r assms(3) have "r = w + 1" by simp
    with assms(2,3,5) show ?thesis by (auto simp: ring_span_def split: if_splits)
  qed
qed

lemma unblocking_read_is_last:
  assumes ok: "ring_ok sd" and ok': "ring_ok sd'" and wr: "wrx sd' = wrx sd"
    and unr: "unread sd s = r # unread sd' s" and others: "\<And>t. t \<noteq> s \<Longrightarrow> unread sd' t = unread sd t"
    and act: "\<And>t. active sd' t \<longleftrightarrow> active sd t"
    and heads: "(\<exists>t. r \<in> set (unread sd' t)) \<longrightarrow> head_offset sd' = head_offset sd \<and> tail_offset sd' = tail_offset sd"
    and held: "held_back payload sd" and free: "\<not> held_back payload sd'"
  shows "\<forall>t. r \<notin> set (unread sd' t)"
proof (rule ccontr)
  assume "\<not> ?thesis"
  then obtain t where t: "r \<in> set (unread sd' t)" by blast
  with heads have h: "head_offset sd' = head_offset sd" "tail_offset sd' = tail_offset sd" by auto
  have "distinct (unread sd s)" by (simp add: unread_def)
  with unr t have ts: "t \<noteq> s" by auto
  have q: "length (queue x y) = length (unread x y)" for x y by (simp add: queue_def)
  note us = unread_Cons [OF ok unr]
  have w16: "wrx sd < 16" using ok by (simp add: ring_ok_def)
  from held free free_list_empty_cong [OF h] act us(1) obtain u where
    u: "active sd u" "length (unread sd u) = 15"
    unfolding held_back_def q by blast
  have "u = s"
    using u others [of u] free act unfolding held_back_def q by metis
  then have full: "length (ring_span r (wrx sd)) = 15" using u us(3) by (simp add: unread_def)
  have at: "active sd t" using t others [OF ts] by (auto simp: unread_def split: if_splits)
  have t16: "rdx sd t < 16" using ok at by (simp add: ring_ok_def)
  have "r \<in> set (ring_span (rdx sd t) (wrx sd))" using t others [OF ts] at by (simp add: unread_def)
  from full_span_member [OF us(4) t16 w16 full this] have "length (unread sd t) = 15"
    using full at by (simp add: unread_def)
  then have "length (unread sd' t) = 15" "active sd' t" using others [OF ts] act at by auto
  with free show False unfolding held_back_def q by blast
qed

text \<open>If a read of one descriptor ends the blockage, it has written the space eventfd.\<close>

lemma unblocking_read_signals:
  assumes inv: "data_inv p sd" and att: "att_inv (seq p) a sd"
    and unr: "unread sd (unat (slot_index a)) = r # rest" and sig: "sig (att_space_available_event_fd a)"
    and code: "read_descriptor sig flags (desc_ring sd r) a sd w = Some (result, a', sd', w')"
    and held: "held_back payload sd" and free: "\<not> held_back payload sd'"
  shows "space_signals w' = space_signals w @ [att_space_available_event_fd a]"
proof -
  from read_descriptor_ok [OF inv att unr, of sig flags w] sig code
  have c: "consumed p [r] a sd a' sd'"
    and sp: "space_signals w' = space_signals w
        @ (if \<exists>t. r \<in> set (unread sd' t) then [] else [att_space_available_event_fd a])"
    and h: "(\<exists>t. r \<in> set (unread sd' t)) \<longrightarrow> head_offset sd' = head_offset sd \<and> tail_offset sd' = tail_offset sd"
    by auto
  have "\<forall>t. r \<notin> set (unread sd' t)"
  proof (rule unblocking_read_is_last [OF data_invD(1) [OF inv] _ _ _ _ _ h held free])
    show "ring_ok sd'" using consumedD(1) [OF c] by (rule data_invD)
    show "wrx sd' = wrx sd" using consumed_write_index [OF c] by (simp add: wrx_def)
    show "unread sd (unat (slot_index a)) = r # unread sd' (unat (slot_index a))"
      using consumedD(6) [OF c] by simp
  qed (use consumedD(7,8) [OF c] in auto)
  then show ?thesis using sp by simp
qed

section \<open>Capacity of the pool\<close>

text \<open>At most sixteen chunks are referenced, so a class of 32 or more never runs out.\<close>

lemma used_chunks_le:
  assumes inv: "core_inv hold {} sd"
  shows "card {i. i < class_count c \<and> refmask sd (c, i) \<noteq> 0 \<and> c < 5} \<le> 16"
proof -
  let ?U = "{i. i < class_count c \<and> refmask sd (c, i) \<noteq> 0 \<and> c < 5}"
  have live: "live hold \<subseteq> {..<16}" using core_invD(2) [OF inv] by (auto simp: live_def)
  have "?U \<subseteq> (\<lambda>q. snd (chunk_at sd q)) ` live hold"
  proof
    fix i assume i: "i \<in> ?U"
    then have "chunk_ok (c, i)" by (simp add: chunk_ok_def)
    from refmask_zero_iff [OF inv this] i obtain q where q: "q \<in> live hold" "chunk_at sd q = (c, i)" by blast
    then have "i = snd (chunk_at sd q)" by simp
    with q(1) show "i \<in> (\<lambda>q. snd (chunk_at sd q)) ` live hold" by blast
  qed
  also have "\<dots> \<subseteq> (\<lambda>q. snd (chunk_at sd q)) ` {..<16}" using live by blast
  finally have "card ?U \<le> card ((\<lambda>q. snd (chunk_at sd q)) ` {..<16::nat})"
    by (intro card_mono) auto
  also have "\<dots> \<le> 16" using card_image_le [of "{..<16::nat}"] by simp
  finally show ?thesis .
qed

lemma small_class_not_empty:
  assumes inv: "core_inv hold {} sd" and c: "c < 2"
  shows "\<not> free_list_empty c sd"
proof -
  have c5: "c < 5" using c by simp
  from core_invD(6) [OF inv c5] obtain xs where
    fl: "free_list c sd xs" and xs: "set xs = free_chunks {} sd c" by blast
  have n: "32 \<le> class_count c" using c by (auto simp: class_count_def less_Suc_eq numeral_2_eq_2)
  let ?U = "{i. i < class_count c \<and> refmask sd (c, i) \<noteq> 0 \<and> c < 5}"
  have "{..<class_count c} = set xs \<union> ?U" using c5 by (auto simp: xs free_chunks_def chunk_ok_def)
  then have "class_count c = card (set xs \<union> ?U)" by (metis card_lessThan)
  also have "\<dots> \<le> card (set xs) + card ?U" by (rule card_Un_le)
  also have "card (set xs) = length xs" using fl by (simp add: free_list_def distinct_card)
  finally have "32 \<le> length xs + 16" using n used_chunks_le [OF inv, of c] by simp
  then show ?thesis using free_list_empty_iff [OF fl] by simp
qed

lemma small_message_held_back_iff:
  assumes inv: "data_inv p sd" and len: "length payload \<le> 120"
  shows "held_back payload sd
    \<longleftrightarrow> (\<forall>s. \<not> active sd s) \<or> (\<exists>s. active sd s \<and> length (queue sd s) = 15)"
proof -
  have "unat (of_nat (length payload + 8) :: u32) \<le> 128"
    using len by (subst unat_of_nat_small) auto
  then have "of_nat (length payload + 8) \<le> (128 :: u32)" by (simp add: word_le_nat_alt del: of_nat_add)
  then have "nat (find_size_class (of_nat (length payload + 8))) < 2"
    unfolding find_size_class_unfold by (simp del: of_nat_add)
  from small_class_not_empty [OF data_invD(2) [OF inv] this] show ?thesis by (simp add: held_back_def)
qed

end
