(* ===== verification/Segment_Init.thy ===== *)
theory Segment_Init
  imports Publisher_Data
begin

text \<open>
  The segment left by \<open>initialize_shared_data\<close> and \<open>initialize_chunk_usage_tracker\<close>
  (\<open>src/publisher.cpp\<close>) satisfies the invariant of the data path: every chunk is free and
  linked into the list of its class, no slot is active and no message is unread.
\<close>

lemma fold_upd_const:
  "fold (\<lambda>s f. f(s := v)) xs f = (\<lambda>s. if s \<in> set xs then v else f s)"
  by (induction xs arbitrary: f) auto

lemma init_read_indices:
  "fold (\<lambda>s sd. sd\<lparr>descriptor_read_indices := (descriptor_read_indices sd)(s := v)\<rparr>) xs sd
    = sd\<lparr>descriptor_read_indices := fold (\<lambda>s f. f(s := v)) xs (descriptor_read_indices sd)\<rparr>"
  by (induction xs arbitrary: sd) simp_all

lemma init_counts:
  "fold (\<lambda>c sd. sd\<lparr>chunk_reference_counts := (chunk_reference_counts sd)(c := v)\<rparr>) xs sd
    = sd\<lparr>chunk_reference_counts := fold (\<lambda>c f. f(c := v)) xs (chunk_reference_counts sd)\<rparr>"
  by (induction xs arbitrary: sd) simp_all

lemma upt_classes: "[Suc 0..<5] = [1, 2, 3, 4::nat]" "[1..<5] = [1, 2, 3, 4::nat]" "[0..<4] = [0, 1, 2, 3::nat]" "[0..<5] = [0, 1, 2, 3, 4::nat]"
  by (simp_all add: upt_rec)

lemma init_heads_eq:
  "\<exists>f. init_heads sd = sd\<lparr>head_offset := f\<rparr> \<and> (\<forall>c<5. f c = off_word (c, 0))"
proof -
  let ?f = "(head_offset sd)(0 := 0, 1 := 1024, 2 := 5120, 3 := 9216, 4 := 13312)"
  have "init_heads sd = sd\<lparr>head_offset := ?f\<rparr>"
    by (simp add: init_heads_def kClassCount_def upt_classes kClassSizeBytes_def kChunkCountBySizeClass_def)
  moreover have "\<forall>c<5. ?f c = off_word (c, 0)"
    by (auto simp: less_5_cases off_word_def chunk_off_def class_first_def)
  ultimately show ?thesis by blast
qed

lemma init_tails_eq:
  assumes "\<forall>c<5. head_offset sd c = off_word (c, 0)"
  shows "\<exists>f. init_tails sd = sd\<lparr>tail_offset := f\<rparr> \<and> (\<forall>c<5. f c = off_word (c, class_count c - 1))"
proof -
  have h: "head_offset sd 1 = 1024" "head_offset sd (Suc 0) = 1024" "head_offset sd (Suc (Suc 0)) = 5120"
    "head_offset sd 2 = 5120"
    "head_offset sd 3 = 9216" "head_offset sd 4 = 13312"
    using assms by (simp_all add: off_word_def chunk_off_def class_first_def flip: numeral_2_eq_2)
  let ?f = "(tail_offset sd)(0 := 1008, 1 := 4992, 2 := 8960, 3 := 12800, 4 := 20480)"
  have "init_tails sd = sd\<lparr>tail_offset := ?f\<rparr>"
    by (simp add: init_tails_def Let_def kClassCount_def upt_classes kClassSizeBytes_def
      kPayloadPoolSizeBytes_def h)
  moreover have "\<forall>c<5. ?f c = off_word (c, class_count c - 1)"
    by (auto simp: less_5_cases off_word_def chunk_off_def class_defs)
  ultimately show ?thesis by blast
qed

lemma initialize_shared_data_eq:
  "\<exists>sd'. initialize_shared_data sd = Some sd'
    \<and> descriptor_write_index sd' = 0
    \<and> (\<forall>s<16. descriptor_read_indices sd' s = kInvalidIndex)
    \<and> (\<forall>k<kTotalChunkCount. chunk_reference_counts sd' k = 0)
    \<and> (\<forall>c<5. free_list c sd' [0..<class_count c])"
proof -
  define sd1 where "sd1 = sd\<lparr>descriptor_read_indices :=
      fold (\<lambda>s f. f(s := kInvalidIndex)) [0..<kMaxSubscribers] (descriptor_read_indices sd),
    descriptor_write_index := 0\<rparr>"
  obtain f where f: "init_heads sd1 = sd1\<lparr>head_offset := f\<rparr>" "\<forall>c<5. f c = off_word (c, 0)"
    using init_heads_eq by blast
  obtain g where g: "init_tails (sd1\<lparr>head_offset := f\<rparr>) = sd1\<lparr>head_offset := f, tail_offset := g\<rparr>"
      "\<forall>c<5. g c = off_word (c, class_count c - 1)"
    using init_tails_eq [of "sd1\<lparr>head_offset := f\<rparr>"] f(2) by auto
  define sd2 where "sd2 = sd1\<lparr>head_offset := f, tail_offset := g, chunk_reference_counts :=
    fold (\<lambda>c f. f(c := 0)) [0..<kTotalChunkCount] (chunk_reference_counts sd1)\<rparr>"
  have "distinct [0..<5::nat]" "\<forall>c \<in> set [0..<5]. c < (5::nat)" "\<forall>c<5. head_offset sd2 c = off_word (c, 0)"
    using f(2) by (auto simp: sd2_def)
  from init_classes_correct [OF this] obtain m where
    m: "init_classes [0..<5] sd2 = Some (sd2\<lparr>data := m\<rparr>)"
      "\<forall>c \<in> set [0..<5]. links c (sd2\<lparr>data := m\<rparr>) [0..<class_count c]" by blast
  have code: "initialize_shared_data sd = Some (sd2\<lparr>data := m\<rparr>)"
    unfolding initialize_shared_data_def Let_def init_read_indices init_counts
    using f(1) g(1) m(1) by (simp add: sd1_def sd2_def kClassCount_def)
  have "free_list c (sd2\<lparr>data := m\<rparr>) [0..<class_count c]" if c: "c < 5" for c
  proof -
    have "class_count c \<noteq> 0" using class_bounds(3) [OF c] by simp
    with c f(2) g(2) m(2) show ?thesis
      by (simp add: free_list_def sd2_def last_conv_nth)
  qed
  then show ?thesis
    using code by (simp add: sd2_def sd1_def fold_upd_const kMaxSubscribers_def)
qed

text \<open>The state of a publisher that has not tracked any subscriber yet.\<close>

definition fresh_publisher :: "publisher \<Rightarrow> bool" where
  "fresh_publisher p \<longleftrightarrow>
     data_available_event_fds p = [] \<and> slot_by_event_fd p = Map.empty \<and> seq p = 0"

lemma create_shared_data_inv:
  assumes "fresh_publisher p"
  shows "\<exists>sd'. create_shared_data sd = Some sd' \<and> data_inv p sd' \<and> (\<forall>s. \<not> active sd' s)
    \<and> (\<forall>c<5. free_list c sd' [0..<class_count c])"
proof -
  from initialize_shared_data_eq [of sd] obtain sd1 where
    i: "initialize_shared_data sd = Some sd1" and wr: "descriptor_write_index sd1 = 0"
    and rd: "\<forall>s<16. descriptor_read_indices sd1 s = kInvalidIndex"
    and rc: "\<forall>k<kTotalChunkCount. chunk_reference_counts sd1 k = 0"
    and fl: "\<forall>c<5. free_list c sd1 [0..<class_count c]" by blast
  let ?sd = "initialize_chunk_usage_tracker sd1"
  have c: "create_shared_data sd = Some ?sd" by (simp add: create_shared_data_def i)
  have act: "\<not> active ?sd s" for s
    using rd by (auto simp: active_def initialize_chunk_usage_tracker_def kMaxSubscribers_def)
  have unr: "unread ?sd s = []" for s using act by (simp add: unread_def)
  have mask: "refmask ?sd ch = 0" if "chunk_ok ch" for ch
    using rc chunk_gidx_less [OF that] by (simp add: refmask_def initialize_chunk_usage_tracker_def)
  have fl': "free_list c ?sd [0..<class_count c]" if "c < 5" for c
    using fl that by (simp add: initialize_chunk_usage_tracker_def)
  have "core_inv (\<lambda>s. set (unread ?sd s)) {} ?sd"
  proof (rule core_invI)
    show "\<exists>xs. free_list c ?sd xs \<and> set xs = free_chunks {} ?sd c" if "c < 5" for c
    proof (intro exI conjI)
      show "set [0..<class_count c] = free_chunks {} ?sd c"
        using that mask by (auto simp: free_chunks_def chunk_ok_def)
    qed (rule fl' [OF that])
    show "is_in_use ?sd c i \<longleftrightarrow> refmask ?sd (c, i) \<noteq> 0 \<or> (c, i) \<in> {}" if "chunk_ok (c, i)" for c i
      using mask [OF that] by (simp add: initialize_chunk_usage_tracker_def)
  qed (use mask in \<open>auto simp: unr live_def\<close>)
  moreover have "ring_ok ?sd"
    using act wr by (simp add: ring_ok_def wrx_def initialize_chunk_usage_tracker_def)
  moreover have "slots_inv p ?sd"
    using assms act by (auto simp: slots_inv_def tables_ok_def fresh_publisher_def)
  ultimately have "data_inv p ?sd" using assms by (simp add: data_inv_def headers_inv_def unr fresh_publisher_def)
  with c act fl' show ?thesis by blast
qed

end
