(* ===== verification/Transition_System.thy ===== *)
theory Transition_System
  imports DriveBus_Prelude
begin

text \<open>
  Labelled transition systems and simulations between them: the interface through which the
  data plane and the broker state what holds in every state they can reach.
\<close>

inductive run :: "('c \<Rightarrow> 'l \<Rightarrow> 'c \<Rightarrow> bool) \<Rightarrow> 'c \<Rightarrow> 'l list \<Rightarrow> 'c \<Rightarrow> bool" for step where
  run_nil: "run step c [] c"
| run_snoc: "run step c ls c' \<Longrightarrow> step c' l c'' \<Longrightarrow> run step c (ls @ [l]) c''"

lemma run_induct_history:
  assumes "run step c ls c'" "P [] c"
    and "\<And>ls a l a'. P ls a \<Longrightarrow> step a l a' \<Longrightarrow> P (ls @ [l]) a'"
  shows "P ls c'"
  using assms by (induction rule: run.induct) auto

lemma run_append: "run step c' ls' c'' \<Longrightarrow> run step c ls c' \<Longrightarrow> run step c (ls @ ls') c''"
  by (induction rule: run.induct) (auto simp: append_assoc [symmetric] simp del: append_assoc intro: run_snoc)

lemma run_single: "step c l c' \<Longrightarrow> run step c [l] c'"
  using run_snoc [OF run_nil] by fastforce

text \<open>An invariant of a system.\<close>

locale transition_system =
  fixes initial :: "'c \<Rightarrow> bool" and step :: "'c \<Rightarrow> 'l \<Rightarrow> 'c \<Rightarrow> bool" and inv :: "'c \<Rightarrow> bool"
  assumes initial_inv: "initial c \<Longrightarrow> inv c"
    and step_inv: "inv c \<Longrightarrow> step c l c' \<Longrightarrow> inv c'"
begin

lemma run_inv: "run step c ls c' \<Longrightarrow> initial c \<Longrightarrow> inv c'"
  by (induction rule: run.induct) (auto intro: initial_inv step_inv)

end

text \<open>A system with an invariant, simulated by an abstract one label by label.\<close>

locale refinement = transition_system initial step inv
  for initial :: "'c \<Rightarrow> bool" and step :: "'c \<Rightarrow> 'l \<Rightarrow> 'c \<Rightarrow> bool" and inv :: "'c \<Rightarrow> bool" +
  fixes abstraction :: "'c \<Rightarrow> 'a" and ainit :: "'a" and astep :: "'a \<Rightarrow> 'l \<Rightarrow> 'a \<Rightarrow> bool"
  assumes initial_abs: "initial c \<Longrightarrow> abstraction c = ainit"
    and step_abs: "inv c \<Longrightarrow> step c l c' \<Longrightarrow> astep (abstraction c) l (abstraction c')"
begin

lemma run_refines: "run step c ls c' \<Longrightarrow> initial c \<Longrightarrow> run astep ainit ls (abstraction c')"
proof (induction rule: run.induct)
  case (run_nil c)
  then show ?case by (simp add: initial_abs run.run_nil)
next
  case (run_snoc c ls c' l c'')
  then show ?case by (auto intro: run.run_snoc step_abs run_inv)
qed

text \<open>A property of abstract histories carries over to the concrete system.\<close>

lemma run_history:
  assumes "run step c ls c'" "initial c" "P [] ainit"
    and "\<And>ls a l a'. P ls a \<Longrightarrow> astep a l a' \<Longrightarrow> P (ls @ [l]) a'"
  shows "P ls (abstraction c')"
  using run_induct_history [OF run_refines [OF assms(1,2)]] assms(3,4) by blast

end

end
