(* ===== verification/Data_Plane.thy ===== *)
theory Data_Plane
  imports Wake_Up Segment_Init Transition_System
begin

text \<open>
  One publisher, its segment and the subscribers attached to it, as a transition system.  A
  step is one operation of the code, run on the current state: tracking a subscriber, one
  publishing attempt, the reading of one descriptor (so that reads of different subscribers
  and publications interleave freely inside a \<open>handle_data_available_event\<close>), or the reaping
  of a dead subscriber.  The abstract system keeps one queue of payloads for each tracked slot.
\<close>

section \<open>The concrete system\<close>

record plane =
  pl_publisher :: publisher
  pl_io :: io
  pl_attachments :: "nat \<rightharpoonup> publisher_attachment"

abbreviation pl_seg :: "plane \<Rightarrow> shared_data" where "pl_seg st \<equiv> shm (pl_io st)"

datatype data_event = Attach nat | Published bytes | Held_Back bytes | Received nat bytes | Reaped nat

text \<open>What the subscriber knows of a publisher when it installs the attachment.\<close>

definition new_attachment :: "subscriber_registration \<Rightarrow> publisher_attachment" where
  "new_attachment reg = empty_attachment\<lparr>slot_index := reg_slot_index reg, shared_data_at := Some 0\<rparr>"

inductive data_step :: "plane \<Rightarrow> data_event \<Rightarrow> plane \<Rightarrow> bool" where
  attach: "track_subscriber reg (pl_publisher st) (pl_io st) = Some (None, p', w') \<Longrightarrow>
    s = unat (reg_slot_index reg) \<Longrightarrow>
    data_step st (Attach s)
      (st\<lparr>pl_publisher := p', pl_io := w',
         pl_attachments := (pl_attachments st)(s \<mapsto> new_attachment reg)\<rparr>)"
| publish: "try_publish_one all_ok payload (pl_publisher st) (pl_io st) = Some (Inr Succeeded, p', w') \<Longrightarrow>
    data_step st (Published payload) (st\<lparr>pl_publisher := p', pl_io := w'\<rparr>)"
| held: "try_publish_one all_ok payload (pl_publisher st) (pl_io st) = Some (Inr Blocked, p', w') \<Longrightarrow>
    data_step st (Held_Back payload) (st\<lparr>pl_publisher := p', pl_io := w'\<rparr>)"
| receive: "pl_attachments st s = Some a \<Longrightarrow>
    initialize_subscriber_read_index a (pl_seg st) = Some a1 \<Longrightarrow>
    subscriber_read_index a1 \<noteq> descriptor_write_index (pl_seg st) \<Longrightarrow>
    read_descriptor all_ok SUB_SYNCHRONOUS
      (desc_ring (pl_seg st) (unat (subscriber_read_index a1))) a1 (pl_seg st) io = Some (Inr [m], a', sd', io') \<Longrightarrow>
    data_step st (Received s m)
      (st\<lparr>pl_io := (pl_io st)\<lparr>shm := sd'\<rparr>, pl_attachments := (pl_attachments st)(s \<mapsto> a')\<rparr>)"
| reap: "reap_dead_subscribers slot (pl_publisher st) (pl_io st) = Some (RunNone, p', w') \<Longrightarrow>
    s = unat slot \<Longrightarrow>
    data_step st (Reaped s)
      (st\<lparr>pl_publisher := p', pl_io := w', pl_attachments := (pl_attachments st)(s := None)\<rparr>)"

inductive_cases data_stepE: "data_step st l st'"

definition data_initial :: "plane \<Rightarrow> bool" where
  "data_initial st \<longleftrightarrow> fresh_publisher (pl_publisher st) \<and> pl_attachments st = Map.empty
     \<and> (\<exists>sd. create_shared_data sd = Some (pl_seg st))"

section \<open>The abstract system\<close>

type_synonym channel = "nat \<rightharpoonup> bytes list"

fun channel_step :: "channel \<Rightarrow> data_event \<Rightarrow> channel \<Rightarrow> bool" where
  "channel_step q (Attach s) q' \<longleftrightarrow> q s = None \<and> q' = q(s \<mapsto> [])"
| "channel_step q (Published m) q' \<longleftrightarrow> q' = (\<lambda>s. map_option (\<lambda>ms. ms @ [m]) (q s))"
| "channel_step q (Held_Back m) q' \<longleftrightarrow> q' = q"
| "channel_step q (Received s m) q' \<longleftrightarrow> (\<exists>ms. q s = Some (m # ms) \<and> q' = q(s \<mapsto> ms))"
| "channel_step q (Reaped s) q' \<longleftrightarrow> q s \<noteq> None \<and> q' = q(s := None)"

definition channel_of :: "plane \<Rightarrow> channel" where
  "channel_of st = (\<lambda>s. if active (pl_seg st) s then Some (queue (pl_seg st) s) else None)"

section \<open>The invariant\<close>

definition attachments_inv :: "s32 \<Rightarrow> shared_data \<Rightarrow> (nat \<rightharpoonup> publisher_attachment) \<Rightarrow> bool" where
  "attachments_inv n sd atts \<longleftrightarrow>
     (\<forall>s. active sd s \<longleftrightarrow> atts s \<noteq> None) \<and>
     (\<forall>s a. atts s = Some a \<longrightarrow> unat (slot_index a) = s \<and> att_start n a sd)"

definition plane_inv :: "plane \<Rightarrow> bool" where
  "plane_inv st \<longleftrightarrow> data_inv (pl_publisher st) (pl_seg st)
     \<and> attachments_inv (seq (pl_publisher st)) (pl_seg st) (pl_attachments st)"

lemma attachments_invD:
  assumes "attachments_inv n sd atts"
  shows "active sd s \<longleftrightarrow> atts s \<noteq> None" "atts s = Some a \<Longrightarrow> unat (slot_index a) = s"
    "atts s = Some a \<Longrightarrow> att_start n a sd"
  using assms by (auto simp: attachments_inv_def)

lemma att_start_cong:
  assumes "att_start n a sd" "active sd' (unat (slot_index a))"
    "descriptor_read_indices sd' (unat (slot_index a)) = descriptor_read_indices sd (unat (slot_index a))"
    "descriptor_write_index sd' = descriptor_write_index sd"
  shows "att_start n a sd'"
  using assms by (simp add: att_start_def rdx_def wrx_def)

section \<open>Steps keep the invariant and follow the abstract system\<close>

lemma publish_overflow:
  assumes "try_publish_one sig payload p w = Some (Inr Succeeded, p', w')"
  shows "seq p \<noteq> 2147483647"
proof
  assume n: "seq p = 2147483647"
  have "write_message wr off len (seq p) payload sd = None" for wr off len sd
    by (simp add: write_message_def int_incr_def n bind_eq_None_conv)
  then show False
    using assms
    by (auto simp: try_publish_one_def publish_into_chunk_def Let_def bind_eq_Some_conv split: if_splits)
qed

lemma att_start_publish:
  assumes att: "att_start n a sd" and ok: "ring_ok sd"
    and room: "length (unread sd (unat (slot_index a))) \<noteq> 15"
    and act: "active sd' (unat (slot_index a))" and w': "wrx sd' = (wrx sd + 1) mod 16"
    and rd: "descriptor_read_indices sd' = descriptor_read_indices sd"
  shows "att_start (n + 1) a sd'"
proof -
  let ?s = "unat (slot_index a)"
  have a: "active sd ?s" using att by (simp add: att_start_def)
  have r16: "rdx sd ?s < 16" and w16: "wrx sd < 16" using ok a by (auto simp: ring_ok_def)
  have "rdx sd ?s \<noteq> (wrx sd + 1) mod 16"
    using room a ring_span_full_iff [OF r16 w16] by (simp add: unread_def)
  note b = back_dist_Suc [OF w16 r16 this]
  have rdx: "rdx sd' ?s = rdx sd ?s" by (simp add: rdx_def rd)
  have e: "n + 1 - of_nat (back_dist (wrx sd') (rdx sd' ?s)) = n - of_nat (back_dist (wrx sd) (rdx sd ?s))"
    unfolding w' rdx b by simp
  show ?thesis unfolding att_start_def e rd using att act unfolding att_start_def by blast
qed

lemma track_success:
  assumes inv: "data_inv p (shm w)" and ok: "track_subscriber reg p w = Some (None, p', w')"
  shows "unat (reg_slot_index reg) < kMaxSubscribers" "\<not> active (shm w) (unat (reg_slot_index reg))"
    "reg_event_fd reg \<notin> set (data_available_event_fds p)"
proof -
  have *: "\<not> (kMaxSubscribers \<le> unat (reg_slot_index reg)
    \<or> active (shm w) (unat (reg_slot_index reg)) \<or> slot_by_event_fd p (reg_event_fd reg) \<noteq> None)"
  proof
    assume "kMaxSubscribers \<le> unat (reg_slot_index reg)
      \<or> active (shm w) (unat (reg_slot_index reg)) \<or> slot_by_event_fd p (reg_event_fd reg) \<noteq> None"
    from track_errors [OF this] ok show False by auto
  qed
  then show "unat (reg_slot_index reg) < kMaxSubscribers" "\<not> active (shm w) (unat (reg_slot_index reg))"
    by auto
  have "set (data_available_event_fds p) = dom (slot_by_event_fd p)"
    using data_invD(3) [OF inv] tables_okD(2) unfolding slots_inv_def by blast
  then show "reg_event_fd reg \<notin> set (data_available_event_fds p)" using * by auto
qed

lemma attach_step:
  assumes inv: "plane_inv st"
    and ok: "track_subscriber reg (pl_publisher st) (pl_io st) = Some (None, p', w')"
    and s: "s = unat (reg_slot_index reg)"
  defines "st' \<equiv> st\<lparr>pl_publisher := p', pl_io := w',
         pl_attachments := (pl_attachments st)(s \<mapsto> new_attachment reg)\<rparr>"
  shows "plane_inv st' \<and> channel_step (channel_of st) (Attach s) (channel_of st')"
proof -
  have d: "data_inv (pl_publisher st) (pl_seg st)"
    and at: "attachments_inv (seq (pl_publisher st)) (pl_seg st) (pl_attachments st)"
    using inv by (auto simp: plane_inv_def)
  note pre = track_success [OF d ok]
  from track_correct [OF d pre] ok have
    d': "data_inv p' (shm w')" and act': "active (shm w') s" and q': "queue (shm w') s = []"
    and oth: "\<forall>t. t \<noteq> s \<longrightarrow> (active (shm w') t \<longleftrightarrow> active (pl_seg st) t) \<and> queue (shm w') t = queue (pl_seg st) t"
    and seg: "shm w' = (pl_seg st)\<lparr>descriptor_read_indices := (descriptor_read_indices (pl_seg st))
         (s := descriptor_write_index (pl_seg st))\<rparr>"
    and sq: "seq p' = seq (pl_publisher st)"
    unfolding s by auto
  have "att_start (seq (pl_publisher st)) a (shm w')" "unat (slot_index a) = t"
    if a: "((pl_attachments st)(s \<mapsto> new_attachment reg)) t = Some a" for t a
  proof -
    show slot: "unat (slot_index a) = t"
      using a attachments_invD(2) [OF at] by (auto simp: new_attachment_def s split: if_splits)
    show "att_start (seq (pl_publisher st)) a (shm w')"
    proof (cases "t = s")
      case True
      with a have "a = new_attachment reg" by simp
      with act' s show ?thesis by (simp add: att_start_def new_attachment_def empty_attachment_def)
    next
      case False
      with a have as: "pl_attachments st t = Some a" by simp
      from attachments_invD(3) [OF at as] show ?thesis
        by (rule att_start_cong) (use False oth slot attachments_invD(1) [OF at, of t] as in \<open>auto simp: seg\<close>)
    qed
  qed
  moreover have "active (shm w') t \<longleftrightarrow> ((pl_attachments st)(s \<mapsto> new_attachment reg)) t \<noteq> None" for t
    using oth act' attachments_invD(1) [OF at, of t] by auto
  ultimately have "attachments_inv (seq p') (shm w') (pl_attachments st')"
    by (auto simp: attachments_inv_def sq st'_def)
  moreover have "channel_of st' = (channel_of st)(s \<mapsto> [])"
    using oth act' q' by (auto simp: channel_of_def st'_def fun_eq_iff)
  ultimately show ?thesis
    using d' pre(2) by (simp add: plane_inv_def st'_def channel_of_def s)
qed

lemma publish_step:
  assumes inv: "plane_inv st"
    and ok: "try_publish_one all_ok payload (pl_publisher st) (pl_io st) = Some (Inr Succeeded, p', w')"
  defines "st' \<equiv> st\<lparr>pl_publisher := p', pl_io := w'\<rparr>"
  shows "plane_inv st' \<and> channel_step (channel_of st) (Published payload) (channel_of st')"
proof -
  let ?p = "pl_publisher st"
  have d: "data_inv ?p (pl_seg st)"
    and at: "attachments_inv (seq ?p) (pl_seg st) (pl_attachments st)"
    using inv by (auto simp: plane_inv_def)
  have len: "length payload \<le> kMaxPayloadSizeBytes"
    using ok try_publish_one_too_large [of payload all_ok ?p "pl_io st"] by (cases "kMaxPayloadSizeBytes < length payload") auto
  have go: "\<not> held_back payload (pl_seg st)"
    using ok try_publish_one_blocked [OF d len, of all_ok] by auto
  from try_publish_one_ok [OF d len go publish_overflow [OF ok], of all_ok] ok have
    p': "p' = ?p\<lparr>seq := seq ?p + 1\<rparr>" and d': "data_inv p' (shm w')"
    and act: "\<And>s. active (shm w') s \<longleftrightarrow> active (pl_seg st) s"
    and q: "\<And>s. queue (shm w') s = (if active (pl_seg st) s then queue (pl_seg st) s @ [payload] else [])"
    and rd: "descriptor_read_indices (shm w') = descriptor_read_indices (pl_seg st)"
    and wr: "wrx (shm w') = (wrx (pl_seg st) + 1) mod 16"
    by auto
  have "att_start (seq p') a (shm w')" if a: "pl_attachments st s = Some a" for s a
  proof -
    have sl: "unat (slot_index a) = s" by (rule attachments_invD(2) [OF at a])
    have as: "active (pl_seg st) s" using attachments_invD(1) [OF at] a by simp
    then have "length (unread (pl_seg st) s) \<noteq> 15"
      using go by (auto simp: held_back_def queue_def)
    with att_start_publish [OF attachments_invD(3) [OF at a] data_invD(1) [OF d] _ _ wr rd] as act sl
    show ?thesis by (simp add: p')
  qed
  then have "attachments_inv (seq p') (shm w') (pl_attachments st)"
    using attachments_invD(1,2) [OF at] act by (auto simp: attachments_inv_def)
  moreover have "channel_of st' = (\<lambda>s. map_option (\<lambda>ms. ms @ [payload]) (channel_of st s))"
    by (auto simp: channel_of_def st'_def fun_eq_iff act q)
  ultimately show ?thesis using d' by (simp add: plane_inv_def st'_def)
qed

lemma held_step:
  assumes inv: "plane_inv st"
    and ok: "try_publish_one all_ok payload (pl_publisher st) (pl_io st) = Some (Inr Blocked, p', w')"
  shows "p' = pl_publisher st \<and> w' = pl_io st"
proof -
  let ?p = "pl_publisher st"
  have d: "data_inv ?p (pl_seg st)" using inv by (auto simp: plane_inv_def)
  have len: "length payload \<le> kMaxPayloadSizeBytes"
    using ok try_publish_one_too_large [of payload all_ok ?p "pl_io st"] by (cases "kMaxPayloadSizeBytes < length payload") auto
  have "publish_into_chunk all_ok c n payload ?p (pl_io st) \<noteq> Some (Inr Blocked, p', w')" for c n
    by (auto simp: publish_into_chunk_def bind_eq_Some_conv Let_def split: sum.splits if_splits prod.splits)
  then show ?thesis
    using ok try_publish_one_body [OF len d, of all_ok] by (auto split: if_splits)
qed

lemma ring_span_inj:
  assumes "r < 16" "r' < 16" "w < 16" "ring_span r w = ring_span r' w"
  shows "r = r'"
proof (cases "r = w")
  case True
  with assms ring_span_empty_iff [OF assms(2), of w] show ?thesis by auto
next
  case False
  with assms ring_span_Cons [OF assms(1,3)] ring_span_Cons [OF assms(2,3)] show ?thesis
    by (cases "r' = w") auto
qed

lemma read_index_of_unread:
  assumes "ring_ok sd" "ring_ok sd'" "active sd t" "active sd' t" "wrx sd' = wrx sd"
    "unread sd' t = unread sd t"
  shows "descriptor_read_indices sd' t = descriptor_read_indices sd t"
  using assms ring_span_inj [of "rdx sd' t" "rdx sd t" "wrx sd"]
  by (simp add: unread_def ring_ok_def rdx_def word_unat_eq_iff)

lemma receive_step:
  assumes inv: "plane_inv st" and a: "pl_attachments st s = Some a"
    and init: "initialize_subscriber_read_index a (pl_seg st) = Some a1"
    and ne: "subscriber_read_index a1 \<noteq> descriptor_write_index (pl_seg st)"
    and code: "read_descriptor all_ok SUB_SYNCHRONOUS
      (desc_ring (pl_seg st) (unat (subscriber_read_index a1))) a1 (pl_seg st) io = Some (Inr [m], a', sd', io')"
  defines "st' \<equiv> st\<lparr>pl_io := (pl_io st)\<lparr>shm := sd'\<rparr>, pl_attachments := (pl_attachments st)(s \<mapsto> a')\<rparr>"
  shows "plane_inv st' \<and> channel_step (channel_of st) (Received s m) (channel_of st')"
proof -
  let ?p = "pl_publisher st" let ?sd = "pl_seg st"
  have d: "data_inv ?p ?sd" and at: "attachments_inv (seq ?p) ?sd (pl_attachments st)"
    using inv by (auto simp: plane_inv_def)
  have ok: "ring_ok ?sd" by (rule data_invD(1) [OF d])
  from initialize_subscriber_read_index_ok [OF attachments_invD(3) [OF at a]] init
  have att: "att_inv (seq ?p) a1 ?sd" and sl: "slot_index a1 = slot_index a" by auto
  have s1: "unat (slot_index a1) = s" using sl attachments_invD(2) [OF at a] by simp
  have act: "active ?sd s" and rd: "subscriber_read_index a1 = descriptor_read_indices ?sd s"
    using att s1 by (simp_all add: att_inv_def)
  obtain r rest where unr: "unread ?sd (unat (slot_index a1)) = r # rest"
    using read_all_caught_up [OF d att] ne by (cases "unread ?sd (unat (slot_index a1))") auto
  have r: "unat (subscriber_read_index a1) = r"
    using unread_Cons(3) [OF ok unr] rd s1 by (simp add: rdx_def)
  from read_descriptor_ok [OF d att unr, of all_ok SUB_SYNCHRONOUS io] code
  have m: "delivered SUB_SYNCHRONOUS [payload_at ?sd r] = [m]" and c: "consumed ?p [r] a1 ?sd a' sd'"
    unfolding r by auto
  have m': "m = payload_at ?sd r"
    using m by (simp add: delivered_def is_synchronous_def SUB_SYNCHRONOUS_def)
  note act' = consumedD(8) [OF c]
  have wr: "wrx sd' = wrx ?sd" using consumed_write_index [OF c] by (simp add: wrx_def)
  have "att_start (seq ?p) b sd' \<and> unat (slot_index b) = t"
    if b: "((pl_attachments st)(s \<mapsto> a')) t = Some b" for t b
  proof (cases "t = s")
    case True
    with b have "b = a'" by simp
    with consumedD(2,3) [OF c] s1 True show ?thesis by (simp add: att_inv_start)
  next
    case False
    with b have bt: "pl_attachments st t = Some b" by simp
    have sb: "unat (slot_index b) = t" by (rule attachments_invD(2) [OF at bt])
    have "active ?sd t" using attachments_invD(1) [OF at, of t] bt by simp
    with False consumedD(7) [OF c, of t] s1 act' wr ok data_invD(1) [OF consumedD(1) [OF c]]
    have "descriptor_read_indices sd' t = descriptor_read_indices ?sd t"
      by (intro read_index_of_unread) auto
    with att_start_cong [OF attachments_invD(3) [OF at bt], of sd'] sb \<open>active ?sd t\<close> act'
      consumed_write_index [OF c]
    show ?thesis by simp
  qed
  moreover have "active sd' t \<longleftrightarrow> ((pl_attachments st)(s \<mapsto> a')) t \<noteq> None" for t
    using act' act attachments_invD(1) [OF at, of t] by auto
  ultimately have "attachments_inv (seq ?p) sd' ((pl_attachments st)(s \<mapsto> a'))"
    unfolding attachments_inv_def by blast
  then have "plane_inv st'" using consumedD(1) [OF c] by (simp add: plane_inv_def st'_def)
  moreover have "queue ?sd s = m # queue sd' s"
    using consumed_queues(1) [OF c] s1 m' by simp
  moreover have "queue sd' t = queue ?sd t" if "t \<noteq> s" for t
    using consumed_queues(2) [OF c] s1 that by simp
  ultimately show ?thesis
    using act act' by (auto simp: channel_of_def st'_def fun_eq_iff)
qed

lemma reap_step:
  assumes inv: "plane_inv st"
    and code: "reap_dead_subscribers slot (pl_publisher st) (pl_io st) = Some (RunNone, p', w')"
    and s: "s = unat slot"
  defines "st' \<equiv> st\<lparr>pl_publisher := p', pl_io := w', pl_attachments := (pl_attachments st)(s := None)\<rparr>"
  shows "plane_inv st' \<and> channel_step (channel_of st) (Reaped s) (channel_of st')"
proof -
  let ?p = "pl_publisher st" let ?sd = "pl_seg st"
  have d: "data_inv ?p ?sd" and at: "attachments_inv (seq ?p) ?sd (pl_attachments st)"
    using inv by (auto simp: plane_inv_def)
  have act: "active ?sd s"
    using reap_errors [of "pl_io st" slot ?p] code s by (cases "active ?sd s") auto
  from reap_correct [OF d act [unfolded s]] code have
    d': "data_inv p' (shm w')" and na: "\<not> active (shm w') s"
    and oth: "\<And>t. t \<noteq> s \<Longrightarrow> active (shm w') t \<longleftrightarrow> active ?sd t" "\<And>t. t \<noteq> s \<Longrightarrow> queue (shm w') t = queue ?sd t"
    and wr: "descriptor_write_index (shm w') = descriptor_write_index ?sd"
    and rd: "\<And>t. t \<noteq> s \<Longrightarrow> descriptor_read_indices (shm w') t = descriptor_read_indices ?sd t"
    and sq: "seq p' = seq ?p"
    unfolding s by auto
  have "att_start (seq p') b (shm w') \<and> unat (slot_index b) = t"
    if b: "((pl_attachments st)(s := None)) t = Some b" for t b
  proof -
    from b have ts: "t \<noteq> s" and bt: "pl_attachments st t = Some b" by (auto split: if_splits)
    have sb: "unat (slot_index b) = t" by (rule attachments_invD(2) [OF at bt])
    have "active ?sd t" using attachments_invD(1) [OF at, of t] bt by simp
    with att_start_cong [OF attachments_invD(3) [OF at bt], of "shm w'"] sb oth(1) [OF ts] rd [OF ts] wr sq
    show ?thesis by simp
  qed
  moreover have "active (shm w') t \<longleftrightarrow> ((pl_attachments st)(s := None)) t \<noteq> None" for t
    using oth(1) na attachments_invD(1) [OF at, of t] by auto
  ultimately have "attachments_inv (seq p') (shm w') ((pl_attachments st)(s := None))"
    unfolding attachments_inv_def by blast
  then show ?thesis
    using d' act na oth by (auto simp: plane_inv_def st'_def channel_of_def fun_eq_iff)
qed

lemma data_step_sound:
  assumes "data_step st l st'" "plane_inv st"
  shows "plane_inv st' \<and> channel_step (channel_of st) l (channel_of st')"
  using assms
proof (induction rule: data_step.induct)
  case (attach reg st p' w' s)
  then show ?case by (intro attach_step)
next
  case (publish payload st p' w')
  then show ?case by (intro publish_step)
next
  case (held payload st p' w')
  from held_step [OF held(2,1)] held(2) show ?case by simp
next
  case (receive st s a a1 io m a' sd' io')
  then show ?case by (intro receive_step)
next
  case (reap slot st p' w' s)
  then show ?case by (intro reap_step)
qed

lemma data_initial_inv:
  assumes "data_initial st"
  shows "plane_inv st" "channel_of st = Map.empty"
proof -
  from assms obtain sd where f: "fresh_publisher (pl_publisher st)" and n: "pl_attachments st = Map.empty"
    and c: "create_shared_data sd = Some (pl_seg st)" by (auto simp: data_initial_def)
  from create_shared_data_inv [OF f, of sd] c
  have d: "data_inv (pl_publisher st) (pl_seg st)" and a: "\<forall>s. \<not> active (pl_seg st) s" by auto
  then show "plane_inv st" by (simp add: plane_inv_def attachments_inv_def n)
  show "channel_of st = Map.empty" using a by (simp add: channel_of_def)
qed

interpretation dp: refinement data_initial data_step plane_inv channel_of Map.empty channel_step
  by unfold_locales (use data_step_sound data_initial_inv in blast)+

section \<open>End to end\<close>

text \<open>The payloads published and received since slot \<open>s\<close> was last attached.\<close>

fun published_since :: "nat \<Rightarrow> data_event list \<Rightarrow> bytes list \<Rightarrow> bytes list" where
  "published_since s [] acc = acc"
| "published_since s (Published m # es) acc = published_since s es (acc @ [m])"
| "published_since s (Attach t # es) acc = published_since s es (if t = s then [] else acc)"
| "published_since s (e # es) acc = published_since s es acc"

fun received_since :: "nat \<Rightarrow> data_event list \<Rightarrow> bytes list \<Rightarrow> bytes list" where
  "received_since s [] acc = acc"
| "received_since s (Received t m # es) acc = received_since s es (if t = s then acc @ [m] else acc)"
| "received_since s (Attach t # es) acc = received_since s es (if t = s then [] else acc)"
| "received_since s (e # es) acc = received_since s es acc"

lemma published_since_snoc:
  "published_since s (es @ [e]) acc = published_since s [e] (published_since s es acc)"
  by (induction s es acc rule: published_since.induct) simp_all

lemma received_since_snoc:
  "received_since s (es @ [e]) acc = received_since s [e] (received_since s es acc)"
  by (induction s es acc rule: received_since.induct) simp_all

lemmas since_snoc = published_since_snoc received_since_snoc

lemma channel_history:
  assumes "\<forall>s ms. q s = Some ms \<longrightarrow> published_since s es [] = received_since s es [] @ ms"
    and "channel_step q e q'"
  shows "\<forall>s ms. q' s = Some ms \<longrightarrow> published_since s (es @ [e]) [] = received_since s (es @ [e]) [] @ ms"
  using assms by (cases e) (auto simp: since_snoc split: if_splits)

lemma fifo_history:
  assumes "run data_step st es st'" "data_initial st" "active (pl_seg st') s"
  shows "published_since s es [] = received_since s es [] @ queue (pl_seg st') s"
proof -
  have "\<forall>s ms. channel_of st' s = Some ms \<longrightarrow> published_since s es [] = received_since s es [] @ ms"
    by (rule dp.run_history [OF assms(1,2), where
      P = "\<lambda>es q. \<forall>s ms. q s = Some ms \<longrightarrow> published_since s es [] = received_since s es [] @ ms"])
      (simp, rule channel_history)
  with assms(3) show ?thesis by (simp add: channel_of_def)
qed

end
