(* ===== verification/Data_Scenario.thy ===== *)
theory Data_Scenario
  imports Data_Plane
begin

text \<open>
  A concrete run of the data plane, on which the properties are exercised: a fresh publisher,
  one subscriber tracked in slot 3 with eventfd 7, and one message.
\<close>

definition demo_publisher :: publisher where
  "demo_publisher =
    \<lparr>data_available_event_fds = [], slot_by_event_fd = Map.empty, event_fd_by_slot = (\<lambda>_. 0),
     pub_flags = SYNCHRONOUS, run_thread_active = False, worker_stop_intent = Destroy,
     pending_messages = [], in_flight = None, pub_broker_fd = 4, pub_epoll_fd = 3,
     space_available_event_fd = 5, publish_work_event_fd = 6, pub_shutdown_event_fd = -1,
     pub_worker_exit_event_fd = -1, pub_events = [], seq = 0\<rparr>"

definition demo_io :: "shared_data \<Rightarrow> io" where
  "demo_io sd = \<lparr>shm = sd, signalled = [], closed = [], unwatched = [], completions = []\<rparr>"

definition demo_registration :: subscriber_registration where
  "demo_registration = \<lparr>reg_event_fd = 7, reg_slot_index = 3\<rparr>"

definition demo_payload :: bytes where "demo_payload = [1, 2, 3]"

definition demo_attachment :: publisher_attachment where
  "demo_attachment = new_attachment demo_registration"

lemma demo_fresh: "fresh_publisher demo_publisher"
  by (simp add: fresh_publisher_def demo_publisher_def)

lemma demo_segment:
  "\<exists>sd. create_shared_data zero_shared_data = Some sd \<and> data_inv demo_publisher sd
    \<and> (\<forall>s. \<not> active sd s) \<and> (\<forall>c<5. free_list c sd [0..<class_count c])"
  using create_shared_data_inv [OF demo_fresh] .

lemma demo_payload_fits: "length demo_payload \<le> kMaxPayloadSizeBytes"
  by (simp add: demo_payload_def kMaxPayloadSizeBytes_def kMessageHeaderSizeBytes_def)

lemma demo_payload_class: "find_size_class (of_nat (length demo_payload + 8)) = 0"
  by (simp add: demo_payload_def find_size_class_unfold)

text \<open>The state after tracking, and the state after publishing.\<close>

lemma demo_tracked:
  "\<exists>sd p w. create_shared_data zero_shared_data = Some sd
    \<and> track_subscriber demo_registration demo_publisher (demo_io sd) = Some (None, p, w)
    \<and> data_inv p (shm w) \<and> (\<forall>s. active (shm w) s \<longleftrightarrow> s = 3) \<and> queue (shm w) 3 = []
    \<and> data_available_event_fds p = [7] \<and> event_fd_by_slot p 3 = 7 \<and> seq p = 0
    \<and> space_available_event_fd p = 5 \<and> pub_events p = [] \<and> pub_flags p = SYNCHRONOUS \<and> pub_broker_fd p = 4
    \<and> \<not> held_back demo_payload (shm w) \<and> att_start 0 demo_attachment (shm w)"
proof -
  from demo_segment obtain sd where
    sd: "create_shared_data zero_shared_data = Some sd" "data_inv demo_publisher sd"
      "\<forall>s. \<not> active sd s" "\<forall>c<5. free_list c sd [0..<class_count c]" by blast
  have pre: "data_inv demo_publisher (shm (demo_io sd))"
    "unat (reg_slot_index demo_registration) < kMaxSubscribers"
    "\<not> active (shm (demo_io sd)) (unat (reg_slot_index demo_registration))"
    "reg_event_fd demo_registration \<notin> set (data_available_event_fds demo_publisher)"
    using sd by (simp_all add: demo_io_def demo_registration_def demo_publisher_def kMaxSubscribers_def)
  from track_correct [OF pre] obtain p w where
    t: "track_subscriber demo_registration demo_publisher (demo_io sd) = Some (None, p, w)"
    and inv: "data_inv p (shm w)" and act: "active (shm w) 3" and q: "queue (shm w) 3 = []"
    and oth: "\<forall>s. s \<noteq> 3 \<longrightarrow> (active (shm w) s \<longleftrightarrow> active sd s)"
    and seg: "shm w = sd\<lparr>descriptor_read_indices := (descriptor_read_indices sd)(3 := descriptor_write_index sd)\<rparr>"
    and p: "p = demo_publisher\<lparr>slot_by_event_fd := (slot_by_event_fd demo_publisher)(7 \<mapsto> 3),
         data_available_event_fds := data_available_event_fds demo_publisher @ [7],
         event_fd_by_slot := (event_fd_by_slot demo_publisher)(3 := 7)\<rparr>"
    by (auto simp: demo_registration_def demo_io_def)
  have acts: "active (shm w) s \<longleftrightarrow> s = 3" for s using act oth sd(3) by auto
  have "free_list 0 (shm w) [0..<class_count 0]" using sd(4) by (simp add: seg)
  from free_list_empty_iff [OF this] have "\<not> free_list_empty 0 (shm w)" by (simp add: class_count_def)
  then have "\<not> held_back demo_payload (shm w)"
    unfolding held_back_def demo_payload_class using acts q by simp
  moreover have "att_start 0 demo_attachment (shm w)"
    using act by (simp add: att_start_def demo_attachment_def new_attachment_def demo_registration_def
      empty_attachment_def)
  ultimately show ?thesis
    using sd(1) t inv acts q by (intro exI [of _ sd] exI [of _ p] exI [of _ w]) (simp add: p demo_publisher_def)
qed

lemma demo_published:
  "\<exists>sd p w p' w'. create_shared_data zero_shared_data = Some sd
    \<and> track_subscriber demo_registration demo_publisher (demo_io sd) = Some (None, p, w)
    \<and> try_publish_one all_ok demo_payload p w = Some (Inr Succeeded, p', w')
    \<and> data_inv p' (shm w') \<and> (\<forall>s. active (shm w') s \<longleftrightarrow> s = 3) \<and> queue (shm w') 3 = [demo_payload]
    \<and> seq p' = 1 \<and> data_available_event_fds p' = [7] \<and> event_fd_by_slot p' 3 = 7
    \<and> att_start 1 demo_attachment (shm w')"
proof -
  from demo_tracked obtain sd p w where
    t: "create_shared_data zero_shared_data = Some sd"
      "track_subscriber demo_registration demo_publisher (demo_io sd) = Some (None, p, w)"
    and d: "data_inv p (shm w)" "\<forall>s. active (shm w) s \<longleftrightarrow> s = 3" "queue (shm w) 3 = []"
      "data_available_event_fds p = [7]" "event_fd_by_slot p 3 = 7" "seq p = 0"
      "\<not> held_back demo_payload (shm w)" "att_start 0 demo_attachment (shm w)" by blast
  from try_publish_one_ok [OF d(1) demo_payload_fits d(7), of all_ok] d obtain sd' where
    pub: "try_publish_one all_ok demo_payload p w = Some (Inr Succeeded, p\<lparr>seq := seq p + 1\<rparr>,
        w\<lparr>shm := sd', signalled := signalled w @ data_available_event_fds p\<rparr>)"
    and inv: "data_inv (p\<lparr>seq := seq p + 1\<rparr>) sd'" and act: "\<forall>s. active sd' s \<longleftrightarrow> s = 3"
    and q: "queue sd' 3 = [demo_payload]"
    and rd: "descriptor_read_indices sd' = descriptor_read_indices (shm w)"
    and wr: "wrx sd' = (wrx (shm w) + 1) mod 16"
    by auto
  have s3: "unat (slot_index demo_attachment) = 3"
    by (simp add: demo_attachment_def new_attachment_def demo_registration_def)
  have "length (unread (shm w) 3) \<noteq> 15" using d(3) by (simp add: queue_def)
  with att_start_publish [OF d(8) data_invD(1) [OF d(1)] _ _ wr rd] act s3
  have "att_start 1 demo_attachment sd'" by simp
  with t pub inv act q d show ?thesis
    by (intro exI [of _ sd] exI [of _ p] exI [of _ w] exI [of _ "p\<lparr>seq := seq p + 1\<rparr>"]
      exI [of _ "w\<lparr>shm := sd', signalled := signalled w @ data_available_event_fds p\<rparr>"]) simp
qed

text \<open>The same as a run of the transition system.\<close>

lemma demo_run:
  "\<exists>st st'. data_initial st \<and> run data_step st [Attach 3, Published demo_payload] st'
    \<and> active (pl_seg st') 3 \<and> queue (pl_seg st') 3 = [demo_payload]"
proof -
  from demo_published obtain sd p w p' w' where
    c: "create_shared_data zero_shared_data = Some sd"
    and t: "track_subscriber demo_registration demo_publisher (demo_io sd) = Some (None, p, w)"
    and u: "try_publish_one all_ok demo_payload p w = Some (Inr Succeeded, p', w')"
    and a: "\<forall>s. active (shm w') s \<longleftrightarrow> s = 3" "queue (shm w') 3 = [demo_payload]" by blast
  define st where "st = \<lparr>pl_publisher = demo_publisher, pl_io = demo_io sd, pl_attachments = Map.empty\<rparr>"
  have i: "data_initial st" using c demo_fresh by (auto simp: data_initial_def st_def demo_io_def)
  have s: "3 = unat (reg_slot_index demo_registration)" by (simp add: demo_registration_def)
  define st1 where "st1 = st\<lparr>pl_publisher := p, pl_io := w,
    pl_attachments := (pl_attachments st)(3 \<mapsto> new_attachment demo_registration)\<rparr>"
  define st2 where "st2 = st1\<lparr>pl_publisher := p', pl_io := w'\<rparr>"
  have "data_step st (Attach 3) st1"
    unfolding st1_def by (rule data_step.attach [OF _ s]) (simp add: st_def t)
  moreover have "data_step st1 (Published demo_payload) st2"
    unfolding st2_def by (rule data_step.publish) (simp add: st1_def u)
  ultimately have "run data_step st ([] @ [Attach 3] @ [Published demo_payload]) st2"
    using run.run_nil [of data_step st] by (metis append_Nil append_Cons run.run_snoc)
  with i a show ?thesis by (intro exI [of _ st] exI [of _ st2]) (simp add: st2_def)
qed

text \<open>Publishing up to fifteen messages that nobody reads.\<close>

lemma demo_filled:
  assumes "n \<le> 15"
  shows "\<exists>p sd. data_inv p sd \<and> (\<forall>s. active sd s \<longleftrightarrow> s = 3) \<and> queue sd 3 = replicate n demo_payload
    \<and> seq p = of_nat n \<and> att_start (of_nat n) demo_attachment sd"
  using assms
proof (induction n)
  case 0
  from demo_tracked obtain p and w :: io where
    "data_inv p (shm w)" "\<forall>s. active (shm w) s \<longleftrightarrow> s = 3" "queue (shm w) 3 = []" "seq p = 0"
    "att_start 0 demo_attachment (shm w)"
    by (elim exE conjE) (rule that, assumption+)
  then show ?case by (intro exI [of _ p] exI [of _ "shm w"]) simp
next
  case (Suc n)
  then obtain p sd where
    d: "data_inv p sd" "\<forall>s. active sd s \<longleftrightarrow> s = 3" "queue sd 3 = replicate n demo_payload"
      "seq p = of_nat n" "att_start (of_nat n) demo_attachment sd" by auto
  have len: "length demo_payload \<le> 120" by (simp add: demo_payload_def)
  have go: "\<not> held_back demo_payload (shm (demo_io sd))"
    using small_message_held_back_iff [OF d(1) len] d(2,3) Suc.prems by (simp add: demo_io_def)
  have "unat (of_nat n :: u32) = n" using Suc.prems by (simp add: unat_of_nat_small)
  then have n: "seq p \<noteq> 2147483647" using d(4) Suc.prems by auto
  have inv: "data_inv p (shm (demo_io sd))" using d(1) by (simp add: demo_io_def)
  from try_publish_one_ok [OF inv demo_payload_fits go n, of all_ok] obtain sd' where
    inv': "data_inv (p\<lparr>seq := seq p + 1\<rparr>) sd'" and act: "\<forall>s. active sd' s \<longleftrightarrow> s = 3"
    and q: "queue sd' 3 = replicate n demo_payload @ [demo_payload]"
    and rd: "descriptor_read_indices sd' = descriptor_read_indices sd"
    and wr: "wrx sd' = (wrx sd + 1) mod 16"
    using d(2,3) by (auto simp: demo_io_def)
  have s3: "unat (slot_index demo_attachment) = 3"
    by (simp add: demo_attachment_def new_attachment_def demo_registration_def)
  have "length (unread sd 3) = n" using arg_cong [OF d(3), of length] by (simp add: queue_def)
  with att_start_publish [OF d(5) data_invD(1) [OF d(1)] _ _ wr rd] act s3 Suc.prems
  have "att_start (of_nat (Suc n)) demo_attachment sd'" by (simp add: add.commute)
  with inv' act q d(4) show ?case
    by (intro exI [of _ "p\<lparr>seq := seq p + 1\<rparr>"] exI [of _ sd']) (simp add: replicate_append_same add.commute)
qed

text \<open>With fifteen messages unread the publisher is held back; one read makes room.\<close>

lemma demo_unblock:
  "\<exists>p sd a r rest result a' sd' w'. data_inv p sd \<and> att_inv (seq p) a sd
    \<and> unread sd (unat (slot_index a)) = r # rest
    \<and> read_descriptor all_ok SUB_SYNCHRONOUS (desc_ring sd r) a sd \<lparr>space_signals = [], callbacks = []\<rparr>
        = Some (result, a', sd', w')
    \<and> held_back demo_payload sd \<and> \<not> held_back demo_payload sd'"
proof -
  obtain p sd where
    d: "data_inv p sd" "\<forall>s. active sd s \<longleftrightarrow> s = 3" "queue sd 3 = replicate 15 demo_payload"
      "seq p = of_nat 15" "att_start (of_nat 15) demo_attachment sd"
    using demo_filled [of 15] by auto
  have len: "length demo_payload \<le> 120" by (simp add: demo_payload_def)
  from initialize_subscriber_read_index_ok [OF d(5)] obtain a where
    a: "att_inv (seq p) a sd" "slot_index a = slot_index demo_attachment" by (auto simp: d(4))
  have s3: "unat (slot_index a) = 3"
    by (simp add: a(2) demo_attachment_def new_attachment_def demo_registration_def)
  have "length (unread sd 3) = 15" using arg_cong [OF d(3), of length] by (simp add: queue_def)
  then obtain r rest where unr: "unread sd (unat (slot_index a)) = r # rest"
    unfolding s3 by (cases "unread sd 3") auto
  obtain a' sd' w' where
    rd: "read_descriptor all_ok SUB_SYNCHRONOUS (desc_ring sd r) a sd \<lparr>space_signals = [], callbacks = []\<rparr>
      = Some (Inr (delivered SUB_SYNCHRONOUS [payload_at sd r]), a', sd', w')"
    and c: "consumed p [r] a sd a' sd'"
    using read_descriptor_ok [OF d(1) a(1) unr, of all_ok SUB_SYNCHRONOUS] by blast
  have held: "held_back demo_payload sd"
    using small_message_held_back_iff [OF d(1) len] d(2,3) by simp
  have "queue sd 3 = payload_at sd r # queue sd' 3" using consumed_queues(1) [OF c] s3 by simp
  then have "15 = Suc (length (queue sd' 3))" using d(3) by (metis length_Cons length_replicate)
  then have "length (queue sd' 3) = 14" by simp
  with small_message_held_back_iff [OF consumedD(1) [OF c] len] consumedD(8) [OF c] d(2)
  have "\<not> held_back demo_payload sd'" by simp
  with d(1) a(1) unr rd held show ?thesis by (intro exI conjI)
qed

end
