(* ===== verification/Data_Properties.thy ===== *)
theory Data_Properties
  imports Data_Scenario
begin

text \<open>
  What the data plane promises: the properties of publishing, consuming, tracking and reaping,
  and of their interleavings, each followed by its use on the concrete run of
  \<open>Data_Scenario\<close>.
\<close>

section \<open>The whole data plane\<close>

text \<open>Property C1. End-to-end FIFO delivery: in every interleaving of tracking, publishing, reading
  and reaping from a fresh publisher, what a tracked slot has received since it was attached,
  followed by what is still unread in shared memory, is exactly what was published since then:
  nothing is lost, duplicated, reordered or corrupted.\<close>

theorem fifo_delivery:
  assumes "run data_step st es st'" "data_initial st" "active (pl_seg st') s"
  shows "published_since s es [] = received_since s es [] @ queue (pl_seg st') s"
  by (rule fifo_history [OF assms])

theorem fifo_delivery_witness:
  "\<exists>st st'. data_initial st \<and> run data_step st [Attach 3, Published demo_payload] st'
    \<and> active (pl_seg st') 3
    \<and> published_since 3 [Attach 3, Published demo_payload] [] = [demo_payload]
    \<and> received_since 3 [Attach 3, Published demo_payload] [] @ queue (pl_seg st') 3 = [demo_payload]"
proof -
  from demo_run obtain st st' where
    r: "run data_step st [Attach 3, Published demo_payload] st'" "data_initial st" "active (pl_seg st') 3"
    and q: "queue (pl_seg st') 3 = [demo_payload]" by blast
  from fifo_delivery [OF r] r q show ?thesis by (intro exI [of _ st] exI [of _ st']) simp
qed

text \<open>Property C2. Safety of the shared segment: in every reachable state the segment and the
  publisher's tables satisfy the data-plane invariant (ring indices in range, free lists linked
  and disjoint from the referenced chunks, reference masks equal to the unread positions, usage
  tracker exact, headers and sequence numbers intact) and every attachment agrees with it.\<close>

theorem plane_invariant:
  assumes "run data_step st es st'" "data_initial st"
  shows "data_inv (pl_publisher st') (pl_seg st')
    \<and> attachments_inv (seq (pl_publisher st')) (pl_seg st') (pl_attachments st')"
  using dp.run_inv [OF assms] by (simp add: plane_inv_def)

theorem plane_invariant_witness:
  "\<exists>st st'. data_initial st \<and> run data_step st [Attach 3, Published demo_payload] st'
    \<and> data_inv (pl_publisher st') (pl_seg st')"
proof -
  from demo_run obtain st st' where
    r: "run data_step st [Attach 3, Published demo_payload] st'" "data_initial st" by blast
  with plane_invariant [OF r] show ?thesis by blast
qed

text \<open>Property C8. Refinement: every run of the code is, label by label, a run of the abstract
  channel that keeps one queue of payloads for each tracked slot.\<close>

theorem refines_channel:
  assumes "run data_step st es st'" "data_initial st"
  shows "run channel_step Map.empty es (channel_of st')"
  by (rule dp.run_refines [OF assms])

theorem refines_channel_witness:
  "\<exists>st st'. data_initial st \<and> run data_step st [Attach 3, Published demo_payload] st'
    \<and> run channel_step Map.empty [Attach 3, Published demo_payload] (channel_of st')
    \<and> channel_of st' 3 = Some [demo_payload]"
proof -
  from demo_run obtain st st' where
    r: "run data_step st [Attach 3, Published demo_payload] st'" "data_initial st"
    and q: "active (pl_seg st') 3" "queue (pl_seg st') 3 = [demo_payload]" by blast
  from refines_channel [OF r] r q show ?thesis
    by (intro exI [of _ st] exI [of _ st']) (simp add: channel_of_def)
qed

section \<open>Publishing\<close>

text \<open>Property C12. A publishing attempt that is not held back succeeds without error or undefined
  behaviour: it keeps the invariant, appends the payload to the queue of every tracked slot,
  advances the sequence number and signals exactly the tracked eventfds, in order.\<close>

theorem try_publish_one_correct:
  assumes "data_inv p (shm w)" "length payload \<le> kMaxPayloadSizeBytes" "\<not> held_back payload (shm w)"
    "seq p \<noteq> 2147483647" "\<forall>fd \<in> set (data_available_event_fds p). sig fd"
  shows "\<exists>sd'. try_publish_one sig payload p w
      = Some (Inr Succeeded, p\<lparr>seq := seq p + 1\<rparr>,
          w\<lparr>shm := sd', signalled := signalled w @ data_available_event_fds p\<rparr>)
    \<and> data_inv (p\<lparr>seq := seq p + 1\<rparr>) sd'
    \<and> (\<forall>s. active sd' s \<longleftrightarrow> active (shm w) s)
    \<and> (\<forall>s. queue sd' s = (if active (shm w) s then queue (shm w) s @ [payload] else []))"
  using try_publish_one_ok [OF assms] by blast

theorem try_publish_one_correct_witness:
  "\<exists>p w sd'. try_publish_one all_ok demo_payload p w
      = Some (Inr Succeeded, p\<lparr>seq := seq p + 1\<rparr>, w\<lparr>shm := sd', signalled := signalled w @ [7]\<rparr>)
    \<and> queue (shm w) 3 = [] \<and> queue sd' 3 = [demo_payload]"
proof -
  from demo_tracked obtain p and w :: io where
    d: "data_inv p (shm w)" "\<forall>s. active (shm w) s \<longleftrightarrow> s = 3" "queue (shm w) 3 = []"
      "data_available_event_fds p = [7]" "seq p = 0" "\<not> held_back demo_payload (shm w)"
    by (elim exE conjE) (rule that, assumption+)
  from try_publish_one_correct [OF d(1) demo_payload_fits d(6), of all_ok] d obtain sd' where
    "try_publish_one all_ok demo_payload p w
      = Some (Inr Succeeded, p\<lparr>seq := seq p + 1\<rparr>, w\<lparr>shm := sd', signalled := signalled w @ [7]\<rparr>)"
    "queue sd' 3 = [demo_payload]" by auto
  with d(3) show ?thesis by (intro exI conjI)
qed

text \<open>Property C23. Back-pressure: an attempt with a payload of admissible size is answered with
  \<open>Blocked\<close> exactly when no slot is tracked, some tracked slot has fifteen unread messages, or
  the free list of the size class holds a single chunk; then nothing at all has changed.\<close>

theorem try_publish_one_blocked_iff:
  assumes "data_inv p (shm w)" "length payload \<le> kMaxPayloadSizeBytes"
    "seq p \<noteq> 2147483647" "\<forall>fd \<in> set (data_available_event_fds p). sig fd"
  shows "try_publish_one sig payload p w = Some (Inr Blocked, p, w)
    \<longleftrightarrow> (\<forall>s. \<not> active (shm w) s) \<or> (\<exists>s. active (shm w) s \<and> length (queue (shm w) s) = 15)
      \<or> free_list_empty (nat (find_size_class (of_nat (length payload + 8)))) (shm w)"
proof (cases "held_back payload (shm w)")
  case True
  then show ?thesis using try_publish_one_blocked [OF assms(1,2) True] by (simp add: held_back_def)
next
  case False
  from try_publish_one_ok [OF assms(1,2) False assms(3,4)] False show ?thesis
    by (auto simp: held_back_def)
qed

theorem try_publish_one_blocked_iff_witness:
  "\<exists>p w. data_inv p (shm w) \<and> try_publish_one all_ok demo_payload p w = Some (Inr Blocked, p, w)"
proof -
  from demo_segment obtain sd where sd: "data_inv demo_publisher sd" "\<forall>s. \<not> active sd s" by blast
  from try_publish_one_blocked_iff [of demo_publisher "demo_io sd" demo_payload all_ok]
    sd demo_payload_fits
  show ?thesis
    by (intro exI [of _ demo_publisher] exI [of _ "demo_io sd"]) (simp add: demo_io_def demo_publisher_def)
qed

text \<open>A payload that no size class can hold is refused with
  \<open>MessageSizeClassInvalid\<close>, whatever its length (also above \<open>UINT32_MAX\<close>), and nothing
  has changed.\<close>

theorem try_publish_one_rejects_large:
  assumes "kMaxPayloadSizeBytes < length payload"
  shows "try_publish_one sig payload p w = Some (Inl MessageSizeClassInvalid, p, w)"
  by (rule try_publish_one_too_large [OF assms])

theorem try_publish_one_rejects_large_witness:
  "try_publish_one all_ok (replicate 1017 0) demo_publisher (demo_io zero_shared_data)
    = Some (Inl MessageSizeClassInvalid, demo_publisher, demo_io zero_shared_data)"
  by (rule try_publish_one_rejects_large) (simp add: kMaxPayloadSizeBytes_def kMessageHeaderSizeBytes_def)

text \<open>\<open>can_publish_next_message\<close> answers for the next message of the queue exactly
  what \<open>try_publish_one\<close> would do with it.\<close>

theorem can_publish_predicts:
  assumes "data_inv p (shm w)" "next_payload p = Some payload" "length payload \<le> kMaxPayloadSizeBytes"
    "seq p \<noteq> 2147483647" "\<forall>fd \<in> set (data_available_event_fds p). sig fd"
  shows "(can_publish_next_message p w = Inr Ready
        \<longleftrightarrow> (\<exists>p' w'. try_publish_one sig payload p w = Some (Inr Succeeded, p', w')))
    \<and> (can_publish_next_message p w = Inr NotReady
        \<longleftrightarrow> try_publish_one sig payload p w = Some (Inr Blocked, p, w))"
proof (cases "held_back payload (shm w)")
  case True
  then show ?thesis
    using can_publish_next_message_iff(2) [OF assms(1-3)] try_publish_one_blocked [OF assms(1,3) True, of sig]
    by simp
next
  case False
  then show ?thesis
    using can_publish_next_message_iff(2) [OF assms(1-3)] try_publish_one_ok [OF assms(1,3) False assms(4,5)]
    by auto
qed

theorem can_publish_predicts_witness:
  "\<exists>p w. next_payload p = Some demo_payload \<and> can_publish_next_message p w = Inr NotReady
    \<and> try_publish_one all_ok demo_payload p w = Some (Inr Blocked, p, w)"
proof -
  from demo_segment obtain sd where sd: "create_shared_data zero_shared_data = Some sd" by blast
  define p where "p = demo_publisher\<lparr>pending_messages := [\<lparr>msg_payload = demo_payload, ticket = 0\<rparr>]\<rparr>"
  have f: "fresh_publisher p" by (simp add: fresh_publisher_def p_def demo_publisher_def)
  from create_shared_data_inv [OF f, of zero_shared_data] sd have
    d: "data_inv p sd" "\<forall>s. \<not> active sd s" by auto
  have n: "next_payload p = Some demo_payload"
    by (simp add: next_payload_def p_def demo_publisher_def)
  have "can_publish_next_message p (demo_io sd) = Inr NotReady"
    using can_publish_next_message_iff(2) [of p "demo_io sd" demo_payload] n d demo_payload_fits
    by (simp add: demo_io_def held_back_def)
  with can_publish_predicts [of p "demo_io sd" demo_payload all_ok] n d demo_payload_fits show ?thesis
    by (intro exI [of _ p] exI [of _ "demo_io sd"]) (simp add: demo_io_def p_def demo_publisher_def)
qed

section \<open>Consuming\<close>

text \<open>Property C13. Handling a data event delivers the whole queue of the attachment's slot, in
  publication order and exactly once (as the returned batch, or to the callback in asynchronous
  mode), leaves that queue empty and every other slot's queue as it was, keeps the invariant,
  returns without error or undefined behaviour, and its loops end.\<close>

theorem handle_data_available_event_correct:
  assumes "publisher_attachment_by_data_available_event_fd s fd = Some a"
    "shared_data_at a = Some addr" "segments w addr = Some sd"
    "data_inv p sd" "att_start (seq p) a sd"
    "drain fd" "sig (att_space_available_event_fd a)"
  shows "\<exists>a' sd' io'. handle_data_available_event sig drain fd s w
      = Some (Inr (delivered (sub_flags s) (queue sd (unat (slot_index a)))),
          s\<lparr>publisher_attachment_by_data_available_event_fd :=
              (publisher_attachment_by_data_available_event_fd s)(fd \<mapsto> a')\<rparr>,
          w\<lparr>segments := (segments w)(addr \<mapsto> sd'), consumer := io'\<rparr>)
    \<and> called_back (sub_flags s) (queue sd (unat (slot_index a))) (consumer w) io'
    \<and> data_inv p sd' \<and> att_start (seq p) a' sd'
    \<and> queue sd' (unat (slot_index a)) = []
    \<and> (\<forall>t. t \<noteq> unat (slot_index a) \<longrightarrow> queue sd' t = queue sd t)"
  by (rule handle_data_available_event_ok [where drain = drain and sig = sig, OF assms])

theorem handle_data_available_event_correct_witness:
  "\<exists>s w s' w'. handle_data_available_event all_ok all_ok 9 s w = Some (Inr [demo_payload], s', w')"
proof -
  from demo_published obtain p sd where
    d: "data_inv p sd" "queue sd 3 = [demo_payload]" "seq p = 1" "att_start 1 demo_attachment sd"
    by (elim exE conjE) (rule that, assumption+)
  define s where "s = \<lparr>sub_flags = SUB_SYNCHRONOUS, sub_epoll_fd = 3, sub_broker_fd = 4,
    sub_shutdown_event_fd = -1, sub_worker_exit_event_fd = -1, sub_events = [],
    publisher_attachment_by_data_available_event_fd = [9 \<mapsto> demo_attachment],
    data_available_event_fd_by_attachment_id = [1 \<mapsto> 9]\<rparr>"
  define w where "w = \<lparr>segments = [0 \<mapsto> sd], consumer = \<lparr>space_signals = [], callbacks = []\<rparr>,
    sub_closed = [], sub_unwatched = [], sub_watched = []\<rparr>"
  have "unat (slot_index demo_attachment) = 3" "shared_data_at demo_attachment = Some 0"
    by (simp_all add: demo_attachment_def new_attachment_def demo_registration_def)
  with handle_data_available_event_correct [of s 9 demo_attachment 0 w sd p all_ok all_ok] d
  show ?thesis
    by (fastforce simp: s_def w_def delivered_def is_synchronous_def SUB_SYNCHRONOUS_def)
qed



text \<open>Messages of at most 120 bytes never wait for the chunk pool: they are held back
  only when nobody is tracked or a reader is fifteen messages behind, because at most sixteen
  chunks can be referenced at any time.\<close>

theorem small_messages_never_wait_for_chunks:
  assumes "data_inv p (shm w)" "length payload \<le> 120" "active (shm w) t"
    "\<forall>s. active (shm w) s \<longrightarrow> length (queue (shm w) s) < 15"
    "seq p \<noteq> 2147483647" "\<forall>fd \<in> set (data_available_event_fds p). sig fd"
  shows "\<exists>p' w'. try_publish_one sig payload p w = Some (Inr Succeeded, p', w')"
proof -
  have "length payload \<le> kMaxPayloadSizeBytes"
    using assms(2) by (simp add: kMaxPayloadSizeBytes_def kMessageHeaderSizeBytes_def)
  moreover have "\<not> held_back payload (shm w)"
    using small_message_held_back_iff [OF assms(1,2)] assms(3,4) by auto
  ultimately show ?thesis using try_publish_one_ok [OF assms(1) _ _ assms(5,6)] by blast
qed

theorem small_messages_never_wait_for_chunks_witness:
  "\<exists>p sd p' w'. queue sd 3 = replicate 14 demo_payload
    \<and> try_publish_one all_ok (replicate 120 0) p (demo_io sd) = Some (Inr Succeeded, p', w')"
proof -
  obtain p sd where
    d: "data_inv p sd" "\<forall>s. active sd s \<longleftrightarrow> s = 3" "queue sd 3 = replicate 14 demo_payload"
      "seq p = of_nat 14"
    using demo_filled [of 14] by auto
  from small_messages_never_wait_for_chunks [of p "demo_io sd" "replicate 120 0" 3 all_ok] d
  show ?thesis by (auto simp: demo_io_def)
qed

section \<open>Tracking and reaping\<close>

text \<open>Tracking a subscriber in a free slot gives it an empty queue and leaves every
  other queue alone; on each of the three error returns the publisher and the segment are
  untouched and the received descriptor is closed.\<close>

theorem track_subscriber_correct:
  assumes "data_inv p (shm w)"
  shows "(unat (reg_slot_index reg) < kMaxSubscribers \<and> \<not> active (shm w) (unat (reg_slot_index reg))
        \<and> reg_event_fd reg \<notin> set (data_available_event_fds p) \<longrightarrow>
      (\<exists>p' w'. track_subscriber reg p w = Some (None, p', w') \<and> data_inv p' (shm w')
         \<and> active (shm w') (unat (reg_slot_index reg)) \<and> queue (shm w') (unat (reg_slot_index reg)) = []
         \<and> data_available_event_fds p' = data_available_event_fds p @ [reg_event_fd reg]
         \<and> (\<forall>t. t \<noteq> unat (reg_slot_index reg) \<longrightarrow> queue (shm w') t = queue (shm w) t)))
    \<and> (kMaxSubscribers \<le> unat (reg_slot_index reg) \<or> active (shm w) (unat (reg_slot_index reg))
        \<or> reg_event_fd reg \<in> set (data_available_event_fds p) \<longrightarrow>
      (\<exists>e. track_subscriber reg p w = Some (Some e, p, close_fd (reg_event_fd reg) w)))"
proof -
  have fds: "set (data_available_event_fds p) = dom (slot_by_event_fd p)"
    using data_invD(3) [OF assms] tables_okD(2) unfolding slots_inv_def by blast
  show ?thesis
  proof (intro conjI impI)
    assume "unat (reg_slot_index reg) < kMaxSubscribers \<and> \<not> active (shm w) (unat (reg_slot_index reg))
        \<and> reg_event_fd reg \<notin> set (data_available_event_fds p)"
    then have a: "unat (reg_slot_index reg) < kMaxSubscribers" "\<not> active (shm w) (unat (reg_slot_index reg))"
      "reg_event_fd reg \<notin> set (data_available_event_fds p)" by auto
    from track_correct [OF assms a] obtain p' w' where
      "track_subscriber reg p w = Some (None, p', w')" "data_inv p' (shm w')"
      "active (shm w') (unat (reg_slot_index reg))" "queue (shm w') (unat (reg_slot_index reg)) = []"
      "data_available_event_fds p' = data_available_event_fds p @ [reg_event_fd reg]"
      "\<forall>t. t \<noteq> unat (reg_slot_index reg) \<longrightarrow> queue (shm w') t = queue (shm w) t"
      by (elim exE conjE) (rule that, assumption+, simp, blast)
    then show "\<exists>p' w'. track_subscriber reg p w = Some (None, p', w') \<and> data_inv p' (shm w')
         \<and> active (shm w') (unat (reg_slot_index reg)) \<and> queue (shm w') (unat (reg_slot_index reg)) = []
         \<and> data_available_event_fds p' = data_available_event_fds p @ [reg_event_fd reg]
         \<and> (\<forall>t. t \<noteq> unat (reg_slot_index reg) \<longrightarrow> queue (shm w') t = queue (shm w) t)"
      by (intro exI conjI)
  next
    assume "kMaxSubscribers \<le> unat (reg_slot_index reg) \<or> active (shm w) (unat (reg_slot_index reg))
        \<or> reg_event_fd reg \<in> set (data_available_event_fds p)"
    with fds show "\<exists>e. track_subscriber reg p w = Some (Some e, p, close_fd (reg_event_fd reg) w)"
      by (intro track_errors) auto
  qed
qed

theorem track_subscriber_correct_witness:
  "\<exists>p w. track_subscriber demo_registration p w = Some (Some SlotAlreadyTracked, p, close_fd 7 w)"
proof -
  from demo_tracked obtain p and w :: io where
    d: "data_inv p (shm w)" "\<forall>s. active (shm w) s \<longleftrightarrow> s = 3"
    by (elim exE conjE) (rule that, assumption+)
  from track_subscriber_correct [OF d(1), of demo_registration] d(2) obtain e where
    e: "track_subscriber demo_registration p w = Some (Some e, p, close_fd 7 w)"
    by (auto simp: demo_registration_def)
  moreover have "e = SlotAlreadyTracked"
    using e d(2) by (auto simp: track_subscriber_def demo_registration_def active_def Let_def
      arr_get_def kMaxSubscribers_def split: if_splits)
  ultimately show ?thesis by blast
qed

text \<open>Property C22. Reaping a dead subscriber, at any point of its queue and across the wrap of the
  ring, drops exactly its references: its chunks with no other reader return to the pool (the
  invariant holds again), the other slots keep their queues, the eventfd is forgotten and
  closed.\<close>

theorem reap_dead_subscribers_correct:
  assumes "data_inv p (shm w)" "active (shm w) (unat slot)"
  shows "\<exists>p' w'. reap_dead_subscribers slot p w = Some (RunNone, p', w')
    \<and> data_inv p' (shm w') \<and> \<not> active (shm w') (unat slot)
    \<and> (\<forall>t. t \<noteq> unat slot \<longrightarrow> (active (shm w') t \<longleftrightarrow> active (shm w) t) \<and> queue (shm w') t = queue (shm w) t)
    \<and> data_available_event_fds p' = filter (\<lambda>x. x \<noteq> event_fd_by_slot p (unat slot)) (data_available_event_fds p)
    \<and> closed w' = closed w @ [event_fd_by_slot p (unat slot)]"
  using reap_correct [OF assms] by blast

theorem reap_dead_subscribers_correct_witness:
  "\<exists>p w p' w'. queue (shm w) 3 = [demo_payload]
    \<and> reap_dead_subscribers 3 p w = Some (RunNone, p', w') \<and> \<not> active (shm w') 3 \<and> closed w' = closed w @ [7]"
proof -
  from demo_published obtain p and w :: io where
    d: "data_inv p (shm w)" "\<forall>s. active (shm w) s \<longleftrightarrow> s = 3" "queue (shm w) 3 = [demo_payload]"
      "event_fd_by_slot p 3 = 7"
    by (elim exE conjE) (rule that, assumption+)
  from reap_dead_subscribers_correct [OF d(1), of 3] d show ?thesis by auto
qed

text \<open>The segment left by \<open>create_and_map_shared_data\<close>, whatever bytes it held
  before, satisfies the invariant of a publisher without subscribers, and each size class has
  all its chunks linked in address order.\<close>

theorem create_shared_data_correct:
  assumes "fresh_publisher p"
  shows "\<exists>sd'. create_shared_data sd = Some sd' \<and> data_inv p sd' \<and> (\<forall>s. \<not> active sd' s)
    \<and> (\<forall>c<kClassCount. free_list c sd' [0..<class_count c])"
  using create_shared_data_inv [OF assms, of sd] by (simp add: kClassCount_def)

theorem create_shared_data_correct_witness:
  "\<exists>sd. create_shared_data zero_shared_data = Some sd \<and> data_inv demo_publisher sd
    \<and> free_list 4 sd [0, 1, 2, 3, 4, 5, 6, 7]"
proof -
  have e: "[0..<class_count 4] = [0, 1, 2, 3, 4, 5, 6, 7]" by (simp add: class_count_def upt_rec)
  from create_shared_data_correct [OF demo_fresh, of zero_shared_data] obtain sd where
    "create_shared_data zero_shared_data = Some sd" "data_inv demo_publisher sd"
    "\<forall>c<kClassCount. free_list c sd [0..<class_count c]" by blast
  moreover from this(3) have "free_list 4 sd [0..<class_count 4]" by (simp add: kClassCount_def)
  then have "free_list 4 sd [0, 1, 2, 3, 4, 5, 6, 7]" unfolding e .
  ultimately show ?thesis by blast
qed

text \<open>\<open>find_slowest_read_index\<close> finds a tracked reader with the most unread
  descriptors, wrap-around included, and the back-pressure test on it blocks exactly when nobody
  listens or some reader is fifteen descriptors behind.\<close>

theorem find_slowest_read_index_correct:
  assumes "ring_ok sd" "active sd t"
  shows "\<exists>s. active sd s \<and> find_slowest_read_index sd = descriptor_read_indices sd s
    \<and> (\<forall>u. active sd u \<longrightarrow> length (unread sd u) \<le> length (unread sd s))
    \<and> (ring_blocked (find_slowest_read_index sd) (descriptor_write_index sd) \<longleftrightarrow> length (unread sd s) = 15)"
proof -
  from find_slowest_some [OF assms] obtain s where
    s: "active sd s" "find_slowest_read_index sd = descriptor_read_indices sd s"
      "\<forall>u. active sd u \<longrightarrow> length (unread sd u) \<le> length (unread sd s)" by blast
  have "length (unread sd s) \<le> 15"
    using s(1) assms(1) by (simp add: unread_def ring_ok_def length_ring_span_le)
  then have "(\<exists>u. active sd u \<and> length (unread sd u) = 15) \<longleftrightarrow> length (unread sd s) = 15"
    using s(1,3) by (metis le_antisym)
  with s ring_blocked_iff [OF assms(1)] assms(2) show ?thesis by blast
qed

theorem find_slowest_read_index_correct_witness:
  "\<exists>s. active (zero_shared_data\<lparr>descriptor_write_index := 2,
      descriptor_read_indices := (\<lambda>s. if s = 0 then 1 else if s = 1 then 5 else kInvalidIndex)\<rparr>) s
    \<and> find_slowest_read_index (zero_shared_data\<lparr>descriptor_write_index := 2,
      descriptor_read_indices := (\<lambda>s. if s = 0 then 1 else if s = 1 then 5 else kInvalidIndex)\<rparr>)
      = (if s = 0 then 1 else 5)"
proof -
  let ?sd = "zero_shared_data\<lparr>descriptor_write_index := 2,
      descriptor_read_indices := (\<lambda>s. if s = 0 then 1 else if s = 1 then 5 else kInvalidIndex)\<rparr>"
  have act: "active ?sd s \<longleftrightarrow> s = 0 \<or> s = 1" for s
    by (auto simp: active_def kMaxSubscribers_def kInvalidIndex_def)
  have "ring_ok ?sd" unfolding ring_ok_def act by (auto simp: wrx_def rdx_def)
  from find_slowest_read_index_correct [OF this, of 0] act show ?thesis by fastforce
qed

end
