(* ===== verification/Fd_Helpers.thy ===== *)
theory Fd_Helpers
  imports DriveBus_Prelude
begin

text \<open>
  File descriptors: \<open>include/fd_helpers.hpp\<close> and \<open>src/fd_helpers.cpp\<close>.  The answers of the
  kernel to system calls are data: a \<open>syscall\<close> for a call that only succeeds or fails, a
  \<open>received\<close> for \<open>recvmsg\<close>.  Sizes of control messages are those of the 64-bit Linux
  target (\<open>sizeof(cmsghdr)\<close> is 16).
\<close>

section \<open>Kernel answers\<close>

datatype syscall = SysOk | SysErr int

definition EINTR :: int where "EINTR = 4"
definition EAGAIN :: int where "EAGAIN = 11"
definition EMSGSIZE :: int where "EMSGSIZE = 90"
definition EPROTO :: int where "EPROTO = 71"

definition SOL_SOCKET :: int where "SOL_SOCKET = 1"
definition SCM_RIGHTS :: int where "SCM_RIGHTS = 1"

definition CMSG_LEN :: "nat \<Rightarrow> nat" where "CMSG_LEN n = 16 + n"

text \<open>A control message header with its \<open>int\<close> payload; \<open>cmsg_len\<close> is what the sender claims.\<close>

record cmsghdr =
  cmsg_level :: int
  cmsg_type :: int
  cmsg_len :: nat
  cmsg_fds :: "int list"

record msghdr =
  msg_bytes :: bytes
  msg_truncated :: bool                 \<comment> \<open>\<open>MSG_CTRUNC | MSG_TRUNC\<close>\<close>
  msg_control :: "cmsghdr option"       \<comment> \<open>\<open>CMSG_FIRSTHDR\<close>\<close>

datatype received = RecvErr int | RecvMsg msghdr

text \<open>An answer of \<open>epoll_wait\<close>: \<open>errno\<close>, or the data of the ready events.\<close>

datatype 'd epoll_answer = EpollErr int | EpollEvents "'d list"

text \<open>The environment of a blocking call: the clock readings and the answers of \<open>recvmsg\<close> on
  the broker connection.\<close>

record environment =
  clock :: "int list"
  broker_answers :: "received list"

definition read_clock :: "environment \<Rightarrow> (int \<times> environment) option" where
  "read_clock env = (case clock env of [] \<Rightarrow> None | t # ts \<Rightarrow> Some (t, env\<lparr>clock := ts\<rparr>))"

section \<open>Event descriptors\<close>

text \<open>The retry loops; the argument is the sequence of the kernel's answers to the calls.\<close>

fun signal_eventfd :: "syscall list \<Rightarrow> (bool \<times> syscall list) option" where
  "signal_eventfd [] = None"
| "signal_eventfd (SysOk # answers) = Some (True, answers)"
| "signal_eventfd (SysErr errno # answers) =
     (if errno = EINTR then signal_eventfd answers
      else if errno = EAGAIN then Some (True, answers)
      else Some (False, answers))"

fun drain_eventfd :: "syscall list \<Rightarrow> (bool \<times> syscall list) option" where
  "drain_eventfd [] = None"
| "drain_eventfd (SysOk # answers) = Some (True, answers)"
| "drain_eventfd (SysErr errno # answers) =
     (if errno = EINTR then drain_eventfd answers
      else if errno = EAGAIN then Some (True, answers)
      else Some (False, answers))"

text \<open>A non-blocking eventfd: a 64-bit counter that \<open>write\<close> adds 1 to, refusing to reach
  \<open>2^64 - 1\<close>, and \<open>read\<close> resets.  The calls may be interrupted any number of times first.\<close>

definition eventfd_write :: "u64 \<Rightarrow> syscall \<times> u64" where
  "eventfd_write c = (if c \<ge> -2 then (SysErr EAGAIN, c) else (SysOk, c + 1))"

definition eventfd_read :: "u64 \<Rightarrow> syscall \<times> u64" where
  "eventfd_read c = (if c = 0 then (SysErr EAGAIN, c) else (SysOk, 0))"

definition interrupted :: "nat \<Rightarrow> syscall \<Rightarrow> syscall list" where
  "interrupted n answer = replicate n (SysErr EINTR) @ [answer]"

section \<open>Owned descriptors\<close>

text \<open>\<open>close_fd\<close>: the variable afterwards and the descriptors closed.\<close>

definition close_fd_var :: "int \<Rightarrow> int \<times> int list" where
  "close_fd_var fd = (if 0 \<le> fd then (-1, [fd]) else (fd, []))"

text \<open>A guard is bound to its variable until it is released; the pair is the bound flag and the
  variable.\<close>

type_synonym fd_guard = "bool \<times> int"

definition fd_guard_release :: "fd_guard \<Rightarrow> int \<times> fd_guard" where
  "fd_guard_release = (\<lambda>(bound, fd). if bound then (fd, (False, -1)) else (-1, (False, fd)))"

definition fd_guard_destroy :: "fd_guard \<Rightarrow> int list" where
  "fd_guard_destroy = (\<lambda>(bound, fd). if bound then snd (close_fd_var fd) else [])"

text \<open>\<open>close\<close> on each entry; the entries already handed over are \<open>-1\<close>, where it has no effect.\<close>

definition close_each :: "int list \<Rightarrow> int list" where
  "close_each fds = filter (\<lambda>fd. 0 \<le> fd) fds"

definition is_valid_scm_rights_cmsg :: "cmsghdr option \<Rightarrow> bool" where
  "is_valid_scm_rights_cmsg cmsg = (case cmsg of None \<Rightarrow> False | Some c \<Rightarrow>
     cmsg_level c = SOL_SOCKET \<and> cmsg_type c = SCM_RIGHTS \<and> CMSG_LEN 0 \<le> cmsg_len c)"

definition close_received_fds :: "cmsghdr option \<Rightarrow> int list" where
  "close_received_fds cmsg = (case cmsg of None \<Rightarrow> [] | Some c \<Rightarrow>
     if is_valid_scm_rights_cmsg cmsg then
       (let fd_bytes = cmsg_len c - CMSG_LEN 0 in
        if fd_bytes mod 4 \<noteq> 0 then [] else close_each (take (fd_bytes div 4) (cmsg_fds c)))
     else [])"

section \<open>Packets with descriptors\<close>

definition send_packet_with_fd :: "bytes \<Rightarrow> int \<Rightarrow> msghdr" where
  "send_packet_with_fd packet fd =
     \<lparr>msg_bytes = packet, msg_truncated = False,
      msg_control = Some \<lparr>cmsg_level = SOL_SOCKET, cmsg_type = SCM_RIGHTS, cmsg_len = CMSG_LEN 4, cmsg_fds = [fd]\<rparr>\<rparr>"

definition send_packet_with_fds :: "bytes \<Rightarrow> int list \<Rightarrow> msghdr" where
  "send_packet_with_fds packet fds =
     \<lparr>msg_bytes = packet, msg_truncated = False,
      msg_control = (if fds = [] then None
        else Some \<lparr>cmsg_level = SOL_SOCKET, cmsg_type = SCM_RIGHTS,
               cmsg_len = CMSG_LEN (4 * length fds), cmsg_fds = fds\<rparr>)\<rparr>"

text \<open>The result is the number of bytes (negative on failure), \<open>errno\<close>, the descriptor handed
  over and the descriptors closed by the guard.\<close>

definition receive_packet_with_fd :: "received \<Rightarrow> int \<Rightarrow> (int \<times> int \<times> int \<times> int list) option" where
  "receive_packet_with_fd answer received_fd = (case answer of
     RecvErr errno \<Rightarrow> Some (-1, errno, received_fd, [])
   | RecvMsg msg \<Rightarrow>
       if msg_bytes msg = [] then Some (0, 0, received_fd, close_received_fds (msg_control msg))
       else if msg_truncated msg then Some (-1, EMSGSIZE, received_fd, close_received_fds (msg_control msg))
       else case msg_control msg of
         None \<Rightarrow> Some (-1, EPROTO, received_fd, [])
       | Some c \<Rightarrow>
           if cmsg_level c \<noteq> SOL_SOCKET \<or> cmsg_type c \<noteq> SCM_RIGHTS \<or> cmsg_len c \<noteq> CMSG_LEN 4
           then Some (-1, EPROTO, received_fd, close_received_fds (Some c))
           else case cmsg_fds c of
             [] \<Rightarrow> None
           | fd # fds \<Rightarrow> Some (int (length (msg_bytes msg)), 0, fd,
               close_received_fds (Some (c\<lparr>cmsg_fds := -1 # fds\<rparr>))))"

section \<open>Lemmas\<close>

lemma signal_drain_same: "drain_eventfd answers = signal_eventfd answers"
  by (induction answers rule: signal_eventfd.induct) simp_all

text \<open>The kernel puts as many descriptors into the control message as its length says.\<close>

definition control_ok :: "cmsghdr option \<Rightarrow> bool" where
  "control_ok cmsg = (case cmsg of None \<Rightarrow> True | Some c \<Rightarrow>
     cmsg_level c = SOL_SOCKET \<and> cmsg_type c = SCM_RIGHTS
     \<and> cmsg_len c = CMSG_LEN (4 * length (cmsg_fds c)) \<and> (\<forall>fd \<in> set (cmsg_fds c). 0 \<le> fd))"

definition control_fds :: "cmsghdr option \<Rightarrow> int list" where
  "control_fds cmsg = (case cmsg of None \<Rightarrow> [] | Some c \<Rightarrow> cmsg_fds c)"

lemma close_received_fds_len:
  assumes "cmsg_level c = SOL_SOCKET" "cmsg_type c = SCM_RIGHTS"
    "cmsg_len c = CMSG_LEN (4 * length (cmsg_fds c))"
  shows "close_received_fds (Some c) = close_each (cmsg_fds c)"
  using assms by (simp add: close_received_fds_def is_valid_scm_rights_cmsg_def CMSG_LEN_def)

lemma close_received_fds_all:
  assumes "control_ok cmsg"
  shows "close_received_fds cmsg = control_fds cmsg"
proof (cases cmsg)
  case (Some c)
  with assms have "close_received_fds cmsg = close_each (cmsg_fds c)"
    by (simp add: control_ok_def close_received_fds_len)
  with assms Some show ?thesis
    by (simp add: control_ok_def control_fds_def close_each_def filter_id_conv)
qed (simp add: close_received_fds_def control_fds_def)

lemma interrupted_signal: "signal_eventfd (interrupted n answer) = signal_eventfd [answer]"
  by (induction n) (simp_all add: interrupted_def)

lemma receive_packet_with_fd_owned:
  assumes "control_ok (msg_control msg)"
  shows "\<exists>n errno fd closed. receive_packet_with_fd (RecvMsg msg) (-1) = Some (n, errno, fd, closed)
    \<and> (if 0 < n then n = int (length (msg_bytes msg)) \<and> control_fds (msg_control msg) = [fd] \<and> closed = []
       else fd = -1 \<and> closed = control_fds (msg_control msg))"
proof (cases "msg_bytes msg = [] \<or> msg_truncated msg")
  case True
  then show ?thesis
    using close_received_fds_all [OF assms]
    by (auto simp: receive_packet_with_fd_def split: option.split)
next
  case False
  show ?thesis
  proof (cases "msg_control msg")
    case None
    with False show ?thesis by (simp add: receive_packet_with_fd_def control_fds_def)
  next
    case (Some c)
    with assms have c: "cmsg_level c = SOL_SOCKET" "cmsg_type c = SCM_RIGHTS"
      "cmsg_len c = CMSG_LEN (4 * length (cmsg_fds c))" by (simp_all add: control_ok_def)
    show ?thesis
    proof (cases "length (cmsg_fds c) = 1")
      case True
      then obtain fd where fd: "cmsg_fds c = [fd]" by (auto simp: length_Suc_conv)
      have "close_received_fds (Some (c\<lparr>cmsg_fds := [-1]\<rparr>)) = []"
        using c fd by (subst close_received_fds_len) (simp_all add: close_each_def)
      with False Some c fd show ?thesis
        by (simp add: receive_packet_with_fd_def control_fds_def)
    next
      case n1: False
      then have "cmsg_len c \<noteq> CMSG_LEN 4" using c(3) by (auto simp: CMSG_LEN_def)
      with False Some show ?thesis
        using close_received_fds_all [OF assms] by (simp add: receive_packet_with_fd_def)
    qed
  qed
qed

section \<open>Properties\<close>

text \<open>Signalling never loses a notification: however often the calls are interrupted,
  \<open>signal_eventfd\<close> on a non-blocking eventfd reports success and leaves the counter positive
  (also when it was saturated), and \<open>drain_eventfd\<close> reports success and leaves it at zero.\<close>

theorem eventfd_signal_drain:
  "signal_eventfd (interrupted n (fst (eventfd_write c))) = Some (True, [])
   \<and> snd (eventfd_write c) \<noteq> 0
   \<and> drain_eventfd (interrupted n (fst (eventfd_read c))) = Some (True, [])
   \<and> snd (eventfd_read c) = 0"
proof -
  have "c + 1 \<noteq> 0" if "\<not> c \<ge> -2"
  proof
    assume "c + 1 = 0"
    then have "c = -1" by (simp add: eq_neg_iff_add_eq_0)
    with that show False by simp
  qed
  moreover have "c \<noteq> 0" if "c \<ge> -2" using that by auto
  ultimately show ?thesis
    by (auto simp: interrupted_signal signal_drain_same eventfd_write_def eventfd_read_def EINTR_def EAGAIN_def)
qed

text \<open>No descriptor leak on receipt: whatever well-formed control message the kernel
  delivers, \<open>receive_packet_with_fd\<close> is defined, and every received descriptor is either
  handed to the caller (exactly one, and only on success) or closed, each exactly once.\<close>

theorem receive_packet_with_fd_owns_all:
  assumes "control_ok (msg_control msg)"
  shows "\<exists>n errno fd closed. receive_packet_with_fd (RecvMsg msg) (-1) = Some (n, errno, fd, closed)
    \<and> (if 0 < n then n = int (length (msg_bytes msg)) \<and> control_fds (msg_control msg) = [fd] \<and> closed = []
       else fd = -1 \<and> closed = control_fds (msg_control msg))"
  using receive_packet_with_fd_owned [OF assms] .

theorem receive_packet_with_fd_owns_all_witness:
  "receive_packet_with_fd (RecvMsg (send_packet_with_fd [4, 0, 0, 0, 3] 9)) (-1) = Some (5, 0, 9, [])"
proof -
  have "control_ok (msg_control (send_packet_with_fd [4, 0, 0, 0, 3] 9))"
    by (simp add: control_ok_def send_packet_with_fd_def)
  from receive_packet_with_fd_owns_all [OF this] show ?thesis
    by (auto simp: send_packet_with_fd_def control_fds_def receive_packet_with_fd_def CMSG_LEN_def
      SOL_SOCKET_def SCM_RIGHTS_def split: if_splits)
qed

end
