(* ===== verification/Broker_Protocol.thy ===== *)
theory Broker_Protocol
  imports DriveBus_Prelude
begin

text \<open>
  The control protocol (\<open>include/broker_protocol.hpp\<close>): message types, sizes, and the packets as
  their senders build them in \<open>broker.cpp\<close>, \<open>src/publisher.cpp\<close> and \<open>src/subscriber.cpp\<close>,
  with the reads of the receivers.  Fields are copied with \<open>memcpy\<close>, so integers are in the
  byte order of the little-endian target.
\<close>

section \<open>Types and sizes\<close>

datatype broker_message_type =
    StatusQuery | StatusSnapshot | SubscriberTopicRegistration | SubscriberDisconnected
  | SubscriberEventFdAndSlot | SubscriberAttachmentBatch | PublisherTopicRegistration
  | PublisherDisconnected

fun type_byte :: "broker_message_type \<Rightarrow> u8" where
  "type_byte StatusQuery = 0"
| "type_byte StatusSnapshot = 1"
| "type_byte SubscriberTopicRegistration = 2"
| "type_byte SubscriberDisconnected = 3"
| "type_byte SubscriberEventFdAndSlot = 4"
| "type_byte SubscriberAttachmentBatch = 5"
| "type_byte PublisherTopicRegistration = 6"
| "type_byte PublisherDisconnected = 7"

text \<open>Reading the enumeration back; a byte outside it falls to the \<open>default\<close> label.\<close>

definition message_type_of :: "u8 \<Rightarrow> broker_message_type option" where
  "message_type_of b =
     (if b = 0 then Some StatusQuery else if b = 1 then Some StatusSnapshot
      else if b = 2 then Some SubscriberTopicRegistration else if b = 3 then Some SubscriberDisconnected
      else if b = 4 then Some SubscriberEventFdAndSlot else if b = 5 then Some SubscriberAttachmentBatch
      else if b = 6 then Some PublisherTopicRegistration else if b = 7 then Some PublisherDisconnected
      else None)"

datatype broker_role = RoleSubscriber | RolePublisher

type_synonym topic_id = u8
type_synonym attachment_id = u64

definition kTopicInvalid :: topic_id where "kTopicInvalid = 0"
definition kTopicCamera :: topic_id where "kTopicCamera = 1"
definition kTopicLidar :: topic_id where "kTopicLidar = 2"
definition kTopicVehicleState :: topic_id where "kTopicVehicleState = 3"

definition kMaxMessageSize :: nat where [protocol_simps]: "kMaxMessageSize = 1024"
definition kStatusQuerySize :: nat where [protocol_simps]: "kStatusQuerySize = 1"
definition kMaxStatusSnapshotPayloadSize :: nat where [protocol_simps]: "kMaxStatusSnapshotPayloadSize = 4095"
definition kMaxStatusSnapshotMessageSize :: nat where
  [protocol_simps]: "kMaxStatusSnapshotMessageSize = 1 + kMaxStatusSnapshotPayloadSize"
definition kMaxSubscriberTopicCount :: nat where [protocol_simps]: "kMaxSubscriberTopicCount = 5"
definition kSubscriberDisconnectedMessageSize :: nat where
  [protocol_simps]: "kSubscriberDisconnectedMessageSize = 1 + 4"
definition kSubscriberEventFdAndSlotMessageSize :: nat where
  [protocol_simps]: "kSubscriberEventFdAndSlotMessageSize = 1 + 4"
definition kSubscriberTopicRegistrationMessageSize :: nat where
  [protocol_simps]: "kSubscriberTopicRegistrationMessageSize = 1 + 4 + kMaxSubscriberTopicCount * 1"
definition kSubscriberAttachmentBatchMessageMinSize :: nat where
  [protocol_simps]: "kSubscriberAttachmentBatchMessageMinSize = 1"
definition kSubscriberAttachmentMetadataSize :: nat where
  [protocol_simps]: "kSubscriberAttachmentMetadataSize = 8 + 1 + 4"
definition kMaxAttachmentsPerBatch :: nat where [protocol_simps]: "kMaxAttachmentsPerBatch = 10"
definition kPublisherTopicRegistrationMessageSize :: nat where
  [protocol_simps]: "kPublisherTopicRegistrationMessageSize = 1 + 1"
definition kPublisherDisconnectedMessageSize :: nat where
  [protocol_simps]: "kPublisherDisconnectedMessageSize = 1 + 8"
definition kInvalidAttachmentId :: attachment_id where "kInvalidAttachmentId = 0"

section \<open>Reading fields\<close>

text \<open>\<open>memcpy\<close> of a field out of the received bytes; beyond them it is undefined.\<close>

definition field :: "bytes \<Rightarrow> nat \<Rightarrow> nat \<Rightarrow> bytes option" where
  "field packet off len = (if off + len \<le> length packet then Some (take len (drop off packet)) else None)"

definition field_u8 :: "bytes \<Rightarrow> nat \<Rightarrow> u8 option" where
  "field_u8 packet off = map_option hd (field packet off 1)"

definition field_u32 :: "bytes \<Rightarrow> nat \<Rightarrow> u32 option" where
  "field_u32 packet off = map_option of_le_bytes (field packet off 4)"

definition field_u64 :: "bytes \<Rightarrow> nat \<Rightarrow> u64 option" where
  "field_u64 packet off = map_option of_le_bytes (field packet off 8)"

section \<open>The packets\<close>

text \<open>\<open>send_subscriber_topic_registration\<close>: the packet is zero-initialised, so unused topic fields
  are \<open>Invalid\<close>; a count of 0 or above 5 is refused.\<close>

definition subscriber_topic_registration_packet :: "topic_id list \<Rightarrow> bytes option" where
  "subscriber_topic_registration_packet topic_ids =
     (let topic_count = of_nat (length topic_ids) :: u32 in
      if topic_count = 0 \<or> unat topic_count > kMaxSubscriberTopicCount then None
      else Some ([type_byte SubscriberTopicRegistration] @ le_bytes 4 topic_count
        @ take (unat topic_count) topic_ids
        @ replicate (kMaxSubscriberTopicCount - unat topic_count) 0))"

definition publisher_topic_registration_packet :: "topic_id \<Rightarrow> bytes" where
  "publisher_topic_registration_packet topic_id = [type_byte PublisherTopicRegistration, topic_id]"

definition subscriber_event_fd_and_slot_packet :: "u32 \<Rightarrow> bytes" where
  "subscriber_event_fd_and_slot_packet slot = type_byte SubscriberEventFdAndSlot # le_bytes 4 slot"

definition subscriber_disconnected_packet :: "u32 \<Rightarrow> bytes" where
  "subscriber_disconnected_packet slot = type_byte SubscriberDisconnected # le_bytes 4 slot"

definition publisher_disconnected_packet :: "attachment_id \<Rightarrow> bytes" where
  "publisher_disconnected_packet ident = type_byte PublisherDisconnected # le_bytes 8 ident"

definition attachment_metadata :: "attachment_id \<times> topic_id \<times> u32 \<Rightarrow> bytes" where
  "attachment_metadata = (\<lambda>(ident, topic, slot). le_bytes 8 ident @ [topic] @ le_bytes 4 slot)"

definition attachment_batch_packet :: "(attachment_id \<times> topic_id \<times> u32) list \<Rightarrow> bytes" where
  "attachment_batch_packet ms = type_byte SubscriberAttachmentBatch # concat (map attachment_metadata ms)"

section \<open>The receivers' reads\<close>

definition read_attachment_metadata :: "bytes \<Rightarrow> nat \<Rightarrow> (attachment_id \<times> topic_id \<times> u32) option" where
  "read_attachment_metadata packet off = do {
     ident \<leftarrow> field_u64 packet off;
     topic \<leftarrow> field_u8 packet (off + 8);
     slot \<leftarrow> field_u32 packet (off + 8 + 1);
     Some (ident, topic, slot)
   }"

fun read_topic_ids :: "bytes \<Rightarrow> nat \<Rightarrow> nat \<Rightarrow> topic_id list option" where
  "read_topic_ids packet off 0 = Some []"
| "read_topic_ids packet off (Suc n) = do {
     topic \<leftarrow> field_u8 packet off;
     topics \<leftarrow> read_topic_ids packet (off + 1) n;
     Some (topic # topics)
   }"

section \<open>Round trips\<close>

lemma type_byte_inverse [simp]: "message_type_of (type_byte t) = Some t"
  by (cases t) (simp_all add: message_type_of_def)

lemma type_byte_inj: "type_byte t = type_byte u \<longleftrightarrow> t = u"
  by (metis option.inject type_byte_inverse)

lemma field_append: "off = length xs \<Longrightarrow> len = length ys \<Longrightarrow> field (xs @ ys @ zs) off len = Some ys"
  by (simp add: field_def)

lemma field_u32_le: "off = length xs \<Longrightarrow> field_u32 (xs @ le_bytes 4 v @ zs) off = Some v"
  by (simp add: field_u32_def field_append)

lemma field_u64_le: "off = length xs \<Longrightarrow> field_u64 (xs @ le_bytes 8 v @ zs) off = Some v"
  by (simp add: field_u64_def field_append)

lemma field_u8_at: "off = length xs \<Longrightarrow> field_u8 (xs @ v # zs) off = Some v"
  using field_append [of off xs 1 "[v]" zs] by (simp add: field_u8_def)

lemma length_attachment_metadata [simp]: "length (attachment_metadata m) = 13"
  by (cases m) (simp add: attachment_metadata_def)

lemma length_attachment_batch_packet: "length (attachment_batch_packet ms) = 1 + 13 * length ms"
  by (induction ms) (simp_all add: attachment_batch_packet_def)

lemma read_attachment_metadata_inverse:
  assumes "off = length xs"
  shows "read_attachment_metadata (xs @ attachment_metadata m @ zs) off = Some m"
proof -
  obtain ident topic slot where m: "m = (ident, topic, slot)" by (cases m) auto
  have "field_u64 (xs @ attachment_metadata m @ zs) off = Some ident"
    using field_u64_le [OF assms, of ident "topic # le_bytes 4 slot @ zs"]
    by (simp add: m attachment_metadata_def)
  moreover have "field_u8 (xs @ attachment_metadata m @ zs) (off + 8) = Some topic"
    using field_u8_at [of "off + 8" "xs @ le_bytes 8 ident" topic "le_bytes 4 slot @ zs"] assms
    by (simp add: m attachment_metadata_def)
  moreover have "field_u32 (xs @ attachment_metadata m @ zs) (off + 8 + 1) = Some slot"
    using field_u32_le [of "off + 8 + 1" "xs @ le_bytes 8 ident @ [topic]" slot zs] assms
    by (simp add: m attachment_metadata_def)
  ultimately show ?thesis by (simp add: read_attachment_metadata_def m)
qed

text \<open>The \<open>k\<close>-th entry of a batch.\<close>

lemma read_attachment_batch:
  assumes "k < length ms"
  shows "read_attachment_metadata (attachment_batch_packet ms) (1 + 13 * k) = Some (ms ! k)"
proof -
  have e: "concat (map attachment_metadata ms) = concat (map attachment_metadata (take k ms))
      @ attachment_metadata (ms ! k) @ concat (map attachment_metadata (drop (Suc k) ms))"
    using assms by (subst id_take_nth_drop [OF assms]) simp
  have "length (concat (map attachment_metadata ns)) = 13 * length ns" for ns
    by (induction ns) simp_all
  then have "1 + 13 * k = length (type_byte SubscriberAttachmentBatch # concat (map attachment_metadata (take k ms)))"
    using assms by simp
  from read_attachment_metadata_inverse [OF this] show ?thesis
    unfolding attachment_batch_packet_def e by simp
qed

lemma read_topic_ids_inverse:
  "off = length xs \<Longrightarrow> read_topic_ids (xs @ ts @ zs) off (length ts) = Some ts"
proof (induction ts arbitrary: xs off)
  case (Cons t ts)
  from Cons.IH [of "off + 1" "xs @ [t]"] Cons.prems show ?case
    using field_u8_at [OF Cons.prems, of t "ts @ zs"] by simp
qed simp

end
