(* ===== verification/Publisher_Control.thy ===== *)
theory Publisher_Control
  imports Data_Scenario Fd_Helpers Broker_Protocol "HOL-Library.Multiset"
begin

text \<open>
  The publisher's end of the control connection (\<open>src/publisher.cpp\<close>): the two messages of the
  broker, the receive loop, and the synchronous \<open>publish\<close>.  The answers of \<open>recvmsg\<close>,
  \<open>epoll_pwait2\<close> and of the clock are lists consumed in order; when a list has run out the
  code is still waiting and the model is \<^term>\<open>None\<close>.
\<close>

section \<open>Control messages\<close>

definition handle_subscriber_disconnected_message ::
  "bytes \<Rightarrow> nat \<Rightarrow> publisher \<Rightarrow> io \<Rightarrow> (run_error \<times> publisher \<times> io) option"
where
  "handle_subscriber_disconnected_message packet body_len p w =
     (if body_len \<noteq> 4 then Some (BrokerControlMessageProcessingFailed, p, w)
      else do {
        slot \<leftarrow> field_u32 packet 1;
        reap_dead_subscribers slot p w
      })"

text \<open>Also returns the control message as the handler leaves it: the descriptor it took over is
  replaced by \<open>-1\<close>.\<close>

definition handle_subscriber_registered_message ::
  "bytes \<Rightarrow> nat \<Rightarrow> cmsghdr option \<Rightarrow> publisher \<Rightarrow> io
     \<Rightarrow> (run_error \<times> cmsghdr option \<times> publisher \<times> io) option"
where
  "handle_subscriber_registered_message packet body_len cmsg p w =
     (if body_len \<noteq> 4 then Some (BrokerControlMessageProcessingFailed, cmsg, p, w)
      else case cmsg of
        None \<Rightarrow> Some (BrokerControlMessageProcessingFailed, cmsg, p, w)
      | Some c \<Rightarrow>
          if cmsg_level c \<noteq> SOL_SOCKET \<or> cmsg_type c \<noteq> SCM_RIGHTS \<or> cmsg_len c \<noteq> CMSG_LEN 4
          then Some (BrokerControlMessageProcessingFailed, cmsg, p, w)
          else do {
            slot \<leftarrow> field_u32 packet 1;
            case cmsg_fds c of
              [] \<Rightarrow> None
            | fd # fds \<Rightarrow> do {
                (tracking_error, p, w) \<leftarrow> track_subscriber \<lparr>reg_event_fd = fd, reg_slot_index = slot\<rparr> p w;
                Some (if tracking_error \<noteq> None then DynamicSubscriberRegistrationFailed else RunNone,
                      Some (c\<lparr>cmsg_fds := -1 # fds\<rparr>), p, w)
              }
          })"

text \<open>The \<open>ReceivedFdsGuard\<close>.\<close>

definition close_guarded :: "cmsghdr option \<Rightarrow> io \<Rightarrow> io" where
  "close_guarded cmsg w = w\<lparr>closed := closed w @ close_received_fds cmsg\<rparr>"

definition handle_broker_message ::
  "msghdr \<Rightarrow> publisher \<Rightarrow> io \<Rightarrow> (run_error \<times> cmsghdr option \<times> publisher \<times> io) option"
where
  "handle_broker_message msg p w =
     (let packet = msg_bytes msg; cmsg = msg_control msg; body_len = length packet - 1 in
      case packet of
        [] \<Rightarrow> Some (BrokerClosed, cmsg, p\<lparr>pub_broker_fd := -1\<rparr>,
                w\<lparr>unwatched := unwatched w @ [pub_broker_fd p], closed := closed w @ [pub_broker_fd p]\<rparr>)
      | b # _ \<Rightarrow>
          if msg_truncated msg then Some (BrokerControlMessageProcessingFailed, cmsg, p, w)
          else if length packet < 1 then Some (BrokerControlMessageTooShort, cmsg, p, w)
          else (case message_type_of b of
            Some SubscriberDisconnected \<Rightarrow> do {
              (result, p, w) \<leftarrow> handle_subscriber_disconnected_message packet body_len p w;
              Some (result, cmsg, p, w)
            }
          | Some SubscriberEventFdAndSlot \<Rightarrow> handle_subscriber_registered_message packet body_len cmsg p w
          | _ \<Rightarrow> Some (BrokerControlMessageProcessingFailed, cmsg, p, w)))"

fun process_broker_control_messages ::
  "received list \<Rightarrow> publisher \<Rightarrow> io \<Rightarrow> (run_error \<times> received list \<times> publisher \<times> io) option"
where
  "process_broker_control_messages [] p w = None"
| "process_broker_control_messages (RecvErr errno # answers) p w =
     (if errno = EAGAIN then Some (RunNone, answers, p, w)
      else Some (BrokerControlMessageProcessingFailed, answers, p, w))"
| "process_broker_control_messages (RecvMsg msg # answers) p w = do {
     (result, cmsg, p, w) \<leftarrow> handle_broker_message msg p w;
     let w = close_guarded cmsg w;
     if result \<noteq> RunNone then Some (result, answers, p, w)
     else process_broker_control_messages answers p w
   }"

section \<open>Synchronous publishing\<close>

text \<open>\<open>RunError::None\<close> calls \<open>std::terminate\<close>.\<close>

definition map_sync_run_error_to_publish_error :: "run_error \<Rightarrow> publish_error option" where
  "map_sync_run_error_to_publish_error e = (case e of
     RunNone \<Rightarrow> None
   | SpaceAvailableEventReadFailed \<Rightarrow> Some EventWaitFailed
   | BrokerClosed \<Rightarrow> Some BrokerUnavailable
   | BrokerControlMessageTooShort \<Rightarrow> Some BrokerUnavailable
   | BrokerControlMessageProcessingFailed \<Rightarrow> Some BrokerUnavailable
   | DynamicSubscriberRegistrationFailed \<Rightarrow> Some BrokerUnavailable
   | ChunkReferenceReleaseFailed \<Rightarrow> Some BrokerUnavailable
   | DeadSubscriberReapFailed \<Rightarrow> Some BrokerUnavailable
   | _ \<Rightarrow> Some DataPathFailed)"

text \<open>The loop over the buffered events, up to an error return.\<close>

fun handle_sync_events ::
  "(int \<Rightarrow> bool) \<Rightarrow> int \<Rightarrow> int list \<Rightarrow> environment \<Rightarrow> publisher \<Rightarrow> io
     \<Rightarrow> (publish_error option \<times> environment \<times> publisher \<times> io) option"
where
  "handle_sync_events drain deadline [] env p w = Some (None, env, p\<lparr>pub_events := []\<rparr>, w)"
| "handle_sync_events drain deadline (fd # fds) env p w = do {
     (now, env) \<leftarrow> read_clock env;
     let p = p\<lparr>pub_events := fd # fds\<rparr>;
     if deadline \<le> now then Some (Some Timeout, env, p, w)
     else if fd = space_available_event_fd p then
       (if \<not> drain fd then Some (Some EventWaitFailed, env, p, w)
        else handle_sync_events drain deadline fds env p w)
     else if fd = pub_broker_fd p then do {
       (result, answers, p, w) \<leftarrow> process_broker_control_messages (broker_answers env) p w;
       let env = env\<lparr>broker_answers := answers\<rparr>;
       if result \<noteq> RunNone then do {
         e \<leftarrow> map_sync_run_error_to_publish_error result;
         Some (Some e, env, p, w)
       } else handle_sync_events drain deadline fds env p w
     } else handle_sync_events drain deadline fds env p w
   }"

text \<open>One round: the buffered events, then one attempt.  \<open>Inr None\<close> means that the attempt was
  held back before the deadline.\<close>

definition publish_sync_round ::
  "(int \<Rightarrow> bool) \<Rightarrow> (int \<Rightarrow> bool) \<Rightarrow> bytes \<Rightarrow> int \<Rightarrow> environment \<Rightarrow> publisher \<Rightarrow> io
     \<Rightarrow> ((publish_error + publish_disposition option) \<times> environment \<times> publisher \<times> io) option"
where
  "publish_sync_round sig drain payload deadline env p w = do {
     (failed, env, p, w) \<leftarrow> handle_sync_events drain deadline (pub_events p) env p w;
     case failed of Some e \<Rightarrow> Some (Inl e, env, p, w)
     | None \<Rightarrow> do {
       (now, env) \<leftarrow> read_clock env;
       if deadline \<le> now then Some (Inl Timeout, env, p, w)
       else do {
         (result, p, w) \<leftarrow> try_publish_one sig payload p w;
         case result of
           Inl e \<Rightarrow> do { e \<leftarrow> map_sync_run_error_to_publish_error e; Some (Inl e, env, p, w) }
         | Inr attempt \<Rightarrow>
             if attempt = Succeeded then Some (Inr (Some DPublished), env, p, w)
             else do {
               (now, env) \<leftarrow> read_clock env;
               Some (if deadline \<le> now then Inl Timeout else Inr None, env, p, w)
             }
       }
     }
   }"

text \<open>The rounds are separated by \<open>epoll_pwait2\<close>.\<close>

fun publish_sync_loop ::
  "(int \<Rightarrow> bool) \<Rightarrow> (int \<Rightarrow> bool) \<Rightarrow> bytes \<Rightarrow> int \<Rightarrow> int epoll_answer list \<Rightarrow> environment \<Rightarrow> publisher \<Rightarrow> io
     \<Rightarrow> ((publish_error + publish_disposition) \<times> publisher \<times> io) option"
where
  "publish_sync_loop sig drain payload deadline answers env p w = do {
     (result, env, p, w) \<leftarrow> publish_sync_round sig drain payload deadline env p w;
     case result of
       Inl e \<Rightarrow> Some (Inl e, p, w)
     | Inr (Some disposition) \<Rightarrow> Some (Inr disposition, p, w)
     | Inr None \<Rightarrow> (case answers of
           [] \<Rightarrow> None
         | EpollErr errno # answers \<Rightarrow>
             if errno = EINTR then publish_sync_loop sig drain payload deadline answers env p w
             else Some (Inl EventWaitFailed, p, w)
         | EpollEvents fds # answers \<Rightarrow>
             if fds = [] then Some (Inl Timeout, p, w)
             else publish_sync_loop sig drain payload deadline answers env (p\<lparr>pub_events := fds\<rparr>) w)
   }"

declare publish_sync_loop.simps [simp del]

definition publish_sync ::
  "(int \<Rightarrow> bool) \<Rightarrow> (int \<Rightarrow> bool) \<Rightarrow> bytes \<Rightarrow> int \<Rightarrow> int epoll_answer list \<Rightarrow> environment \<Rightarrow> publisher \<Rightarrow> io
     \<Rightarrow> ((publish_error + publish_disposition) \<times> publisher \<times> io) option"
where
  "publish_sync sig drain payload timeout answers env p w =
     (if pub_flags p AND SYNCHRONOUS = 0 then Some (Inl ModeMismatch, p, w)
      else if length payload > kMaxPayloadSizeBytes then Some (Inl PayloadTooLarge, p, w)
      else do {
        (now, env) \<leftarrow> read_clock env;
        publish_sync_loop sig drain payload (now + timeout) answers env p w
      })"

section \<open>Control messages keep the invariant\<close>

text \<open>What the control messages leave alone.\<close>

definition same_sender :: "publisher \<Rightarrow> publisher \<Rightarrow> bool" where
  "same_sender p p' \<longleftrightarrow> seq p' = seq p \<and> pub_flags p' = pub_flags p \<and> pending_messages p' = pending_messages p
     \<and> in_flight p' = in_flight p \<and> run_thread_active p' = run_thread_active p
     \<and> pub_events p' = pub_events p \<and> publish_work_event_fd p' = publish_work_event_fd p
     \<and> space_available_event_fd p' = space_available_event_fd p
     \<and> pub_shutdown_event_fd p' = pub_shutdown_event_fd p
     \<and> pub_worker_exit_event_fd p' = pub_worker_exit_event_fd p \<and> pub_epoll_fd p' = pub_epoll_fd p"

lemma same_sender_refl [simp]: "same_sender p p"
  by (simp add: same_sender_def)

lemma same_sender_trans: "same_sender p p' \<Longrightarrow> same_sender p' p'' \<Longrightarrow> same_sender p p''"
  by (simp add: same_sender_def)

lemma data_inv_cong:
  "data_available_event_fds p' = data_available_event_fds p \<Longrightarrow> slot_by_event_fd p' = slot_by_event_fd p \<Longrightarrow>
   event_fd_by_slot p' = event_fd_by_slot p \<Longrightarrow> seq p' = seq p \<Longrightarrow> data_inv p' sd \<longleftrightarrow> data_inv p sd"
  by (simp add: data_inv_def slots_inv_def)

lemma track_subscriber_keeps:
  assumes inv: "data_inv p (shm w)" and code: "track_subscriber reg p w = Some (e, p', w')"
  shows "data_inv p' (shm w') \<and> same_sender p p' \<and> completions w' = completions w \<and> signalled w' = signalled w"
proof (cases "kMaxSubscribers \<le> unat (reg_slot_index reg) \<or> active (shm w) (unat (reg_slot_index reg))
    \<or> slot_by_event_fd p (reg_event_fd reg) \<noteq> None")
  case True
  from track_errors [OF True] code inv show ?thesis by (auto simp: close_fd_def)
next
  case False
  then have fd: "reg_event_fd reg \<notin> set (data_available_event_fds p)"
    using data_invD(3) [OF inv] tables_okD(2) unfolding slots_inv_def by blast
  from False have "unat (reg_slot_index reg) < kMaxSubscribers" "\<not> active (shm w) (unat (reg_slot_index reg))"
    by auto
  from track_correct [OF inv this fd] obtain p1 w1 where
    c: "track_subscriber reg p w = Some (None, p1, w1)" "data_inv p1 (shm w1)" "w1 = w\<lparr>shm := shm w1\<rparr>"
    and p1: "p1 = p\<lparr>slot_by_event_fd := (slot_by_event_fd p)(reg_event_fd reg \<mapsto> unat (reg_slot_index reg)),
         data_available_event_fds := data_available_event_fds p @ [reg_event_fd reg],
         event_fd_by_slot := (event_fd_by_slot p)(unat (reg_slot_index reg) := reg_event_fd reg)\<rparr>"
    by blast
  have "completions w1 = completions w" "signalled w1 = signalled w" by (subst c(3), simp)+
  with c p1 code show ?thesis by (auto simp: same_sender_def)
qed

lemma reap_keeps:
  assumes inv: "data_inv p (shm w)"
  shows "\<exists>e p' w'. reap_dead_subscribers slot p w = Some (e, p', w')
    \<and> data_inv p' (shm w') \<and> same_sender p p' \<and> completions w' = completions w \<and> signalled w' = signalled w"
proof (cases "active (shm w) (unat slot)")
  case False
  with reap_errors [OF False] inv show ?thesis by simp
next
  case True
  from reap_correct [OF inv True] obtain p' w' where
    c: "reap_dead_subscribers slot p w = Some (RunNone, p', w')" "data_inv p' (shm w')"
      "completions w' = completions w" "signalled w' = signalled w" by blast
  have "same_sender p p'"
    using c(1) by (auto simp: reap_dead_subscribers_def untrack_subscriber_def Let_def same_sender_def
      bind_eq_Some_conv split: if_splits)
  with c show ?thesis by blast
qed

definition keeps :: "publisher \<Rightarrow> io \<Rightarrow> publisher \<Rightarrow> io \<Rightarrow> bool" where
  "keeps p w p' w' \<longleftrightarrow> data_inv p' (shm w') \<and> same_sender p p' \<and> completions w' = completions w
     \<and> signalled w' = signalled w"

lemma keeps_trans: "keeps p w p' w' \<Longrightarrow> keeps p' w' p'' w'' \<Longrightarrow> keeps p w p'' w''"
  by (auto simp: keeps_def intro: same_sender_trans)

lemma keepsD: "keeps p w p' w' \<Longrightarrow> data_inv p' (shm w')"
  by (simp add: keeps_def)

lemma handle_broker_message_keeps:
  assumes inv: "data_inv p (shm w)" and code: "handle_broker_message msg p w = Some (r, cmsg, p', w')"
  shows "keeps p w p' w'"
proof (cases "msg_bytes msg")
  case Nil
  have "data_inv (p\<lparr>pub_broker_fd := -1\<rparr>) (shm w)" 
    using data_inv_cong [of "p\<lparr>pub_broker_fd := -1\<rparr>" p "shm w"] inv by simp
  with code Nil show ?thesis
    by (auto simp: handle_broker_message_def Let_def keeps_def same_sender_def)
next
  case (Cons b bs)
  have triv: "keeps p w p w" using inv by (simp add: keeps_def)
  have reg: "keeps p w p' w'"
    if h: "handle_subscriber_registered_message packet n cm p w = Some (r, cmsg, p', w')" for packet n cm
  proof (cases "p' = p \<and> w' = w")
    case False
    with h obtain c where c: "n = 4" "cm = Some c" "cmsg_level c = SOL_SOCKET" "cmsg_type c = SCM_RIGHTS"
        "cmsg_len c = CMSG_LEN 4"
      by (auto simp: handle_subscriber_registered_message_def split: if_splits option.splits)
    with h have "cmsg_fds c \<noteq> []"
      by (auto simp: handle_subscriber_registered_message_def bind_eq_Some_conv)
    then obtain fd fds where f: "cmsg_fds c = fd # fds" by (cases "cmsg_fds c") auto
    with h c f obtain reg e where "track_subscriber reg p w = Some (e, p', w')"
      by (auto simp: handle_subscriber_registered_message_def bind_eq_Some_conv)
    from track_subscriber_keeps [OF inv this] show ?thesis by (simp add: keeps_def)
  qed (use triv in simp)
  have dis: "keeps p w p' w'"
    if "handle_subscriber_disconnected_message packet n p w = Some (r, p', w')" for packet n
  proof (cases "n = 4")
    case True
    with that obtain slot where "reap_dead_subscribers slot p w = Some (r, p', w')"
      by (auto simp: handle_subscriber_disconnected_message_def bind_eq_Some_conv)
    with reap_keeps [OF inv, of slot] show ?thesis by (simp add: keeps_def)
  next
    case False
    with that triv show ?thesis by (simp add: handle_subscriber_disconnected_message_def)
  qed
  show ?thesis
    using code triv reg dis Cons
    by (auto simp: handle_broker_message_def Let_def bind_eq_Some_conv
      split: if_splits option.splits broker_message_type.splits)
qed

lemma close_guarded_keeps: "keeps p w p' w' \<Longrightarrow> keeps p w p' (close_guarded cmsg w')"
  by (simp add: keeps_def close_guarded_def)

lemma process_broker_control_messages_keeps:
  assumes "process_broker_control_messages answers p w = Some (r, rest, p', w')" "data_inv p (shm w)"
  shows "keeps p w p' w'"
  using assms
proof (induction answers p w rule: process_broker_control_messages.induct)
  case (2 errno answers p w)
  then show ?case by (auto simp: keeps_def split: if_splits)
next
  case (3 msg answers p w)
  from 3(2) obtain res cmsg p1 w1 where
    h: "handle_broker_message msg p w = Some (res, cmsg, p1, w1)"
    and rest: "(if res \<noteq> RunNone then Some (res, answers, p1, close_guarded cmsg w1)
      else process_broker_control_messages answers p1 (close_guarded cmsg w1)) = Some (r, rest, p', w')"
    by (auto simp: bind_eq_Some_conv Let_def)
  have k: "keeps p w p1 (close_guarded cmsg w1)"
    by (rule close_guarded_keeps [OF handle_broker_message_keeps [OF 3(3) h]])
  show ?case
  proof (cases "res = RunNone")
    case True
    with rest have "process_broker_control_messages answers p1 (close_guarded cmsg w1) = Some (r, rest, p', w')"
      by simp
    from 3(1) [OF h refl refl refl refl _ this keepsD [OF k]] True k show ?thesis
      by (auto intro: keeps_trans)
  next
    case False
    with rest k show ?thesis by simp
  qed
qed simp

section \<open>A synchronous call publishes at most once\<close>

lemma map_sync_defined: "map_sync_run_error_to_publish_error e = None \<longleftrightarrow> e = RunNone"
  by (cases e) (simp_all add: map_sync_run_error_to_publish_error_def)

text \<open>Buffered events do not count as an attempt.\<close>

definition keeps_sender :: "publisher \<Rightarrow> io \<Rightarrow> publisher \<Rightarrow> io \<Rightarrow> bool" where
  "keeps_sender p w p' w' \<longleftrightarrow> data_inv p' (shm w') \<and> seq p' = seq p \<and> pub_flags p' = pub_flags p
     \<and> signalled w' = signalled w"

lemma keeps_sender_trans: "keeps_sender p w p' w' \<Longrightarrow> keeps_sender p' w' p'' w'' \<Longrightarrow> keeps_sender p w p'' w''"
  by (simp add: keeps_sender_def)

lemma keeps_keeps_sender: "keeps p w p' w' \<Longrightarrow> keeps_sender p w p' w'"
  by (simp add: keeps_def keeps_sender_def same_sender_def)

lemma data_inv_events [simp]: "data_inv (p\<lparr>pub_events := es\<rparr>) sd \<longleftrightarrow> data_inv p sd"
  by (rule data_inv_cong) simp_all

lemma keeps_sender_events [simp]:
  "keeps_sender (p\<lparr>pub_events := es\<rparr>) w p' w' \<longleftrightarrow> keeps_sender p w p' w'"
  "keeps_sender p w (p'\<lparr>pub_events := es\<rparr>) w' \<longleftrightarrow> keeps_sender p w p' w'"
  by (simp_all add: keeps_sender_def)

lemma handle_sync_events_keeps:
  assumes "handle_sync_events drain deadline fds env p w = Some (r, env', p', w')" "data_inv p (shm w)"
  shows "keeps_sender p w p' w'"
  using assms
proof (induction fds arbitrary: env p w)
  case Nil
  then show ?case by (auto simp: keeps_sender_def)
next
  case (Cons fd fds)
  have refl: "keeps_sender p w p w" using Cons.prems(2) by (simp add: keeps_sender_def)
  from Cons.prems(1) obtain now env1 where clk: "read_clock env = Some (now, env1)"
    by (auto simp: bind_eq_Some_conv)
  let ?p = "p\<lparr>pub_events := fd # fds\<rparr>"
  have inv1: "data_inv ?p (shm w)" using Cons.prems(2) by simp
  note IH = Cons.IH
  show ?case
  proof (cases "deadline \<le> now \<or> (fd = space_available_event_fd ?p \<and> \<not> drain fd)")
    case True
    with Cons.prems(1) clk refl show ?thesis by (auto simp: Let_def split: if_splits)
  next
    case go: False
    show ?thesis
    proof (cases "fd \<noteq> space_available_event_fd ?p \<and> fd = pub_broker_fd ?p")
      case False
      with go Cons.prems(1) clk have "handle_sync_events drain deadline fds env1 ?p w = Some (r, env', p', w')"
        by (auto simp: Let_def split: if_splits)
      from IH [OF this inv1] show ?thesis by simp
    next
      case True
      with go Cons.prems(1) clk obtain res rest p1 w1 where
        pr: "process_broker_control_messages (broker_answers env1) ?p w = Some (res, rest, p1, w1)"
        and rest: "(if res \<noteq> RunNone then do {
             e \<leftarrow> map_sync_run_error_to_publish_error res;
             Some (Some e, env1\<lparr>broker_answers := rest\<rparr>, p1, w1)
           } else handle_sync_events drain deadline fds (env1\<lparr>broker_answers := rest\<rparr>) p1 w1)
          = Some (r, env', p', w')"
        by (auto simp: bind_eq_Some_conv Let_def split: if_splits)
      from process_broker_control_messages_keeps [OF pr inv1]
      have k: "keeps ?p w p1 w1" .
      show ?thesis
      proof (cases "res = RunNone")
        case True
        with rest IH [of "env1\<lparr>broker_answers := rest\<rparr>" p1 w1] keepsD [OF k] keeps_keeps_sender [OF k]
        show ?thesis by (auto intro: keeps_sender_trans)
      next
        case False
        with rest keeps_keeps_sender [OF k] show ?thesis by (auto simp: bind_eq_Some_conv)
      qed
    qed
  qed
qed

text \<open>\<open>published_once\<close>: exactly one message was written, to every active slot.\<close>

definition published_once :: "bytes \<Rightarrow> publisher \<Rightarrow> publisher \<Rightarrow> io \<Rightarrow> bool" where
  "published_once payload p p' w' \<longleftrightarrow> data_inv p' (shm w') \<and> seq p' = seq p + 1
     \<and> (\<exists>s. active (shm w') s) \<and> (\<forall>s. active (shm w') s \<longrightarrow> (\<exists>ms. queue (shm w') s = ms @ [payload]))"

lemma publish_sync_round_once:
  assumes code: "publish_sync_round all_ok drain payload deadline env p w = Some (r, env', p', w')"
    and inv: "data_inv p (shm w)" and n: "seq p \<noteq> 2147483647"
    and len: "length payload \<le> kMaxPayloadSizeBytes"
  shows "case r of Inr (Some d) \<Rightarrow> d = DPublished \<and> published_once payload p p' w'
    | _ \<Rightarrow> keeps_sender p w p' w'"
proof -
  from code obtain failed env1 p1 w1 where
    ev: "handle_sync_events drain deadline (pub_events p) env p w = Some (failed, env1, p1, w1)"
    by (auto simp: publish_sync_round_def bind_eq_Some_conv)
  have k: "keeps_sender p w p1 w1" by (rule handle_sync_events_keeps [OF ev inv])
  then have inv1: "data_inv p1 (shm w1)" and n1: "seq p1 \<noteq> 2147483647" and sq: "seq p1 = seq p"
    using n by (auto simp: keeps_sender_def)
  show ?thesis
  proof (cases "failed")
    case (Some e)
    with code ev k show ?thesis by (auto simp: publish_sync_round_def bind_eq_Some_conv)
  next
    case None
    show ?thesis
    proof (cases "held_back payload (shm w1)")
      case True
      with None code ev k try_publish_one_blocked [OF inv1 len True, of all_ok] show ?thesis
        by (auto simp: publish_sync_round_def bind_eq_Some_conv split: if_splits)
    next
      case False
      have "\<forall>fd \<in> set (data_available_event_fds p1). all_ok fd" by simp
      from try_publish_one_ok [OF inv1 len False n1 this] obtain sd' where
        pub: "try_publish_one all_ok payload p1 w1 = Some (Inr Succeeded, p1\<lparr>seq := seq p1 + 1\<rparr>,
          w1\<lparr>shm := sd', signalled := signalled w1 @ data_available_event_fds p1\<rparr>)"
        and inv2: "data_inv (p1\<lparr>seq := seq p1 + 1\<rparr>) sd'"
        and act: "\<forall>s. active sd' s \<longleftrightarrow> active (shm w1) s"
        and q: "\<forall>s. queue sd' s = (if active (shm w1) s then queue (shm w1) s @ [payload] else [])"
        by blast
      have "\<exists>s. active (shm w1) s" using False by (auto simp: held_back_def)
      with inv2 act q sq have once: "published_once payload p (p1\<lparr>seq := seq p1 + 1\<rparr>)
          (w1\<lparr>shm := sd', signalled := signalled w1 @ data_available_event_fds p1\<rparr>)"
        by (auto simp: published_once_def)
      from None code ev pub k once show ?thesis
        by (auto simp: publish_sync_round_def bind_eq_Some_conv split: if_splits)
    qed
  qed
qed

lemma publish_sync_loop_once:
  assumes "publish_sync_loop all_ok drain payload deadline answers env p w = Some (r, p', w')"
    "data_inv p (shm w)" "seq p \<noteq> 2147483647" "length payload \<le> kMaxPayloadSizeBytes"
  shows "case r of Inr d \<Rightarrow> d = DPublished \<and> published_once payload p p' w' | Inl e \<Rightarrow> keeps_sender p w p' w'"
  using assms
proof (induction answers arbitrary: env p w)
  case Nil
  then obtain res env1 p1 w1 where
    rd: "publish_sync_round all_ok drain payload deadline env p w = Some (res, env1, p1, w1)"
    by (auto simp: publish_sync_loop.simps bind_eq_Some_conv)
  from publish_sync_round_once [OF rd Nil.prems(2-4)] Nil.prems(1) rd show ?case
    by (auto simp: publish_sync_loop.simps [of _ _ _ _ "[]"] split: sum.splits option.splits)
next
  case (Cons a answers)
  then obtain res env1 p1 w1 where
    rd: "publish_sync_round all_ok drain payload deadline env p w = Some (res, env1, p1, w1)"
    by (auto simp: publish_sync_loop.simps bind_eq_Some_conv)
  note once = publish_sync_round_once [OF rd Cons.prems(2-4)]
  show ?case
  proof (cases "res = Inr None")
    case False
    with once Cons.prems(1) rd show ?thesis
      by (auto simp: publish_sync_loop.simps [of _ _ _ _ "a # answers"] split: sum.splits option.splits)
  next
    case True
    with once have k: "keeps_sender p w p1 w1" by simp
    then have pre: "data_inv p1 (shm w1)" "seq p1 \<noteq> 2147483647" "seq p1 = seq p"
      using Cons.prems(3) by (auto simp: keeps_sender_def)
    have more: ?thesis if "publish_sync_loop all_ok drain payload deadline answers env1 p2 w1 = Some (r, p', w')"
      "p2 = p1\<lparr>pub_events := es\<rparr>" for p2 es
    proof -
      have "case r of Inr d \<Rightarrow> d = DPublished \<and> published_once payload p2 p' w' | Inl e \<Rightarrow> keeps_sender p2 w1 p' w'"
        using Cons.IH [OF that(1)] pre Cons.prems(4) that(2) by simp
      then show ?thesis
        using k pre(3) that(2) by (auto simp: published_once_def intro: keeps_sender_trans split: sum.splits)
    qed
    have same: "p1 = p1\<lparr>pub_events := pub_events p1\<rparr>" by simp
    have code: "publish_sync_loop all_ok drain payload deadline (a # answers) env p w = (case a of
        EpollErr errno \<Rightarrow> if errno = EINTR then publish_sync_loop all_ok drain payload deadline answers env1 p1 w1
          else Some (Inl EventWaitFailed, p1, w1)
      | EpollEvents fds \<Rightarrow> if fds = [] then Some (Inl Timeout, p1, w1)
          else publish_sync_loop all_ok drain payload deadline answers env1 (p1\<lparr>pub_events := fds\<rparr>) w1)"
      using True rd by (subst publish_sync_loop.simps) simp
    show ?thesis
    proof (cases a)
      case (EpollErr errno)
      with code Cons.prems(1) k more [OF _ same] show ?thesis by (cases "errno = EINTR") auto
    next
      case (EpollEvents fds)
      with code Cons.prems(1) k more [OF _ refl] show ?thesis by (cases "fds = []") auto
    qed
  qed
qed

lemma publish_sync_once:
  assumes "publish_sync all_ok drain payload timeout answers env p w = Some (r, p', w')"
    "data_inv p (shm w)" "seq p \<noteq> 2147483647"
  shows "case r of Inr d \<Rightarrow> d = DPublished \<and> published_once payload p p' w' | Inl e \<Rightarrow> keeps_sender p w p' w'"
proof (cases "pub_flags p AND SYNCHRONOUS = 0 \<or> length payload > kMaxPayloadSizeBytes")
  case True
  with assms show ?thesis by (auto simp: publish_sync_def keeps_sender_def split: if_splits)
next
  case False
  with assms(1) obtain now env' where
    "publish_sync_loop all_ok drain payload (now + timeout) answers env' p w = Some (r, p', w')"
    by (auto simp: publish_sync_def bind_eq_Some_conv)
  from publish_sync_loop_once [OF this assms(2,3)] False show ?thesis by simp
qed

section \<open>Descriptors are conserved\<close>

text \<open>The descriptors the publisher owns because of the control connection.\<close>

definition owned_fds :: "publisher \<Rightarrow> int multiset" where
  "owned_fds p = mset (data_available_event_fds p) + (if 0 \<le> pub_broker_fd p then {#pub_broker_fd p#} else {#})"

definition conserves :: "int multiset \<Rightarrow> publisher \<Rightarrow> io \<Rightarrow> publisher \<Rightarrow> io \<Rightarrow> bool" where
  "conserves received p w p' w' \<longleftrightarrow>
     owned_fds p' + mset (closed w') = owned_fds p + mset (closed w) + received"

definition received_fds :: "received \<Rightarrow> int list" where
  "received_fds answer = (case answer of RecvErr _ \<Rightarrow> [] | RecvMsg msg \<Rightarrow> control_fds (msg_control msg))"

definition well_formed :: "received \<Rightarrow> bool" where
  "well_formed answer = (case answer of RecvErr _ \<Rightarrow> True | RecvMsg msg \<Rightarrow> control_ok (msg_control msg))"

lemma track_subscriber_conserves:
  assumes inv: "data_inv p (shm w)" and fd: "0 \<le> reg_event_fd reg"
    and code: "track_subscriber reg p w = Some (e, p', w')"
  shows "conserves {#reg_event_fd reg#} p w p' w' \<and> pub_broker_fd p' = pub_broker_fd p"
proof (cases "kMaxSubscribers \<le> unat (reg_slot_index reg) \<or> active (shm w) (unat (reg_slot_index reg))
    \<or> slot_by_event_fd p (reg_event_fd reg) \<noteq> None")
  case True
  from track_errors [OF True] code fd show ?thesis by (auto simp: conserves_def close_fd_def)
next
  case False
  then have n: "reg_event_fd reg \<notin> set (data_available_event_fds p)"
    using data_invD(3) [OF inv] tables_okD(2) unfolding slots_inv_def by blast
  from False have "unat (reg_slot_index reg) < kMaxSubscribers" "\<not> active (shm w) (unat (reg_slot_index reg))"
    by auto
  from track_correct [OF inv this n] obtain p1 w1 where
    c: "track_subscriber reg p w = Some (None, p1, w1)" "w1 = w\<lparr>shm := shm w1\<rparr>"
    and p1: "p1 = p\<lparr>slot_by_event_fd := (slot_by_event_fd p)(reg_event_fd reg \<mapsto> unat (reg_slot_index reg)),
         data_available_event_fds := data_available_event_fds p @ [reg_event_fd reg],
         event_fd_by_slot := (event_fd_by_slot p)(unat (reg_slot_index reg) := reg_event_fd reg)\<rparr>"
    by blast
  have "closed w1 = closed w" by (subst c(2), simp)
  with c p1 code show ?thesis by (auto simp: conserves_def owned_fds_def)
qed

lemma reap_conserves:
  assumes inv: "data_inv p (shm w)" and code: "reap_dead_subscribers slot p w = Some (e, p', w')"
  shows "conserves {#} p w p' w' \<and> pub_broker_fd p' = pub_broker_fd p"
proof (cases "active (shm w) (unat slot)")
  case False
  with reap_errors [OF False] code show ?thesis by (simp add: conserves_def)
next
  case True
  let ?fd = "event_fd_by_slot p (unat slot)"
  from reap_correct [OF inv True] code have
    c: "data_available_event_fds p' = filter (\<lambda>x. x \<noteq> ?fd) (data_available_event_fds p)"
      "closed w' = closed w @ [?fd]" by auto
  have b: "pub_broker_fd p' = pub_broker_fd p"
    using code by (auto simp: reap_dead_subscribers_def untrack_subscriber_def Let_def
      bind_eq_Some_conv split: if_splits)
  have t: "tables_ok (data_available_event_fds p) (slot_by_event_fd p) (event_fd_by_slot p) (active (shm w))"
    using data_invD(3) [OF inv] by (simp add: slots_inv_def)
  have "?fd \<in> set (data_available_event_fds p)"
    using tables_okD(2,5) [OF t] True by blast
  with tables_okD(1) [OF t] have "count (mset (data_available_event_fds p)) ?fd = 1"
    by (simp add: distinct_count_atmost_1)
  then have "mset (filter (\<lambda>x. x \<noteq> ?fd) (data_available_event_fds p)) + {#?fd#} = mset (data_available_event_fds p)"
    by (intro multiset_eqI) auto
  with b show ?thesis by (simp add: conserves_def owned_fds_def c)
qed

lemma handle_broker_message_conserves:
  assumes inv: "data_inv p (shm w)" and ok: "control_ok (msg_control msg)" and b: "0 \<le> pub_broker_fd p"
    and code: "handle_broker_message msg p w = Some (r, cmsg, p', w')"
  shows "conserves (mset (control_fds (msg_control msg))) p w p' (close_guarded cmsg w')
    \<and> (r \<noteq> BrokerClosed \<longrightarrow> pub_broker_fd p' = pub_broker_fd p)"
proof (cases "cmsg = msg_control msg")
  case True
  have all: "close_received_fds cmsg = control_fds (msg_control msg)"
    using close_received_fds_all [OF ok] True by simp
  have dis: ?thesis if "reap_dead_subscribers slot p w = Some (r, p', w')" for slot
    using reap_conserves [OF inv that] all by (simp add: conserves_def close_guarded_def)
  show ?thesis
  proof (cases "p' = p \<and> w' = w")
    case True
    then show ?thesis by (simp add: conserves_def close_guarded_def all)
  next
    case changed: False
    show ?thesis
    proof (cases "msg_bytes msg")
      case Nil
      with code b all show ?thesis
        by (auto simp: handle_broker_message_def Let_def conserves_def close_guarded_def owned_fds_def)
    next
      case (Cons x xs)
      consider (d) "message_type_of x = Some SubscriberDisconnected"
        | (g) "message_type_of x = Some SubscriberEventFdAndSlot"
        | (o) "message_type_of x \<noteq> Some SubscriberDisconnected \<and> message_type_of x \<noteq> Some SubscriberEventFdAndSlot"
        by blast
      then show ?thesis
      proof cases
        case d
        with code Cons changed obtain slot where "reap_dead_subscribers slot p w = Some (r, p', w')"
          by (auto simp: handle_broker_message_def Let_def handle_subscriber_disconnected_message_def
            bind_eq_Some_conv split: if_splits)
        then show ?thesis by (rule dis)
      next
        case g
        with code Cons have "handle_subscriber_registered_message (msg_bytes msg) (length (msg_bytes msg) - 1)
            (msg_control msg) p w = Some (r, cmsg, p', w') \<or> (p' = p \<and> w' = w)"
          by (auto simp: handle_broker_message_def Let_def split: if_splits)
        with changed have h: "handle_subscriber_registered_message (msg_bytes msg) (length (msg_bytes msg) - 1)
            (msg_control msg) p w = Some (r, msg_control msg, p', w')" using True by blast
        have False
        proof (cases "msg_control msg")
          case None
          with h changed show False
            by (auto simp: handle_subscriber_registered_message_def split: if_splits)
        next
          case (Some c)
          with h changed have "cmsg_fds c \<noteq> []"
            by (auto simp: handle_subscriber_registered_message_def bind_eq_Some_conv split: if_splits)
          then obtain fd fds where f1: "cmsg_fds c = fd # fds" by (cases "cmsg_fds c") auto
          with h changed Some have f2: "c\<lparr>cmsg_fds := -1 # fds\<rparr> = c"
            by (auto simp: handle_subscriber_registered_message_def bind_eq_Some_conv split: if_splits)
          note f = f1 f2
          from arg_cong [OF f(2), of cmsg_fds] f(1) ok Some show False by (simp add: control_ok_def)
        qed
        then show ?thesis ..
      next
        case o
        with code Cons changed show ?thesis
          by (auto simp: handle_broker_message_def Let_def split: if_splits option.splits broker_message_type.splits)
      qed
    qed
  qed
next
  case False
  from code False obtain x xs where ne: "msg_bytes msg = x # xs"
    by (cases "msg_bytes msg") (auto simp: handle_broker_message_def Let_def)
  have "message_type_of x = Some SubscriberEventFdAndSlot"
    using code False ne
    by (auto simp: handle_broker_message_def Let_def bind_eq_Some_conv
      split: if_splits option.splits broker_message_type.splits)
  with code ne False have h: "handle_subscriber_registered_message (msg_bytes msg) (length (msg_bytes msg) - 1)
      (msg_control msg) p w = Some (r, cmsg, p', w')"
    by (auto simp: handle_broker_message_def Let_def split: if_splits)
  with False obtain c where c: "msg_control msg = Some c" "cmsg_len c = CMSG_LEN 4"
    "cmsg_level c = SOL_SOCKET" "cmsg_type c = SCM_RIGHTS"
    by (auto simp: handle_subscriber_registered_message_def split: if_splits option.splits)
  with ok have "length (cmsg_fds c) = 1" by (auto simp: control_ok_def CMSG_LEN_def)
  then obtain fd where fd: "cmsg_fds c = [fd]" by (auto simp: length_Suc_conv)
  have fd0: "0 \<le> fd" using ok c fd by (simp add: control_ok_def)
  from h c fd False obtain slot e where
    t: "track_subscriber \<lparr>reg_event_fd = fd, reg_slot_index = slot\<rparr> p w = Some (e, p', w')"
    and cm: "cmsg = Some (c\<lparr>cmsg_fds := [-1]\<rparr>)"
    by (auto simp: handle_subscriber_registered_message_def bind_eq_Some_conv split: if_splits)
  have "close_received_fds cmsg = []"
    unfolding cm using c fd by (subst close_received_fds_len) (simp_all add: close_each_def)
  with track_subscriber_conserves [OF inv _ t] fd0 c fd show ?thesis
    by (simp add: conserves_def close_guarded_def control_fds_def)
qed

lemma process_broker_control_messages_conserves:
  assumes "process_broker_control_messages answers p w = Some (r, rest, p', w')" "data_inv p (shm w)"
    "\<forall>a \<in> set answers. well_formed a" "0 \<le> pub_broker_fd p"
  shows "\<exists>used. answers = used @ rest \<and> conserves (mset (concat (map received_fds used))) p w p' w'"
  using assms
proof (induction answers p w rule: process_broker_control_messages.induct)
  case (2 errno answers p w)
  then show ?case
    by (intro exI [of _ "[RecvErr errno]"]) (auto simp: conserves_def received_fds_def split: if_splits)
next
  case (3 msg answers p w)
  from 3(2) obtain res cmsg p1 w1 where
    h: "handle_broker_message msg p w = Some (res, cmsg, p1, w1)"
    and rest: "(if res \<noteq> RunNone then Some (res, answers, p1, close_guarded cmsg w1)
      else process_broker_control_messages answers p1 (close_guarded cmsg w1)) = Some (r, rest, p', w')"
    by (auto simp: bind_eq_Some_conv Let_def)
  have ok: "control_ok (msg_control msg)" using 3(4) by (simp add: well_formed_def)
  have c: "conserves (mset (received_fds (RecvMsg msg))) p w p1 (close_guarded cmsg w1)"
    and b: "res \<noteq> BrokerClosed \<longrightarrow> pub_broker_fd p1 = pub_broker_fd p"
    using handle_broker_message_conserves [OF 3(3) ok 3(5) h] by (auto simp: received_fds_def)
  have k: "keeps p w p1 (close_guarded cmsg w1)"
    by (rule close_guarded_keeps [OF handle_broker_message_keeps [OF 3(3) h]])
  show ?case
  proof (cases "res = RunNone")
    case True
    with rest have p: "process_broker_control_messages answers p1 (close_guarded cmsg w1) = Some (r, rest, p', w')"
      by simp
    from True b 3(5) have b1: "0 \<le> pub_broker_fd p1" by simp
    have "\<not> res \<noteq> RunNone" using True by simp
    from 3(1) [OF h refl refl refl refl this p keepsD [OF k]] 3(4) b1 obtain used where
      u: "answers = used @ rest" "conserves (mset (concat (map received_fds used))) p1 (close_guarded cmsg w1) p' w'"
      by auto
    have "conserves (mset (concat (map received_fds (RecvMsg msg # used)))) p w p' w'"
      using c u(2) by (simp add: conserves_def ac_simps)
    with u(1) show ?thesis by (intro exI [of _ "RecvMsg msg # used"]) simp
  next
    case False
    with rest c show ?thesis by (intro exI [of _ "[RecvMsg msg]"]) auto
  qed
qed simp

end
