(* ===== verification/Publisher_Async.thy ===== *)
theory Publisher_Async
  imports Publisher_Control
begin

text \<open>
  The asynchronous publisher (\<open>src/publisher.cpp\<close>): \<open>publish\<close> without a timeout, the worker's
  event handlers, the event loop and the end of the worker.  A promise is a ticket, a number
  given to the message when it is constructed.  The code between two points where
  \<open>publish_state_mutex_\<close> is released is one function here, so the interleavings of a caller
  with the worker are interleavings of these functions.
\<close>

section \<open>Submitting a message\<close>

text \<open>\<open>overwritten_message\<close> when the queue is full.\<close>

definition make_room :: "publisher \<Rightarrow> (pending_message option \<times> publisher) option" where
  "make_room p =
     (let queued_message_count = length (pending_messages p) + (if in_flight p \<noteq> None then 1 else 0) in
      if kMaxOutstandingMessages \<le> queued_message_count then
        (case in_flight p of
           Some f \<Rightarrow>
             if in_flight_status f = InFlightBlocked then Some (Some (in_flight_msg f), p\<lparr>in_flight := None\<rparr>)
             else (case pending_messages p of
                     [] \<Rightarrow> None
                   | m # ms \<Rightarrow> Some (Some m, p\<lparr>pending_messages := ms\<rparr>))
         | None \<Rightarrow> (case pending_messages p of
                     [] \<Rightarrow> None
                   | m # ms \<Rightarrow> Some (Some m, p\<lparr>pending_messages := ms\<rparr>)))
      else Some (None, p))"

definition publish_async ::
  "(int \<Rightarrow> bool) \<Rightarrow> bytes \<Rightarrow> nat \<Rightarrow> publisher \<Rightarrow> io
     \<Rightarrow> ((publish_error + publish_disposition) \<times> publisher \<times> io) option"
where
  "publish_async sig payload t p w =
     (if pub_flags p AND ASYNCHRONOUS = 0 then Some (Inl ModeMismatch, p, w)
      else if length payload > kMaxPayloadSizeBytes then Some (Inl PayloadTooLarge, p, w)
      else if \<not> run_thread_active p then Some (Inl WorkerExited, p, w)
      else do {
        (overwritten, p) \<leftarrow> make_room p;
        let p = p\<lparr>pending_messages := pending_messages p @ [\<lparr>msg_payload = payload, ticket = t\<rparr>]\<rparr>;
        if \<not> sig (publish_work_event_fd p) then
          let p = p\<lparr>pending_messages := butlast (pending_messages p)\<rparr>;
              p = (case overwritten of None \<Rightarrow> p
                   | Some m \<Rightarrow> p\<lparr>pending_messages := m # pending_messages p\<rparr>)
          in Some (Inl NotificationFailed, p, w)
        else
          let w = w\<lparr>signalled := signalled w @ [publish_work_event_fd p]\<rparr> in
          Some (case overwritten of
              None \<Rightarrow> (Inr Enqueued, p, w)
            | Some m \<Rightarrow> (Inr EnqueuedAfterOverwritingOldest, p,
                w\<lparr>completions := completions w @ [(ticket m, Overwritten)]\<rparr>))
      })"

section \<open>The worker\<close>

text \<open>The first half of a round of the publishing loop; \<^term>\<open>None\<close> when its condition fails.\<close>

definition take_next :: "publisher \<Rightarrow> (bytes \<times> publisher) option" where
  "take_next p =
     (let p = (case in_flight p of
           Some _ \<Rightarrow> p
         | None \<Rightarrow> (case pending_messages p of
               [] \<Rightarrow> p
             | m # ms \<Rightarrow> p\<lparr>in_flight := Some \<lparr>in_flight_msg = m, in_flight_status = Publishing\<rparr>,
                         pending_messages := ms\<rparr>))
      in case in_flight p of
           None \<Rightarrow> None
         | Some f \<Rightarrow> Some (msg_payload (in_flight_msg f),
             p\<lparr>in_flight := Some (f\<lparr>in_flight_status := Publishing\<rparr>)\<rparr>))"

text \<open>The second half, after \<open>try_publish_one\<close> has returned an attempt.\<close>

definition finish_publish :: "publish_attempt \<Rightarrow> publisher \<Rightarrow> io \<Rightarrow> (publisher \<times> io) option" where
  "finish_publish attempt p w = (case in_flight p of
     None \<Rightarrow> None
   | Some f \<Rightarrow>
       if attempt = Blocked
       then Some (p\<lparr>in_flight := Some (f\<lparr>in_flight_status := InFlightBlocked\<rparr>)\<rparr>, w)
       else Some (p\<lparr>in_flight := None\<rparr>,
         w\<lparr>completions := completions w @ [(ticket (in_flight_msg f), CPublished)]\<rparr>))"

text \<open>\<open>budget\<close> is \<open>kMaxPublishesPerWorkEvent - published_count\<close>; the boolean is
  \<open>publisher_ready\<close>.\<close>

fun publish_pending ::
  "(int \<Rightarrow> bool) \<Rightarrow> nat \<Rightarrow> publisher \<Rightarrow> io \<Rightarrow> ((run_error + bool) \<times> publisher \<times> io) option"
where
  "publish_pending sig 0 p w = Some (Inr True, p, w)"
| "publish_pending sig (Suc budget) p w = (case take_next p of
     None \<Rightarrow> Some (Inr True, p, w)
   | Some (payload, p) \<Rightarrow> do {
       (result, p, w) \<leftarrow> try_publish_one sig payload p w;
       case result of
         Inl e \<Rightarrow> Some (Inl e, p, w)
       | Inr attempt \<Rightarrow> do {
           (p, w) \<leftarrow> finish_publish attempt p w;
           if attempt = Blocked then Some (Inr False, p, w)
           else publish_pending sig budget p w
         }
     })"

definition handle_publish_work_event ::
  "(int \<Rightarrow> bool) \<Rightarrow> (int \<Rightarrow> bool) \<Rightarrow> bool \<Rightarrow> publisher \<Rightarrow> io \<Rightarrow> (run_error \<times> bool \<times> publisher \<times> io) option"
where
  "handle_publish_work_event sig drain ready p w =
     (if \<not> drain (publish_work_event_fd p) then Some (PublishWorkEventReadFailed, ready, p, w)
      else if \<not> ready \<and> (case in_flight p of None \<Rightarrow> False | Some f \<Rightarrow> in_flight_status f = InFlightBlocked)
      then Some (RunNone, ready, p, w)
      else do {
        (result, p, w) \<leftarrow> publish_pending sig kMaxPublishesPerWorkEvent p w;
        case result of
          Inl e \<Rightarrow> Some (e, True, p, w)
        | Inr ready \<Rightarrow>
            if \<not> ready \<or> (pending_messages p = [] \<and> in_flight p = None) then Some (RunNone, ready, p, w)
            else if sig (publish_work_event_fd p)
            then Some (RunNone, ready, p, w\<lparr>signalled := signalled w @ [publish_work_event_fd p]\<rparr>)
            else Some (PublishWorkRescheduleFailed, ready, p, w)
      })"

text \<open>The common end of the next two handlers: if the next message can be published, make the
  worker ready and raise the work event.\<close>

definition resume_if_ready ::
  "(int \<Rightarrow> bool) \<Rightarrow> run_error \<Rightarrow> bool \<Rightarrow> publisher \<Rightarrow> io \<Rightarrow> run_error \<times> bool \<times> publisher \<times> io"
where
  "resume_if_ready sig failure ready p w = (case can_publish_next_message p w of
     Inl e \<Rightarrow> (e, ready, p, w)
   | Inr readiness \<Rightarrow>
       if readiness \<noteq> Ready then (RunNone, ready, p, w)
       else if sig (publish_work_event_fd p)
       then (RunNone, True, p, w\<lparr>signalled := signalled w @ [publish_work_event_fd p]\<rparr>)
       else (failure, True, p, w))"

definition handle_space_available_event ::
  "(int \<Rightarrow> bool) \<Rightarrow> (int \<Rightarrow> bool) \<Rightarrow> bool \<Rightarrow> publisher \<Rightarrow> io \<Rightarrow> run_error \<times> bool \<times> publisher \<times> io"
where
  "handle_space_available_event sig drain ready p w =
     (if \<not> drain (space_available_event_fd p) then (SpaceAvailableEventReadFailed, ready, p, w)
      else resume_if_ready sig PublishWorkResumeFailed ready p w)"

definition handle_broker_control_event ::
  "(int \<Rightarrow> bool) \<Rightarrow> received list \<Rightarrow> bool \<Rightarrow> publisher \<Rightarrow> io
     \<Rightarrow> (run_error \<times> received list \<times> bool \<times> publisher \<times> io) option"
where
  "handle_broker_control_event sig answers ready p w = do {
     (control_result, answers, p, w) \<leftarrow> process_broker_control_messages answers p w;
     if control_result \<noteq> RunNone then Some (control_result, answers, ready, p, w)
     else (let (e, ready, p, w) = resume_if_ready sig PublishWorkBrokerResumeFailed ready p w
           in Some (e, answers, ready, p, w))
   }"

text \<open>One event of \<open>run\<close>, the shutdown event excepted.\<close>

definition handle_worker_event ::
  "(int \<Rightarrow> bool) \<Rightarrow> (int \<Rightarrow> bool) \<Rightarrow> int \<Rightarrow> received list \<Rightarrow> bool \<Rightarrow> publisher \<Rightarrow> io
     \<Rightarrow> (run_error \<times> received list \<times> bool \<times> publisher \<times> io) option"
where
  "handle_worker_event sig drain fd answers ready p w =
     (if fd = publish_work_event_fd p then do {
        (reason, ready, p, w) \<leftarrow> handle_publish_work_event sig drain ready p w;
        Some (reason, answers, ready, p, w)
      } else if fd = space_available_event_fd p then
        (let (reason, ready, p, w) = handle_space_available_event sig drain ready p w
         in Some (reason, answers, ready, p, w))
      else if fd = pub_broker_fd p then handle_broker_control_event sig answers ready p w
      else Some (RunNone, answers, ready, p, w))"

text \<open>The inner loop of \<open>run\<close> over the events of one \<open>epoll_wait\<close>; the first boolean says
  whether the worker keeps running.\<close>

fun run_events ::
  "(int \<Rightarrow> bool) \<Rightarrow> (int \<Rightarrow> bool) \<Rightarrow> int list \<Rightarrow> received list \<Rightarrow> bool \<Rightarrow> publisher \<Rightarrow> io
     \<Rightarrow> (bool \<times> run_error \<times> received list \<times> bool \<times> publisher \<times> io) option"
where
  "run_events sig drain [] answers ready p w = Some (True, RunNone, answers, ready, p\<lparr>pub_events := []\<rparr>, w)"
| "run_events sig drain (fd # fds) answers ready p w = do {
     let p = p\<lparr>pub_events := fds\<rparr>;
     if fd = pub_shutdown_event_fd p \<and> fd \<noteq> publish_work_event_fd p
        \<and> fd \<noteq> space_available_event_fd p \<and> fd \<noteq> pub_broker_fd p then
       Some (False, if drain fd then RunNone else ShutdownEventReadFailed, answers, ready, p, w)
     else do {
       (reason, answers, ready, p, w) \<leftarrow> handle_worker_event sig drain fd answers ready p w;
       if reason \<noteq> RunNone then Some (True, reason, answers, ready, p, w)
       else run_events sig drain fds answers ready p w
     }
   }"

text \<open>\<open>run\<close> up to its return; \<^term>\<open>None\<close> while it waits for another answer of
  \<open>epoll_wait\<close>.  Events buffered before the call are handled first.\<close>

fun run_loop ::
  "(int \<Rightarrow> bool) \<Rightarrow> (int \<Rightarrow> bool) \<Rightarrow> int epoll_answer list \<Rightarrow> received list \<Rightarrow> bool \<Rightarrow> publisher \<Rightarrow> io
     \<Rightarrow> (run_error \<times> publisher \<times> io) option"
where
  "run_loop sig drain [] answers ready p w = None"
| "run_loop sig drain (EpollErr errno # waits) answers ready p w = Some (EpollWaitFailed, p, w)"
| "run_loop sig drain (EpollEvents fds # waits) answers ready p w =
     (if fds = [] then Some (UnexpectedEpollTimeout, p, w)
      else do {
        (running, reason, answers, ready, p, w) \<leftarrow> run_events sig drain fds answers ready p w;
        if running \<and> reason = RunNone then run_loop sig drain waits answers ready p w
        else Some (reason, p, w)
      })"

definition run_worker ::
  "(int \<Rightarrow> bool) \<Rightarrow> (int \<Rightarrow> bool) \<Rightarrow> int epoll_answer list \<Rightarrow> received list \<Rightarrow> publisher \<Rightarrow> io
     \<Rightarrow> (run_error \<times> publisher \<times> io) option"
where
  "run_worker sig drain waits answers p w = do {
     (reason, p, w) \<leftarrow> run_loop sig drain
        (if pub_events p = [] then waits else EpollEvents (pub_events p) # waits) answers True p w;
     Some (reason, p\<lparr>run_thread_active := False\<rparr>, w)
   }"

definition complete_outstanding_messages :: "publish_completion \<Rightarrow> publisher \<Rightarrow> io \<Rightarrow> io" where
  "complete_outstanding_messages completion p w =
     w\<lparr>completions := completions w
       @ (case in_flight p of None \<Rightarrow> [] | Some f \<Rightarrow> [(ticket (in_flight_msg f), completion)])
       @ map (\<lambda>m. (ticket m, completion)) (pending_messages p)\<rparr>"

text \<open>The end of the worker's thread function.\<close>

definition worker_exit :: "(int \<Rightarrow> bool) \<Rightarrow> run_error \<Rightarrow> publisher \<Rightarrow> io \<Rightarrow> publisher \<times> io" where
  "worker_exit sig reason p w =
     (let p = p\<lparr>run_thread_active := False\<rparr>;
          w = (if reason \<noteq> RunNone then complete_outstanding_messages WorkerFailed p w
               else if worker_stop_intent p \<noteq> Transfer then complete_outstanding_messages WorkerStopped p w
               else w)
      in (p, if sig (pub_worker_exit_event_fd p)
             then w\<lparr>signalled := signalled w @ [pub_worker_exit_event_fd p]\<rparr> else w))"

text \<open>The worker's thread function.\<close>

definition worker_thread ::
  "(int \<Rightarrow> bool) \<Rightarrow> (int \<Rightarrow> bool) \<Rightarrow> int epoll_answer list \<Rightarrow> received list \<Rightarrow> publisher \<Rightarrow> io
     \<Rightarrow> (run_error \<times> publisher \<times> io) option"
where
  "worker_thread sig drain waits answers p w = do {
     (reason, p, w) \<leftarrow> run_worker sig drain waits answers p w;
     let (p, w) = worker_exit sig reason p w;
     Some (reason, p, w)
   }"

end
