(* ===== verification/Promise_Ledger.thy ===== *)
theory Promise_Ledger
  imports Publisher_Async Transition_System "HOL-Library.Multiset"
begin

text \<open>
  The asynchronous publisher as a concurrent system: callers of \<open>publish\<close> interleaved with the
  worker of \<open>src/publisher.cpp\<close>.  A step is what runs while \<open>publish_state_mutex_\<close> is held, or
  one call of \<open>try_publish_one\<close>, which runs without it.  The ledger kept beside the code's state
  records the accepted messages and the payloads handed to the data plane; the invariant says
  that every promise is outstanding or completed, and never both or twice.
\<close>

section \<open>The system\<close>

datatype worker_phase =
    Idle
  | Taken bytes                 \<comment> \<open>between taking a message and the attempt\<close>
  | Tried publish_attempt       \<comment> \<open>between the attempt and recording its result\<close>
  | Failed run_error
  | Exited bool                 \<comment> \<open>whether the outstanding promises were completed\<close>

record async_state =
  as_pub :: publisher
  as_io :: io
  worker :: worker_phase
  accepted :: "pending_message list"
  sent :: "bytes list"

datatype async_label =
    Submit "int \<Rightarrow> bool" bytes
  | Take
  | Attempt "int \<Rightarrow> bool"
  | Finish
  | Stop "int \<Rightarrow> bool" run_error
  | Other publisher io

definition submit_event :: "(int \<Rightarrow> bool) \<Rightarrow> bytes \<Rightarrow> async_state \<Rightarrow> async_state option" where
  "submit_event sig payload c = do {
     (r, p, w) \<leftarrow> publish_async sig payload (length (accepted c)) (as_pub c) (as_io c);
     Some (c\<lparr>as_pub := p, as_io := w,
       accepted := (case r of Inl _ \<Rightarrow> accepted c
         | Inr _ \<Rightarrow> accepted c @ [\<lparr>msg_payload = payload, ticket = length (accepted c)\<rparr>])\<rparr>)
   }"

definition take_event :: "async_state \<Rightarrow> async_state option" where
  "take_event c = (if worker c \<noteq> Idle then None else do {
     (payload, p) \<leftarrow> take_next (as_pub c);
     Some (c\<lparr>as_pub := p, worker := Taken payload\<rparr>)
   })"

definition attempt_event :: "(int \<Rightarrow> bool) \<Rightarrow> async_state \<Rightarrow> async_state option" where
  "attempt_event sig c = (case worker c of
     Taken payload \<Rightarrow> do {
       (r, p, w) \<leftarrow> try_publish_one sig payload (as_pub c) (as_io c);
       Some (c\<lparr>as_pub := p, as_io := w,
         worker := (case r of Inl e \<Rightarrow> Failed e | Inr a \<Rightarrow> Tried a),
         sent := (if r = Inr Succeeded then sent c @ [payload] else sent c)\<rparr>)
     }
   | _ \<Rightarrow> None)"

definition finish_event :: "async_state \<Rightarrow> async_state option" where
  "finish_event c = (case worker c of
     Tried attempt \<Rightarrow> do {
       (p, w) \<leftarrow> finish_publish attempt (as_pub c) (as_io c);
       Some (c\<lparr>as_pub := p, as_io := w, worker := Idle\<rparr>)
     }
   | _ \<Rightarrow> None)"

text \<open>The worker ends between two rounds, or with the error of an attempt.\<close>

definition stop_event :: "(int \<Rightarrow> bool) \<Rightarrow> run_error \<Rightarrow> async_state \<Rightarrow> async_state option" where
  "stop_event sig reason c = (if worker c = Idle \<or> worker c = Failed reason then
     let (p, w) = worker_exit sig reason (as_pub c) (as_io c) in
     Some (c\<lparr>as_pub := p, as_io := w,
       worker := Exited (reason \<noteq> RunNone \<or> worker_stop_intent (as_pub c) \<noteq> Transfer)\<rparr>)
   else None)"

text \<open>Everything else, in particular control messages and subscribers, does not touch the queue.\<close>

definition other_event :: "publisher \<Rightarrow> io \<Rightarrow> async_state \<Rightarrow> async_state option" where
  "other_event p w c =
     (if pending_messages p = pending_messages (as_pub c) \<and> in_flight p = in_flight (as_pub c)
         \<and> run_thread_active p = run_thread_active (as_pub c) \<and> completions w = completions (as_io c)
      then Some (c\<lparr>as_pub := p, as_io := w\<rparr>) else None)"

definition async_event :: "async_label \<Rightarrow> async_state \<Rightarrow> async_state option" where
  "async_event l c = (case l of
     Submit sig payload \<Rightarrow> submit_event sig payload c
   | Take \<Rightarrow> take_event c
   | Attempt sig \<Rightarrow> attempt_event sig c
   | Finish \<Rightarrow> finish_event c
   | Stop sig reason \<Rightarrow> stop_event sig reason c
   | Other p w \<Rightarrow> other_event p w c)"

definition async_step :: "async_state \<Rightarrow> async_label \<Rightarrow> async_state \<Rightarrow> bool" where
  "async_step c l c' \<longleftrightarrow> async_event l c = Some c'"

definition async_initial :: "async_state \<Rightarrow> bool" where
  "async_initial c \<longleftrightarrow> pending_messages (as_pub c) = [] \<and> in_flight (as_pub c) = None
     \<and> completions (as_io c) = [] \<and> worker c = Idle \<and> accepted c = [] \<and> sent c = []"

section \<open>What the operations do to the queue\<close>

definition in_flight_list :: "publisher \<Rightarrow> pending_message list" where
  "in_flight_list p = (case in_flight p of None \<Rightarrow> [] | Some f \<Rightarrow> [in_flight_msg f])"

definition outstanding :: "publisher \<Rightarrow> pending_message list" where
  "outstanding p = in_flight_list p @ pending_messages p"

definition queue_frame :: "publisher \<Rightarrow> io \<Rightarrow> publisher \<Rightarrow> io \<Rightarrow> bool" where
  "queue_frame p w p' w' \<longleftrightarrow> pending_messages p' = pending_messages p \<and> in_flight p' = in_flight p
     \<and> run_thread_active p' = run_thread_active p \<and> worker_stop_intent p' = worker_stop_intent p
     \<and> publish_work_event_fd p' = publish_work_event_fd p \<and> completions w' = completions w"

lemma signal_each_completions [simp]: "completions (snd (signal_each sig fds w)) = completions w"
  by (induction fds arbitrary: w) auto

lemma publish_into_chunk_frame:
  assumes code: "publish_into_chunk sig cls n payload p w = Some (r, p', w')"
  shows "queue_frame p w p' w'"
proof (cases "chunk_reference_mask (slot_by_event_fd p) (data_available_event_fds p) 0")
  case None
  with code show ?thesis
    by (auto simp: publish_into_chunk_def queue_frame_def bind_eq_Some_conv Let_def split: if_split_asm)
next
  case (Some m)
  with code show ?thesis
    by (cases m) (auto simp: publish_into_chunk_def queue_frame_def bind_eq_Some_conv Let_def
      case_prod_beta split: if_split_asm)
qed

lemma try_publish_one_frame:
  "try_publish_one sig payload p w = Some (r, p', w') \<Longrightarrow> queue_frame p w p' w'"
  by (auto simp: try_publish_one_def Let_def split: if_splits intro: publish_into_chunk_frame)
     (auto simp: queue_frame_def)

text \<open>The result of a submission: the queue loses at most the oldest message that is not being
  published, and its promise is completed with \<open>Overwritten\<close>.\<close>

definition removed_oldest :: "publisher \<Rightarrow> pending_message \<Rightarrow> pending_message list \<Rightarrow> bool" where
  "removed_oldest p m rest \<longleftrightarrow> kMaxOutstandingMessages \<le> length (outstanding p)
     \<and> (outstanding p = m # rest \<and> (\<forall>f. in_flight p = Some f \<longrightarrow> in_flight_status f = InFlightBlocked)
        \<or> (\<exists>f ms. in_flight p = Some f \<and> in_flight_status f \<noteq> InFlightBlocked
             \<and> pending_messages p = m # ms \<and> rest = in_flight_msg f # ms))"

lemma length_outstanding:
  "length (outstanding p) = length (pending_messages p) + (if in_flight p \<noteq> None then 1 else 0)"
  by (auto simp: outstanding_def in_flight_list_def split: option.split)

lemma make_room_correct:
  assumes "make_room p = Some (overwritten, p')"
  shows "(case overwritten of
      None \<Rightarrow> p' = p \<and> length (outstanding p) < kMaxOutstandingMessages
    | Some m \<Rightarrow> removed_oldest p m (outstanding p'))
    \<and> queue_frame (p\<lparr>pending_messages := [], in_flight := None\<rparr>) w (p'\<lparr>pending_messages := [], in_flight := None\<rparr>) w
    \<and> (\<forall>f. in_flight p = Some f \<and> in_flight_status f \<noteq> InFlightBlocked \<longrightarrow> in_flight p' = Some f)
    \<and> (in_flight p' = None \<or> in_flight p' = in_flight p)
    \<and> (\<forall>m. overwritten = Some m \<longrightarrow> in_flight_list p' @ m # pending_messages p' = outstanding p
          \<or> (in_flight p' = None \<and> m # pending_messages p' = outstanding p))"
  using assms unfolding make_room_def Let_def length_outstanding [symmetric]
  by (auto simp: removed_oldest_def queue_frame_def outstanding_def in_flight_list_def
      split: if_split_asm option.split_asm list.split_asm)

lemma publish_async_correct:
  assumes code: "publish_async sig payload t p w = Some (r, p', w')"
  shows "(case r of
      Inl e \<Rightarrow> outstanding p' = outstanding p \<and> w' = w
    | Inr Enqueued \<Rightarrow> outstanding p' = outstanding p @ [\<lparr>msg_payload = payload, ticket = t\<rparr>]
        \<and> length (outstanding p) < kMaxOutstandingMessages \<and> completions w' = completions w
    | Inr EnqueuedAfterOverwritingOldest \<Rightarrow> (\<exists>m rest. removed_oldest p m rest
        \<and> outstanding p' = rest @ [\<lparr>msg_payload = payload, ticket = t\<rparr>]
        \<and> completions w' = completions w @ [(ticket m, Overwritten)])
    | Inr DPublished \<Rightarrow> False)
    \<and> (\<forall>d. r = Inr d \<longrightarrow> run_thread_active p \<and> length payload \<le> kMaxPayloadSizeBytes)
    \<and> run_thread_active p' = run_thread_active p \<and> worker_stop_intent p' = worker_stop_intent p
    \<and> (\<forall>f. in_flight p = Some f \<and> in_flight_status f \<noteq> InFlightBlocked \<longrightarrow> in_flight p' = Some f)
    \<and> (in_flight p' = None \<or> in_flight p' = in_flight p)"
proof (cases "pub_flags p AND ASYNCHRONOUS = 0 \<or> length payload > kMaxPayloadSizeBytes \<or> \<not> run_thread_active p")
  case True
  with code show ?thesis by (auto simp: publish_async_def split: if_split_asm)
next
  case False
  with code obtain overwritten p1 where room: "make_room p = Some (overwritten, p1)"
    by (auto simp: publish_async_def bind_eq_Some_conv)
  note r = make_room_correct [OF room, of w]
  have app: "outstanding (p1\<lparr>pending_messages := pending_messages p1 @ [x]\<rparr>) = outstanding p1 @ [x]" for x
    by (simp add: outstanding_def in_flight_list_def)
  have undo: "outstanding (p1\<lparr>pending_messages := butlast (pending_messages p1 @ [x])\<rparr>) = outstanding p1" for x
    by (simp add: outstanding_def in_flight_list_def)
  have restored: "outstanding (p1\<lparr>pending_messages := m # pending_messages p1\<rparr>) = outstanding p"
    if "overwritten = Some m" for m
    using r that by (auto simp: outstanding_def in_flight_list_def)
  show ?thesis
    using code False room r restored app
    by (cases overwritten; cases "sig (publish_work_event_fd p1)")
       (auto simp: publish_async_def Let_def queue_frame_def)
qed

lemma take_next_correct:
  assumes "take_next p = Some (payload, p')"
  shows "outstanding p' = outstanding p
    \<and> (\<exists>f. in_flight p' = Some f \<and> in_flight_status f = Publishing \<and> msg_payload (in_flight_msg f) = payload)
    \<and> run_thread_active p' = run_thread_active p \<and> worker_stop_intent p' = worker_stop_intent p"
  using assms
  by (auto simp: take_next_def Let_def outstanding_def in_flight_list_def
      split: option.split_asm list.split_asm)

lemma finish_publish_correct:
  assumes "finish_publish attempt p w = Some (p', w')"
  shows "\<exists>f. in_flight p = Some f \<and> run_thread_active p' = run_thread_active p
    \<and> (if attempt = Blocked
        then outstanding p' = outstanding p \<and> w' = w \<and> (\<forall>f. in_flight p' = Some f \<longrightarrow> in_flight_status f = InFlightBlocked)
        else outstanding p = in_flight_msg f # outstanding p' \<and> in_flight p' = None
          \<and> completions w' = completions w @ [(ticket (in_flight_msg f), CPublished)])"
  using assms
  by (auto simp: finish_publish_def outstanding_def in_flight_list_def split: option.split_asm if_split_asm)

lemma worker_exit_correct:
  assumes "worker_exit sig reason p w = (p', w')"
  shows "p' = p\<lparr>run_thread_active := False\<rparr>
    \<and> (\<exists>ends. completions w' = completions w @ ends
        \<and> map fst ends = (if reason \<noteq> RunNone \<or> worker_stop_intent p \<noteq> Transfer then map ticket (outstanding p) else [])
        \<and> (\<forall>(t, result) \<in> set ends. result = (if reason \<noteq> RunNone then WorkerFailed else WorkerStopped)))"
  using assms
  by (auto simp: worker_exit_def Let_def complete_outstanding_messages_def outstanding_def in_flight_list_def
      o_def split: option.splits if_split_asm)

section \<open>The invariant\<close>

definition published_tickets :: "io \<Rightarrow> nat list" where
  "published_tickets w = map fst (filter (\<lambda>(t, result). result = CPublished) (completions w))"

definition tickets :: "pending_message list \<Rightarrow> nat list" where
  "tickets ms = map ticket ms"

text \<open>The payload just sent whose promise is not completed yet.\<close>

definition just_sent :: "async_state \<Rightarrow> bytes list" where
  "just_sent c = (if worker c = Tried Succeeded then map msg_payload (in_flight_list (as_pub c)) else [])"

definition settled_once :: "async_state \<Rightarrow> bool" where
  "settled_once c \<longleftrightarrow> mset (map fst (completions (as_io c)))
      + (if worker c = Exited True then {#} else mset (tickets (outstanding (as_pub c))))
    = mset [0..<length (accepted c)]"

definition in_order :: "async_state \<Rightarrow> bool" where
  "in_order c \<longleftrightarrow> sorted_wrt (<) (published_tickets (as_io c) @ tickets (outstanding (as_pub c)))
     \<and> (\<forall>t \<in> set (published_tickets (as_io c)). t < length (accepted c))
     \<and> sent c = map (\<lambda>t. msg_payload (accepted c ! t)) (published_tickets (as_io c)) @ just_sent c"

definition queue_ok :: "async_state \<Rightarrow> bool" where
  "queue_ok c \<longleftrightarrow> length (outstanding (as_pub c)) \<le> kMaxOutstandingMessages
     \<and> (\<forall>m \<in> set (outstanding (as_pub c)). ticket m < length (accepted c) \<and> accepted c ! ticket m = m)
     \<and> (\<forall>m \<in> set (accepted c). length (msg_payload m) \<le> kMaxPayloadSizeBytes)"

definition phase_ok :: "async_state \<Rightarrow> bool" where
  "phase_ok c \<longleftrightarrow> (case worker c of
     Taken payload \<Rightarrow> \<exists>f. in_flight (as_pub c) = Some f \<and> in_flight_status f = Publishing
        \<and> msg_payload (in_flight_msg f) = payload
   | Tried a \<Rightarrow> \<exists>f. in_flight (as_pub c) = Some f \<and> in_flight_status f = Publishing
   | Exited completed \<Rightarrow> \<not> run_thread_active (as_pub c)
   | _ \<Rightarrow> True)"

definition async_inv :: "async_state \<Rightarrow> bool" where
  "async_inv c \<longleftrightarrow> settled_once c \<and> in_order c \<and> queue_ok c \<and> phase_ok c"

lemma async_initial_inv: "async_initial c \<Longrightarrow> async_inv c"
  by (simp add: async_initial_def async_inv_def settled_once_def in_order_def queue_ok_def phase_ok_def
      outstanding_def in_flight_list_def published_tickets_def just_sent_def tickets_def)

text \<open>A step that leaves queue, completions and ledger alone only has to justify the phase.\<close>

lemma async_inv_frame:
  assumes "async_inv c" "outstanding (as_pub c') = outstanding (as_pub c)"
    "completions (as_io c') = completions (as_io c)" "accepted c' = accepted c"
    "worker c \<noteq> Exited True" "worker c' \<noteq> Exited True" "phase_ok c'"
    "\<exists>new. sent c' = sent c @ new \<and> just_sent c' = just_sent c @ new"
  shows "async_inv c'"
  using assms
  by (auto simp: async_inv_def settled_once_def in_order_def queue_ok_def published_tickets_def)

lemma take_event_inv:
  assumes "async_inv c" "take_event c = Some c'"
  shows "async_inv c'"
proof -
  from assms(2) obtain payload p where w: "worker c = Idle"
    and t: "take_next (as_pub c) = Some (payload, p)"
    and c': "c' = c\<lparr>as_pub := p, worker := Taken payload\<rparr>"
    by (auto simp: take_event_def bind_eq_Some_conv split: if_split_asm)
  note r = take_next_correct [OF t]
  have "phase_ok c'" using r c' by (simp add: phase_ok_def)
  with r c' w assms(1) show ?thesis
    by (intro async_inv_frame [OF assms(1)]) (auto simp: just_sent_def)
qed

lemma attempt_event_inv:
  assumes inv: "async_inv c" and "attempt_event sig c = Some c'"
  shows "async_inv c'"
proof -
  from assms(2) obtain payload r p w where ph: "worker c = Taken payload"
    and t: "try_publish_one sig payload (as_pub c) (as_io c) = Some (r, p, w)"
    and c': "c' = c\<lparr>as_pub := p, as_io := w, worker := (case r of Inl e \<Rightarrow> Failed e | Inr a \<Rightarrow> Tried a),
      sent := (if r = Inr Succeeded then sent c @ [payload] else sent c)\<rparr>"
    by (auto simp: attempt_event_def bind_eq_Some_conv split: worker_phase.split_asm)
  from inv ph obtain f where f: "in_flight (as_pub c) = Some f" "in_flight_status f = Publishing"
    "msg_payload (in_flight_msg f) = payload"
    by (auto simp: async_inv_def phase_ok_def)
  from try_publish_one_frame [OF t] have q: "queue_frame (as_pub c) (as_io c) p w" .
  show ?thesis
  proof (rule async_inv_frame [OF inv])
    show "outstanding (as_pub c') = outstanding (as_pub c)"
      using q c' by (simp add: queue_frame_def outstanding_def in_flight_list_def)
    show "phase_ok c'"
      using q c' f by (auto simp: phase_ok_def queue_frame_def split: sum.split)
    show "\<exists>new. sent c' = sent c @ new \<and> just_sent c' = just_sent c @ new"
      using q c' f ph by (auto simp: just_sent_def queue_frame_def in_flight_list_def split: sum.splits)
  qed (use q c' ph in \<open>auto simp: queue_frame_def split: sum.split\<close>)
qed

lemma finish_event_inv:
  assumes inv: "async_inv c" and "finish_event c = Some c'"
  shows "async_inv c'"
proof -
  from assms(2) obtain a p w where ph: "worker c = Tried a"
    and t: "finish_publish a (as_pub c) (as_io c) = Some (p, w)"
    and c': "c' = c\<lparr>as_pub := p, as_io := w, worker := Idle\<rparr>"
    by (auto simp: finish_event_def bind_eq_Some_conv split: worker_phase.split_asm)
  from finish_publish_correct [OF t] obtain f where f: "in_flight (as_pub c) = Some f" and
    r: "if a = Blocked then outstanding p = outstanding (as_pub c) \<and> w = as_io c
        else outstanding (as_pub c) = in_flight_msg f # outstanding p \<and> in_flight p = None
          \<and> completions w = completions (as_io c) @ [(ticket (in_flight_msg f), CPublished)]"
    by (auto split: if_split_asm)
  show ?thesis
  proof (cases a)
    case Blocked
    with r c' ph inv show ?thesis
      by (intro async_inv_frame [OF inv]) (auto simp: phase_ok_def just_sent_def)
  next
    case Succeeded
    with r have o: "outstanding (as_pub c) = in_flight_msg f # outstanding p"
      "completions w = completions (as_io c) @ [(ticket (in_flight_msg f), CPublished)]" by auto
    have js: "just_sent c = [msg_payload (in_flight_msg f)]"
      using ph Succeeded f by (simp add: just_sent_def in_flight_list_def)
    show ?thesis
      using inv ph o js Succeeded unfolding c'
      by (auto simp: async_inv_def settled_once_def in_order_def queue_ok_def phase_ok_def
        published_tickets_def tickets_def just_sent_def sorted_wrt_append)
  qed
qed

text \<open>Removing the oldest removable message and appending a newer one keeps the order.\<close>

lemma removed_oldest_list:
  assumes "removed_oldest p m rest"
  shows "\<exists>xs ys. outstanding p = xs @ m # ys \<and> rest = xs @ ys"
  using assms unfolding removed_oldest_def outstanding_def in_flight_list_def
  by (auto intro: exI [of _ "[]"] exI [of _ "[in_flight_msg f]" for f])

lemma async_inv_extend:
  assumes inv: "async_inv c" and x: "x = \<lparr>msg_payload = payload, ticket = length (accepted c)\<rparr>"
    and len: "length payload \<le> kMaxPayloadSizeBytes"
    and o: "outstanding (as_pub c) = xs @ ys @ zs" "length (xs @ zs) < kMaxOutstandingMessages"
    and o': "outstanding (as_pub c') = xs @ zs @ [x]"
    and w: "completions (as_io c') = completions (as_io c) @ map (\<lambda>m. (ticket m, Overwritten)) ys"
    and same: "worker c' = worker c" "sent c' = sent c" "just_sent c' = just_sent c" "worker c \<noteq> Exited True"
    and acc: "accepted c' = accepted c @ [x]" and ph: "phase_ok c'"
  shows "async_inv c'"
proof -
  let ?n = "length (accepted c)"
  from inv have s: "settled_once c" "in_order c" "queue_ok c" by (simp_all add: async_inv_def)
  have pub: "published_tickets (as_io c') = published_tickets (as_io c)"
    unfolding published_tickets_def w by (simp add: filter_map o_def)
  have "settled_once c'"
    using s(1) o(1) o' w same acc x unfolding settled_once_def tickets_def
    by (simp add: o_def ac_simps)
  moreover have "in_order c'"
    using s(2,3) o(1) o' same acc x unfolding in_order_def pub queue_ok_def tickets_def
    by (auto simp: sorted_wrt_append nth_append)
  moreover have "queue_ok c'"
    using s(3) o o' acc x len unfolding queue_ok_def by (auto simp: nth_append)
  ultimately show ?thesis using ph by (simp add: async_inv_def)
qed

lemma submit_event_inv:
  assumes inv: "async_inv c" and "submit_event sig payload c = Some c'"
  shows "async_inv c'"
proof -
  let ?x = "\<lparr>msg_payload = payload, ticket = length (accepted c)\<rparr>"
  from assms(2) obtain r p w where t: "publish_async sig payload (length (accepted c)) (as_pub c) (as_io c) = Some (r, p, w)"
    and c': "c' = c\<lparr>as_pub := p, as_io := w,
       accepted := (case r of Inl _ \<Rightarrow> accepted c | Inr _ \<Rightarrow> accepted c @ [?x])\<rparr>"
    by (auto simp: submit_event_def bind_eq_Some_conv)
  note r = publish_async_correct [OF t]
  have ph: "phase_ok c'"
    using inv r c' by (auto simp: async_inv_def phase_ok_def split: worker_phase.split)
  have js: "just_sent c' = just_sent c"
    using inv r c' by (auto simp: async_inv_def phase_ok_def just_sent_def in_flight_list_def)
  have notdone: "worker c \<noteq> Exited True" if "r = Inr d" for d
    using inv r that by (auto simp: async_inv_def phase_ok_def)
  show ?thesis
  proof (cases r)
    case (Inl e)
    with r c' js ph inv show ?thesis
      by (auto simp: async_inv_def settled_once_def in_order_def queue_ok_def published_tickets_def
        split: if_split_asm)
  next
    case (Inr d)
    from r Inr have len: "length payload \<le> kMaxPayloadSizeBytes" by blast
    have q: "length (outstanding (as_pub c)) \<le> kMaxOutstandingMessages"
      using inv by (simp add: async_inv_def queue_ok_def)
    consider "d = Enqueued" | "d = EnqueuedAfterOverwritingOldest"
      using r Inr by (cases d) auto
    then show ?thesis
    proof cases
      case 1
      show ?thesis
        by (rule async_inv_extend [OF inv refl len, where xs = "outstanding (as_pub c)" and ys = "[]" and zs = "[]"])
           (use r c' Inr 1 ph js notdone in auto)
    next
      case 2
      with r Inr obtain m rest where rm: "removed_oldest (as_pub c) m rest"
        and o: "outstanding p = rest @ [?x]" "completions w = completions (as_io c) @ [(ticket m, Overwritten)]"
        by auto
      from removed_oldest_list [OF rm] obtain xs ys where l: "outstanding (as_pub c) = xs @ m # ys" "rest = xs @ ys"
        by blast
      show ?thesis
        by (rule async_inv_extend [OF inv refl len, where xs = xs and ys = "[m]" and zs = ys])
           (use q l o r c' Inr 2 ph js notdone in auto)
    qed
  qed
qed

lemma stop_event_inv:
  assumes inv: "async_inv c" and "stop_event sig reason c = Some c'"
  shows "async_inv c'"
proof -
  let ?b = "reason \<noteq> RunNone \<or> worker_stop_intent (as_pub c) \<noteq> Transfer"
  from assms(2) obtain p w where idle: "worker c = Idle \<or> worker c = Failed reason"
    and t: "worker_exit sig reason (as_pub c) (as_io c) = (p, w)"
    and c': "c' = c\<lparr>as_pub := p, as_io := w, worker := Exited ?b\<rparr>"
    by (auto simp: stop_event_def split: if_split_asm prod.split_asm)
  from worker_exit_correct [OF t] obtain ends where p: "p = (as_pub c)\<lparr>run_thread_active := False\<rparr>"
    and e: "completions w = completions (as_io c) @ ends"
      "map fst ends = (if ?b then map ticket (outstanding (as_pub c)) else [])"
      "\<forall>(t, result) \<in> set ends. result = (if reason \<noteq> RunNone then WorkerFailed else WorkerStopped)"
    by blast
  have "filter (\<lambda>(t, result). result = CPublished) ends = []"
    using e(3) by (auto simp: filter_empty_conv split: if_split_asm)
  then have pub: "published_tickets w = published_tickets (as_io c)"
    by (simp add: published_tickets_def e(1))
  have out: "outstanding p = outstanding (as_pub c)" by (simp add: p outstanding_def in_flight_list_def)
  have "settled_once c'"
    using inv idle e unfolding c' by (auto simp: async_inv_def settled_once_def tickets_def out)
  moreover have "in_order c'"
    using inv idle unfolding c' by (auto simp: async_inv_def in_order_def out pub just_sent_def)
  moreover have "queue_ok c'" "phase_ok c'"
    using inv unfolding c' by (simp_all add: async_inv_def queue_ok_def phase_ok_def out) (simp add: p)
  ultimately show ?thesis by (simp add: async_inv_def)
qed

lemma other_event_inv:
  assumes inv: "async_inv c" and "other_event p w c = Some c'"
  shows "async_inv c'"
proof -
  from assms(2) have same: "pending_messages p = pending_messages (as_pub c)" "in_flight p = in_flight (as_pub c)"
      "run_thread_active p = run_thread_active (as_pub c)" "completions w = completions (as_io c)"
    and c': "c' = c\<lparr>as_pub := p, as_io := w\<rparr>"
    by (auto simp: other_event_def split: if_split_asm)
  have il: "in_flight_list p = in_flight_list (as_pub c)" by (simp add: in_flight_list_def same)
  show ?thesis
    using inv unfolding c'
    by (auto simp: async_inv_def settled_once_def in_order_def queue_ok_def phase_ok_def
      published_tickets_def just_sent_def outstanding_def il same cong: worker_phase.case_cong
      split: if_split_asm)
qed

lemma async_step_inv: "async_inv c \<Longrightarrow> async_step c l c' \<Longrightarrow> async_inv c'"
  unfolding async_step_def async_event_def
  by (cases l) (auto intro: submit_event_inv take_event_inv attempt_event_inv finish_event_inv
    stop_event_inv other_event_inv)

interpretation ledger: transition_system async_initial async_step async_inv
  by unfold_locales (auto intro: async_initial_inv async_step_inv)

end
