(* ===== verification/Worker_Runs.thy ===== *)
theory Worker_Runs
  imports Promise_Ledger
begin

text \<open>
  The worker's loop is made of the ledger's steps: whatever \<open>run\<close> and the end of the worker's
  thread do to the publisher, a sequence of steps of the ledger does too, so the ledger's
  invariant holds for them.
\<close>

section \<open>What leaves the queue alone\<close>

lemma queue_frame_refl [simp]: "queue_frame p w p w"
  by (simp add: queue_frame_def)

lemma queue_frame_trans: "queue_frame p w p' w' \<Longrightarrow> queue_frame p' w' p'' w'' \<Longrightarrow> queue_frame p w p'' w''"
  by (simp add: queue_frame_def)

lemma track_subscriber_frame: "track_subscriber reg p w = Some (e, p', w') \<Longrightarrow> queue_frame p w p' w'"
  by (auto simp: track_subscriber_def Let_def bind_eq_Some_conv close_fd_def queue_frame_def split: if_split_asm)

lemma reap_dead_subscribers_frame:
  "reap_dead_subscribers slot p w = Some (e, p', w') \<Longrightarrow> queue_frame p w p' w'"
  by (auto simp: reap_dead_subscribers_def untrack_subscriber_def Let_def bind_eq_Some_conv queue_frame_def
      split: if_split_asm)

lemma handle_broker_message_frame:
  assumes "handle_broker_message msg p w = Some (r, cmsg, p', w')"
  shows "queue_frame p w p' w'"
proof (cases "msg_bytes msg")
  case Nil
  with assms show ?thesis by (auto simp: handle_broker_message_def queue_frame_def)
next
  case (Cons b bs)
  have reg: "queue_frame p w p' w'"
    if "handle_subscriber_registered_message packet n c p w = Some (r, cmsg, p', w')" for packet n c
  proof (cases c)
    case None
    with that show ?thesis by (auto simp: handle_subscriber_registered_message_def split: if_split_asm)
  next
    case (Some h)
    with that show ?thesis
      by (cases "cmsg_fds h") (auto simp: handle_subscriber_registered_message_def bind_eq_Some_conv
        dest: track_subscriber_frame split: if_split_asm)
  qed
  have dis: "queue_frame p w p' w'"
    if "handle_subscriber_disconnected_message packet n p w = Some (r, p', w')" for packet n
    using that by (auto simp: handle_subscriber_disconnected_message_def bind_eq_Some_conv
      dest: reap_dead_subscribers_frame split: if_split_asm)
  from assms Cons show ?thesis
    by (auto simp: handle_broker_message_def Let_def bind_eq_Some_conv
      split: if_split_asm option.split_asm broker_message_type.split_asm intro: reg dis)
qed

lemma process_broker_control_messages_frame:
  "process_broker_control_messages answers p w = Some (r, rest, p', w') \<Longrightarrow> queue_frame p w p' w'"
proof (induction answers p w rule: process_broker_control_messages.induct)
  case (3 msg answers p w)
  from "3.prems" obtain e cmsg p1 w1 where h: "handle_broker_message msg p w = Some (e, cmsg, p1, w1)"
    by (auto simp: bind_eq_Some_conv)
  have q: "queue_frame p w p1 (close_guarded cmsg w1)"
    using handle_broker_message_frame [OF h] by (simp add: queue_frame_def close_guarded_def)
  show ?case
  proof (cases "e = RunNone")
    case True
    with "3.prems" h have "process_broker_control_messages answers p1 (close_guarded cmsg w1) = Some (r, rest, p', w')"
      by simp
    from queue_frame_trans [OF q "3.IH" [OF h refl refl refl refl _ this]] True show ?thesis by simp
  qed (use "3.prems" h q in simp)
qed (auto split: if_split_asm)

lemma resume_if_ready_frame:
  "resume_if_ready sig e ready p w = (r, ready', p', w') \<Longrightarrow> queue_frame p w p' w'"
  by (auto simp: resume_if_ready_def queue_frame_def split: sum.split_asm if_split_asm)

lemma handle_broker_control_event_frame:
  assumes "handle_broker_control_event sig answers ready p w = Some (r, rest, ready', p', w')"
  shows "queue_frame p w p' w'"
  using assms
  by (auto simp: handle_broker_control_event_def bind_eq_Some_conv split: if_split_asm prod.split_asm
      dest: process_broker_control_messages_frame
      intro: queue_frame_trans [OF process_broker_control_messages_frame resume_if_ready_frame])

lemma handle_space_available_event_frame:
  "handle_space_available_event sig drain ready p w = (r, ready', p', w') \<Longrightarrow> queue_frame p w p' w'"
  by (auto simp: handle_space_available_event_def split: if_split_asm intro: resume_if_ready_frame)

section \<open>The loop as a run\<close>

lemma chunk_reference_mask_error: "chunk_reference_mask slots fds refs = Some (Inl e) \<Longrightarrow> e = PublishAttemptFailed"
  by (induction slots fds refs rule: chunk_reference_mask.induct) (auto split: option.split_asm if_split_asm)

lemma try_publish_one_error:
  assumes "try_publish_one sig payload p w = Some (Inl e, p', w')"
  shows "e \<noteq> RunNone"
proof -
  have "e \<noteq> RunNone" if code: "publish_into_chunk sig cls n payload p w = Some (Inl e, p', w')" for cls n
  proof (cases "chunk_reference_mask (slot_by_event_fd p) (data_available_event_fds p) 0")
    case None
    with code show ?thesis
      by (auto simp: publish_into_chunk_def bind_eq_Some_conv Let_def split: if_split_asm)
  next
    case (Some m)
    with code chunk_reference_mask_error [of "slot_by_event_fd p" "data_available_event_fds p" 0] show ?thesis
      by (cases m) (auto simp: publish_into_chunk_def bind_eq_Some_conv Let_def case_prod_beta split: if_split_asm)
  qed
  with assms show ?thesis by (auto simp: try_publish_one_def Let_def split: if_split_asm)
qed

text \<open>From ledger state \<open>c\<close> the worker can be brought to \<open>p\<close>, \<open>w\<close> and the given phase.\<close>

definition leads_to :: "async_state \<Rightarrow> publisher \<Rightarrow> io \<Rightarrow> worker_phase \<Rightarrow> bool" where
  "leads_to c p w ph \<longleftrightarrow> (\<exists>ls c'. run async_step c ls c' \<and> as_pub c' = p \<and> as_io c' = w
     \<and> accepted c' = accepted c \<and> worker c' = ph)"

lemma leads_to_refl: "worker c = ph \<Longrightarrow> leads_to c (as_pub c) (as_io c) ph"
  unfolding leads_to_def by (intro exI [of _ "[]"] exI [of _ c]) (simp add: run_nil)

lemma leads_to_step:
  assumes "leads_to c p w ph"
    and "\<And>c'. as_pub c' = p \<Longrightarrow> as_io c' = w \<Longrightarrow> accepted c' = accepted c \<Longrightarrow> worker c' = ph \<Longrightarrow>
      \<exists>ls c''. run async_step c' ls c'' \<and> as_pub c'' = p' \<and> as_io c'' = w' \<and> accepted c'' = accepted c'
        \<and> worker c'' = ph'"
  shows "leads_to c p' w' ph'"
proof -
  from assms(1) obtain ls c' where c': "run async_step c ls c'" "as_pub c' = p" "as_io c' = w"
    "accepted c' = accepted c" "worker c' = ph" by (auto simp: leads_to_def)
  from assms(2) [OF c'(2-5)] obtain ls' c'' where c'': "run async_step c' ls' c''" "as_pub c'' = p'"
    "as_io c'' = w'" "accepted c'' = accepted c'" "worker c'' = ph'" by blast
  from run_append [OF c''(1) c'(1)] c' c'' show ?thesis unfolding leads_to_def by auto
qed

lemma leads_to_frame:
  assumes "leads_to c p w ph" "queue_frame p w p' w'"
  shows "leads_to c p' w' ph"
proof (rule leads_to_step [OF assms(1)])
  fix c' :: async_state assume c': "as_pub c' = p" "as_io c' = w" "worker c' = ph"
  let ?c = "c'\<lparr>as_pub := p', as_io := w'\<rparr>"
  have "async_step c' (Other p' w') ?c"
    using assms(2) c' by (simp add: async_step_def async_event_def other_event_def queue_frame_def)
  from run_single [of async_step, OF this] c'(3) show "\<exists>ls c''. run async_step c' ls c'' \<and> as_pub c'' = p' \<and> as_io c'' = w'
      \<and> accepted c'' = accepted c' \<and> worker c'' = ph"
    by (intro exI [of _ "[Other p' w']"] exI [of _ ?c]) simp
qed

lemma leads_to_take:
  assumes "leads_to c p w Idle" "take_next p = Some (payload, p')"
  shows "leads_to c p' w (Taken payload)"
proof (rule leads_to_step [OF assms(1)])
  fix c' :: async_state assume c': "as_pub c' = p" "as_io c' = w" "worker c' = Idle"
  let ?c = "c'\<lparr>as_pub := p', worker := Taken payload\<rparr>"
  have "async_step c' Take ?c"
    using assms(2) c' by (simp add: async_step_def async_event_def take_event_def)
  from run_single [of async_step, OF this] c'(2) show "\<exists>ls c''. run async_step c' ls c'' \<and> as_pub c'' = p' \<and> as_io c'' = w
      \<and> accepted c'' = accepted c' \<and> worker c'' = Taken payload"
    by (intro exI [of _ "[Take]"] exI [of _ ?c]) simp
qed

lemma leads_to_attempt:
  assumes "leads_to c p w (Taken payload)" "try_publish_one sig payload p w = Some (r, p', w')"
  shows "leads_to c p' w' (case r of Inl e \<Rightarrow> Failed e | Inr a \<Rightarrow> Tried a)"
proof (rule leads_to_step [OF assms(1)])
  fix c' :: async_state assume c': "as_pub c' = p" "as_io c' = w" "worker c' = Taken payload"
  let ?c = "c'\<lparr>as_pub := p', as_io := w', worker := (case r of Inl e \<Rightarrow> Failed e | Inr a \<Rightarrow> Tried a),
    sent := (if r = Inr Succeeded then sent c' @ [payload] else sent c')\<rparr>"
  have "async_step c' (Attempt sig) ?c"
    using assms(2) c' by (simp add: async_step_def async_event_def attempt_event_def)
  from run_single [of async_step, OF this] show "\<exists>ls c''. run async_step c' ls c'' \<and> as_pub c'' = p' \<and> as_io c'' = w'
      \<and> accepted c'' = accepted c' \<and> worker c'' = (case r of Inl e \<Rightarrow> Failed e | Inr a \<Rightarrow> Tried a)"
    by (intro exI [of _ "[Attempt sig]"] exI [of _ ?c]) simp
qed

lemma leads_to_finish:
  assumes "leads_to c p w (Tried a)" "finish_publish a p w = Some (p', w')"
  shows "leads_to c p' w' Idle"
proof (rule leads_to_step [OF assms(1)])
  fix c' :: async_state assume c': "as_pub c' = p" "as_io c' = w" "worker c' = Tried a"
  let ?c = "c'\<lparr>as_pub := p', as_io := w', worker := Idle\<rparr>"
  have "async_step c' Finish ?c"
    using assms(2) c' by (simp add: async_step_def async_event_def finish_event_def)
  from run_single [of async_step, OF this] show "\<exists>ls c''. run async_step c' ls c'' \<and> as_pub c'' = p' \<and> as_io c'' = w'
      \<and> accepted c'' = accepted c' \<and> worker c'' = Idle"
    by (intro exI [of _ "[Finish]"] exI [of _ ?c]) simp
qed

text \<open>The phase in which an operation of the worker leaves the ledger.\<close>

definition after :: "run_error \<Rightarrow> worker_phase \<Rightarrow> bool" where
  "after reason ph \<longleftrightarrow> ph = Idle \<or> (ph = Failed reason \<and> reason \<noteq> RunNone)"

lemma publish_pending_run:
  "publish_pending sig budget p w = Some (r, p', w') \<Longrightarrow> leads_to c p w Idle \<Longrightarrow>
   case r of Inl e \<Rightarrow> e \<noteq> RunNone \<and> leads_to c p' w' (Failed e) | Inr _ \<Rightarrow> leads_to c p' w' Idle"
proof (induction sig budget p w rule: publish_pending.induct)
  case (1 sig p w)
  then show ?case by auto
next
  case (2 sig budget p w)
  show ?case
  proof (cases "take_next p")
    case None
    with "2.prems" show ?thesis by auto
  next
    case (Some tp)
    then obtain payload p1 where t: "take_next p = Some (payload, p1)" by (cases tp) auto
    note l1 = leads_to_take [OF "2.prems"(2) t]
    from "2.prems"(1) t obtain result p2 w2 where a: "try_publish_one sig payload p1 w = Some (result, p2, w2)"
      by (auto simp: bind_eq_Some_conv)
    note l2 = leads_to_attempt [OF l1 a]
    show ?thesis
    proof (cases result)
      case (Inl e)
      with "2.prems"(1) t a l2 try_publish_one_error show ?thesis by auto
    next
      case (Inr attempt)
      with "2.prems"(1) t a obtain p3 w3 where f: "finish_publish attempt p2 w2 = Some (p3, w3)"
        by (auto simp: bind_eq_Some_conv)
      from l2 Inr have "leads_to c p2 w2 (Tried attempt)" by simp
      note l3 = leads_to_finish [OF this f]
      show ?thesis
      proof (cases "attempt = Blocked")
        case True
        with "2.prems"(1) t a Inr f l3 show ?thesis by auto
      next
        case False
        with "2.prems"(1) t a Inr f have "publish_pending sig budget p3 w3 = Some (r, p', w')" by simp
        from "2.IH" [OF t refl a refl refl Inr f refl False this l3] show ?thesis .
      qed
    qed
  qed
qed

lemma handle_publish_work_event_run:
  assumes code: "handle_publish_work_event sig drain ready p w = Some (reason, ready', p', w')"
    and c: "leads_to c p w Idle"
  shows "\<exists>ph. after reason ph \<and> leads_to c p' w' ph"
proof (cases "\<not> drain (publish_work_event_fd p)
    \<or> \<not> ready \<and> (case in_flight p of None \<Rightarrow> False | Some f \<Rightarrow> in_flight_status f = InFlightBlocked)")
  case True
  with code c show ?thesis
    by (auto simp: handle_publish_work_event_def after_def split: if_split_asm option.split_asm)
next
  case False
  with code obtain r p1 w1 where pp: "publish_pending sig kMaxPublishesPerWorkEvent p w = Some (r, p1, w1)"
    by (auto simp: handle_publish_work_event_def bind_eq_Some_conv split: if_split_asm)
  note l = publish_pending_run [OF pp c]
  show ?thesis
  proof (cases r)
    case (Inl e)
    with False code pp l show ?thesis
      by (auto simp: handle_publish_work_event_def after_def split: if_split_asm)
  next
    case (Inr b)
    with l have i: "leads_to c p1 w1 Idle" by simp
    have "queue_frame p1 w1 p' w'"
      using False code pp Inr
      by (auto simp: handle_publish_work_event_def queue_frame_def split: if_split_asm)
    from leads_to_frame [OF i this] show ?thesis by (auto simp: after_def)
  qed
qed

lemma handle_worker_event_run:
  assumes "handle_worker_event sig drain fd answers ready p w = Some (reason, answers', ready', p', w')"
    and c: "leads_to c p w Idle"
  shows "\<exists>ph. after reason ph \<and> leads_to c p' w' ph"
proof -
  have frame: ?thesis if "queue_frame p w p' w'"
    using leads_to_frame [OF c that] by (auto simp: after_def)
  show ?thesis
    using assms(1) frame handle_publish_work_event_run [OF _ c]
    by (auto simp: handle_worker_event_def bind_eq_Some_conv split: if_split_asm prod.split_asm
      dest: handle_space_available_event_frame handle_broker_control_event_frame)
qed

lemma run_events_run:
  "run_events sig drain fds answers ready p w = Some (running, reason, answers', ready', p', w') \<Longrightarrow>
   leads_to c p w Idle \<Longrightarrow>
   \<exists>ph. (after reason ph \<or> \<not> running \<and> ph = Idle) \<and> leads_to c p' w' ph"
proof (induction fds arbitrary: answers ready p w)
  case Nil
  then have "queue_frame p w p' w'" "reason = RunNone" by (auto simp: queue_frame_def)
  with leads_to_frame [OF Nil.prems(2)] show ?case by (auto simp: after_def)
next
  case (Cons fd fds)
  let ?p = "p\<lparr>pub_events := fds\<rparr>"
  have "queue_frame p w ?p w" by (simp add: queue_frame_def)
  note l = leads_to_frame [OF Cons.prems(2) this]
  show ?case
  proof (cases "fd = pub_shutdown_event_fd p \<and> fd \<noteq> publish_work_event_fd p
      \<and> fd \<noteq> space_available_event_fd p \<and> fd \<noteq> pub_broker_fd p")
    case True
    with Cons.prems(1) l show ?thesis by (auto simp: Let_def)
  next
    case False
    then have code: "run_events sig drain (fd # fds) answers ready p w = do {
        (reason, answers, ready, p, w) \<leftarrow> handle_worker_event sig drain fd answers ready ?p w;
        if reason \<noteq> RunNone then Some (True, reason, answers, ready, p, w)
        else run_events sig drain fds answers ready p w }"
      by (auto simp: Let_def)
    note prem = Cons.prems(1) [unfolded code]
    then obtain r2 a2 rd2 p2 w2 where
      h: "handle_worker_event sig drain fd answers ready ?p w = Some (r2, a2, rd2, p2, w2)"
      by (auto simp: bind_eq_Some_conv)
    from handle_worker_event_run [OF h l] obtain ph where ph: "after r2 ph" "leads_to c p2 w2 ph" by blast
    show ?thesis
    proof (cases "r2 = RunNone")
      case True
      with ph have "leads_to c p2 w2 Idle" by (auto simp: after_def)
      moreover have "run_events sig drain fds a2 rd2 p2 w2 = Some (running, reason, answers', ready', p', w')"
        using prem True h by simp
      ultimately show ?thesis using Cons.IH by blast
    next
      case False
      then show ?thesis using prem ph h by auto
    qed
  qed
qed

lemma run_loop_run:
  "run_loop sig drain waits answers ready p w = Some (reason, p', w') \<Longrightarrow> leads_to c p w Idle \<Longrightarrow>
   \<exists>ph. (ph = Idle \<or> ph = Failed reason) \<and> leads_to c p' w' ph"
proof (induction sig drain waits answers ready p w rule: run_loop.induct)
  case (3 sig drain fds waits answers ready p w)
  show ?case
  proof (cases "fds = []")
    case True
    with "3.prems" show ?thesis by auto
  next
    case False
    with "3.prems"(1) obtain running r2 a2 rd2 p2 w2 where
      e: "run_events sig drain fds answers ready p w = Some (running, r2, a2, rd2, p2, w2)"
      by (auto simp: bind_eq_Some_conv)
    from run_events_run [OF e "3.prems"(2)] obtain ph where
      ph: "after r2 ph \<or> \<not> running \<and> ph = Idle" "leads_to c p2 w2 ph" by blast
    show ?thesis
    proof (cases "running \<and> r2 = RunNone")
      case True
      with ph have "leads_to c p2 w2 Idle" by (auto simp: after_def)
      moreover have "run_loop sig drain waits a2 rd2 p2 w2 = Some (reason, p', w')"
        using "3.prems"(1) False e True by simp
      ultimately show ?thesis using "3.IH" [OF False e] True by blast
    next
      case no: False
      then show ?thesis using "3.prems"(1) False e ph by (auto simp: after_def)
    qed
  qed
qed auto

lemma worker_exit_inactive:
  "worker_exit sig reason (p\<lparr>run_thread_active := False\<rparr>) w = worker_exit sig reason p w"
  by (simp add: worker_exit_def Let_def complete_outstanding_messages_def)

lemma worker_thread_run:
  assumes code: "worker_thread sig drain waits answers (as_pub c) (as_io c) = Some (reason, p', w')"
    and idle: "worker c = Idle"
  shows "\<exists>b. leads_to c p' w' (Exited b) \<and> (b \<longleftrightarrow> reason \<noteq> RunNone \<or> worker_stop_intent p' \<noteq> Transfer)"
proof -
  from code obtain p1 w1 where
    l: "run_loop sig drain (if pub_events (as_pub c) = [] then waits else EpollEvents (pub_events (as_pub c)) # waits)
      answers True (as_pub c) (as_io c) = Some (reason, p1, w1)"
    and e: "worker_exit sig reason p1 w1 = (p', w')"
    by (auto simp: worker_thread_def run_worker_def bind_eq_Some_conv worker_exit_inactive Let_def
      split: prod.split_asm)
  from run_loop_run [OF l leads_to_refl [OF idle]] obtain ph where
    ph: "ph = Idle \<or> ph = Failed reason" "leads_to c p1 w1 ph" by blast
  have same: "worker_stop_intent p' = worker_stop_intent p1"
    using worker_exit_correct [OF e] by simp
  let ?b = "reason \<noteq> RunNone \<or> worker_stop_intent p1 \<noteq> Transfer"
  have "leads_to c p' w' (Exited ?b)"
  proof (rule leads_to_step [OF ph(2)])
    fix c' :: async_state assume c': "as_pub c' = p1" "as_io c' = w1" "worker c' = ph"
    let ?c = "c'\<lparr>as_pub := p', as_io := w', worker := Exited ?b\<rparr>"
    have "async_step c' (Stop sig reason) ?c"
      using e c' ph(1) by (auto simp: async_step_def async_event_def stop_event_def)
    from run_single [of async_step, OF this] show "\<exists>ls c''. run async_step c' ls c'' \<and> as_pub c'' = p' \<and> as_io c'' = w'
        \<and> accepted c'' = accepted c' \<and> worker c'' = Exited ?b"
      by (intro exI [of _ "[Stop sig reason]"] exI [of _ ?c]) simp
  qed
  with same show ?thesis by auto
qed

end
