(* ===== verification/Publish_Pending.thy ===== *)
theory Publish_Pending
  imports Worker_Runs
begin

text \<open>
  What one work event of the asynchronous worker achieves: it publishes a prefix of the
  outstanding messages in order, and it never leaves a publishable message behind without
  having raised the work event again.
\<close>

text \<open>From \<open>(p, w)\<close> to \<open>(p', w')\<close> exactly \<open>ms\<close> was published and its promises completed.\<close>

definition publishes :: "pending_message list \<Rightarrow> publisher \<Rightarrow> io \<Rightarrow> publisher \<Rightarrow> io \<Rightarrow> bool" where
  "publishes ms p w p' w' \<longleftrightarrow> data_inv p' (shm w') \<and> outstanding p = ms @ outstanding p'
     \<and> completions w' = completions w @ map (\<lambda>m. (ticket m, CPublished)) ms
     \<and> (\<forall>s. active (shm w') s \<longleftrightarrow> active (shm w) s)
     \<and> (\<forall>s. active (shm w) s \<longrightarrow> queue (shm w') s = queue (shm w) s @ map msg_payload ms)
     \<and> unat (seq p') = unat (seq p) + length ms
     \<and> publish_work_event_fd p' = publish_work_event_fd p"

definition stopped_at_held_back :: "publisher \<Rightarrow> io \<Rightarrow> bool" where
  "stopped_at_held_back p w \<longleftrightarrow> (\<exists>f. in_flight p = Some f \<and> in_flight_status f = InFlightBlocked
     \<and> held_back (msg_payload (in_flight_msg f)) (shm w))"

lemma publishes_refl: "data_inv p (shm w) \<Longrightarrow> publishes [] p w p w"
  by (simp add: publishes_def)

lemma publishes_trans: "publishes ms p w p' w' \<Longrightarrow> publishes ms' p' w' p'' w'' \<Longrightarrow> publishes (ms @ ms') p w p'' w''"
  by (simp add: publishes_def)

definition payloads_fit :: "publisher \<Rightarrow> bool" where
  "payloads_fit p \<longleftrightarrow> (\<forall>m \<in> set (outstanding p). length (msg_payload m) \<le> kMaxPayloadSizeBytes)"

lemma take_next_data_inv: "take_next p = Some (payload, p') \<Longrightarrow> data_inv p' sd \<longleftrightarrow> data_inv p sd"
  by (intro data_inv_cong) (auto simp: take_next_def Let_def split: option.split_asm list.split_asm)

lemma take_next_same:
  "take_next p = Some (payload, p') \<Longrightarrow> seq p' = seq p \<and> publish_work_event_fd p' = publish_work_event_fd p"
  by (auto simp: take_next_def Let_def split: option.split_asm list.split_asm)

lemma take_next_None: "take_next p = None \<longleftrightarrow> outstanding p = []"
  by (auto simp: take_next_def Let_def outstanding_def in_flight_list_def split: option.splits list.splits)

text \<open>One round of the publishing loop, when the next message has room.\<close>

lemma publish_round:
  assumes inv: "data_inv p (shm w)" and fit: "payloads_fit p" and n: "unat (seq p) < 2147483647"
    and t: "take_next p = Some (payload, p1)" and go: "\<not> held_back payload (shm w)"
  shows "\<exists>p2 w2 p3 w3 m. try_publish_one all_ok payload p1 w = Some (Inr Succeeded, p2, w2)
    \<and> finish_publish Succeeded p2 w2 = Some (p3, w3) \<and> publishes [m] p w p3 w3"
proof -
  from take_next_correct [OF t] obtain f where f: "in_flight p1 = Some f" "msg_payload (in_flight_msg f) = payload"
    and o: "outstanding p1 = outstanding p" by blast
  have inv1: "data_inv p1 (shm w)" using inv take_next_data_inv [OF t] by simp
  have len: "length payload \<le> kMaxPayloadSizeBytes"
    using fit f unfolding payloads_fit_def o [symmetric] by (simp add: outstanding_def in_flight_list_def)
  have n1: "seq p1 \<noteq> 2147483647"
  proof
    assume "seq p1 = 2147483647"
    then have "unat (seq p) = 2147483647" using take_next_same [OF t] by simp
    with n show False by simp
  qed
  have sq: "unat (seq p1 + 1) = unat (seq p) + 1"
    using n take_next_same [OF t] by (simp add: unat_word_ariths)
  have "\<forall>fd \<in> set (data_available_event_fds p1). all_ok fd" by simp
  from try_publish_one_ok [OF inv1 len go n1 this] obtain sd where
    a: "try_publish_one all_ok payload p1 w = Some (Inr Succeeded, p1\<lparr>seq := seq p1 + 1\<rparr>,
      w\<lparr>shm := sd, signalled := signalled w @ data_available_event_fds p1\<rparr>)"
    and inv2: "data_inv (p1\<lparr>seq := seq p1 + 1\<rparr>) sd"
    and sd: "\<forall>s. active sd s \<longleftrightarrow> active (shm w) s"
      "\<forall>s. queue sd s = (if active (shm w) s then queue (shm w) s @ [payload] else [])" by blast
  let ?p = "p1\<lparr>seq := seq p1 + 1, in_flight := None\<rparr>"
  let ?w = "w\<lparr>shm := sd, signalled := signalled w @ data_available_event_fds p1,
    completions := completions w @ [(ticket (in_flight_msg f), CPublished)]\<rparr>"
  have fin: "finish_publish Succeeded (p1\<lparr>seq := seq p1 + 1\<rparr>)
      (w\<lparr>shm := sd, signalled := signalled w @ data_available_event_fds p1\<rparr>) = Some (?p, ?w)"
    using f by (simp add: finish_publish_def)
  have "data_inv ?p sd \<longleftrightarrow> data_inv (p1\<lparr>seq := seq p1 + 1\<rparr>) sd" by (rule data_inv_cong) simp_all
  with inv2 have "data_inv ?p sd" by simp
  moreover have "outstanding p = in_flight_msg f # outstanding ?p"
    using o f by (simp add: outstanding_def in_flight_list_def)
  ultimately have "publishes [in_flight_msg f] p w ?p ?w"
    using sd sq f take_next_same [OF t] by (simp add: publishes_def)
  with a fin show ?thesis by blast
qed

text \<open>One round when the next message is held back.\<close>

lemma publish_round_blocked:
  assumes inv: "data_inv p (shm w)" and fit: "payloads_fit p"
    and t: "take_next p = Some (payload, p1)" and no: "held_back payload (shm w)"
  shows "\<exists>p3. try_publish_one sig payload p1 w = Some (Inr Blocked, p1, w)
    \<and> finish_publish Blocked p1 w = Some (p3, w) \<and> publishes [] p w p3 w \<and> stopped_at_held_back p3 w"
proof -
  from take_next_correct [OF t] obtain f where f: "in_flight p1 = Some f" "msg_payload (in_flight_msg f) = payload"
    and o: "outstanding p1 = outstanding p" by blast
  have inv1: "data_inv p1 (shm w)" using inv take_next_data_inv [OF t] by simp
  have len: "length payload \<le> kMaxPayloadSizeBytes"
    using fit f unfolding payloads_fit_def o [symmetric] by (simp add: outstanding_def in_flight_list_def)
  let ?p = "p1\<lparr>in_flight := Some (f\<lparr>in_flight_status := InFlightBlocked\<rparr>)\<rparr>"
  have "data_inv ?p (shm w) \<longleftrightarrow> data_inv p1 (shm w)" by (rule data_inv_cong) simp_all
  moreover have "outstanding ?p = outstanding p"
    using o f by (simp add: outstanding_def in_flight_list_def)
  ultimately have "publishes [] p w ?p w \<and> stopped_at_held_back ?p w"
    using inv1 no f take_next_same [OF t] by (simp add: publishes_def stopped_at_held_back_def)
  moreover have "finish_publish Blocked p1 w = Some (?p, w)" using f by (simp add: finish_publish_def)
  ultimately show ?thesis using try_publish_one_blocked [OF inv1 len no] by blast
qed

lemma publish_pending_ok:
  assumes "data_inv p (shm w)" "payloads_fit p" "unat (seq p) + budget \<le> 2147483647"
  shows "\<exists>ready ms p' w'. publish_pending all_ok budget p w = Some (Inr ready, p', w') \<and> publishes ms p w p' w'
    \<and> (if ready then outstanding p' = [] \<or> length ms = budget else stopped_at_held_back p' w')"
  using assms
proof (induction budget arbitrary: p w)
  case 0
  then show ?case using publishes_refl by fastforce
next
  case (Suc budget)
  show ?case
  proof (cases "take_next p")
    case None
    with publishes_refl [OF Suc.prems(1)] show ?thesis
      by (intro exI [of _ True] exI [of _ "[]"] exI [of _ p] exI [of _ w]) (use None in \<open>simp add: take_next_None [symmetric]\<close>)
  next
    case (Some tp)
    then obtain payload p1 where t: "take_next p = Some (payload, p1)" by (cases tp) auto
    show ?thesis
    proof (cases "held_back payload (shm w)")
      case True
      from publish_round_blocked [OF Suc.prems(1,2) t True, of all_ok] obtain p3 where
        b: "try_publish_one all_ok payload p1 w = Some (Inr Blocked, p1, w)"
          "finish_publish Blocked p1 w = Some (p3, w)" "publishes [] p w p3 w" "stopped_at_held_back p3 w" by blast
      show ?thesis
        by (intro exI [of _ False] exI [of _ "[]"] exI [of _ p3] exI [of _ w]) (simp add: t b)
    next
      case False
      from Suc.prems(3) have "unat (seq p) < 2147483647" by simp
      from publish_round [OF Suc.prems(1,2) this t False] obtain p2 w2 p3 w3 m where
        r: "try_publish_one all_ok payload p1 w = Some (Inr Succeeded, p2, w2)"
          "finish_publish Succeeded p2 w2 = Some (p3, w3)" "publishes [m] p w p3 w3" by blast
      have inv3: "data_inv p3 (shm w3)" and fit3: "payloads_fit p3" and n3: "unat (seq p3) + budget \<le> 2147483647"
        using r(3) Suc.prems by (auto simp: publishes_def payloads_fit_def)
      from Suc.IH [OF this] obtain ready ms p' w' where
        ih: "publish_pending all_ok budget p3 w3 = Some (Inr ready, p', w')" "publishes ms p3 w3 p' w'"
          "if ready then outstanding p' = [] \<or> length ms = budget else stopped_at_held_back p' w'" by blast
      have "publish_pending all_ok (Suc budget) p w = Some (Inr ready, p', w')" by (simp add: t r(1,2) ih(1))
      moreover have "publishes (m # ms) p w p' w'" using publishes_trans [OF r(3) ih(2)] by simp
      ultimately show ?thesis using ih(3) by fastforce
    qed
  qed
qed

lemma handle_publish_work_event_ok:
  assumes inv: "data_inv p (shm w)" "payloads_fit p" "unat (seq p) + kMaxPublishesPerWorkEvent \<le> 2147483647"
    and go: "ready \<or> (\<forall>f. in_flight p = Some f \<longrightarrow> in_flight_status f \<noteq> InFlightBlocked)"
  shows "\<exists>ready' ms p' w'. handle_publish_work_event all_ok all_ok ready p w = Some (RunNone, ready', p', w')
    \<and> publishes ms p w p' w'
    \<and> (outstanding p' = [] \<or> \<not> ready' \<and> stopped_at_held_back p' w'
        \<or> ready' \<and> (\<exists>before. signalled w' = before @ [publish_work_event_fd p]))"
proof -
  from publish_pending_ok [OF inv] obtain rd ms p' w' where
    pp: "publish_pending all_ok kMaxPublishesPerWorkEvent p w = Some (Inr rd, p', w')"
    and pub: "publishes ms p w p' w'"
    and rd: "if rd then outstanding p' = [] \<or> length ms = kMaxPublishesPerWorkEvent else stopped_at_held_back p' w'"
    by blast
  have empty: "pending_messages p' = [] \<and> in_flight p' = None \<longleftrightarrow> outstanding p' = []"
    by (auto simp: outstanding_def in_flight_list_def split: option.split)
  have go': "\<not> (\<not> ready \<and> (case in_flight p of None \<Rightarrow> False | Some f \<Rightarrow> in_flight_status f = InFlightBlocked))"
    using go by (auto split: option.split)
  show ?thesis
  proof (cases "\<not> rd \<or> outstanding p' = []")
    case True
    then show ?thesis using pp pub rd go' empty
      by (intro exI [of _ rd] exI [of _ ms] exI [of _ p'] exI [of _ w'])
         (auto simp: handle_publish_work_event_def)
  next
    case False
    then have "handle_publish_work_event all_ok all_ok ready p w
        = Some (RunNone, rd, p', w'\<lparr>signalled := signalled w' @ [publish_work_event_fd p']\<rparr>)"
      using pp go' empty by (auto simp: handle_publish_work_event_def)
    with pub False show ?thesis by (auto simp: publishes_def)
  qed
qed

end
