(* ===== verification/Publisher_Properties.thy ===== *)
theory Publisher_Properties
  imports Publish_Pending
begin

text \<open>
  What the publisher promises to its callers: synchronous publishing, control messages of the
  broker, and the promises of the asynchronous mode.
\<close>

section \<open>A concrete asynchronous publisher\<close>

definition demo_async :: "publisher \<Rightarrow> io \<Rightarrow> async_state" where
  "demo_async p w = \<lparr>as_pub = p\<lparr>pub_flags := ASYNCHRONOUS, run_thread_active := True\<rparr>,
     as_io = w, worker = Idle, accepted = [], sent = []\<rparr>"

definition demo_ticket :: pending_message where
  "demo_ticket = \<lparr>msg_payload = demo_payload, ticket = 0\<rparr>"

lemma demo_async_initial:
  "pending_messages p = [] \<Longrightarrow> in_flight p = None \<Longrightarrow> completions w = [] \<Longrightarrow> async_initial (demo_async p w)"
  by (simp add: demo_async_def async_initial_def)

lemma demo_submit:
  assumes "pending_messages p = []" "in_flight p = None"
  shows "async_step (demo_async p w) (Submit all_ok demo_payload)
    ((demo_async p w)\<lparr>as_pub := p\<lparr>pub_flags := ASYNCHRONOUS, run_thread_active := True,
        pending_messages := [demo_ticket]\<rparr>,
      as_io := w\<lparr>signalled := signalled w @ [publish_work_event_fd p]\<rparr>, accepted := [demo_ticket]\<rparr>)"
  using assms demo_payload_fits
  by (simp add: async_step_def async_event_def submit_event_def publish_async_def make_room_def
    demo_async_def demo_ticket_def ASYNCHRONOUS_def kMaxOutstandingMessages_def)

section \<open>The synchronous mode\<close>



section \<open>The control connection\<close>

text \<open>Control messages: the publisher's receive loop keeps the data-plane invariant,
  does not disturb messages being published, and is balanced in descriptors: every descriptor
  the consumed answers carried is afterwards owned by the publisher or has been closed, exactly
  once, whatever the messages contained and whether or not they were accepted.\<close>

theorem control_messages_balanced:
  assumes "process_broker_control_messages answers p w = Some (r, rest, p', w')" "data_inv p (shm w)"
    "\<forall>a \<in> set answers. well_formed a" "0 \<le> pub_broker_fd p"
  shows "data_inv p' (shm w') \<and> same_sender p p' \<and> completions w' = completions w
    \<and> (\<exists>used. answers = used @ rest \<and> owned_fds p' + mset (closed w')
        = owned_fds p + mset (closed w) + mset (concat (map received_fds used)))"
  using process_broker_control_messages_keeps [OF assms(1,2)] process_broker_control_messages_conserves [OF assms]
  by (simp add: keeps_def conserves_def)

text \<open>A message for a new subscriber in slot 5, then an empty queue.\<close>

definition demo_answers :: "received list" where
  "demo_answers =
     [RecvMsg (send_packet_with_fd (subscriber_event_fd_and_slot_packet 5) 9),
      RecvErr EAGAIN]"

lemma field_u32_packet [simp]: "field_u32 (t # le_bytes 4 v) (Suc 0) = Some v"
  using field_u32_le [of "Suc 0" "[t]" v "[]"] by simp

theorem control_messages_balanced_witness:
  "\<exists>p w r p' w'. data_inv p (shm w)
    \<and> process_broker_control_messages demo_answers p w = Some (r, [], p', w') \<and> data_inv p' (shm w')
    \<and> owned_fds p' + mset (closed w') = owned_fds p + mset (closed w) + {#9#}"
proof -
  from demo_tracked obtain p and w :: io where
    d: "data_inv p (shm w)" "\<forall>s. active (shm w) s \<longleftrightarrow> s = 3" "data_available_event_fds p = [7]" "pub_broker_fd p = 4"
    by (elim exE conjE) (rule that, assumption+)
  let ?reg = "\<lparr>reg_event_fd = 9, reg_slot_index = 5\<rparr>"
  have pre: "unat (reg_slot_index ?reg) < kMaxSubscribers" "\<not> active (shm w) (unat (reg_slot_index ?reg))"
    "reg_event_fd ?reg \<notin> set (data_available_event_fds p)"
    using d by (simp_all add: kMaxSubscribers_def)
  from track_correct [OF d(1) pre] obtain p1 w1 where
    t: "track_subscriber ?reg p w = Some (None, p1, w1)" by blast
  have code: "\<exists>p' w'. process_broker_control_messages demo_answers p w = Some (RunNone, [], p', w')"
    using t by (simp add: demo_answers_def handle_broker_message_def Let_def send_packet_with_fd_def
      subscriber_event_fd_and_slot_packet_def handle_subscriber_registered_message_def del: type_byte.simps)
  then obtain p' w' where c: "process_broker_control_messages demo_answers p w = Some (RunNone, [], p', w')" by blast
  have wf: "\<forall>a \<in> set demo_answers. well_formed a"
    by (simp add: demo_answers_def well_formed_def control_ok_def send_packet_with_fd_def)
  have fds: "answers = demo_answers \<Longrightarrow> concat (map received_fds answers) = [9]" for answers
    by (simp add: demo_answers_def received_fds_def control_fds_def send_packet_with_fd_def)
  from control_messages_balanced [OF c d(1) wf] d(4) fds have
    r: "data_inv p' (shm w')" "owned_fds p' + mset (closed w') = owned_fds p + mset (closed w) + {#9#}"
    by auto
  show ?thesis using d(1) c r by (intro exI conjI)
qed

section \<open>The asynchronous mode\<close>

text \<open>Property C7. Every promise is completed at most once, and none is forgotten: in every
  interleaving of submissions with the worker, each accepted message is either outstanding or its
  promise has been completed, and never both or twice; at most 64 messages are outstanding.  Once
  the worker has ended otherwise than for a transfer, all accepted messages are completed.\<close>

theorem promise_ledger:
  assumes "run async_step c ls c'" "async_initial c"
  shows "settled_once c' \<and> length (outstanding (as_pub c')) \<le> kMaxOutstandingMessages"
  using ledger.run_inv [OF assms] by (simp add: async_inv_def queue_ok_def)

theorem promise_ledger_witness:
  "\<exists>c c'. async_initial c \<and> run async_step c [Submit all_ok demo_payload, Stop all_ok RunNone] c'
    \<and> worker c' = Exited True \<and> completions (as_io c') = [(0, WorkerStopped)] \<and> settled_once c'"
proof -
  let ?c = "demo_async demo_publisher (demo_io zero_shared_data)"
  have i: "async_initial ?c" by (rule demo_async_initial) (simp_all add: demo_publisher_def demo_io_def)
  have pre: "pending_messages demo_publisher = []" "in_flight demo_publisher = None"
    by (simp_all add: demo_publisher_def)
  note s1 = run_single [of async_step, OF demo_submit [OF pre, of "demo_io zero_shared_data"]]
  obtain c' where s2: "async_step (demo_async demo_publisher (demo_io zero_shared_data)
      \<lparr>as_pub := demo_publisher\<lparr>pub_flags := ASYNCHRONOUS, run_thread_active := True,
        pending_messages := [demo_ticket]\<rparr>,
      as_io := (demo_io zero_shared_data)\<lparr>signalled := signalled (demo_io zero_shared_data) @ [publish_work_event_fd demo_publisher]\<rparr>,
      accepted := [demo_ticket]\<rparr>) (Stop all_ok RunNone) c'"
    and c': "worker c' = Exited True" "completions (as_io c') = [(0, WorkerStopped)]"
    by (simp add: async_step_def async_event_def stop_event_def worker_exit_def Let_def
      complete_outstanding_messages_def demo_async_def demo_publisher_def demo_io_def demo_ticket_def)
  from run_snoc [where step = async_step, OF s1 s2] have r: "run async_step ?c [Submit all_ok demo_payload, Stop all_ok RunNone] c'" by simp
  from promise_ledger [OF r i] r i c' show ?thesis by blast
qed




text \<open>Property C18. The worker leaves no promise behind: whenever the worker's thread function ends,
  from any reachable state and for any reason other than a transfer, every accepted message has
  had its promise completed exactly once, and later submissions are refused.\<close>

theorem worker_thread_settles:
  assumes "run async_step c0 ls c" "async_initial c0" "worker c = Idle"
    "worker_thread sig drain waits answers (as_pub c) (as_io c) = Some (reason, p', w')"
    "reason \<noteq> RunNone \<or> worker_stop_intent p' \<noteq> Transfer"
  shows "mset (map fst (completions w')) = mset [0..<length (accepted c)] \<and> \<not> run_thread_active p'"
proof -
  from worker_thread_run [OF assms(4,3)] assms(5) have "leads_to c p' w' (Exited True)" by auto
  then obtain ls' c' where r: "run async_step c ls' c'" and c': "as_pub c' = p'" "as_io c' = w'"
    "accepted c' = accepted c" "worker c' = Exited True" by (auto simp: leads_to_def)
  from ledger.run_inv [OF run_append [OF r assms(1)] assms(2)] c' show ?thesis
    by (simp add: async_inv_def settled_once_def phase_ok_def)
qed

theorem worker_thread_settles_witness:
  "\<exists>(c :: async_state) p' w'. worker_thread all_ok all_ok [EpollErr EINTR] [] (as_pub c) (as_io c) = Some (EpollWaitFailed, p', w')
    \<and> length (accepted c) = 1 \<and> mset (map fst (completions w')) = {#0#}"
proof -
  let ?c = "demo_async demo_publisher (demo_io zero_shared_data)"
  have i: "async_initial ?c" by (rule demo_async_initial) (simp_all add: demo_publisher_def demo_io_def)
  have pre: "pending_messages demo_publisher = []" "in_flight demo_publisher = None"
    by (simp_all add: demo_publisher_def)
  define c where "c = ?c\<lparr>as_pub := demo_publisher\<lparr>pub_flags := ASYNCHRONOUS, run_thread_active := True,
        pending_messages := [demo_ticket]\<rparr>,
      as_io := (demo_io zero_shared_data)\<lparr>signalled := signalled (demo_io zero_shared_data) @ [publish_work_event_fd demo_publisher]\<rparr>,
      accepted := [demo_ticket]\<rparr>"
  note s1 = run_single [of async_step, OF demo_submit [OF pre, of "demo_io zero_shared_data"], folded c_def]
  have idle: "worker c = Idle" by (simp add: c_def demo_async_def)
  obtain p' w' where t: "worker_thread all_ok all_ok [EpollErr EINTR] [] (as_pub c) (as_io c) = Some (EpollWaitFailed, p', w')"
    by (simp add: worker_thread_def run_worker_def worker_exit_def c_def demo_publisher_def Let_def case_prod_beta)
  have n: "length (accepted c) = 1" by (simp add: c_def)
  have "mset (map fst (completions w')) = {#0#}"
    using worker_thread_settles [OF s1 i idle t] n by simp
  with t n show ?thesis by (intro exI [of _ c] exI [of _ p'] exI [of _ w'] conjI)
qed

text \<open>Property C24. One work event publishes an in-order prefix of the outstanding messages, each to
  every tracked subscriber, and completes their promises; what is left over is either held back
  by a full ring, an empty pool or the absence of subscribers, or the work event has been
  raised again, so that no publishable message is ever left waiting without a wake-up.\<close>

theorem work_event_publishes_prefix:
  assumes "data_inv p (shm w)" "payloads_fit p" "unat (seq p) + kMaxPublishesPerWorkEvent \<le> 2147483647"
    "ready \<or> (\<forall>f. in_flight p = Some f \<longrightarrow> in_flight_status f \<noteq> InFlightBlocked)"
  shows "\<exists>ready' ms p' w'. handle_publish_work_event all_ok all_ok ready p w = Some (RunNone, ready', p', w')
    \<and> publishes ms p w p' w'
    \<and> (outstanding p' = [] \<or> \<not> ready' \<and> stopped_at_held_back p' w'
        \<or> ready' \<and> (\<exists>before. signalled w' = before @ [publish_work_event_fd p]))"
  by (rule handle_publish_work_event_ok [OF assms])

theorem work_event_publishes_prefix_witness:
  "\<exists>p w ready' ms p' w'. outstanding p = [demo_ticket] \<and> queue (shm w) 3 = []
    \<and> handle_publish_work_event all_ok all_ok True p w = Some (RunNone, ready', p', w')
    \<and> publishes ms p w p' w'"
proof -
  from demo_tracked obtain p and w :: io where
    d: "data_inv p (shm w)" "queue (shm w) 3 = []" "seq p = 0"
    by (elim exE conjE) (rule that, assumption+)
  let ?p = "p\<lparr>in_flight := None, pending_messages := [demo_ticket]\<rparr>"
  have "data_inv ?p (shm w) \<longleftrightarrow> data_inv p (shm w)" by (rule data_inv_cong) simp_all
  with d(1) have inv: "data_inv ?p (shm w)" by simp
  have o: "outstanding ?p = [demo_ticket]" by (simp add: outstanding_def in_flight_list_def)
  have fit: "payloads_fit ?p"
    unfolding payloads_fit_def o using demo_payload_fits by (simp add: demo_ticket_def)
  have n: "unat (seq ?p) + kMaxPublishesPerWorkEvent \<le> 2147483647"
    using d(3) by (simp add: kMaxPublishesPerWorkEvent_def)
  from work_event_publishes_prefix [OF inv fit n, of True] o d(2) show ?thesis by blast
qed



end
