(* ===== verification/Subscriber_Control.thy ===== *)
theory Subscriber_Control
  imports Subscriber_Data Fd_Helpers Broker_Protocol
begin

text \<open>
  The subscriber's end of the control connection (\<open>src/subscriber.cpp\<close>): installing the
  attachments of a batch, dropping one, the receive loop, \<open>subscribe\<close> and the worker's
  \<open>run\<close>.  Two answers of the kernel are parameters: \<open>mmap\<close>, the address at which the segment
  behind a descriptor is mapped together with its contents (\<^term>\<open>None\<close> for \<open>MAP_FAILED\<close>), which
  may depend on what is mapped already, and
  \<open>watch\<close>, whether \<open>add_fd_to_epoll\<close> succeeds on a descriptor.  Unmapping removes the segment
  from \<^const>\<open>segments\<close>, so that a later access has no result.
\<close>

section \<open>Attachments\<close>

type_synonym mmap_answer = "(nat \<rightharpoonup> shared_data) \<Rightarrow> int \<Rightarrow> (nat \<times> shared_data) option"

definition kBrokerEventId :: attachment_id where "kBrokerEventId = 0"
definition kShutdownEventId :: attachment_id where "kShutdownEventId = -1"

text \<open>The attachment as the code leaves it, and the world.\<close>

definition release_publisher_attachment ::
  "publisher_attachment \<Rightarrow> sub_world \<Rightarrow> publisher_attachment \<times> sub_world"
where
  "release_publisher_attachment a w =
     (let w = (if 0 \<le> att_data_available_event_fd a
          then w\<lparr>sub_unwatched := sub_unwatched w @ [att_data_available_event_fd a]\<rparr> else w);
          w = (case shared_data_at a of None \<Rightarrow> w
             | Some addr \<Rightarrow> w\<lparr>segments := (segments w)(addr := None)\<rparr>);
          w = sub_close_fd (shm_fd a) w;
          w = sub_close_fd (att_space_available_event_fd a) w;
          w = sub_close_fd (att_data_available_event_fd a) w
      in (a\<lparr>shared_data_at := None, shm_fd := -1, att_space_available_event_fd := -1,
            att_data_available_event_fd := -1\<rparr>, w))"

text \<open>One attachment of a batch, once its metadata and its three descriptors are read.\<close>

definition install_attachment ::
  "mmap_answer \<Rightarrow> (int \<Rightarrow> bool) \<Rightarrow> attachment_id \<times> topic_id \<times> u32
     \<Rightarrow> int \<times> int \<times> int \<Rightarrow> subscriber \<Rightarrow> sub_world \<Rightarrow> bool \<times> subscriber \<times> sub_world"
where
  "install_attachment mmap watch = (\<lambda>(ident, topic, slot) (shm, space, data) s w.
     let a = empty_attachment\<lparr>att_topic_id := topic, slot_index := slot, shm_fd := shm,
           att_space_available_event_fd := space, att_data_available_event_fd := data\<rparr> in
     case mmap (segments w) shm of
       None \<Rightarrow> (False, s, snd (release_publisher_attachment a w))
     | Some (addr, sd) \<Rightarrow>
         let a = a\<lparr>shared_data_at := Some addr\<rparr>;
             w = w\<lparr>segments := (segments w)(addr \<mapsto> sd)\<rparr> in
         if \<not> watch data then (False, s, snd (release_publisher_attachment a w))
         else
           let w = w\<lparr>sub_watched := sub_watched w @ [(data, ident)]\<rparr> in
           if data_available_event_fd_by_attachment_id s ident \<noteq> None
           then (False, s, snd (release_publisher_attachment a w))
           else if publisher_attachment_by_data_available_event_fd s data \<noteq> None
           then (False, s, snd (release_publisher_attachment a w))
           else (True,
             s\<lparr>data_available_event_fd_by_attachment_id :=
                 (data_available_event_fd_by_attachment_id s)(ident \<mapsto> data),
               publisher_attachment_by_data_available_event_fd :=
                 (publisher_attachment_by_data_available_event_fd s)(data \<mapsto> a)\<rparr>, w))"

text \<open>The loop over the remaining \<open>n\<close> attachments; \<open>off\<close> is \<open>packet_offset\<close>, \<open>k\<close> the index.  The
  descriptors taken over are replaced by \<open>-1\<close> in the control message.\<close>

fun install_attachments ::
  "mmap_answer \<Rightarrow> (int \<Rightarrow> bool) \<Rightarrow> bytes \<Rightarrow> nat \<Rightarrow> nat \<Rightarrow> nat
     \<Rightarrow> int list \<Rightarrow> subscriber \<Rightarrow> sub_world \<Rightarrow> (bool \<times> int list \<times> subscriber \<times> sub_world) option"
where
  "install_attachments mmap watch packet 0 off k fds s w = Some (True, fds, s, w)"
| "install_attachments mmap watch packet (Suc n) off k fds s w = do {
     metadata \<leftarrow> read_attachment_metadata packet off;
     if length fds < 3 * k + 3 then None
     else do {
       let taken = (fds ! (3 * k), fds ! (3 * k + 1), fds ! (3 * k + 2));
       let fds = fds[3 * k := -1, 3 * k + 1 := -1, 3 * k + 2 := -1];
       let (ok, s, w) = install_attachment mmap watch metadata taken s w;
       if \<not> ok then Some (False, fds, s, w)
       else install_attachments mmap watch packet n (off + kSubscriberAttachmentMetadataSize) (k + 1) fds s w
     }
   }"

definition install_subscriber_attachment_batch ::
  "mmap_answer \<Rightarrow> (int \<Rightarrow> bool) \<Rightarrow> bytes \<Rightarrow> nat \<Rightarrow> cmsghdr option
     \<Rightarrow> subscriber \<Rightarrow> sub_world \<Rightarrow> (bool \<times> cmsghdr option \<times> subscriber \<times> sub_world) option"
where
  "install_subscriber_attachment_batch mmap watch packet body_len cmsg s w =
     (if body_len mod kSubscriberAttachmentMetadataSize \<noteq> 0 then Some (False, cmsg, s, w)
      else let attachment_count = body_len div kSubscriberAttachmentMetadataSize in
        if attachment_count = 0 then Some (cmsg = None, cmsg, s, w)
        else if \<not> is_valid_scm_rights_cmsg cmsg then Some (False, cmsg, s, w)
        else (case cmsg of None \<Rightarrow> None
          | Some c \<Rightarrow>
              let fd_data_size = cmsg_len c - CMSG_LEN 0 in
              if fd_data_size mod 4 \<noteq> 0 then Some (False, cmsg, s, w)
              else if fd_data_size div 4 \<noteq> attachment_count * 3 then Some (False, cmsg, s, w)
              else do {
                (ok, fds, s, w) \<leftarrow> install_attachments mmap watch packet attachment_count 1 0 (cmsg_fds c) s w;
                Some (ok, Some (c\<lparr>cmsg_fds := fds\<rparr>), s, w)
              }))"

definition handle_publisher_disconnected ::
  "bytes \<Rightarrow> nat \<Rightarrow> subscriber \<Rightarrow> sub_world \<Rightarrow> (sub_run_error \<times> subscriber \<times> sub_world) option"
where
  "handle_publisher_disconnected packet body_len s w =
     (if body_len \<noteq> 8 then Some (PublisherDisconnectedPayloadSizeMismatch, s, w)
      else do {
        ident \<leftarrow> field_u64 packet 1;
        case data_available_event_fd_by_attachment_id s ident of
          None \<Rightarrow> Some (PublisherDisconnectedAttachmentMissing, s, w)
        | Some fd \<Rightarrow> (case publisher_attachment_by_data_available_event_fd s fd of
              None \<Rightarrow> Some (PublisherDisconnectedEventFdMissing, s, w)
            | Some a \<Rightarrow> Some (SubRunNone,
                s\<lparr>data_available_event_fd_by_attachment_id :=
                    (data_available_event_fd_by_attachment_id s)(ident := None),
                  publisher_attachment_by_data_available_event_fd :=
                    (publisher_attachment_by_data_available_event_fd s)(fd := None)\<rparr>,
                snd (release_publisher_attachment a w)))
      })"

section \<open>The receive loop\<close>

definition sub_handle_broker_message ::
  "mmap_answer \<Rightarrow> (int \<Rightarrow> bool) \<Rightarrow> msghdr
     \<Rightarrow> subscriber \<Rightarrow> sub_world \<Rightarrow> (bool \<times> cmsghdr option \<times> subscriber \<times> sub_world) option"
where
  "sub_handle_broker_message mmap watch msg s w =
     (let packet = msg_bytes msg; cmsg = msg_control msg; body_len = length packet - 1 in
      case packet of
        [] \<Rightarrow> Some (False, cmsg, s, w)
      | b # _ \<Rightarrow>
          if msg_truncated msg then Some (False, cmsg, s, w)
          else if length packet < 1 then Some (False, cmsg, s, w)
          else (case message_type_of b of
            Some SubscriberAttachmentBatch \<Rightarrow>
              install_subscriber_attachment_batch mmap watch packet body_len cmsg s w
          | Some PublisherDisconnected \<Rightarrow> do {
              (result, s, w) \<leftarrow> handle_publisher_disconnected packet body_len s w;
              Some (result = SubRunNone, cmsg, s, w)
            }
          | _ \<Rightarrow> Some (False, cmsg, s, w)))"

definition sub_close_guarded :: "cmsghdr option \<Rightarrow> sub_world \<Rightarrow> sub_world" where
  "sub_close_guarded cmsg w = w\<lparr>sub_closed := sub_closed w @ close_received_fds cmsg\<rparr>"

fun sub_process_broker_control_messages ::
  "mmap_answer \<Rightarrow> (int \<Rightarrow> bool) \<Rightarrow> received list
     \<Rightarrow> subscriber \<Rightarrow> sub_world \<Rightarrow> (bool \<times> received list \<times> subscriber \<times> sub_world) option"
where
  "sub_process_broker_control_messages mmap watch [] s w = None"
| "sub_process_broker_control_messages mmap watch (RecvErr errno # answers) s w =
     Some (errno = EAGAIN, answers, s, w)"
| "sub_process_broker_control_messages mmap watch (RecvMsg msg # answers) s w = do {
     (ok, cmsg, s, w) \<leftarrow> sub_handle_broker_message mmap watch msg s w;
     let w = sub_close_guarded cmsg w;
     if \<not> ok then Some (False, answers, s, w)
     else sub_process_broker_control_messages mmap watch answers s w
   }"

section \<open>Receiving messages\<close>

text \<open>\<open>RunError::None\<close> calls \<open>std::terminate\<close>.\<close>

definition map_run_error_to_subscribe_error :: "sub_run_error \<Rightarrow> subscribe_error option" where
  "map_run_error_to_subscribe_error e = (case e of
     SubRunNone \<Rightarrow> None
   | SubEpollWaitFailed \<Rightarrow> Some SubEventWaitFailed
   | SubUnexpectedEpollTimeout \<Rightarrow> Some SubTimeout
   | SubBrokerControlMessageProcessingFailed \<Rightarrow> Some SubBrokerUnavailable
   | PublisherDisconnectedPayloadSizeMismatch \<Rightarrow> Some SubBrokerUnavailable
   | PublisherDisconnectedAttachmentMissing \<Rightarrow> Some SubBrokerUnavailable
   | PublisherDisconnectedEventFdMissing \<Rightarrow> Some SubBrokerUnavailable
   | _ \<Rightarrow> Some SubDataPathFailed)"

text \<open>One buffered event of \<open>subscribe\<close>; \<open>Inr None\<close> goes round the loop again.\<close>

definition subscribe_event ::
  "(int \<Rightarrow> bool) \<Rightarrow> (int \<Rightarrow> bool) \<Rightarrow> mmap_answer \<Rightarrow> (int \<Rightarrow> bool)
     \<Rightarrow> attachment_id \<Rightarrow> received list \<Rightarrow> subscriber \<Rightarrow> sub_world
     \<Rightarrow> ((subscribe_error + message_batch option) \<times> received list \<times> subscriber \<times> sub_world) option"
where
  "subscribe_event sig drain mmap watch ident answers s w =
     (if ident = kBrokerEventId then do {
        (ok, answers, s, w) \<leftarrow> sub_process_broker_control_messages mmap watch answers s w;
        Some (if ok then Inr None else Inl SubBrokerUnavailable, answers, s, w)
      } else (case data_available_event_fd_by_attachment_id s ident of
          None \<Rightarrow> Some (Inr None, answers, s, w)
        | Some fd \<Rightarrow> do {
            (result, s, w) \<leftarrow> handle_data_available_event sig drain fd s w;
            case result of
              Inl e \<Rightarrow> do { e \<leftarrow> map_run_error_to_subscribe_error e; Some (Inl e, answers, s, w) }
            | Inr messages \<Rightarrow> Some (Inr (if messages = [] then None else Some messages), answers, s, w)
          }))"

text \<open>The clock is read at the top of every round, and again before waiting.\<close>

function subscribe_loop ::
  "(int \<Rightarrow> bool) \<Rightarrow> (int \<Rightarrow> bool) \<Rightarrow> mmap_answer \<Rightarrow> (int \<Rightarrow> bool) \<Rightarrow> int
     \<Rightarrow> int list \<Rightarrow> u64 epoll_answer list \<Rightarrow> received list \<Rightarrow> subscriber \<Rightarrow> sub_world
     \<Rightarrow> ((subscribe_error + message_batch) \<times> subscriber \<times> sub_world) option"
where
  "subscribe_loop sig drain mmap watch deadline [] waits answers s w = None"
| "subscribe_loop sig drain mmap watch deadline (now # clk) waits answers s w =
     (if deadline \<le> now then Some (Inl SubTimeout, s, w)
      else case sub_events s of
        [] \<Rightarrow> (case clk of [] \<Rightarrow> None
          | now # clk \<Rightarrow>
              if deadline - now < 0 then Some (Inl SubTimeout, s, w)
              else (case waits of [] \<Rightarrow> None
                | EpollErr errno # waits \<Rightarrow>
                    if errno = EINTR then subscribe_loop sig drain mmap watch deadline clk waits answers s w
                    else Some (Inl SubEventWaitFailed, s, w)
                | EpollEvents ids # waits \<Rightarrow>
                    if ids = [] then Some (Inl SubTimeout, s, w)
                    else subscribe_loop sig drain mmap watch deadline clk waits answers (s\<lparr>sub_events := ids\<rparr>) w))
      | ident # ids \<Rightarrow> do {
          (result, answers, s, w) \<leftarrow>
            subscribe_event sig drain mmap watch ident answers (s\<lparr>sub_events := ids\<rparr>) w;
          case result of
            Inl e \<Rightarrow> Some (Inl e, s, w)
          | Inr (Some messages) \<Rightarrow> Some (Inr messages, s, w)
          | Inr None \<Rightarrow> subscribe_loop sig drain mmap watch deadline clk waits answers s w
        })"
  by pat_completeness auto
termination
  by (relation "measure (\<lambda>(sig, drain, mmap, watch, deadline, clk, _). length clk)") auto

declare subscribe_loop.simps [simp del]

definition subscribe ::
  "(int \<Rightarrow> bool) \<Rightarrow> (int \<Rightarrow> bool) \<Rightarrow> mmap_answer \<Rightarrow> (int \<Rightarrow> bool) \<Rightarrow> int
     \<Rightarrow> int list \<Rightarrow> u64 epoll_answer list \<Rightarrow> received list \<Rightarrow> subscriber \<Rightarrow> sub_world
     \<Rightarrow> ((subscribe_error + message_batch) \<times> subscriber \<times> sub_world) option"
where
  "subscribe sig drain mmap watch timeout clk waits answers s w = (case clk of
     [] \<Rightarrow> None
   | now # clk \<Rightarrow> subscribe_loop sig drain mmap watch (now + timeout) clk waits answers s w)"

section \<open>The worker\<close>

text \<open>One event of \<open>run\<close>: whether the worker keeps running, and the reason.\<close>

definition sub_run_event ::
  "(int \<Rightarrow> bool) \<Rightarrow> (int \<Rightarrow> bool) \<Rightarrow> mmap_answer \<Rightarrow> (int \<Rightarrow> bool)
     \<Rightarrow> attachment_id \<Rightarrow> received list \<Rightarrow> subscriber \<Rightarrow> sub_world
     \<Rightarrow> (bool \<times> sub_run_error \<times> received list \<times> subscriber \<times> sub_world) option"
where
  "sub_run_event sig drain mmap watch ident answers s w =
     (if ident = kShutdownEventId then
        Some (False, if drain (sub_shutdown_event_fd s) then SubRunNone else SubShutdownEventReadFailed, answers, s, w)
      else if ident = kBrokerEventId then do {
        (ok, answers, s, w) \<leftarrow> sub_process_broker_control_messages mmap watch answers s w;
        Some (ok, if ok then SubRunNone else SubBrokerControlMessageProcessingFailed, answers, s, w)
      } else (case data_available_event_fd_by_attachment_id s ident of
          None \<Rightarrow> Some (True, SubRunNone, answers, s, w)
        | Some fd \<Rightarrow> do {
            (result, s, w) \<leftarrow> handle_data_available_event sig drain fd s w;
            case result of
              Inl e \<Rightarrow> Some (False, e, answers, s, w)
            | Inr messages \<Rightarrow> Some (True, SubRunNone, answers, s, w)
          }))"

fun sub_run_events ::
  "(int \<Rightarrow> bool) \<Rightarrow> (int \<Rightarrow> bool) \<Rightarrow> mmap_answer \<Rightarrow> (int \<Rightarrow> bool)
     \<Rightarrow> attachment_id list \<Rightarrow> received list \<Rightarrow> subscriber \<Rightarrow> sub_world
     \<Rightarrow> (bool \<times> sub_run_error \<times> received list \<times> subscriber \<times> sub_world) option"
where
  "sub_run_events sig drain mmap watch [] answers s w = Some (True, SubRunNone, answers, s\<lparr>sub_events := []\<rparr>, w)"
| "sub_run_events sig drain mmap watch (ident # ids) answers s w = do {
     (running, reason, answers, s, w) \<leftarrow>
       sub_run_event sig drain mmap watch ident answers (s\<lparr>sub_events := ids\<rparr>) w;
     if \<not> running then Some (False, reason, answers, s, w)
     else sub_run_events sig drain mmap watch ids answers s w
   }"

fun sub_run_loop ::
  "(int \<Rightarrow> bool) \<Rightarrow> (int \<Rightarrow> bool) \<Rightarrow> mmap_answer \<Rightarrow> (int \<Rightarrow> bool)
     \<Rightarrow> u64 epoll_answer list \<Rightarrow> received list \<Rightarrow> subscriber \<Rightarrow> sub_world
     \<Rightarrow> (sub_run_error \<times> subscriber \<times> sub_world) option"
where
  "sub_run_loop sig drain mmap watch [] answers s w = None"
| "sub_run_loop sig drain mmap watch (EpollErr errno # waits) answers s w = Some (SubEpollWaitFailed, s, w)"
| "sub_run_loop sig drain mmap watch (EpollEvents ids # waits) answers s w =
     (if ids = [] then Some (SubUnexpectedEpollTimeout, s, w)
      else do {
        (running, reason, answers, s, w) \<leftarrow> sub_run_events sig drain mmap watch ids answers s w;
        if running \<and> reason = SubRunNone then sub_run_loop sig drain mmap watch waits answers s w
        else Some (reason, s, w)
      })"

text \<open>Events buffered before the call are handled first.\<close>

definition sub_run ::
  "(int \<Rightarrow> bool) \<Rightarrow> (int \<Rightarrow> bool) \<Rightarrow> mmap_answer \<Rightarrow> (int \<Rightarrow> bool)
     \<Rightarrow> u64 epoll_answer list \<Rightarrow> received list \<Rightarrow> subscriber \<Rightarrow> sub_world
     \<Rightarrow> (sub_run_error \<times> subscriber \<times> sub_world) option"
where
  "sub_run sig drain mmap watch waits answers s w =
     sub_run_loop sig drain mmap watch
       (if sub_events s = [] then waits else EpollEvents (sub_events s) # waits) answers s w"

end
