(* ===== verification/Map_Sums.thy ===== *)
theory Map_Sums
  imports DriveBus_Prelude "HOL-Library.Multiset"
begin

text \<open>
  Sums of multisets over the entries of a finite map: what the tables of a process own together,
  and how one entry changes it.
\<close>

definition sum_entries :: "('v \<Rightarrow> 'z multiset) \<Rightarrow> ('k \<rightharpoonup> 'v) \<Rightarrow> 'z multiset" where
  "sum_entries h m = (\<Sum>k \<in> dom m. h (the (m k)))"

lemma sum_entries_empty [simp]: "sum_entries h Map.empty = {#}"
  by (simp add: sum_entries_def)

lemma sum_entries_insert:
  assumes "finite (dom m)" "m k = None"
  shows "sum_entries h (m(k \<mapsto> a)) = h a + sum_entries h m"
proof -
  have k: "k \<notin> dom m" using assms(2) by auto
  have "(\<Sum>x \<in> dom m. h (the ((m(k \<mapsto> a)) x))) = (\<Sum>x \<in> dom m. h (the (m x)))"
    by (rule sum.cong) (use k in auto)
  then show ?thesis using assms(1) k by (simp add: sum_entries_def)
qed

lemma sum_entries_delete:
  assumes "finite (dom m)" "m k = Some a"
  shows "sum_entries h m = h a + sum_entries h (m(k := None))"
  using sum_entries_insert [of "m(k := None)" k h a] assms by (simp add: fun_upd_idem)

lemma sum_entries_replace:
  assumes "finite (dom m)" "m k = Some a"
  shows "sum_entries h (m(k \<mapsto> b)) + h a = sum_entries h m + h b"
  using sum_entries_delete [OF assms, of h] sum_entries_insert [of "m(k := None)" k h b] assms
  by (simp add: ac_simps)

lemma in_sum_entries:
  assumes "finite (dom m)"
  shows "x \<in># sum_entries h m \<longleftrightarrow> (\<exists>k a. m k = Some a \<and> x \<in># h a)"
proof -
  have "x \<in># sum_entries h m \<longleftrightarrow> (\<exists>k \<in> dom m. x \<in># h (the (m k)))"
    using assms by (simp add: sum_entries_def set_mset_sum)
  then show ?thesis by force
qed

lemma image_mset_sum: "finite A \<Longrightarrow> image_mset f (\<Sum>x \<in> A. h x) = (\<Sum>x \<in> A. image_mset f (h x))"
  by (induction A rule: finite_induct) auto

lemma filter_mset_sum: "finite A \<Longrightarrow> filter_mset P (\<Sum>x \<in> A. h x) = (\<Sum>x \<in> A. filter_mset P (h x))"
  by (induction A rule: finite_induct) auto

lemma mset_concat_map: "mset (concat (map f xs)) = (\<Sum>x \<leftarrow> xs. mset (f x))"
  by (induction xs) auto

end
