(* ===== verification/Subscriber_Tables.thy ===== *)
theory Subscriber_Tables
  imports Subscriber_Control Map_Sums
begin

text \<open>
  The subscriber's two tables stay inverse to each other, every attachment stays mapped and owns
  its three descriptors, and no descriptor is lost or closed twice, through control messages,
  data events, \<open>subscribe\<close> and \<open>run\<close>.
\<close>

section \<open>The invariant\<close>

text \<open>The kernel maps a segment at an address that is not in use.\<close>

definition maps_fresh :: "mmap_answer \<Rightarrow> bool" where
  "maps_fresh mmap \<longleftrightarrow> (\<forall>segs fd addr sd. mmap segs fd = Some (addr, sd) \<longrightarrow> segs addr = None)"

abbreviation by_fd :: "subscriber \<Rightarrow> int \<rightharpoonup> publisher_attachment" where
  "by_fd \<equiv> publisher_attachment_by_data_available_event_fd"

abbreviation by_id :: "subscriber \<Rightarrow> attachment_id \<rightharpoonup> int" where
  "by_id \<equiv> data_available_event_fd_by_attachment_id"

definition attachment_ok :: "(nat \<rightharpoonup> shared_data) \<Rightarrow> int \<Rightarrow> publisher_attachment \<Rightarrow> bool" where
  "attachment_ok segs fd a \<longleftrightarrow> att_data_available_event_fd a = fd \<and> 0 \<le> fd \<and> 0 \<le> shm_fd a
     \<and> 0 \<le> att_space_available_event_fd a \<and> (\<exists>addr. shared_data_at a = Some addr \<and> segs addr \<noteq> None)"

definition tables_inverse :: "(attachment_id \<rightharpoonup> int) \<Rightarrow> (int \<rightharpoonup> publisher_attachment) \<Rightarrow> bool" where
  "tables_inverse ids atts \<longleftrightarrow> (\<forall>i fd. ids i = Some fd \<longrightarrow> atts fd \<noteq> None)
     \<and> (\<forall>fd. atts fd \<noteq> None \<longrightarrow> (\<exists>i. ids i = Some fd))
     \<and> (\<forall>i j fd. ids i = Some fd \<longrightarrow> ids j = Some fd \<longrightarrow> i = j) \<and> finite (dom atts)"

definition separately_mapped :: "(int \<rightharpoonup> publisher_attachment) \<Rightarrow> bool" where
  "separately_mapped atts \<longleftrightarrow> (\<forall>f g a b. atts f = Some a \<longrightarrow> atts g = Some b
     \<longrightarrow> shared_data_at a = shared_data_at b \<longrightarrow> f = g)"

definition sub_inv :: "subscriber \<Rightarrow> sub_world \<Rightarrow> bool" where
  "sub_inv s w \<longleftrightarrow> tables_inverse (by_id s) (by_fd s) \<and> separately_mapped (by_fd s)
     \<and> (\<forall>fd a. by_fd s fd = Some a \<longrightarrow> attachment_ok (segments w) fd a)"

lemma sub_invD:
  assumes "sub_inv s w"
  shows "tables_inverse (by_id s) (by_fd s)" "separately_mapped (by_fd s)"
    "by_fd s fd = Some a \<Longrightarrow> attachment_ok (segments w) fd a"
  using assms by (simp_all add: sub_inv_def)

lemma tables_inverseD:
  assumes "tables_inverse ids atts"
  shows "ids i = Some fd \<Longrightarrow> atts fd \<noteq> None" "atts fd \<noteq> None \<Longrightarrow> \<exists>i. ids i = Some fd"
    "ids i = Some fd \<Longrightarrow> ids j = Some fd \<Longrightarrow> i = j" "finite (dom atts)"
  using assms unfolding tables_inverse_def by blast+

lemma tables_inverse_insert:
  assumes t: "tables_inverse ids atts" and i: "ids i = None" and fd: "atts fd = None"
  shows "tables_inverse (ids(i \<mapsto> fd)) (atts(fd \<mapsto> a))"
proof -
  note d = tables_inverseD [OF t]
  have "\<exists>j. (ids(i \<mapsto> fd)) j = Some g" if "(atts(fd \<mapsto> a)) g \<noteq> None" for g
  proof (cases "g = fd")
    case False
    with that d(2) obtain j where "ids j = Some g" by auto
    with i have "(ids(i \<mapsto> fd)) j = Some g" by auto
    then show ?thesis ..
  qed auto
  moreover have "j = k" if "(ids(i \<mapsto> fd)) j = Some g" "(ids(i \<mapsto> fd)) k = Some g" for j k g
    using that d(1) [of j fd] d(1) [of k fd] d(3) [of j g k] fd by (simp split: if_split_asm)
  moreover have "(atts(fd \<mapsto> a)) g \<noteq> None" if "(ids(i \<mapsto> fd)) j = Some g" for j g
    using that d(1) [of j g] by (auto split: if_splits)
  moreover have "finite (dom (atts(fd \<mapsto> a)))" using d(4) by simp
  ultimately show ?thesis unfolding tables_inverse_def by blast
qed

lemma tables_inverse_delete:
  assumes t: "tables_inverse ids atts" and i: "ids i = Some fd"
  shows "tables_inverse (ids(i := None)) (atts(fd := None))"
proof -
  note d = tables_inverseD [OF t]
  have "\<exists>j. (ids(i := None)) j = Some g" if "(atts(fd := None)) g \<noteq> None" for g
  proof -
    from that have "g \<noteq> fd" "atts g \<noteq> None" by (auto split: if_splits)
    from d(2) [OF this(2)] obtain j where "ids j = Some g" by blast
    with i \<open>g \<noteq> fd\<close> have "(ids(i := None)) j = Some g" by auto
    then show ?thesis ..
  qed
  moreover have "(atts(fd := None)) g \<noteq> None" if "(ids(i := None)) j = Some g" for j g
  proof -
    from that have j: "ids j = Some g" "j \<noteq> i" by (simp_all split: if_split_asm)
    with d(3) i have "g \<noteq> fd" by blast
    with d(1) [OF j(1)] show ?thesis by simp
  qed
  moreover have "j = k" if "(ids(i := None)) j = Some g" "(ids(i := None)) k = Some g" for j k g
    using that d(3) [of j g k] by (simp split: if_split_asm)
  moreover have "finite (dom (atts(fd := None)))" using d(4) by simp
  ultimately show ?thesis unfolding tables_inverse_def by blast
qed

lemma tables_inverse_replace:
  assumes t: "tables_inverse ids atts" and fd: "atts fd \<noteq> None"
  shows "tables_inverse ids (atts(fd \<mapsto> a))"
proof -
  note d = tables_inverseD [OF t]
  have "(atts(fd \<mapsto> a)) g \<noteq> None \<longleftrightarrow> atts g \<noteq> None" for g using fd by auto
  moreover have "finite (dom (atts(fd \<mapsto> a)))" using d(4) by simp
  ultimately show ?thesis using d(1,2,3) unfolding tables_inverse_def by metis
qed

section \<open>Owned descriptors\<close>

definition attachment_fds :: "publisher_attachment \<Rightarrow> int multiset" where
  "attachment_fds a = {#shm_fd a, att_space_available_event_fd a, att_data_available_event_fd a#}"

definition sub_owned :: "subscriber \<Rightarrow> int multiset" where
  "sub_owned s = sum_entries attachment_fds (by_fd s)"

definition sub_account :: "subscriber \<Rightarrow> sub_world \<Rightarrow> int multiset" where
  "sub_account s w = sub_owned s + mset (sub_closed w)"

text \<open>What control messages and data events leave alone: the object's own descriptors, and the
  segments that belong to no attachment.\<close>

definition own_fds :: "subscriber \<Rightarrow> int list" where
  "own_fds s = [sub_shutdown_event_fd s, sub_worker_exit_event_fd s, sub_epoll_fd s, sub_broker_fd s]"

definition attached_at :: "(int \<rightharpoonup> publisher_attachment) \<Rightarrow> nat set" where
  "attached_at atts = {addr. \<exists>fd a. atts fd = Some a \<and> shared_data_at a = Some addr}"

definition sub_frame :: "subscriber \<Rightarrow> sub_world \<Rightarrow> u32 \<times> int list \<times> nat set" where
  "sub_frame s w = (sub_flags s, own_fds s, dom (segments w) - attached_at (by_fd s))"

lemma sub_frame_update [simp]:
  "sub_frame (s\<lparr>sub_events := es\<rparr>) w = sub_frame s w"
  "sub_frame s (w\<lparr>sub_closed := fds\<rparr>) = sub_frame s w"
  by (simp_all add: sub_frame_def own_fds_def)

lemma attached_at_update:
  "attached_at (atts(fd := v)) =
     (case v of None \<Rightarrow> {} | Some a \<Rightarrow> set_option (shared_data_at a))
     \<union> {addr. \<exists>f a. f \<noteq> fd \<and> atts f = Some a \<and> shared_data_at a = Some addr}"
  by (rule set_eqI) (cases v; auto simp: attached_at_def)

lemma attached_at_split:
  "attached_at atts =
     (case atts fd of None \<Rightarrow> {} | Some a \<Rightarrow> set_option (shared_data_at a))
     \<union> {addr. \<exists>f a. f \<noteq> fd \<and> atts f = Some a \<and> shared_data_at a = Some addr}"
  using attached_at_update [of atts fd "atts fd"] by (simp add: fun_upd_idem)

lemma attached_at_insert:
  "atts fd = None \<Longrightarrow> shared_data_at a = Some addr \<Longrightarrow> attached_at (atts(fd \<mapsto> a)) = insert addr (attached_at atts)"
  by (simp add: attached_at_update attached_at_split [of atts fd])

lemma attached_at_replace:
  "atts fd = Some a \<Longrightarrow> shared_data_at b = shared_data_at a \<Longrightarrow> attached_at (atts(fd \<mapsto> b)) = attached_at atts"
  by (simp add: attached_at_update attached_at_split [of atts fd])

lemma attached_at_delete:
  assumes "atts fd = Some a" "shared_data_at a = Some addr" "separately_mapped atts"
  shows "attached_at (atts(fd := None)) = attached_at atts - {addr}"
proof -
  have "addr \<notin> {addr. \<exists>f a. f \<noteq> fd \<and> atts f = Some a \<and> shared_data_at a = Some addr}"
  proof
    assume "addr \<in> {addr. \<exists>f a. f \<noteq> fd \<and> atts f = Some a \<and> shared_data_at a = Some addr}"
    then obtain f b where "f \<noteq> fd" "atts f = Some b" "shared_data_at b = Some addr" by blast
    with assms show False unfolding separately_mapped_def by metis
  qed
  then show ?thesis using assms(1,2) by (simp add: attached_at_update attached_at_split [of atts fd])
qed

lemma sub_close_fd_simps [simp]:
  "0 \<le> fd \<Longrightarrow> sub_closed (sub_close_fd fd w) = sub_closed w @ [fd]"
  "segments (sub_close_fd fd w) = segments w"
  by (simp_all add: sub_close_fd_def)

lemma release_publisher_attachment_effect:
  assumes "0 \<le> shm_fd a" "0 \<le> att_space_available_event_fd a" "0 \<le> att_data_available_event_fd a"
  shows "sub_closed (snd (release_publisher_attachment a w))
      = sub_closed w @ [shm_fd a, att_space_available_event_fd a, att_data_available_event_fd a]"
    "segments (snd (release_publisher_attachment a w))
      = (case shared_data_at a of None \<Rightarrow> segments w | Some addr \<Rightarrow> (segments w)(addr := None))"
  using assms by (simp_all add: release_publisher_attachment_def Let_def split: option.split)

section \<open>Installing\<close>

definition fds_ok :: "int \<times> int \<times> int \<Rightarrow> bool" where
  "fds_ok = (\<lambda>(shm, space, data). 0 \<le> shm \<and> 0 \<le> space \<and> 0 \<le> data)"

definition fds_mset :: "int \<times> int \<times> int \<Rightarrow> int multiset" where
  "fds_mset = (\<lambda>(shm, space, data). {#shm, space, data#})"

lemma install_attachment_ok:
  assumes inv: "sub_inv s w" and fresh: "maps_fresh mmap" and fds: "fds_ok taken"
    and code: "install_attachment mmap watch meta taken s w = (ok, s', w')"
  shows "sub_inv s' w' \<and> sub_account s' w' = sub_account s w + fds_mset taken \<and> sub_frame s' w' = sub_frame s w"
proof -
  obtain ident topic slot shm space data where
    m: "meta = (ident, topic, slot)" "taken = (shm, space, data)" by (cases meta; cases taken) auto
  from fds m have nn: "0 \<le> shm" "0 \<le> space" "0 \<le> data" by (simp_all add: fds_ok_def)
  let ?a = "empty_attachment\<lparr>att_topic_id := topic, slot_index := slot, shm_fd := shm,
           att_space_available_event_fd := space, att_data_available_event_fd := data\<rparr>"
  have closed: ?thesis if "s' = s" "sub_closed w' = sub_closed w @ [shm, space, data]" "segments w' = segments w"
    using inv that m by (simp add: sub_inv_def sub_account_def fds_mset_def sub_frame_def)
  show ?thesis
  proof (cases "mmap (segments w) shm")
    case None
    with code m nn show ?thesis
      by (intro closed) (auto simp: install_attachment_def release_publisher_attachment_effect empty_attachment_def)
  next
    case (Some r)
    then obtain addr sd where mm: "mmap (segments w) shm = Some (addr, sd)" by (cases r) auto
    with fresh have free: "segments w addr = None" by (auto simp: maps_fresh_def)
    then have undo: "(segments w)(addr := None) = segments w" by auto
    show ?thesis
    proof (cases "\<not> watch data \<or> by_id s ident \<noteq> None \<or> by_fd s data \<noteq> None")
      case True
      with code m nn mm undo show ?thesis
        by (intro closed) (auto simp: install_attachment_def Let_def release_publisher_attachment_effect
          split: if_splits)
    next
      case False
      let ?b = "?a\<lparr>shared_data_at := Some addr\<rparr>"
      from False code m mm have s': "by_id s' = (by_id s)(ident \<mapsto> data)" "by_fd s' = (by_fd s)(data \<mapsto> ?b)"
        and own: "sub_flags s' = sub_flags s" "own_fds s' = own_fds s"
        and w': "segments w' = (segments w)(addr \<mapsto> sd)" "sub_closed w' = sub_closed w"
        by (auto simp: install_attachment_def Let_def own_fds_def)
      have t: "tables_inverse (by_id s') (by_fd s')"
        unfolding s' using False by (intro tables_inverse_insert sub_invD(1) [OF inv]) auto
      have old: "shared_data_at b \<noteq> Some addr" if "by_fd s fd = Some b" for fd b
        using sub_invD(3) [OF inv that] free by (auto simp: attachment_ok_def)
      have "separately_mapped (by_fd s')"
        using sub_invD(2) [OF inv] old unfolding s' separately_mapped_def
        by (auto split: if_splits) metis+
      moreover have "attachment_ok (segments w') fd b" if "by_fd s' fd = Some b" for fd b
        using that sub_invD(3) [OF inv, of fd b] nn unfolding s' w'
        by (auto simp: attachment_ok_def split: if_splits)
      ultimately have "sub_inv s' w'" using t by (simp add: sub_inv_def)
      moreover have "sub_owned s' = attachment_fds ?b + sub_owned s"
        unfolding sub_owned_def s'(2) using False sub_invD(1) [OF inv]
        by (intro sum_entries_insert) (auto simp: tables_inverse_def)
      moreover have "attached_at (by_fd s') = insert addr (attached_at (by_fd s))"
        unfolding s'(2) by (rule attached_at_insert) (use False in simp_all)
      then have "sub_frame s' w' = sub_frame s w"
        using own w'(1) free by (auto simp: sub_frame_def)
      ultimately show ?thesis
        using w' m by (simp add: sub_account_def attachment_fds_def fds_mset_def)
    qed
  qed
qed

lemma close_each_update:
  "i < length fds \<Longrightarrow> 0 \<le> fds ! i \<Longrightarrow>
   mset (close_each fds) = {#fds ! i#} + mset (close_each (fds[i := -1]))"
proof (induction fds arbitrary: i)
  case (Cons fd fds)
  then show ?case by (cases i) (auto simp: close_each_def)
qed simp

lemma close_each_take_three:
  assumes "3 * k + 3 \<le> length fds" "\<forall>i < length fds. 3 * k \<le> i \<longrightarrow> 0 \<le> fds ! i"
  shows "mset (close_each fds) = fds_mset (fds ! (3 * k), fds ! (3 * k + 1), fds ! (3 * k + 2))
    + mset (close_each (fds[3 * k := -1, 3 * k + 1 := -1, 3 * k + 2 := -1]))"
  using close_each_update [of "3 * k" fds] close_each_update [of "3 * k + 1" "fds[3 * k := -1]"]
    close_each_update [of "3 * k + 2" "fds[3 * k := -1, 3 * k + 1 := -1]"] assms
  by (simp add: fds_mset_def)

lemma read_attachment_metadata_defined:
  "off + 13 \<le> length packet \<Longrightarrow> read_attachment_metadata packet off \<noteq> None"
  by (simp add: read_attachment_metadata_def field_u64_def field_u8_def field_u32_def field_def)

lemma install_attachments_ok:
  assumes "sub_inv s w" "maps_fresh mmap" "length fds = 3 * (k + n)"
    "\<forall>i < length fds. 3 * k \<le> i \<longrightarrow> 0 \<le> fds ! i" "off + 13 * n \<le> length packet"
  shows "\<exists>ok fds' s' w'. install_attachments mmap watch packet n off k fds s w = Some (ok, fds', s', w')
    \<and> sub_inv s' w' \<and> length fds' = length fds \<and> sub_frame s' w' = sub_frame s w
    \<and> sub_account s' w' + mset (close_each fds') = sub_account s w + mset (close_each fds)"
  using assms
proof (induction n arbitrary: off k fds s w)
  case 0
  then show ?case by (intro exI [of _ True]) simp
next
  case (Suc n)
  from Suc.prems(5) read_attachment_metadata_defined [of off packet] obtain meta where
    m: "read_attachment_metadata packet off = Some meta" by fastforce
  let ?taken = "(fds ! (3 * k), fds ! (3 * k + 1), fds ! (3 * k + 2))"
  let ?fds = "fds[3 * k := -1, 3 * k + 1 := -1, 3 * k + 2 := -1]"
  have len: "\<not> length fds < 3 * k + 3" using Suc.prems(3) by simp
  have taken: "fds_ok ?taken" using Suc.prems(3,4) by (simp add: fds_ok_def)
  have acc: "mset (close_each fds) = fds_mset ?taken + mset (close_each ?fds)"
    using close_each_take_three [of k fds] Suc.prems(3,4) by simp
  obtain ok s1 w1 where i: "install_attachment mmap watch meta ?taken s w = (ok, s1, w1)"
    by (metis prod_cases3)
  note r = install_attachment_ok [OF Suc.prems(1,2) taken i]
  have code: "install_attachments mmap watch packet (Suc n) off k fds s w = (if \<not> ok then Some (False, ?fds, s1, w1)
      else install_attachments mmap watch packet n (off + 13) (k + 1) ?fds s1 w1)"
    using i by (simp add: m len Let_def kSubscriberAttachmentMetadataSize_def)
  show ?case
  proof (cases ok)
    case False
    then have "install_attachments mmap watch packet (Suc n) off k fds s w = Some (False, ?fds, s1, w1)"
      unfolding code by simp
    with r acc show ?thesis by (intro exI conjI) (assumption | simp)+
  next
    case True
    have "\<exists>ok fds' s' w'. install_attachments mmap watch packet n (off + 13) (k + 1) ?fds s1 w1 = Some (ok, fds', s', w')
        \<and> sub_inv s' w' \<and> length fds' = length ?fds \<and> sub_frame s' w' = sub_frame s1 w1
        \<and> sub_account s' w' + mset (close_each fds') = sub_account s1 w1 + mset (close_each ?fds)"
      using r Suc.prems by (intro Suc.IH) (auto simp: nth_list_update)
    then obtain ok' fds' s' w' where
      "install_attachments mmap watch packet n (off + 13) (k + 1) ?fds s1 w1 = Some (ok', fds', s', w')"
      "sub_inv s' w'" "length fds' = length ?fds" "sub_frame s' w' = sub_frame s1 w1"
      "sub_account s' w' + mset (close_each fds') = sub_account s1 w1 + mset (close_each ?fds)" by blast
    moreover from this(1) True
    have "install_attachments mmap watch packet (Suc n) off k fds s w = Some (ok', fds', s', w')"
      unfolding code by simp
    ultimately show ?thesis using r acc by (intro exI conjI) (assumption | simp)+
  qed
qed

section \<open>Control messages\<close>

text \<open>The result of one message: the invariant, and all received descriptors accounted for.\<close>

definition accounts_for :: "subscriber \<Rightarrow> sub_world \<Rightarrow> int list \<Rightarrow> subscriber \<Rightarrow> sub_world \<Rightarrow> bool" where
  "accounts_for s w fds s' w' \<longleftrightarrow> sub_inv s' w' \<and> sub_account s' w' = sub_account s w + mset fds
     \<and> sub_frame s' w' = sub_frame s w"

lemma sub_inv_closed [simp]: "sub_inv s (w\<lparr>sub_closed := c\<rparr>) = sub_inv s w"
  by (simp add: sub_inv_def)

lemma sub_account_guarded:
  "sub_account s (sub_close_guarded cmsg w) = sub_account s w + mset (close_received_fds cmsg)"
  by (simp add: sub_account_def sub_close_guarded_def)

lemma accounts_for_unchanged:
  assumes "sub_inv s w" "control_ok cmsg"
  shows "accounts_for s w (control_fds cmsg) s (sub_close_guarded cmsg w)"
  using assms close_received_fds_all [OF assms(2)]
  by (simp add: accounts_for_def sub_account_guarded) (simp add: sub_close_guarded_def)

lemma install_batch_ok:
  assumes inv: "sub_inv s w" and fresh: "maps_fresh mmap" and ok: "control_ok cmsg"
    and len: "length packet = 1 + body_len"
  shows "\<exists>b cmsg' s' w'. install_subscriber_attachment_batch mmap watch packet body_len cmsg s w = Some (b, cmsg', s', w')
    \<and> accounts_for s w (control_fds cmsg) s' (sub_close_guarded cmsg' w')"
proof -
  note same = accounts_for_unchanged [OF inv ok]
  show ?thesis
  proof (cases "body_len mod 13 \<noteq> 0 \<or> body_len div 13 = 0 \<or> \<not> is_valid_scm_rights_cmsg cmsg")
    case True
    with same show ?thesis
      by (auto simp: install_subscriber_attachment_batch_def kSubscriberAttachmentMetadataSize_def Let_def)
  next
    case False
    then obtain c where c: "cmsg = Some c" by (cases cmsg) (auto simp: is_valid_scm_rights_cmsg_def)
    with ok have cl: "cmsg_level c = SOL_SOCKET" "cmsg_type c = SCM_RIGHTS"
      "cmsg_len c = CMSG_LEN (4 * length (cmsg_fds c))" and nn: "\<forall>fd \<in> set (cmsg_fds c). 0 \<le> fd"
      by (auto simp: control_ok_def)
    show ?thesis
    proof (cases "length (cmsg_fds c) = body_len div 13 * 3")
      case no: False
      with False c cl same show ?thesis
        by (intro exI [of _ False]) (simp add: install_subscriber_attachment_batch_def kSubscriberAttachmentMetadataSize_def Let_def CMSG_LEN_def)
    next
      case True
      let ?n = "body_len div 13"
      have b: "body_len = 13 * ?n" using False by auto
      have "\<exists>ok fds' s' w'. install_attachments mmap watch packet ?n 1 0 (cmsg_fds c) s w = Some (ok, fds', s', w')
        \<and> sub_inv s' w' \<and> length fds' = length (cmsg_fds c) \<and> sub_frame s' w' = sub_frame s w
        \<and> sub_account s' w' + mset (close_each fds') = sub_account s w + mset (close_each (cmsg_fds c))"
        using True nn len b by (intro install_attachments_ok [OF inv fresh]) auto
      then obtain k fds' s' w' where
        i: "install_attachments mmap watch packet ?n 1 0 (cmsg_fds c) s w = Some (k, fds', s', w')"
          "sub_inv s' w'" "length fds' = length (cmsg_fds c)"
          "sub_account s' w' + mset (close_each fds') = sub_account s w + mset (close_each (cmsg_fds c))"
          "sub_frame s' w' = sub_frame s w" by blast
      have all: "close_each (cmsg_fds c) = cmsg_fds c" using nn by (simp add: close_each_def filter_id_conv)
      have rest: "close_received_fds (Some (c\<lparr>cmsg_fds := fds'\<rparr>)) = close_each fds'"
        using cl i(3) by (subst close_received_fds_len) simp_all
      have "accounts_for s w (cmsg_fds c) s' (sub_close_guarded (Some (c\<lparr>cmsg_fds := fds'\<rparr>)) w')"
        unfolding accounts_for_def sub_account_guarded rest using i(2,4,5) all
        by (simp add: sub_close_guarded_def)
      with False c cl True i(1) show ?thesis
        by (simp add: install_subscriber_attachment_batch_def kSubscriberAttachmentMetadataSize_def Let_def
          CMSG_LEN_def control_fds_def)
    qed
  qed
qed

lemma handle_publisher_disconnected_ok:
  assumes inv: "sub_inv s w" and len: "length packet = 1 + body_len"
  shows "\<exists>e s' w'. handle_publisher_disconnected packet body_len s w = Some (e, s', w')
    \<and> sub_inv s' w' \<and> sub_account s' w' = sub_account s w \<and> sub_frame s' w' = sub_frame s w
    \<and> e \<noteq> PublisherDisconnectedEventFdMissing"
proof (cases "body_len = 8")
  case False
  with inv show ?thesis by (simp add: handle_publisher_disconnected_def)
next
  case True
  with len obtain ident where id: "field_u64 packet 1 = Some ident"
    by (cases "field_u64 packet 1") (auto simp: field_u64_def field_def)
  show ?thesis
  proof (cases "by_id s ident")
    case None
    with inv True id show ?thesis by (simp add: handle_publisher_disconnected_def)
  next
    case (Some fd)
    note t = sub_invD(1) [OF inv]
    from tables_inverseD(1) [OF t Some] obtain a where a: "by_fd s fd = Some a" by blast
    from sub_invD(3) [OF inv a] obtain addr where ok: "att_data_available_event_fd a = fd" "0 \<le> fd" "0 \<le> shm_fd a"
      "0 \<le> att_space_available_event_fd a" "shared_data_at a = Some addr"
      by (auto simp: attachment_ok_def)
    let ?s = "s\<lparr>data_available_event_fd_by_attachment_id := (by_id s)(ident := None),
      publisher_attachment_by_data_available_event_fd := (by_fd s)(fd := None)\<rparr>"
    let ?w = "snd (release_publisher_attachment a w)"
    have e: "sub_closed ?w = sub_closed w @ [shm_fd a, att_space_available_event_fd a, fd]"
      "segments ?w = (segments w)(addr := None)"
      using ok by (simp_all add: release_publisher_attachment_effect)
    have "tables_inverse ((by_id s)(ident := None)) ((by_fd s)(fd := None))"
      by (rule tables_inverse_delete [OF t Some])
    moreover have sep: "separately_mapped ((by_fd s)(fd := None))"
      using sub_invD(2) [OF inv] unfolding separately_mapped_def by (auto split: if_splits)
    moreover have "attachment_ok ((segments w)(addr := None)) g b" if "((by_fd s)(fd := None)) g = Some b" for g b
    proof -
      from that have g: "g \<noteq> fd" "by_fd s g = Some b" by (auto split: if_splits)
      with sub_invD(2) [OF inv] a ok(5) have "shared_data_at b \<noteq> Some addr"
        unfolding separately_mapped_def by metis
      with sub_invD(3) [OF inv g(2)] show ?thesis by (auto simp: attachment_ok_def)
    qed
    ultimately have "sub_inv ?s ?w" unfolding sub_inv_def by (simp add: e(2))
    moreover have "sub_account ?s ?w = sub_account s w"
      using sum_entries_delete [where m = "by_fd s" and h = attachment_fds, OF tables_inverseD(4) [OF t] a] ok(1)
      by (simp add: sub_account_def sub_owned_def e(1) attachment_fds_def)
    moreover have "sub_frame ?s ?w = sub_frame s w"
      using attached_at_delete [OF a ok(5) sub_invD(2) [OF inv]] a ok(5)
      by (auto simp: sub_frame_def own_fds_def e(2) attached_at_def)
    ultimately show ?thesis
      using True id Some a by (simp add: handle_publisher_disconnected_def)
  qed
qed

lemma sub_handle_broker_message_ok:
  assumes inv: "sub_inv s w" and fresh: "maps_fresh mmap" and ok: "control_ok (msg_control msg)"
  shows "\<exists>b cmsg s' w'. sub_handle_broker_message mmap watch msg s w = Some (b, cmsg, s', w')
    \<and> accounts_for s w (control_fds (msg_control msg)) s' (sub_close_guarded cmsg w')"
proof -
  note same = accounts_for_unchanged [OF inv ok]
  show ?thesis
  proof (cases "msg_bytes msg")
    case Nil
    with same show ?thesis by (intro exI [of _ False]) (simp add: sub_handle_broker_message_def)
  next
    case (Cons x xs)
    then have len: "length (msg_bytes msg) = 1 + (length (msg_bytes msg) - 1)" by simp
    consider (b) "\<not> msg_truncated msg" "message_type_of x = Some SubscriberAttachmentBatch"
      | (d) "\<not> msg_truncated msg" "message_type_of x = Some PublisherDisconnected"
      | (o) "msg_truncated msg \<or> message_type_of x \<noteq> Some SubscriberAttachmentBatch
          \<and> message_type_of x \<noteq> Some PublisherDisconnected" by blast
    then show ?thesis
    proof cases
      case b
      with install_batch_ok [OF inv fresh ok len, of watch] Cons show ?thesis
        by (simp add: sub_handle_broker_message_def Let_def)
    next
      case d
      from handle_publisher_disconnected_ok [OF inv len] obtain e s' w' where
        h: "handle_publisher_disconnected (msg_bytes msg) (length (msg_bytes msg) - 1) s w = Some (e, s', w')"
          "sub_inv s' w'" "sub_account s' w' = sub_account s w" "sub_frame s' w' = sub_frame s w" by blast
      have "accounts_for s w (control_fds (msg_control msg)) s' (sub_close_guarded (msg_control msg) w')"
        using h(2-4) close_received_fds_all [OF ok]
        by (simp add: accounts_for_def sub_account_guarded) (simp add: sub_close_guarded_def)
      with d Cons h(1) show ?thesis by (simp add: sub_handle_broker_message_def Let_def)
    next
      case o
      with same Cons show ?thesis
        by (intro exI [of _ False]) (auto simp: sub_handle_broker_message_def Let_def split: option.split broker_message_type.split)
    qed
  qed
qed

lemma accounts_for_trans:
  "accounts_for s w xs s' w' \<Longrightarrow> accounts_for s' w' ys s'' w'' \<Longrightarrow> accounts_for s w (xs @ ys) s'' w''"
  by (simp add: accounts_for_def)

definition answer_ok :: "received \<Rightarrow> bool" where
  "answer_ok answer = (case answer of RecvErr _ \<Rightarrow> True | RecvMsg msg \<Rightarrow> control_ok (msg_control msg))"

definition answer_fds :: "received \<Rightarrow> int list" where
  "answer_fds answer = (case answer of RecvErr _ \<Rightarrow> [] | RecvMsg msg \<Rightarrow> control_fds (msg_control msg))"

lemma sub_process_broker_control_messages_ok:
  assumes "sub_process_broker_control_messages mmap watch answers s w = Some (b, rest, s', w')"
    "sub_inv s w" "maps_fresh mmap" "\<forall>a \<in> set answers. answer_ok a"
  shows "\<exists>used. answers = used @ rest \<and> accounts_for s w (concat (map answer_fds used)) s' w'"
  using assms
proof (induction mmap watch answers s w rule: sub_process_broker_control_messages.induct)
  case (1 mmap watch s w)
  then show ?case by simp
next
  case (2 mmap watch errno answers s w)
  then show ?case by (intro exI [of _ "[RecvErr errno]"]) (simp add: accounts_for_def answer_fds_def)
next
  case (3 mmap watch msg answers s w)
  from "3.prems"(4) have "control_ok (msg_control msg)" by (simp add: answer_ok_def)
  from sub_handle_broker_message_ok [OF "3.prems"(2,3) this, of watch] obtain k cmsg s1 w1 where
    h: "sub_handle_broker_message mmap watch msg s w = Some (k, cmsg, s1, w1)"
    and a: "accounts_for s w (control_fds (msg_control msg)) s1 (sub_close_guarded cmsg w1)" by blast
  show ?case
  proof (cases k)
    case False
    with h "3.prems"(1) a show ?thesis
      by (intro exI [of _ "[RecvMsg msg]"]) (auto simp: answer_fds_def Let_def)
  next
    case True
    with h "3.prems"(1) have "sub_process_broker_control_messages mmap watch answers s1 (sub_close_guarded cmsg w1)
        = Some (b, rest, s', w')" by (simp add: Let_def)
    from "3.IH" [OF h refl refl refl refl _ this] True a "3.prems"(3,4) obtain used where
      "answers = used @ rest" "accounts_for s1 (sub_close_guarded cmsg w1) (concat (map answer_fds used)) s' w'"
      by (auto simp: accounts_for_def)
    with accounts_for_trans [OF a this(2)] show ?thesis
      by (intro exI [of _ "RecvMsg msg # used"]) (simp add: answer_fds_def [of "RecvMsg msg"])
  qed
qed

section \<open>Data events\<close>

text \<open>Consuming changes only the position of an attachment.\<close>

definition same_attachment :: "publisher_attachment \<Rightarrow> publisher_attachment \<Rightarrow> bool" where
  "same_attachment a b \<longleftrightarrow> att_topic_id b = att_topic_id a \<and> shm_fd b = shm_fd a
     \<and> shared_data_at b = shared_data_at a \<and> slot_index b = slot_index a
     \<and> att_space_available_event_fd b = att_space_available_event_fd a
     \<and> att_data_available_event_fd b = att_data_available_event_fd a"

lemma same_attachment_refl [simp]: "same_attachment a a"
  by (simp add: same_attachment_def)

lemma same_attachment_trans: "same_attachment a b \<Longrightarrow> same_attachment b c \<Longrightarrow> same_attachment a c"
  by (simp add: same_attachment_def)

lemma check_descriptor_same: "check_descriptor d a sd = Some (r, a') \<Longrightarrow> same_attachment a a'"
  by (auto simp: check_descriptor_def Let_def bind_eq_Some_conv same_attachment_def split: if_split_asm)

lemma release_message_same:
  "release_message sig d a sd w = Some (r, a', sd', w') \<Longrightarrow> same_attachment a a'"
  by (auto simp: release_message_def Let_def bind_eq_Some_conv same_attachment_def split: if_split_asm)

lemma read_descriptor_same:
  assumes "read_descriptor sig flags d a sd w = Some (r, a', sd', w')"
  shows "same_attachment a a'"
proof -
  from assms obtain checked a1 where c: "check_descriptor d a sd = Some (checked, a1)"
    by (auto simp: read_descriptor_def bind_eq_Some_conv)
  show ?thesis
  proof (cases checked)
    case (Inl e)
    with assms c check_descriptor_same [OF c] show ?thesis by (simp add: read_descriptor_def)
  next
    case (Inr payload)
    with assms c obtain n f w1 where "release_message sig d (a1\<lparr>expected_seq := n\<rparr>) sd w1 = Some (f, a', sd', w')"
      by (auto simp: read_descriptor_def bind_eq_Some_conv Let_def split: if_split_asm)
    from check_descriptor_same [OF c] release_message_same [OF this] show ?thesis
      by (simp add: same_attachment_def)
  qed
qed

lemma read_data_same: "read_data sig flags ds a sd w = Some (r, a', sd', w') \<Longrightarrow> same_attachment a a'"
proof (induction ds arbitrary: a sd w r)
  case (Cons d ds)
  from Cons.prems obtain q a1 sd1 w1 where d: "read_descriptor sig flags d a sd w = Some (q, a1, sd1, w1)"
    by (auto simp: bind_eq_Some_conv)
  show ?case
  proof (cases q)
    case (Inl e)
    with Cons.prems d read_descriptor_same [OF d] show ?thesis by simp
  next
    case (Inr ms)
    with Cons.prems d obtain r2 where "read_data sig flags ds a1 sd1 w1 = Some (r2, a', sd', w')"
      by (auto simp: bind_eq_Some_conv)
    from Cons.IH [OF this] read_descriptor_same [OF d] show ?thesis by (rule same_attachment_trans [rotated])
  qed
qed simp

lemma consume_loop_same_aux:
  "consume_loop sig flags wr ms a sd w = Some y \<Longrightarrow> same_attachment a (fst (snd y))"
proof (erule consume_loop.raw_induct [rotated])
  fix loop :: "(int \<Rightarrow> bool) \<Rightarrow> u32 \<Rightarrow> u32 \<Rightarrow> message_batch \<Rightarrow> publisher_attachment \<Rightarrow> shared_data \<Rightarrow> consumer_io
     \<Rightarrow> ((sub_run_error + message_batch) \<times> publisher_attachment \<times> shared_data \<times> consumer_io) option"
  fix sig flags wr ms a sd w y
  assume IH: "\<And>sig flags wr ms a sd w y. loop sig flags wr ms a sd w = Some y \<Longrightarrow> same_attachment a (fst (snd y))"
    and code: "(if subscriber_read_index a < wr then do {
        descriptors \<leftarrow> copy_descriptors sd (unat (subscriber_read_index a)) (unat wr);
        (result, a, sd, w) \<leftarrow> read_data sig flags descriptors a sd w;
        case result of
          Inl e \<Rightarrow> Some (Inl e, a, sd, w)
        | Inr batch \<Rightarrow> loop sig flags (descriptor_write_index sd) (ms @ batch) a sd w
      } else Some (Inr ms, a, sd, w)) = Some y"
  show "same_attachment a (fst (snd y))"
  proof (cases "subscriber_read_index a < wr")
    case False
    with code show ?thesis by auto
  next
    case True
    with code obtain ds q a1 sd1 w1 where d: "read_data sig flags ds a sd w = Some (q, a1, sd1, w1)"
      and k: "(case q of Inl e \<Rightarrow> Some (Inl e, a1, sd1, w1)
        | Inr batch \<Rightarrow> loop sig flags (descriptor_write_index sd1) (ms @ batch) a1 sd1 w1) = Some y"
      by (auto simp: bind_eq_Some_conv)
    show ?thesis
    proof (cases q)
      case (Inl e)
      with k read_data_same [OF d] show ?thesis by auto
    next
      case (Inr batch)
      with k have "loop sig flags (descriptor_write_index sd1) (ms @ batch) a1 sd1 w1 = Some y" by simp
      from same_attachment_trans [OF read_data_same [OF d] IH [OF this]] show ?thesis .
    qed
  qed
qed

lemma consume_loop_same:
  "consume_loop sig flags wr ms a sd w = Some (r, a', sd', w') \<Longrightarrow> same_attachment a a'"
  using consume_loop_same_aux by fastforce

lemma consume_attachment_same:
  assumes "consume_attachment sig flags a sd w = Some (r, a', sd', w')"
  shows "same_attachment a a'"
proof -
  from assms obtain a1 where i: "initialize_subscriber_read_index a sd = Some a1"
    by (auto simp: consume_attachment_def bind_eq_Some_conv)
  have s1: "same_attachment a a1"
    using i by (auto simp: initialize_subscriber_read_index_def same_attachment_def bind_eq_Some_conv split: if_split_asm)
  from assms i obtain q a2 sd2 w2 where
    wr: "(if subscriber_read_index a1 > descriptor_write_index sd then do {
          descriptors \<leftarrow> copy_descriptors sd (unat (subscriber_read_index a1)) (unat kDescriptorSlotCount);
          read_data sig flags descriptors a1 sd w
        } else Some (Inr [], a1, sd, w)) = Some (q, a2, sd2, w2)"
    and k: "(case q of
       Inl e \<Rightarrow> Some (Inl WrappedDescriptorReadFailed, a2, sd2, w2)
     | Inr messages \<Rightarrow> do {
         (result, a, sd, w) \<leftarrow> consume_contiguous_messages sig flags a2 sd2 w2;
         Some (map_sum id ((@) messages) result, a, sd, w)
       }) = Some (r, a', sd', w')"
    unfolding consume_attachment_def by (auto simp: bind_eq_Some_conv)
  have "same_attachment a1 a2"
    using wr by (auto simp: bind_eq_Some_conv split: if_split_asm intro: read_data_same)
  moreover have "same_attachment a2 a'"
    using k by (cases q) (auto simp: bind_eq_Some_conv consume_contiguous_messages_def intro: consume_loop_same)
  ultimately show ?thesis using s1 by (blast intro: same_attachment_trans)
qed

text \<open>A data event keeps the tables and the account.\<close>

lemma handle_data_available_event_accounts:
  assumes inv: "sub_inv s w" and code: "handle_data_available_event sig drain fd s w = Some (r, s', w')"
  shows "accounts_for s w [] s' w' \<and> sub_events s' = sub_events s"
proof (cases "by_fd s fd = None \<or> \<not> drain fd")
  case True
  with assms show ?thesis
    by (auto simp: handle_data_available_event_def accounts_for_def split: option.split_asm if_split_asm)
next
  case False
  then obtain a where a: "by_fd s fd = Some a" by auto
  from False a code obtain addr sd a1 sd1 io where
    at: "shared_data_at a = Some addr" and seg: "segments w addr = Some sd"
    and c: "consume_attachment sig (sub_flags s) a sd (consumer w) = Some (r, a1, sd1, io)"
    and s': "s' = s\<lparr>publisher_attachment_by_data_available_event_fd := (by_fd s)(fd \<mapsto> a1)\<rparr>"
    and w': "w' = w\<lparr>segments := (segments w)(addr \<mapsto> sd1), consumer := io\<rparr>"
    by (auto simp: handle_data_available_event_def bind_eq_Some_conv)
  from consume_attachment_same [OF c] have same: "same_attachment a a1" .
  note t = sub_invD(1) [OF inv]
  have "tables_inverse (by_id s') (by_fd s')"
    unfolding s' using tables_inverse_replace [OF t, of fd a1] a by simp
  moreover have "separately_mapped (by_fd s')"
    using sub_invD(2) [OF inv] a same unfolding s' separately_mapped_def same_attachment_def
    by (auto split: if_splits)
  moreover have "attachment_ok (segments w') g b" if "by_fd s' g = Some b" for g b
    using that sub_invD(3) [OF inv a] sub_invD(3) [OF inv, of g b] same unfolding s' w'
    by (auto simp: attachment_ok_def same_attachment_def split: if_splits)
  ultimately have "sub_inv s' w'" by (simp add: sub_inv_def)
  moreover have "sub_account s' w' = sub_account s w"
    using sum_entries_replace [where h = attachment_fds and b = a1, OF tables_inverseD(4) [OF t] a] same
    unfolding s' w' by (simp add: sub_account_def sub_owned_def attachment_fds_def same_attachment_def)
  moreover have "sub_frame s' w' = sub_frame s w"
    using attached_at_replace [of "by_fd s" fd a a1] a same seg
    unfolding s' w' sub_frame_def own_fds_def same_attachment_def by auto
  ultimately show ?thesis by (simp add: accounts_for_def s')
qed

section \<open>Receiving and the worker\<close>

lemma accounts_for_refl: "sub_inv s w \<Longrightarrow> accounts_for s w [] s w"
  by (simp add: accounts_for_def)

lemma accounts_for_events [simp]:
  "accounts_for (s\<lparr>sub_events := es\<rparr>) w fds s' w' \<longleftrightarrow> accounts_for s w fds s' w'"
  "accounts_for s w fds (s'\<lparr>sub_events := es\<rparr>) w' \<longleftrightarrow> accounts_for s w fds s' w'"
  by (simp_all add: accounts_for_def sub_inv_def sub_account_def sub_owned_def)

lemma sub_inv_events [simp]: "sub_inv (s\<lparr>sub_events := es\<rparr>) w \<longleftrightarrow> sub_inv s w"
  by (simp add: sub_inv_def)

text \<open>What a call that consumes answers of \<open>recvmsg\<close> guarantees.\<close>

definition consumes :: "received list \<Rightarrow> received list \<Rightarrow> subscriber \<Rightarrow> sub_world \<Rightarrow> subscriber \<Rightarrow> sub_world \<Rightarrow> bool" where
  "consumes answers rest s w s' w' \<longleftrightarrow>
     (\<exists>used. answers = used @ rest \<and> accounts_for s w (concat (map answer_fds used)) s' w')"

lemma consumes_trans:
  assumes "consumes a b s w s' w'" "consumes b c s' w' s'' w''"
  shows "consumes a c s w s'' w''"
proof -
  from assms obtain xs ys where "a = xs @ b" "accounts_for s w (concat (map answer_fds xs)) s' w'"
    "b = ys @ c" "accounts_for s' w' (concat (map answer_fds ys)) s'' w''" by (auto simp: consumes_def)
  then show ?thesis unfolding consumes_def
    by (intro exI [of _ "xs @ ys"]) (auto dest: accounts_for_trans)
qed

lemma consumes_none: "accounts_for s w [] s' w' \<Longrightarrow> consumes a a s w s' w'"
  unfolding consumes_def by (intro exI [of _ "[]"]) simp

lemma consumes_refl: "sub_inv s w \<Longrightarrow> consumes a a s w s w"
  by (rule consumes_none [OF accounts_for_refl])

lemma consumesD:
  "consumes a b s w s' w' \<Longrightarrow> sub_inv s' w'"
  "consumes a b s w s' w' \<Longrightarrow> \<forall>x \<in> set a. answer_ok x \<Longrightarrow> \<forall>x \<in> set b. answer_ok x"
  by (auto simp: consumes_def accounts_for_def)

lemma consumes_events [simp]:
  "consumes a b (s\<lparr>sub_events := es\<rparr>) w s' w' \<longleftrightarrow> consumes a b s w s' w'"
  "consumes a b s w (s'\<lparr>sub_events := es\<rparr>) w' \<longleftrightarrow> consumes a b s w s' w'"
  by (simp_all add: consumes_def)

lemma sub_control_consumes:
  assumes "sub_process_broker_control_messages mmap watch answers s w = Some (b, rest, s', w')"
    "sub_inv s w" "maps_fresh mmap" "\<forall>a \<in> set answers. answer_ok a"
  shows "consumes answers rest s w s' w'"
  using sub_process_broker_control_messages_ok [OF assms] by (simp add: consumes_def)

lemma subscribe_event_consumes:
  assumes code: "subscribe_event sig drain mmap watch ident answers s w = Some (r, rest, s', w')"
    and inv: "sub_inv s w" and env: "maps_fresh mmap" "\<forall>a \<in> set answers. answer_ok a"
  shows "consumes answers rest s w s' w' \<and> r \<noteq> Inr (Some [])"
proof (cases "ident = kBrokerEventId")
  case True
  with code obtain b where "sub_process_broker_control_messages mmap watch answers s w = Some (b, rest, s', w')"
    "r = (if b then Inr None else Inl SubBrokerUnavailable)"
    by (auto simp: subscribe_event_def bind_eq_Some_conv split: if_split_asm)
  with sub_control_consumes [OF _ inv env] show ?thesis by auto
next
  case False
  show ?thesis
  proof (cases "by_id s ident")
    case None
    with False code inv show ?thesis by (auto simp: subscribe_event_def intro: consumes_refl)
  next
    case (Some fd)
    with False code obtain q s1 w1 where h: "handle_data_available_event sig drain fd s w = Some (q, s1, w1)"
      and k: "(case q of Inl e \<Rightarrow> do { e \<leftarrow> map_run_error_to_subscribe_error e; Some (Inl e, answers, s1, w1) }
        | Inr messages \<Rightarrow> Some (Inr (if messages = [] then None else Some messages), answers, s1, w1))
        = Some (r, rest, s', w')"
      by (auto simp: subscribe_event_def bind_eq_Some_conv)
    from handle_data_available_event_accounts [OF inv h] have "accounts_for s w [] s1 w1" by simp
    with k show ?thesis
      by (cases q) (auto simp: bind_eq_Some_conv intro: consumes_none split: if_split_asm)
  qed
qed

lemma subscribe_loop_consumes:
  assumes "subscribe_loop sig drain mmap watch deadline clk waits answers s w = Some (r, s', w')"
    "sub_inv s w" "maps_fresh mmap" "\<forall>a \<in> set answers. answer_ok a"
  shows "(\<exists>rest. consumes answers rest s w s' w') \<and> r \<noteq> Inr []"
  using assms
proof (induction sig drain mmap watch deadline clk waits answers s w rule: subscribe_loop.induct)
  case (1 sig drain mmap watch deadline waits answers s w)
  then show ?case by (simp add: subscribe_loop.simps)
next
  case (2 sig drain mmap watch deadline now clk waits answers s w)
  note code = "2.prems"(1) [unfolded subscribe_loop.simps]
  have same: "\<exists>rest. consumes answers rest s w s w" using consumes_refl [OF "2.prems"(2)] by blast
  show ?case
  proof (cases "deadline \<le> now")
    case True
    with code same show ?thesis by auto
  next
    case go: False
    show ?thesis
    proof (cases "sub_events s")
      case Nil
      show ?thesis
      proof (cases clk)
        case Nil
        with code go \<open>sub_events s = []\<close> show ?thesis by simp
      next
        case clk: (Cons now2 clk2)
        show ?thesis
        proof (cases "deadline - now2 < 0")
          case True
          with code go \<open>sub_events s = []\<close> clk same show ?thesis by auto
        next
          case wait: False
          show ?thesis
          proof (cases waits)
            case Nil
            with code go \<open>sub_events s = []\<close> clk wait show ?thesis by simp
          next
            case (Cons a waits2)
            show ?thesis
            proof (cases a)
              case (EpollErr errno)
              with code go \<open>sub_events s = []\<close> clk wait Cons same
                "2.IH"(1) [OF go \<open>sub_events s = []\<close> clk wait Cons EpollErr _ _ "2.prems"(2-4)]
              show ?thesis by (cases "errno = EINTR") auto
            next
              case (EpollEvents ids)
              with code go \<open>sub_events s = []\<close> clk wait Cons same
                "2.IH"(2) [OF go \<open>sub_events s = []\<close> clk wait Cons EpollEvents] "2.prems"(2-4)
              show ?thesis by (cases "ids = []") auto
            qed
          qed
        qed
      qed
    next
      case (Cons ident ids)
      with code go obtain q ans2 s2 w2 where
        e: "subscribe_event sig drain mmap watch ident answers (s\<lparr>sub_events := ids\<rparr>) w = Some (q, ans2, s2, w2)"
        and k: "(case q of Inl e \<Rightarrow> Some (Inl e, s2, w2) | Inr (Some messages) \<Rightarrow> Some (Inr messages, s2, w2)
          | Inr None \<Rightarrow> subscribe_loop sig drain mmap watch deadline clk waits ans2 s2 w2) = Some (r, s', w')"
        by (auto simp: bind_eq_Some_conv)
      have c: "consumes answers ans2 s w s2 w2" and ne: "q \<noteq> Inr (Some [])"
        using subscribe_event_consumes [OF e] "2.prems"(2-4) by simp_all
      show ?thesis
      proof (cases "q = Inr None")
        case True
        have "(\<exists>rest. consumes ans2 rest s2 w2 s' w') \<and> r \<noteq> Inr []"
          using k True consumesD [OF c] "2.prems"(3,4)
          by (intro "2.IH"(3) [OF go Cons e refl refl refl]) auto
        with c show ?thesis by (blast intro: consumes_trans)
      next
        case False
        with k c ne show ?thesis by (auto split: sum.split_asm option.split_asm)
      qed
    qed
  qed
qed

lemma subscribe_consumes:
  assumes "subscribe sig drain mmap watch timeout clk waits answers s w = Some (r, s', w')"
    "sub_inv s w" "maps_fresh mmap" "\<forall>a \<in> set answers. answer_ok a"
  shows "(\<exists>rest. consumes answers rest s w s' w') \<and> r \<noteq> Inr []"
proof -
  from assms(1) obtain now clk' where
    "subscribe_loop sig drain mmap watch (now + timeout) clk' waits answers s w = Some (r, s', w')"
    by (auto simp: subscribe_def split: list.split_asm)
  from subscribe_loop_consumes [OF this assms(2-4)] show ?thesis .
qed

lemma sub_run_event_consumes:
  assumes code: "sub_run_event sig drain mmap watch ident answers s w = Some (k, r, rest, s', w')"
    and inv: "sub_inv s w" and env: "maps_fresh mmap" "\<forall>a \<in> set answers. answer_ok a"
  shows "consumes answers rest s w s' w'"
proof (cases "ident = kShutdownEventId")
  case True
  with code inv show ?thesis by (auto simp: sub_run_event_def intro: consumes_refl)
next
  case no: False
  show ?thesis
  proof (cases "ident = kBrokerEventId")
    case True
    with code no obtain b where "sub_process_broker_control_messages mmap watch answers s w = Some (b, rest, s', w')"
      by (auto simp: sub_run_event_def bind_eq_Some_conv)
    with sub_control_consumes [OF _ inv env] show ?thesis by blast
  next
    case False
    show ?thesis
    proof (cases "by_id s ident")
      case None
      with False no code inv show ?thesis by (auto simp: sub_run_event_def intro: consumes_refl)
    next
      case (Some fd)
      with False no code obtain q s1 w1 where h: "handle_data_available_event sig drain fd s w = Some (q, s1, w1)"
        and k: "(case q of Inl e \<Rightarrow> Some (False, e, answers, s1, w1)
          | Inr messages \<Rightarrow> Some (True, SubRunNone, answers, s1, w1)) = Some (k, r, rest, s', w')"
        by (auto simp: sub_run_event_def bind_eq_Some_conv)
      from handle_data_available_event_accounts [OF inv h] have "accounts_for s w [] s1 w1" by simp
      with k show ?thesis by (cases q) (auto intro: consumes_none)
    qed
  qed
qed

lemma sub_run_events_consumes:
  assumes "sub_run_events sig drain mmap watch ids answers s w = Some (k, r, rest, s', w')"
    "sub_inv s w" "maps_fresh mmap" "\<forall>a \<in> set answers. answer_ok a"
  shows "consumes answers rest s w s' w'"
  using assms
proof (induction ids arbitrary: answers s w)
  case Nil
  then show ?case by (auto intro: consumes_refl)
next
  case (Cons ident ids)
  then obtain k1 r1 ans1 s1 w1 where
    e: "sub_run_event sig drain mmap watch ident answers (s\<lparr>sub_events := ids\<rparr>) w = Some (k1, r1, ans1, s1, w1)"
    by (auto simp: bind_eq_Some_conv)
  have c: "consumes answers ans1 s w s1 w1"
    using sub_run_event_consumes [OF e] Cons.prems(2-4) by simp
  show ?case
  proof (cases k1)
    case False
    with Cons.prems(1) e c show ?thesis by simp
  next
    case True
    with Cons.prems(1) e have "sub_run_events sig drain mmap watch ids ans1 s1 w1 = Some (k, r, rest, s', w')" by simp
    from Cons.IH [OF this consumesD(1) [OF c] Cons.prems(3) consumesD(2) [OF c Cons.prems(4)]] c show ?thesis
      by (blast intro: consumes_trans)
  qed
qed

lemma sub_run_loop_consumes:
  assumes "sub_run_loop sig drain mmap watch waits answers s w = Some (r, s', w')"
    "sub_inv s w" "maps_fresh mmap" "\<forall>a \<in> set answers. answer_ok a"
  shows "\<exists>rest. consumes answers rest s w s' w'"
  using assms
proof (induction waits arbitrary: answers s w)
  case Nil
  then show ?case by simp
next
  case (Cons a waits)
  have same: "\<exists>rest. consumes answers rest s w s w" using consumes_refl [OF Cons.prems(2)] by blast
  show ?case
  proof (cases a)
    case (EpollErr errno)
    with Cons.prems(1) same show ?thesis by auto
  next
    case (EpollEvents ids)
    show ?thesis
    proof (cases "ids = []")
      case True
      with EpollEvents Cons.prems(1) same show ?thesis by auto
    next
      case False
      with EpollEvents Cons.prems(1) obtain k1 r1 ans1 s1 w1 where
        e: "sub_run_events sig drain mmap watch ids answers s w = Some (k1, r1, ans1, s1, w1)"
        by (auto simp: bind_eq_Some_conv)
      have c: "consumes answers ans1 s w s1 w1"
        using sub_run_events_consumes [OF e] Cons.prems(2-4) by simp
      show ?thesis
      proof (cases "k1 \<and> r1 = SubRunNone")
        case False
        with EpollEvents Cons.prems(1) e c \<open>ids \<noteq> []\<close> show ?thesis by auto
      next
        case True
        with EpollEvents Cons.prems(1) e \<open>ids \<noteq> []\<close>
        have "sub_run_loop sig drain mmap watch waits ans1 s1 w1 = Some (r, s', w')" by simp
        from Cons.IH [OF this consumesD(1) [OF c] Cons.prems(3) consumesD(2) [OF c Cons.prems(4)]] c show ?thesis
          by (blast intro: consumes_trans)
      qed
    qed
  qed
qed

end
