(* ===== verification/Attachment_Batch.thy ===== *)
theory Attachment_Batch
  imports Subscriber_Tables
begin

text \<open>
  The round trip of an attachment batch: what the broker packs into one message is what the
  subscriber installs, entry by entry.
\<close>

text \<open>The subscriber has the attachment described by the metadata and the descriptors.\<close>

definition attached :: "subscriber \<Rightarrow> attachment_id \<times> topic_id \<times> u32 \<Rightarrow> int \<times> int \<times> int \<Rightarrow> bool" where
  "attached s = (\<lambda>(ident, topic, slot) (shm, space, data). by_id s ident = Some data
     \<and> (\<exists>a. by_fd s data = Some a \<and> att_topic_id a = topic \<and> slot_index a = slot \<and> shm_fd a = shm
          \<and> att_space_available_event_fd a = space \<and> att_data_available_event_fd a = data
          \<and> subscriber_read_index a = kInvalidIndex \<and> expected_seq a = -1))"

definition data_fd :: "int \<times> int \<times> int \<Rightarrow> int" where
  "data_fd = (\<lambda>(shm, space, data). data)"

definition new_to :: "subscriber \<Rightarrow> attachment_id \<times> topic_id \<times> u32 \<Rightarrow> int \<times> int \<times> int \<Rightarrow> bool" where
  "new_to s m t \<longleftrightarrow> by_id s (fst m) = None \<and> by_fd s (data_fd t) = None"

definition same_elsewhere :: "attachment_id set \<Rightarrow> int set \<Rightarrow> subscriber \<Rightarrow> subscriber \<Rightarrow> bool" where
  "same_elsewhere ids fds s s' \<longleftrightarrow> (\<forall>i. i \<notin> ids \<longrightarrow> by_id s' i = by_id s i) \<and> (\<forall>f. f \<notin> fds \<longrightarrow> by_fd s' f = by_fd s f)"

text \<open>The kernel maps every segment while \<open>P\<close> holds of what is mapped.\<close>

definition maps_while :: "((nat \<rightharpoonup> shared_data) \<Rightarrow> bool) \<Rightarrow> mmap_answer \<Rightarrow> bool" where
  "maps_while P mmap \<longleftrightarrow> (\<forall>segs fd. P segs \<longrightarrow> mmap segs fd \<noteq> None) \<and> (\<forall>segs addr sd. P segs \<longrightarrow> P (segs(addr \<mapsto> sd)))"

lemma install_attachment_new:
  assumes "new_to s m t" "maps_while P mmap" "P (segments w)" "watch (data_fd t)"
  shows "\<exists>s' w'. install_attachment mmap watch m t s w = (True, s', w') \<and> attached s' m t
    \<and> same_elsewhere {fst m} {data_fd t} s s' \<and> P (segments w')"
proof -
  obtain ident topic slot shm space data where
    m: "m = (ident, topic, slot)" "t = (shm, space, data)" by (cases m; cases t) auto
  obtain addr sd where "mmap (segments w) shm = Some (addr, sd)" using assms(2,3) by (force simp: maps_while_def)
  with assms m show ?thesis
    by (simp add: install_attachment_def new_to_def data_fd_def attached_def same_elsewhere_def empty_attachment_def Let_def
      maps_while_def)
qed

lemma attached_elsewhere:
  "attached s m t \<Longrightarrow> same_elsewhere ids fds s s' \<Longrightarrow> fst m \<notin> ids \<Longrightarrow> data_fd t \<notin> fds \<Longrightarrow> attached s' m t"
  by (cases m; cases t) (auto simp: attached_def same_elsewhere_def data_fd_def)

lemma new_to_elsewhere:
  "new_to s m t \<Longrightarrow> same_elsewhere ids fds s s' \<Longrightarrow> fst m \<notin> ids \<Longrightarrow> data_fd t \<notin> fds \<Longrightarrow> new_to s' m t"
  by (simp add: new_to_def same_elsewhere_def)

lemma same_elsewhere_trans:
  "same_elsewhere a b s s' \<Longrightarrow> same_elsewhere c d s' s'' \<Longrightarrow> same_elsewhere (a \<union> c) (b \<union> d) s s''"
  by (simp add: same_elsewhere_def)

text \<open>The descriptors of the entries from \<open>k\<close> on.\<close>

definition triples :: "nat \<Rightarrow> int list \<Rightarrow> (int \<times> int \<times> int) list \<Rightarrow> bool" where
  "triples k fds ts \<longleftrightarrow> length fds = 3 * length ts
     \<and> (\<forall>j. k \<le> j \<longrightarrow> j < length ts \<longrightarrow> (fds ! (3 * j), fds ! (3 * j + 1), fds ! (3 * j + 2)) = ts ! j)"

lemma triples_taken:
  "triples k fds ts \<Longrightarrow> triples (Suc k) (fds[3 * k := x, 3 * k + 1 := y, 3 * k + 2 := z]) ts"
  by (simp add: triples_def nth_list_update)

lemma triples_concat:
  assumes "fds = concat (map (\<lambda>(a, b, c). [a, b, c]) ts)"
  shows "triples 0 fds ts"
  unfolding assms
proof (induction ts)
  case (Cons t ts)
  obtain a b c where t: "t = (a, b, c)" by (cases t) auto
  let ?l = "concat (map (\<lambda>(a, b, c). [a, b, c]) ts)"
  have "((a # b # c # ?l) ! (3 * j), (a # b # c # ?l) ! (3 * j + 1), (a # b # c # ?l) ! (3 * j + 2)) = (t # ts) ! j"
    if "j < length (t # ts)" for j
    using that Cons t by (cases j) (simp_all add: triples_def)
  with Cons t show ?case by (simp add: triples_def)
qed (simp add: triples_def)

lemma install_attachments_all:
  assumes entries: "\<And>j. j < length ms \<Longrightarrow> read_attachment_metadata packet (1 + 13 * j) = Some (ms ! j)"
    and "n + k = length ms" "length ts = length ms" "triples k fds ts"
    "distinct (map fst ms)" "distinct (map data_fd ts)"
    "\<And>j. k \<le> j \<Longrightarrow> j < length ms \<Longrightarrow> new_to s (ms ! j) (ts ! j)"
    "maps_while P mmap" "P (segments w)" "\<forall>t \<in> set ts. watch (data_fd t)"
  shows "\<exists>fds' s' w'. install_attachments mmap watch packet n (1 + 13 * k) k fds s w
      = Some (True, fds', s', w')
    \<and> (\<forall>j. k \<le> j \<longrightarrow> j < length ms \<longrightarrow> attached s' (ms ! j) (ts ! j))
    \<and> same_elsewhere (fst ` set (drop k ms)) (data_fd ` set (drop k ts)) s s' \<and> P (segments w')"
  using assms(2-)
proof (induction n arbitrary: k fds s w)
  case 0
  then show ?case by (simp add: same_elsewhere_def)
next
  case (Suc n)
  from Suc.prems(1) have k: "k < length ms" by simp
  let ?fds = "fds[3 * k := -1, 3 * k + 1 := -1, 3 * k + 2 := -1]"
  have meta: "read_attachment_metadata packet (1 + 13 * k) = Some (ms ! k)"
    by (rule entries [OF k])
  have taken: "(fds ! (3 * k), fds ! (3 * k + 1), fds ! (3 * k + 2)) = ts ! k"
    and len: "\<not> length fds < 3 * k + 3"
    using Suc.prems(2,3) k by (auto simp: triples_def)
  have "new_to s (ms ! k) (ts ! k)" by (rule Suc.prems(6)) (simp_all add: k)
  moreover have "watch (data_fd (ts ! k))" using Suc.prems(2,9) k by simp
  ultimately obtain s1 w1 where i: "install_attachment mmap watch (ms ! k) (ts ! k) s w = (True, s1, w1)"
    and at: "attached s1 (ms ! k) (ts ! k)" and same: "same_elsewhere {fst (ms ! k)} {data_fd (ts ! k)} s s1"
    and P1: "P (segments w1)"
    using install_attachment_new [OF _ Suc.prems(7,8)] by blast
  have neq: "fst (ms ! j) \<noteq> fst (ms ! k)" "data_fd (ts ! j) \<noteq> data_fd (ts ! k)" if "j \<noteq> k" "j < length ms" for j
    using that k Suc.prems(2,4,5) nth_eq_iff_index_eq [of "map fst ms" j k] nth_eq_iff_index_eq [of "map data_fd ts" j k]
    by auto
  have new: "new_to s1 (ms ! j) (ts ! j)" if "Suc k \<le> j" "j < length ms" for j
    using new_to_elsewhere [OF Suc.prems(6) same] neq [of j] that by simp
  have "\<exists>fds' s' w'. install_attachments mmap watch packet n (1 + 13 * Suc k) (Suc k) ?fds s1 w1
      = Some (True, fds', s', w')
    \<and> (\<forall>j. Suc k \<le> j \<longrightarrow> j < length ms \<longrightarrow> attached s' (ms ! j) (ts ! j))
    \<and> same_elsewhere (fst ` set (drop (Suc k) ms)) (data_fd ` set (drop (Suc k) ts)) s1 s' \<and> P (segments w')"
    using Suc.prems new P1 by (intro Suc.IH triples_taken) auto
  then obtain fds' s' w' where
    r: "install_attachments mmap watch packet n (1 + 13 * Suc k) (Suc k) ?fds s1 w1
      = Some (True, fds', s', w')"
    and rest: "\<forall>j. Suc k \<le> j \<longrightarrow> j < length ms \<longrightarrow> attached s' (ms ! j) (ts ! j)"
    and same': "same_elsewhere (fst ` set (drop (Suc k) ms)) (data_fd ` set (drop (Suc k) ts)) s1 s'" and P': "P (segments w')" by blast
  have code: "install_attachments mmap watch packet (Suc n) (1 + 13 * k) k fds s w
      = Some (True, fds', s', w')"
    unfolding install_attachments.simps meta using r i taken len
    by (simp add: Let_def kSubscriberAttachmentMetadataSize_def add.commute)
  have "distinct (map fst (drop k ms))" "distinct (map data_fd (drop k ts))"
    using Suc.prems(4,5) by (simp_all add: drop_map [symmetric])
  then have "fst (ms ! k) \<notin> fst ` set (drop (Suc k) ms)" "data_fd (ts ! k) \<notin> data_fd ` set (drop (Suc k) ts)"
    using k Suc.prems(2) by (simp_all add: Cons_nth_drop_Suc [symmetric])
  with attached_elsewhere [OF at same'] have "attached s' (ms ! k) (ts ! k)" by blast
  with rest have "\<forall>j. k \<le> j \<longrightarrow> j < length ms \<longrightarrow> attached s' (ms ! j) (ts ! j)"
    by (metis le_antisym not_less_eq_eq)
  moreover have "same_elsewhere (fst ` set (drop k ms)) (data_fd ` set (drop k ts)) s s'"
    using same_elsewhere_trans [OF same same'] k Suc.prems(2)
    by (simp add: Cons_nth_drop_Suc [symmetric])
  ultimately show ?case using code P' by blast
qed

text \<open>The message as it arrives.\<close>

lemma install_packet:
  assumes entries: "\<And>j. j < length ms \<Longrightarrow> read_attachment_metadata packet (1 + 13 * j) = Some (ms ! j)"
    and packet: "length packet = 1 + 13 * length ms" "message_type_of (hd packet) = Some SubscriberAttachmentBatch"
    and fds: "fds = concat (map (\<lambda>(shm, space, data). [shm, space, data]) ts)"
    and len: "length ts = length ms" and ne: "ms \<noteq> []"
    and new: "distinct (map fst ms)" "distinct (map data_fd ts)" "\<And>j. j < length ms \<Longrightarrow> new_to s (ms ! j) (ts ! j)"
    and ok: "maps_while P mmap" "P (segments w)" "\<forall>t \<in> set ts. watch (data_fd t)"
  shows "\<exists>cmsg s' w'. sub_handle_broker_message mmap watch (send_packet_with_fds packet fds) s w = Some (True, cmsg, s', w')
    \<and> (\<forall>j < length ms. attached s' (ms ! j) (ts ! j))
    \<and> same_elsewhere (fst ` set ms) (data_fd ` set ts) s s' \<and> P (segments w')"
proof -
  have tr: "triples 0 fds ts" by (rule triples_concat [OF fds])
  then have lf: "length fds = 3 * length ms" using len by (simp add: triples_def)
  then have nf: "fds \<noteq> []" using ne by auto
  from install_attachments_all [where k = 0 and n = "length ms" and w = w, OF entries _ len tr new(1,2) new(3) ok] obtain fds' s' w' where
    i: "install_attachments mmap watch packet (length ms) 1 0 fds s w = Some (True, fds', s', w')"
    and r: "\<forall>j < length ms. attached s' (ms ! j) (ts ! j)" "same_elsewhere (fst ` set ms) (data_fd ` set ts) s s'" "P (segments w')"
    by auto
  have m: "msg_control (send_packet_with_fds packet fds) = Some \<lparr>cmsg_level = SOL_SOCKET,
      cmsg_type = SCM_RIGHTS, cmsg_len = CMSG_LEN (4 * length fds), cmsg_fds = fds\<rparr>"
    using nf by (simp add: send_packet_with_fds_def)
  have b: "msg_bytes (send_packet_with_fds packet fds) = packet" "\<not> msg_truncated (send_packet_with_fds packet fds)"
    by (simp_all add: send_packet_with_fds_def)
  let ?r = "Some (True, Some \<lparr>cmsg_level = SOL_SOCKET, cmsg_type = SCM_RIGHTS, cmsg_len = CMSG_LEN (4 * length fds), cmsg_fds = fds'\<rparr>, s', w')"
  have "install_subscriber_attachment_batch mmap watch packet (13 * length ms) (msg_control (send_packet_with_fds packet fds)) s w = ?r"
    using i ne lf unfolding m
    by (simp add: install_subscriber_attachment_batch_def kSubscriberAttachmentMetadataSize_def Let_def
      is_valid_scm_rights_cmsg_def CMSG_LEN_def)
  moreover from packet(1) obtain x xs where x: "packet = x # xs" by (cases packet) auto
  ultimately have "sub_handle_broker_message mmap watch (send_packet_with_fds packet fds) s w = ?r"
    unfolding sub_handle_broker_message_def b(1) Let_def using b(2) packet by simp
  with r show ?thesis by blast
qed

lemma install_batch_round_trip:
  assumes "fds = concat (map (\<lambda>(shm, space, data). [shm, space, data]) ts)" "length ts = length ms" "ms \<noteq> []"
    "distinct (map fst ms)" "distinct (map data_fd ts)" "\<And>j. j < length ms \<Longrightarrow> new_to s (ms ! j) (ts ! j)"
    "\<forall>segs fd. mmap segs fd \<noteq> None" "\<forall>t \<in> set ts. watch (data_fd t)"
  shows "\<exists>cmsg s' w'. sub_handle_broker_message mmap watch (send_packet_with_fds (attachment_batch_packet ms) fds) s w
      = Some (True, cmsg, s', w')
    \<and> (\<forall>j < length ms. attached s' (ms ! j) (ts ! j))
    \<and> same_elsewhere (fst ` set ms) (data_fd ` set ts) s s'"
proof -
  have "message_type_of (hd (attachment_batch_packet ms)) = Some SubscriberAttachmentBatch"
    by (simp add: attachment_batch_packet_def del: type_byte.simps)
  moreover have "maps_while (\<lambda>_. True) mmap" using assms(7) by (simp add: maps_while_def)
  ultimately show ?thesis
    using install_packet [OF read_attachment_batch length_attachment_batch_packet _ assms(1-6), where mmap = mmap and P = "\<lambda>_. True" and w = w and watch = watch]
      assms(8) by blast
qed

end
