(* ===== verification/Subscriber_Properties.thy ===== *)
theory Subscriber_Properties
  imports Attachment_Batch Segment_Init
begin

text \<open>
  What the subscriber promises about its attachments and descriptors, each property with its use
  on a concrete subscriber.
\<close>

section \<open>A concrete subscriber\<close>

definition demo_subscriber :: subscriber where
  "demo_subscriber = \<lparr>sub_flags = SUB_SYNCHRONOUS, sub_epoll_fd = 3, sub_broker_fd = 4,
     sub_shutdown_event_fd = -1, sub_worker_exit_event_fd = -1, sub_events = [],
     publisher_attachment_by_data_available_event_fd = Map.empty,
     data_available_event_fd_by_attachment_id = Map.empty\<rparr>"

definition demo_sub_world :: sub_world where
  "demo_sub_world = \<lparr>segments = Map.empty, consumer = \<lparr>space_signals = [], callbacks = []\<rparr>,
     sub_closed = [], sub_unwatched = [], sub_watched = []\<rparr>"

text \<open>Segments are mapped at the address with the descriptor's number, if that is free.\<close>

definition demo_mmap :: mmap_answer where
  "demo_mmap segs fd = (if segs (nat fd) = None then Some (nat fd, zero_shared_data) else None)"

lemma demo_mmap_fresh: "maps_fresh demo_mmap"
  by (simp add: maps_fresh_def demo_mmap_def)

lemma demo_sub_inv: "sub_inv demo_subscriber demo_sub_world"
  by (simp add: sub_inv_def tables_inverse_def separately_mapped_def demo_subscriber_def)

lemma demo_account: "sub_account demo_subscriber demo_sub_world = {#}"
  by (simp add: sub_account_def sub_owned_def demo_subscriber_def demo_sub_world_def)

text \<open>A batch with attachment 9 to the camera topic in slot 2, and descriptors 20, 21 and 22.\<close>

definition demo_metadata :: "(attachment_id \<times> topic_id \<times> u32) list" where
  "demo_metadata = [(9, kTopicCamera, 2)]"

definition demo_batch :: msghdr where
  "demo_batch = send_packet_with_fds (attachment_batch_packet demo_metadata) [20, 21, 22]"

lemma demo_batch_ok: "control_ok (msg_control demo_batch)"
  by (simp add: demo_batch_def send_packet_with_fds_def control_ok_def)

lemma demo_batch_fds: "control_fds (msg_control demo_batch) = [20, 21, 22]"
  by (simp add: demo_batch_def send_packet_with_fds_def control_fds_def)

section \<open>Properties\<close>

text \<open>Property C15. The subscriber's receive loop is total and balanced: for every sequence of
  well-formed messages it returns without undefined behaviour, keeps the two tables inverse to
  each other with every attachment mapped and owning its descriptors, and every descriptor that
  the consumed messages carried is afterwards owned by an attachment or closed, exactly once,
  whether the messages were accepted or not.\<close>

theorem subscriber_control_balanced:
  assumes "sub_inv s w" "maps_fresh mmap" "\<forall>msg \<in> set msgs. control_ok (msg_control msg)"
  shows "\<exists>b used rest s' w'.
    sub_process_broker_control_messages mmap watch (map RecvMsg msgs @ [RecvErr errno]) s w = Some (b, rest, s', w')
    \<and> map RecvMsg msgs @ [RecvErr errno] = used @ rest \<and> sub_inv s' w'
    \<and> sub_account s' w' = sub_account s w + mset (concat (map answer_fds used))"
  using assms
proof (induction msgs arbitrary: s w)
  case Nil
  then show ?case by (simp add: answer_fds_def)
next
  case (Cons msg msgs)
  from Cons.prems(3) have "control_ok (msg_control msg)" by simp
  from sub_handle_broker_message_ok [OF Cons.prems(1,2) this, of watch] obtain k cmsg s1 w1 where
    h: "sub_handle_broker_message mmap watch msg s w = Some (k, cmsg, s1, w1)"
    and a: "accounts_for s w (control_fds (msg_control msg)) s1 (sub_close_guarded cmsg w1)" by blast
  show ?case
  proof (cases k)
    case False
    with h a show ?thesis
      by (intro exI [of _ False] exI [of _ "[RecvMsg msg]"] exI [of _ "map RecvMsg msgs @ [RecvErr errno]"]
          exI [of _ s1] exI [of _ "sub_close_guarded cmsg w1"])
         (simp add: accounts_for_def answer_fds_def Let_def)
  next
    case True
    from a have "sub_inv s1 (sub_close_guarded cmsg w1)" by (simp add: accounts_for_def)
    from Cons.IH [OF this Cons.prems(2)] Cons.prems(3) obtain b used rest s' w' where
      "sub_process_broker_control_messages mmap watch (map RecvMsg msgs @ [RecvErr errno]) s1 (sub_close_guarded cmsg w1)
         = Some (b, rest, s', w')"
      "map RecvMsg msgs @ [RecvErr errno] = used @ rest" "sub_inv s' w'"
      "sub_account s' w' = sub_account s1 (sub_close_guarded cmsg w1) + mset (concat (map answer_fds used))" by auto
    with True h a show ?thesis
      by (intro exI [of _ b] exI [of _ "RecvMsg msg # used"] exI [of _ rest] exI [of _ s'] exI [of _ w'])
         (simp add: accounts_for_def answer_fds_def [of "RecvMsg msg"] Let_def)
  qed
qed

theorem subscriber_control_balanced_witness:
  "\<exists>b used rest s' w'. sub_process_broker_control_messages demo_mmap all_ok [RecvMsg demo_batch, RecvErr EAGAIN]
      demo_subscriber demo_sub_world = Some (b, rest, s', w')
    \<and> [RecvMsg demo_batch, RecvErr EAGAIN] = used @ rest
    \<and> sub_inv s' w' \<and> sub_account s' w' = mset (concat (map answer_fds used))"
  using subscriber_control_balanced [OF demo_sub_inv demo_mmap_fresh, of "[demo_batch]" all_ok EAGAIN]
    demo_batch_ok demo_account by simp

text \<open>Property C19. Round trip of an attachment batch: the message the broker builds from attachment
  metadata and descriptor triples is accepted by the subscriber, which then has exactly these
  attachments, each with its own identifier, topic, slot and descriptors, and no other changed.\<close>

theorem attachment_batch_round_trip:
  assumes "fds = concat (map (\<lambda>(shm, space, data). [shm, space, data]) ts)"
    "length ts = length ms" "ms \<noteq> []" "distinct (map fst ms)" "distinct (map data_fd ts)"
    "\<And>j. j < length ms \<Longrightarrow> new_to s (ms ! j) (ts ! j)"
    "\<forall>segs fd. mmap segs fd \<noteq> None" "\<forall>t \<in> set ts. watch (data_fd t)"
  shows "\<exists>cmsg s' w'. sub_handle_broker_message mmap watch (send_packet_with_fds (attachment_batch_packet ms) fds) s w
      = Some (True, cmsg, s', w')
    \<and> (\<forall>j < length ms. attached s' (ms ! j) (ts ! j))
    \<and> same_elsewhere (fst ` set ms) (data_fd ` set ts) s s'"
  by (rule install_batch_round_trip [OF assms])

theorem attachment_batch_round_trip_witness:
  "\<exists>cmsg s' w'. sub_handle_broker_message (\<lambda>segs fd. Some (nat fd, zero_shared_data)) all_ok demo_batch
      demo_subscriber demo_sub_world = Some (True, cmsg, s', w')
    \<and> attached s' (9, kTopicCamera, 2) (20, 21, 22)"
proof -
  have "\<exists>cmsg s' w'. sub_handle_broker_message (\<lambda>segs fd. Some (nat fd, zero_shared_data)) all_ok
      (send_packet_with_fds (attachment_batch_packet demo_metadata) [20, 21, 22]) demo_subscriber demo_sub_world
      = Some (True, cmsg, s', w')
    \<and> (\<forall>j < length demo_metadata. attached s' (demo_metadata ! j) ([(20, 21, 22)] ! j))
    \<and> same_elsewhere (fst ` set demo_metadata) (data_fd ` set [(20, 21, 22)]) demo_subscriber s'"
    by (rule attachment_batch_round_trip)
       (simp_all add: demo_metadata_def new_to_def demo_subscriber_def)
  then show ?thesis unfolding demo_batch_def [symmetric] by (auto simp: demo_metadata_def)
qed

text \<open>Losing a publisher: the message removes exactly the named attachment from both
  tables, unmaps its segment and closes its three descriptors; with an unknown identifier or a
  wrong size nothing changes, and the internal inconsistency the code checks for cannot occur.\<close>

theorem publisher_disconnected_exact:
  assumes "sub_inv s w"
  shows "handle_publisher_disconnected (publisher_disconnected_packet ident) 8 s w = Some (case by_id s ident of
      None \<Rightarrow> (PublisherDisconnectedAttachmentMissing, s, w)
    | Some fd \<Rightarrow> (SubRunNone,
        s\<lparr>data_available_event_fd_by_attachment_id := (by_id s)(ident := None),
          publisher_attachment_by_data_available_event_fd := (by_fd s)(fd := None)\<rparr>,
        w\<lparr>segments := (segments w)(the (shared_data_at (the (by_fd s fd))) := None),
          sub_unwatched := sub_unwatched w @ [fd],
          sub_closed := sub_closed w @ [shm_fd (the (by_fd s fd)),
            att_space_available_event_fd (the (by_fd s fd)), fd]\<rparr>))"
proof -
  have id: "field_u64 (publisher_disconnected_packet ident) 1 = Some ident"
    using field_u64_le [of 1 "[type_byte PublisherDisconnected]" ident "[]"]
    by (simp add: publisher_disconnected_packet_def del: type_byte.simps)
  show ?thesis
  proof (cases "by_id s ident")
    case None
    then show ?thesis by (simp add: handle_publisher_disconnected_def id [simplified])
  next
    case (Some fd)
    from tables_inverseD(1) [OF sub_invD(1) [OF assms] Some] obtain a where a: "by_fd s fd = Some a" by blast
    from sub_invD(3) [OF assms a] have "att_data_available_event_fd a = fd" "0 \<le> fd" "0 \<le> shm_fd a"
      "0 \<le> att_space_available_event_fd a" "\<exists>addr. shared_data_at a = Some addr" by (auto simp: attachment_ok_def)
    with Some a show ?thesis
      by (auto simp: handle_publisher_disconnected_def id [simplified] release_publisher_attachment_def Let_def
        sub_close_fd_def)
  qed
qed

theorem publisher_disconnected_exact_witness:
  "handle_publisher_disconnected (publisher_disconnected_packet 9) 8 demo_subscriber demo_sub_world
    = Some (PublisherDisconnectedAttachmentMissing, demo_subscriber, demo_sub_world)"
  using publisher_disconnected_exact [OF demo_sub_inv, of 9] by (simp add: demo_subscriber_def)

text \<open>\<open>subscribe\<close> never returns an empty batch, always maps a failure to an error of
  its own (the \<open>std::terminate\<close> is unreachable whenever it returns), and whatever events it
  handles on the way it keeps the tables consistent and the received descriptors accounted for.\<close>

theorem subscribe_accounts:
  assumes "subscribe sig drain mmap watch timeout clk waits answers s w = Some (r, s', w')"
    "sub_inv s w" "maps_fresh mmap" "\<forall>a \<in> set answers. answer_ok a"
  shows "r \<noteq> Inr [] \<and> sub_inv s' w' \<and> (\<exists>used rest. answers = used @ rest
    \<and> sub_account s' w' = sub_account s w + mset (concat (map answer_fds used)))"
  using subscribe_consumes [OF assms] by (auto simp: consumes_def accounts_for_def)

theorem subscribe_accounts_witness:
  "\<exists>s' w'. subscribe all_ok all_ok demo_mmap all_ok 10 [0, 1, 2, 3, 11] [EpollEvents [kBrokerEventId]]
      [RecvErr EAGAIN] demo_subscriber demo_sub_world = Some (Inl SubTimeout, s', w')
    \<and> sub_inv s' w' \<and> sub_account s' w' = {#}"
proof -
  obtain s' w' where c: "subscribe all_ok all_ok demo_mmap all_ok 10 [0, 1, 2, 3, 11] [EpollEvents [kBrokerEventId]]
      [RecvErr EAGAIN] demo_subscriber demo_sub_world = Some (Inl SubTimeout, s', w')"
    by (simp add: subscribe_def subscribe_loop.simps subscribe_event_def kBrokerEventId_def demo_subscriber_def)
  have ok: "\<forall>a \<in> set [RecvErr EAGAIN]. answer_ok a" by (simp add: answer_ok_def)
  from subscribe_accounts [OF c demo_sub_inv demo_mmap_fresh ok] obtain used rest where
    u: "[RecvErr EAGAIN] = used @ rest" and r: "sub_inv s' w'"
      "sub_account s' w' = sub_account demo_subscriber demo_sub_world + mset (concat (map answer_fds used))" by blast
  from u have "concat (map answer_fds used) = []" by (cases used) (auto simp: answer_fds_def)
  with c r show ?thesis by (simp add: demo_account)
qed

text \<open>The worker of an asynchronous subscriber keeps the same account until it ends,
  whatever ends it.\<close>

theorem sub_run_accounts:
  assumes "sub_run sig drain mmap watch waits answers s w = Some (r, s', w')"
    "sub_inv s w" "maps_fresh mmap" "\<forall>a \<in> set answers. answer_ok a"
  shows "sub_inv s' w' \<and> (\<exists>used rest. answers = used @ rest
    \<and> sub_account s' w' = sub_account s w + mset (concat (map answer_fds used)))"
  using sub_run_loop_consumes [OF assms(1) [unfolded sub_run_def] assms(2-4)]
  by (auto simp: consumes_def accounts_for_def)

theorem sub_run_accounts_witness:
  "\<exists>s' w'. sub_run all_ok all_ok demo_mmap all_ok [EpollEvents [kShutdownEventId]] [] demo_subscriber demo_sub_world
      = Some (SubRunNone, s', w') \<and> sub_inv s' w' \<and> sub_account s' w' = {#}"
proof -
  obtain s' w' where c: "sub_run all_ok all_ok demo_mmap all_ok [EpollEvents [kShutdownEventId]] []
      demo_subscriber demo_sub_world = Some (SubRunNone, s', w')"
    by (simp add: sub_run_def sub_run_event_def demo_subscriber_def)
  have ok: "\<forall>a \<in> set []. answer_ok a" by simp
  from sub_run_accounts [OF c demo_sub_inv demo_mmap_fresh ok] c show ?thesis by (auto simp: demo_account)
qed

end
