(* ===== verification/Slot_Heap.thy ===== *)
theory Slot_Heap
  imports Shm_Layout "HOL-Library.Multiset"
begin

text \<open>
  The free subscriber slots of a publisher (\<open>src/broker.cpp\<close>): the interface of
  \<open>std::priority_queue\<close> with \<open>std::greater\<close> that the broker uses, and its model as a sorted list.
\<close>

section \<open>The interface\<close>

locale slot_heap =
  fixes empty :: 'h and push :: "nat \<Rightarrow> 'h \<Rightarrow> 'h" and top :: "'h \<Rightarrow> nat" and pop :: "'h \<Rightarrow> 'h"
    and contents :: "'h \<Rightarrow> nat multiset" and ok :: "'h \<Rightarrow> bool"
  assumes empty_ok: "ok empty" and push_ok: "ok h \<Longrightarrow> ok (push x h)"
    and pop_ok: "ok h \<Longrightarrow> contents h \<noteq> {#} \<Longrightarrow> ok (pop h)"
    and contents_empty: "contents empty = {#}"
    and contents_push: "ok h \<Longrightarrow> contents (push x h) = add_mset x (contents h)"
    and contents_pop: "ok h \<Longrightarrow> contents h \<noteq> {#} \<Longrightarrow> contents h = add_mset (top h) (contents (pop h))"
    and top_least: "ok h \<Longrightarrow> x \<in># contents h \<Longrightarrow> top h \<le> x"
begin

lemma take_one:
  assumes "ok h" "contents h + used = all" "contents h \<noteq> {#}"
  shows "ok (pop h) \<and> contents (pop h) + add_mset (top h) used = all \<and> top h \<in># all"
  using assms contents_pop [OF assms(1,3)] pop_ok [OF assms(1,3)] by auto

lemma give_back:
  assumes "ok h" "contents h + add_mset x used = all"
  shows "ok (push x h) \<and> contents (push x h) + used = all"
  using assms by (simp add: push_ok contents_push)

end

section \<open>The model\<close>

definition heap_push :: "nat \<Rightarrow> nat list \<Rightarrow> nat list" where
  "heap_push = insort"

definition heap_top :: "nat list \<Rightarrow> nat" where
  "heap_top = hd"

definition heap_pop :: "nat list \<Rightarrow> nat list" where
  "heap_pop = tl"

text \<open>\<open>init_available_subscriber_slots\<close>: every slot below the given count is pushed in turn.\<close>

fun init_slots_from :: "nat \<Rightarrow> nat \<Rightarrow> nat list \<Rightarrow> nat list" where
  "init_slots_from slot 0 h = h"
| "init_slots_from slot (Suc n) h = init_slots_from (Suc slot) n (heap_push slot h)"

definition init_available_subscriber_slots :: "nat list \<Rightarrow> nat list" where
  "init_available_subscriber_slots h = init_slots_from 0 kMaxSubscribers h"

interpretation heap: slot_heap "[]" heap_push heap_top heap_pop mset sorted
proof
  fix h :: "nat list" and x
  show "sorted []" by simp
  show "mset [] = {#}" by simp
  assume s: "sorted h"
  then show "sorted (heap_push x h)" by (simp add: heap_push_def sorted_insort)
  show "mset (heap_push x h) = add_mset x (mset h)" by (simp add: heap_push_def)
  show "sorted (heap_pop h)" if "mset h \<noteq> {#}"
    using s by (simp add: heap_pop_def sorted_tl)
  show "mset h = add_mset (heap_top h) (mset (heap_pop h))" if "mset h \<noteq> {#}"
    using that by (cases h) (simp_all add: heap_top_def heap_pop_def)
  show "heap_top h \<le> x" if "x \<in># mset h"
    using that s by (cases h) (auto simp: heap_top_def)
qed

lemma init_slots_from_contents:
  "sorted h \<Longrightarrow> sorted (init_slots_from slot n h) \<and> mset (init_slots_from slot n h) = mset [slot..<slot + n] + mset h"
proof (induction n arbitrary: slot h)
  case (Suc n)
  have "mset [slot..<slot + Suc n] = add_mset slot (mset [Suc slot..<Suc slot + n])"
    by (simp add: upt_rec [of slot])
  with Suc.IH [of "heap_push slot h" "Suc slot"] Suc.prems show ?case
    by (simp add: heap.push_ok heap.contents_push)
qed simp

lemma init_available_subscriber_slots_all:
  "sorted (init_available_subscriber_slots []) \<and> mset (init_available_subscriber_slots []) = mset [0..<16]"
  using init_slots_from_contents [of "[]" 0 kMaxSubscribers]
  by (simp add: init_available_subscriber_slots_def kMaxSubscribers_def)

end
