(* ===== verification/Broker_State.thy ===== *)
theory Broker_State
  imports Slot_Heap Fd_Helpers Broker_Protocol
begin

text \<open>
  The state of the broker process (\<open>src/broker.cpp\<close>): its global containers as one record, what
  it sends and closes, and the reasons for which it ends.  An \<open>exit(1)\<close> or \<open>return 1\<close> is the
  left value of a sum, named after the code's log message.
\<close>

section \<open>State\<close>

record subscriber_attachment =
  sa_attachment_id :: attachment_id
  sa_topic_id :: topic_id
  sa_publisher_fd :: int
  sa_space_available_event_fd :: int
  sa_data_available_event_fd :: int
  sa_slot_index :: u32

record broker =
  next_attachment_id :: attachment_id
  available_subscriber_slots :: "topic_id \<rightharpoonup> int \<rightharpoonup> nat list"
  subscriber_attachments_by_subscriber_fd :: "int \<rightharpoonup> subscriber_attachment list"
  role_by_fd :: "int \<rightharpoonup> broker_role"
  shm_fd_by_publisher_fd :: "int \<rightharpoonup> int"
  topic_ids_by_subscriber_fd :: "int \<rightharpoonup> topic_id list"
  publisher_fds_by_topic_id :: "topic_id \<rightharpoonup> int list"
  space_event_fd_by_publisher_fd :: "int \<rightharpoonup> int"
  subscriber_fds_by_topic_id :: "topic_id \<rightharpoonup> int list"
  client_fds :: "int set"

definition initial_broker :: broker where
  "initial_broker = \<lparr>next_attachment_id = 1, available_subscriber_slots = Map.empty,
     subscriber_attachments_by_subscriber_fd = Map.empty, role_by_fd = Map.empty,
     shm_fd_by_publisher_fd = Map.empty, topic_ids_by_subscriber_fd = Map.empty,
     publisher_fds_by_topic_id = Map.empty, space_event_fd_by_publisher_fd = Map.empty,
     subscriber_fds_by_topic_id = Map.empty, client_fds = {}\<rparr>"

text \<open>The world: messages handed to the kernel, oldest first, descriptors closed or removed from
  epoll, and how many eventfds have been requested.\<close>

record broker_io =
  outbox :: "(int \<times> msghdr) list"
  b_closed :: "int list"
  b_unwatched :: "int list"
  eventfd_calls :: nat

text \<open>The kernel's answers: whether the \<open>n\<close>-th message is sent completely to a descriptor, the
  result of the \<open>n\<close>-th \<open>eventfd\<close>, the byte a too short packet leaves in the receive buffer,
  and the order in which an \<open>unordered_map\<close> over topics is traversed.\<close>

record kernel =
  sends :: "nat \<Rightarrow> int \<Rightarrow> bool"
  new_eventfd :: "nat \<Rightarrow> int"
  stale_byte :: u8
  topic_order :: "(topic_id \<rightharpoonup> int list) \<Rightarrow> topic_id list"

section \<open>Ends of the process\<close>

datatype broker_fault =
    BrokerClosedFdRoleMissing | BrokerRecvFdRoleMissing | BrokerRecvClientFdMissing
  | BrokerControlCmsgTruncated | BrokerStatusQuerySize | BrokerAccept
  | SubscriberTopicRegistrationMessageSize | SubscriberTopicRegistrationCount
  | SubscriberTopicAvailableTopicMapMissing | SubscriberTopicShmFdMapMissing
  | SubscriberTopicAvailablePublisherMapMissing | BrokerNoFreeSubscriberSlot
  | SubscriberTopicSpaceEventFdMissing | SubscriberTopicDataAvailableEventFdCreate
  | SubscriberTopicPublisherRegistrationSend | BrokerAttachmentIdExhausted
  | SubscriberTopicAttachmentBatchSend
  | PublisherRegistrationShmFdMissing | PublisherRegistrationCmsg
  | PublisherRegistrationShmFdAlreadyExists | PublisherRegistrationSpaceEventFdAlreadyExists
  | PublisherSlotIndexHeapAlreadyExists | BrokerSubscriberSlotCapacity | InitialSubscriberCountSend
  | PublisherRegistrationDataAvailableEventFdCreate | PublisherRegistrationSubscriberRegistrationSend
  | PublisherRegistrationAttachmentBatchSend | PublisherRegistrationSubscriberAttachmentsMissing
  | SubscriberDisconnectAttachmentsMissing | SubscriberDisconnectTopicsMapMissing
  | SubscriberDisconnectSend | SubscriberDisconnectAvailableTopicMapMissing
  | SubscriberDisconnectAvailablePublisherMapMissing | SubscriberDisconnectTopicSubscribersMissing
  | SubscriberDisconnectTopicSubscriberMissing
  | PublisherDisconnectShmFdMapMissing | PublisherDisconnectTopicMapMissing
  | PublisherDisconnectAvailableTopicMapMissing | PublisherDisconnectAvailableSlotMapMissing
  | PublisherDisconnectSubscriberAttachmentsMissing | PublisherDisconnectSubscriberAttachmentMissing
  | PublisherDisconnectSend | PublisherDisconnectSpaceEventFdMissing

text \<open>Sequencing, and the two kinds of check.\<close>

definition and_then :: "broker_fault + 'a \<Rightarrow> ('a \<Rightarrow> broker_fault + 'b) \<Rightarrow> broker_fault + 'b" where
  "and_then r f = (case r of Inl e \<Rightarrow> Inl e | Inr x \<Rightarrow> f x)"

definition require :: "bool \<Rightarrow> broker_fault \<Rightarrow> (broker_fault + 'b) \<Rightarrow> broker_fault + 'b" where
  "require b e r = (if b then r else Inl e)"

definition found :: "'a option \<Rightarrow> broker_fault \<Rightarrow> ('a \<Rightarrow> broker_fault + 'b) \<Rightarrow> broker_fault + 'b" where
  "found x e f = (case x of None \<Rightarrow> Inl e | Some y \<Rightarrow> f y)"

lemma and_then_simps [simp]:
  "and_then (Inl e) f = Inl e" "and_then (Inr x) f = f x"
  by (simp_all add: and_then_def)

lemma require_simps [simp]:
  "require True e r = r" "require False e r = Inl e"
  by (simp_all add: require_def)

lemma found_simps [simp]:
  "found None e f = Inl e" "found (Some x) e f = f x"
  by (simp_all add: found_def)

lemma and_then_Inr: "and_then r f = Inr y \<longleftrightarrow> (\<exists>x. r = Inr x \<and> f x = Inr y)"
  by (cases r) simp_all

lemma require_Inr: "require b e r = Inr y \<longleftrightarrow> b \<and> r = Inr y"
  by (cases b) simp_all

lemma found_Inr: "found x e f = Inr y \<longleftrightarrow> (\<exists>z. x = Some z \<and> f z = Inr y)"
  by (cases x) simp_all

lemmas broker_Inr = and_then_Inr require_Inr found_Inr

section \<open>Sending\<close>

text \<open>A message to a descriptor, and whether all of it was sent.\<close>

definition transmit :: "kernel \<Rightarrow> int \<Rightarrow> msghdr \<Rightarrow> broker_io \<Rightarrow> bool \<times> broker_io" where
  "transmit kern fd msg w =
     (if sends kern (length (outbox w)) fd then (True, w\<lparr>outbox := outbox w @ [(fd, msg)]\<rparr>) else (False, w))"

definition plain_message :: "bytes \<Rightarrow> msghdr" where
  "plain_message packet = \<lparr>msg_bytes = packet, msg_truncated = False, msg_control = None\<rparr>"

definition send_subscriber_registered_message ::
  "kernel \<Rightarrow> int \<Rightarrow> int \<Rightarrow> u32 \<Rightarrow> broker_io \<Rightarrow> bool \<times> broker_io"
where
  "send_subscriber_registered_message kern conn_fd fd_to_send slot w =
     transmit kern conn_fd (send_packet_with_fd (subscriber_event_fd_and_slot_packet slot) fd_to_send) w"

definition attachment_entry :: "subscriber_attachment \<Rightarrow> attachment_id \<times> topic_id \<times> u32" where
  "attachment_entry a = (sa_attachment_id a, sa_topic_id a, sa_slot_index a)"

fun attachment_fds_of :: "subscriber_attachment list \<Rightarrow> int list \<Rightarrow> int list" where
  "attachment_fds_of (a # as) (shm # shms) =
     shm # sa_space_available_event_fd a # sa_data_available_event_fd a # attachment_fds_of as shms"
| "attachment_fds_of _ _ = []"

definition attachment_batch_message :: "subscriber_attachment list \<Rightarrow> int list \<Rightarrow> msghdr" where
  "attachment_batch_message as shms =
     send_packet_with_fds (attachment_batch_packet (map attachment_entry as)) (attachment_fds_of as shms)"

definition send_subscriber_attachment_batch_message ::
  "kernel \<Rightarrow> int \<Rightarrow> subscriber_attachment list \<Rightarrow> int list \<Rightarrow> broker_io \<Rightarrow> bool \<times> broker_io"
where
  "send_subscriber_attachment_batch_message kern subscriber_fd as shms w =
     (if length shms \<noteq> length as then (False, w)
      else if length as > kMaxAttachmentsPerBatch then (False, w)
      else transmit kern subscriber_fd (attachment_batch_message as shms) w)"

definition b_close :: "int \<Rightarrow> broker_io \<Rightarrow> broker_io" where
  "b_close fd w = w\<lparr>b_closed := b_closed w @ [fd]\<rparr>"

end
