(* ===== verification/Broker_Handlers.thy ===== *)
theory Broker_Handlers
  imports Broker_State
begin

text \<open>
  The broker's handlers (\<open>src/broker.cpp\<close>): registration of a subscriber and of a publisher,
  their disconnection, and the receive loop of \<open>main\<close>.  A loop of the code is a function on
  the list it walks.
\<close>

type_synonym broker_result = "broker_fault + broker \<times> broker_io"

text \<open>\<open>map[key]\<close> inserts an empty container first.\<close>

definition list_at :: "('k \<rightharpoonup> 'v list) \<Rightarrow> 'k \<Rightarrow> 'v list" where
  "list_at m k = (case m k of None \<Rightarrow> [] | Some xs \<Rightarrow> xs)"

definition map_at :: "('k \<rightharpoonup> ('l \<rightharpoonup> 'v)) \<Rightarrow> 'k \<Rightarrow> ('l \<rightharpoonup> 'v)" where
  "map_at m k = (case m k of None \<Rightarrow> Map.empty | Some n \<Rightarrow> n)"

text \<open>\<open>insert\<close> and \<open>emplace\<close> of a map keep an entry that is there already.\<close>

definition insert_new :: "('k \<rightharpoonup> 'v) \<Rightarrow> 'k \<Rightarrow> 'v \<Rightarrow> ('k \<rightharpoonup> 'v)" where
  "insert_new m k v = (if m k = None then m(k \<mapsto> v) else m)"

definition set_slots :: "topic_id \<Rightarrow> int \<Rightarrow> nat list \<Rightarrow> broker \<Rightarrow> broker" where
  "set_slots topic p slots b = b\<lparr>available_subscriber_slots :=
     (available_subscriber_slots b)(topic \<mapsto> (map_at (available_subscriber_slots b) topic)(p \<mapsto> slots))\<rparr>"

section \<open>A subscriber registers\<close>

text \<open>One publisher of one topic: take its least free slot, tell it, and remember the attachment.\<close>

definition attach_to_publisher ::
  "kernel \<Rightarrow> topic_id \<Rightarrow> int \<Rightarrow> broker \<times> broker_io \<times> subscriber_attachment list \<times> int list
     \<Rightarrow> broker_fault + broker \<times> broker_io \<times> subscriber_attachment list \<times> int list"
where
  "attach_to_publisher kern topic p = (\<lambda>(b, w, attachments, shm_fds).
     found (shm_fd_by_publisher_fd b p) SubscriberTopicShmFdMapMissing (\<lambda>shm.
     found (map_at (available_subscriber_slots b) topic p) SubscriberTopicAvailablePublisherMapMissing (\<lambda>slots.
     require (slots \<noteq> []) BrokerNoFreeSubscriberSlot (
     found (space_event_fd_by_publisher_fd b p) SubscriberTopicSpaceEventFdMissing (\<lambda>space.
     let data = new_eventfd kern (eventfd_calls w); w = w\<lparr>eventfd_calls := eventfd_calls w + 1\<rparr> in
     require (0 \<le> data) SubscriberTopicDataAvailableEventFdCreate (
     let slot = of_nat (heap_top slots) :: u32;
         b = set_slots topic p (heap_pop slots) b;
         (ok, w) = send_subscriber_registered_message kern p data slot w in
     require ok SubscriberTopicPublisherRegistrationSend (
     let a = \<lparr>sa_attachment_id = next_attachment_id b, sa_topic_id = topic, sa_publisher_fd = p,
           sa_space_available_event_fd = space, sa_data_available_event_fd = data, sa_slot_index = slot\<rparr>;
         b = b\<lparr>next_attachment_id := next_attachment_id b + 1\<rparr> in
     require (next_attachment_id b \<noteq> kInvalidAttachmentId) BrokerAttachmentIdExhausted (
     Inr (b, w, attachments @ [a], shm_fds @ [shm])))))))))"

fun attach_to_publishers ::
  "kernel \<Rightarrow> topic_id \<Rightarrow> int list \<Rightarrow> broker \<times> broker_io \<times> subscriber_attachment list \<times> int list
     \<Rightarrow> broker_fault + broker \<times> broker_io \<times> subscriber_attachment list \<times> int list"
where
  "attach_to_publishers kern topic [] st = Inr st"
| "attach_to_publishers kern topic (p # ps) st =
     and_then (attach_to_publisher kern topic p st) (attach_to_publishers kern topic ps)"

text \<open>One topic of the registration.\<close>

definition attach_to_topic ::
  "kernel \<Rightarrow> int \<Rightarrow> topic_id \<Rightarrow> broker \<times> broker_io \<times> subscriber_attachment list \<times> int list
     \<Rightarrow> broker_fault + broker \<times> broker_io \<times> subscriber_attachment list \<times> int list"
where
  "attach_to_topic kern fd topic = (\<lambda>(b, w, attachments, shm_fds).
     let publishers = publisher_fds_by_topic_id b topic;
         b = b\<lparr>subscriber_fds_by_topic_id := (subscriber_fds_by_topic_id b)
               (topic \<mapsto> list_at (subscriber_fds_by_topic_id b) topic @ [fd])\<rparr> in
     case publishers of
       None \<Rightarrow> Inr (b, w, attachments, shm_fds)
     | Some ps \<Rightarrow>
         require (available_subscriber_slots b topic \<noteq> None) SubscriberTopicAvailableTopicMapMissing (
         attach_to_publishers kern topic ps (b, w, attachments, shm_fds)))"

fun attach_to_topics ::
  "kernel \<Rightarrow> int \<Rightarrow> topic_id list \<Rightarrow> broker \<times> broker_io \<times> subscriber_attachment list \<times> int list
     \<Rightarrow> broker_fault + broker \<times> broker_io \<times> subscriber_attachment list \<times> int list"
where
  "attach_to_topics kern fd [] st = Inr st"
| "attach_to_topics kern fd (topic # topics) st =
     and_then (attach_to_topic kern fd topic st) (attach_to_topics kern fd topics)"

text \<open>The registration, once the topics have been read out of the packet.\<close>

definition register_subscriber :: "kernel \<Rightarrow> int \<Rightarrow> topic_id list \<Rightarrow> broker \<Rightarrow> broker_io \<Rightarrow> broker_result" where
  "register_subscriber kern fd topics b w =
     (let b = b\<lparr>topic_ids_by_subscriber_fd := insert_new (topic_ids_by_subscriber_fd b) fd topics,
            role_by_fd := insert_new (role_by_fd b) fd RoleSubscriber\<rparr> in
      and_then (attach_to_topics kern fd topics (b, w, [], [])) (\<lambda>(b, w, attachments, shm_fds).
      let (ok, w) = send_subscriber_attachment_batch_message kern fd attachments shm_fds w in
      require ok SubscriberTopicAttachmentBatchSend (
      Inr (b\<lparr>subscriber_attachments_by_subscriber_fd :=
             insert_new (subscriber_attachments_by_subscriber_fd b) fd attachments\<rparr>, w))))"

definition handle_subscriber_topic_registration ::
  "kernel \<Rightarrow> int \<Rightarrow> bytes \<Rightarrow> broker \<Rightarrow> broker_io \<Rightarrow> broker_result"
where
  "handle_subscriber_topic_registration kern fd packet b w =
     require (length packet = kSubscriberTopicRegistrationMessageSize) SubscriberTopicRegistrationMessageSize (
     found (field_u32 packet 1) SubscriberTopicRegistrationMessageSize (\<lambda>topic_count.
     require (topic_count \<noteq> 0 \<and> unat topic_count \<le> kMaxSubscriberTopicCount) SubscriberTopicRegistrationCount (
     found (read_topic_ids packet (1 + 4) (unat topic_count)) SubscriberTopicRegistrationMessageSize (\<lambda>topics.
     register_subscriber kern fd topics b w))))"

section \<open>A publisher registers\<close>

text \<open>One subscriber of the topic: take a slot, tell the publisher, tell the subscriber, remember.\<close>

definition attach_subscriber ::
  "kernel \<Rightarrow> topic_id \<Rightarrow> int \<Rightarrow> int \<Rightarrow> int \<Rightarrow> int \<Rightarrow> broker \<times> broker_io \<Rightarrow> broker_result"
where
  "attach_subscriber kern topic fd shm space subscriber = (\<lambda>(b, w).
     let data = new_eventfd kern (eventfd_calls w); w = w\<lparr>eventfd_calls := eventfd_calls w + 1\<rparr> in
     require (0 \<le> data) PublisherRegistrationDataAvailableEventFdCreate (
     found (map_at (available_subscriber_slots b) topic fd) BrokerSubscriberSlotCapacity (\<lambda>slots.
     let slot = of_nat (heap_top slots) :: u32;
         b = set_slots topic fd (heap_pop slots) b;
         (ok, w) = send_subscriber_registered_message kern fd data slot w in
     require ok PublisherRegistrationSubscriberRegistrationSend (
     let a = \<lparr>sa_attachment_id = next_attachment_id b, sa_topic_id = topic, sa_publisher_fd = fd,
           sa_space_available_event_fd = space, sa_data_available_event_fd = data, sa_slot_index = slot\<rparr>;
         b = b\<lparr>next_attachment_id := next_attachment_id b + 1\<rparr> in
     require (next_attachment_id b \<noteq> kInvalidAttachmentId) BrokerAttachmentIdExhausted (
     let (ok, w) = send_subscriber_attachment_batch_message kern subscriber [a] [shm] w in
     require ok PublisherRegistrationAttachmentBatchSend (
     found (subscriber_attachments_by_subscriber_fd b subscriber)
       PublisherRegistrationSubscriberAttachmentsMissing (\<lambda>attachments.
     Inr (b\<lparr>subscriber_attachments_by_subscriber_fd :=
            (subscriber_attachments_by_subscriber_fd b)(subscriber \<mapsto> attachments @ [a])\<rparr>, w)))))))) "

fun attach_subscribers ::
  "kernel \<Rightarrow> topic_id \<Rightarrow> int \<Rightarrow> int \<Rightarrow> int \<Rightarrow> int list \<Rightarrow> broker \<times> broker_io \<Rightarrow> broker_result"
where
  "attach_subscribers kern topic fd shm space [] st = Inr st"
| "attach_subscribers kern topic fd shm space (s # ss) st =
     and_then (attach_subscriber kern topic fd shm space s st) (attach_subscribers kern topic fd shm space ss)"

definition register_publisher ::
  "kernel \<Rightarrow> int \<Rightarrow> topic_id \<Rightarrow> int \<Rightarrow> int \<Rightarrow> broker \<Rightarrow> broker_io \<Rightarrow> broker_result"
where
  "register_publisher kern fd topic shm space b w =
     require (shm_fd_by_publisher_fd b fd = None) PublisherRegistrationShmFdAlreadyExists (
     require (space_event_fd_by_publisher_fd b fd = None) PublisherRegistrationSpaceEventFdAlreadyExists (
     require (map_at (available_subscriber_slots b) topic fd = None) PublisherSlotIndexHeapAlreadyExists (
     let slots = init_available_subscriber_slots [];
         b = set_slots topic fd slots (b\<lparr>shm_fd_by_publisher_fd := (shm_fd_by_publisher_fd b)(fd \<mapsto> shm),
               space_event_fd_by_publisher_fd := (space_event_fd_by_publisher_fd b)(fd \<mapsto> space)\<rparr>);
         b = b\<lparr>role_by_fd := insert_new (role_by_fd b) fd RolePublisher\<rparr>;
         subscribers = list_at (subscriber_fds_by_topic_id b) topic in
     require (length subscribers \<le> length slots) BrokerSubscriberSlotCapacity (
     let (ok, w) = transmit kern fd (plain_message (le_bytes 4 (of_nat (length subscribers) :: u32))) w in
     require ok InitialSubscriberCountSend (
     and_then (attach_subscribers kern topic fd shm space subscribers (b, w)) (\<lambda>(b, w).
     Inr (b\<lparr>publisher_fds_by_topic_id := (publisher_fds_by_topic_id b)
            (topic \<mapsto> list_at (publisher_fds_by_topic_id b) topic @ [fd])\<rparr>, w)))))))"

definition handle_publisher_topic_registration ::
  "kernel \<Rightarrow> int \<Rightarrow> bytes \<Rightarrow> cmsghdr option \<Rightarrow> broker \<Rightarrow> broker_io \<Rightarrow> broker_result"
where
  "handle_publisher_topic_registration kern fd packet cmsg b w =
     found cmsg PublisherRegistrationShmFdMissing (\<lambda>c.
     require (cmsg_level c = SOL_SOCKET \<and> cmsg_type c = SCM_RIGHTS \<and> cmsg_len c = CMSG_LEN (2 * 4))
       PublisherRegistrationCmsg (
     case cmsg_fds c of
       shm # space # _ \<Rightarrow>
         register_publisher kern fd (if length packet < 2 then stale_byte kern else packet ! 1) shm space b w
     | _ \<Rightarrow> Inl PublisherRegistrationCmsg))"

section \<open>A subscriber disconnects\<close>

text \<open>One of its attachments: tell the publisher, give the slot back, close the eventfd.\<close>

definition detach_from_publisher ::
  "kernel \<Rightarrow> subscriber_attachment \<Rightarrow> broker \<times> broker_io \<Rightarrow> broker_result"
where
  "detach_from_publisher kern a = (\<lambda>(b, w).
     let (ok, w) = transmit kern (sa_publisher_fd a)
           (plain_message (subscriber_disconnected_packet (sa_slot_index a))) w in
     require ok SubscriberDisconnectSend (
     require (available_subscriber_slots b (sa_topic_id a) \<noteq> None) SubscriberDisconnectAvailableTopicMapMissing (
     found (map_at (available_subscriber_slots b) (sa_topic_id a) (sa_publisher_fd a))
       SubscriberDisconnectAvailablePublisherMapMissing (\<lambda>slots.
     Inr (set_slots (sa_topic_id a) (sa_publisher_fd a) (heap_push (unat (sa_slot_index a)) slots) b,
          b_close (sa_data_available_event_fd a) w)))))"

fun detach_from_publishers ::
  "kernel \<Rightarrow> subscriber_attachment list \<Rightarrow> broker \<times> broker_io \<Rightarrow> broker_result"
where
  "detach_from_publishers kern [] st = Inr st"
| "detach_from_publishers kern (a # as) st =
     and_then (detach_from_publisher kern a st) (detach_from_publishers kern as)"

text \<open>One topic: the first occurrence of the subscriber is erased.\<close>

fun leave_topics :: "int \<Rightarrow> topic_id list \<Rightarrow> broker \<Rightarrow> broker_fault + broker" where
  "leave_topics fd [] b = Inr b"
| "leave_topics fd (topic # topics) b =
     found (subscriber_fds_by_topic_id b topic) SubscriberDisconnectTopicSubscribersMissing (\<lambda>subscribers.
     require (fd \<in> set subscribers) SubscriberDisconnectTopicSubscriberMissing (
     leave_topics fd topics (b\<lparr>subscriber_fds_by_topic_id :=
       (subscriber_fds_by_topic_id b)(topic \<mapsto> remove1 fd subscribers)\<rparr>)))"

definition handle_subscriber_disconnect :: "kernel \<Rightarrow> int \<Rightarrow> broker \<Rightarrow> broker_io \<Rightarrow> broker_result" where
  "handle_subscriber_disconnect kern fd b w =
     found (subscriber_attachments_by_subscriber_fd b fd) SubscriberDisconnectAttachmentsMissing (\<lambda>attachments.
     found (topic_ids_by_subscriber_fd b fd) SubscriberDisconnectTopicsMapMissing (\<lambda>topics.
     and_then (detach_from_publishers kern attachments (b, w)) (\<lambda>(b, w).
     let b = b\<lparr>subscriber_attachments_by_subscriber_fd := (subscriber_attachments_by_subscriber_fd b)(fd := None),
           role_by_fd := (role_by_fd b)(fd := None)\<rparr> in
     and_then (leave_topics fd topics b) (\<lambda>b.
     Inr (b\<lparr>topic_ids_by_subscriber_fd := (topic_ids_by_subscriber_fd b)(fd := None)\<rparr>, b_close fd w)))))"

section \<open>A publisher disconnects\<close>

text \<open>The first topic, in the order of the traversal, under which the publisher is listed.\<close>

definition topic_of_publisher :: "kernel \<Rightarrow> int \<Rightarrow> broker \<Rightarrow> topic_id option" where
  "topic_of_publisher kern fd b =
     find (\<lambda>topic. fd \<in> set (list_at (publisher_fds_by_topic_id b) topic)) (topic_order kern (publisher_fds_by_topic_id b))"

fun remove_first :: "('a \<Rightarrow> bool) \<Rightarrow> 'a list \<Rightarrow> 'a list" where
  "remove_first P [] = []"
| "remove_first P (x # xs) = (if P x then xs else x # remove_first P xs)"

text \<open>One subscriber of the topic.\<close>

definition detach_subscriber ::
  "kernel \<Rightarrow> int \<Rightarrow> int \<Rightarrow> broker \<times> broker_io \<Rightarrow> broker_result"
where
  "detach_subscriber kern fd subscriber = (\<lambda>(b, w).
     found (subscriber_attachments_by_subscriber_fd b subscriber)
       PublisherDisconnectSubscriberAttachmentsMissing (\<lambda>attachments.
     found (find (\<lambda>a. sa_publisher_fd a = fd) attachments) PublisherDisconnectSubscriberAttachmentMissing (\<lambda>a.
     let (ok, w) = transmit kern subscriber
           (plain_message (publisher_disconnected_packet (sa_attachment_id a))) w in
     require ok PublisherDisconnectSend (
     Inr (b\<lparr>subscriber_attachments_by_subscriber_fd := (subscriber_attachments_by_subscriber_fd b)
            (subscriber \<mapsto> remove_first (\<lambda>a. sa_publisher_fd a = fd) attachments)\<rparr>,
          b_close (sa_data_available_event_fd a) w)))))"

fun detach_subscribers :: "kernel \<Rightarrow> int \<Rightarrow> int list \<Rightarrow> broker \<times> broker_io \<Rightarrow> broker_result" where
  "detach_subscribers kern fd [] st = Inr st"
| "detach_subscribers kern fd (s # ss) st =
     and_then (detach_subscriber kern fd s st) (detach_subscribers kern fd ss)"

text \<open>An entry is erased when its container has become empty.\<close>

definition forget_publisher :: "int \<Rightarrow> topic_id \<Rightarrow> broker \<Rightarrow> broker" where
  "forget_publisher fd topic b =
     (let publishers = remove1 fd (list_at (publisher_fds_by_topic_id b) topic);
          slots = (map_at (available_subscriber_slots b) topic)(fd := None) in
      b\<lparr>publisher_fds_by_topic_id := (publisher_fds_by_topic_id b)
          (topic := (if publishers = [] then None else Some publishers)),
        available_subscriber_slots := (available_subscriber_slots b)
          (topic := (if slots = Map.empty then None else Some slots))\<rparr>)"

definition handle_publisher_disconnect :: "kernel \<Rightarrow> int \<Rightarrow> broker \<Rightarrow> broker_io \<Rightarrow> broker_result" where
  "handle_publisher_disconnect kern fd b w =
     found (shm_fd_by_publisher_fd b fd) PublisherDisconnectShmFdMapMissing (\<lambda>shm.
     found (topic_of_publisher kern fd b) PublisherDisconnectTopicMapMissing (\<lambda>topic.
     require (available_subscriber_slots b topic \<noteq> None) PublisherDisconnectAvailableTopicMapMissing (
     require (map_at (available_subscriber_slots b) topic fd \<noteq> None) PublisherDisconnectAvailableSlotMapMissing (
     and_then (detach_subscribers kern fd (list_at (subscriber_fds_by_topic_id b) topic) (b, w)) (\<lambda>(b, w).
     let b = forget_publisher fd topic (b\<lparr>shm_fd_by_publisher_fd := (shm_fd_by_publisher_fd b)(fd := None)\<rparr>);
         w = b_close shm w in
     found (space_event_fd_by_publisher_fd b fd) PublisherDisconnectSpaceEventFdMissing (\<lambda>space.
     Inr (b\<lparr>space_event_fd_by_publisher_fd := (space_event_fd_by_publisher_fd b)(fd := None),
            role_by_fd := (role_by_fd b)(fd := None)\<rparr>,
          b_close fd (b_close space w))))))))"

section \<open>The receive loop\<close>

text \<open>A registered peer is gone.\<close>

definition peer_gone :: "kernel \<Rightarrow> int \<Rightarrow> broker_role \<Rightarrow> broker \<Rightarrow> broker_io \<Rightarrow> broker_result" where
  "peer_gone kern fd role b w = (case role of
     RoleSubscriber \<Rightarrow> handle_subscriber_disconnect kern fd b w
   | RolePublisher \<Rightarrow> handle_publisher_disconnect kern fd b w)"

definition peer_closed :: "kernel \<Rightarrow> int \<Rightarrow> broker \<Rightarrow> broker_io \<Rightarrow> broker_result" where
  "peer_closed kern fd b w =
     found (role_by_fd b fd) BrokerClosedFdRoleMissing (\<lambda>role. peer_gone kern fd role b w)"

definition peer_failed :: "kernel \<Rightarrow> int \<Rightarrow> broker \<Rightarrow> broker_io \<Rightarrow> broker_result" where
  "peer_failed kern fd b w =
     found (role_by_fd b fd) BrokerRecvFdRoleMissing (\<lambda>role.
     require (fd \<in> client_fds b) BrokerRecvClientFdMissing (
     peer_gone kern fd role (b\<lparr>client_fds := client_fds b - {fd}\<rparr>) w))"

text \<open>The answer to a status query; a failed send is only logged.  The text of the snapshot is a
  parameter.\<close>

definition status_payload :: "bytes \<Rightarrow> bytes" where
  "status_payload snapshot = (if length snapshot > kMaxStatusSnapshotPayloadSize
     then map (\<lambda>c. of_nat (of_char c)) (''complete=0'' @ [CHR 0x0A] @ ''reason=status_snapshot_too_large'' @ [CHR 0x0A])
     else snapshot)"

definition handle_status_query ::
  "kernel \<Rightarrow> (broker \<Rightarrow> bytes) \<Rightarrow> int \<Rightarrow> bytes \<Rightarrow> broker \<Rightarrow> broker_io \<Rightarrow> broker_result"
where
  "handle_status_query kern snapshot fd packet b w =
     require (length packet = kStatusQuerySize) BrokerStatusQuerySize (
     let (ok, w) = transmit kern fd (plain_message (type_byte StatusSnapshot # status_payload (snapshot b))) w in
     Inr (b\<lparr>client_fds := client_fds b - {fd}\<rparr>,
          b_close fd (w\<lparr>b_unwatched := b_unwatched w @ [fd]\<rparr>)))"

text \<open>One message; the boolean is \<open>current_fd_closed\<close>.  Other types are ignored.\<close>

definition handle_client_message ::
  "kernel \<Rightarrow> (broker \<Rightarrow> bytes) \<Rightarrow> int \<Rightarrow> msghdr \<Rightarrow> bool \<Rightarrow> broker \<Rightarrow> broker_io
     \<Rightarrow> broker_fault + bool \<times> broker \<times> broker_io"
where
  "handle_client_message kern snapshot fd msg control_truncated b w =
     require (\<not> control_truncated) BrokerControlCmsgTruncated (
     case message_type_of (hd (msg_bytes msg)) of
       Some StatusQuery \<Rightarrow>
         and_then (handle_status_query kern snapshot fd (msg_bytes msg) b w) (\<lambda>(b, w). Inr (True, b, w))
     | Some SubscriberTopicRegistration \<Rightarrow>
         and_then (handle_subscriber_topic_registration kern fd (msg_bytes msg) b w) (\<lambda>(b, w). Inr (False, b, w))
     | Some PublisherTopicRegistration \<Rightarrow>
         and_then (handle_publisher_topic_registration kern fd (msg_bytes msg) (msg_control msg) b w)
           (\<lambda>(b, w). Inr (False, b, w))
     | _ \<Rightarrow> Inr (False, b, w))"

text \<open>The messages of one readable descriptor, up to the kernel's \<open>EAGAIN\<close>, which is also the
  answer when the list has run out.\<close>

fun receive_client_messages ::
  "kernel \<Rightarrow> (broker \<Rightarrow> bytes) \<Rightarrow> int \<Rightarrow> received list \<Rightarrow> broker \<Rightarrow> broker_io \<Rightarrow> broker_result"
where
  "receive_client_messages kern snapshot fd [] b w = Inr (b, w)"
| "receive_client_messages kern snapshot fd (RecvErr errno # answers) b w =
     (if errno = EAGAIN then Inr (b, w) else peer_failed kern fd b w)"
| "receive_client_messages kern snapshot fd (RecvMsg msg # answers) b w =
     (if msg_bytes msg = [] then peer_closed kern fd b w
      else and_then (handle_client_message kern snapshot fd msg (msg_truncated msg) b w) (\<lambda>(fd_closed, b, w).
        if fd_closed then Inr (b, w) else receive_client_messages kern snapshot fd answers b w))"

section \<open>Events\<close>

datatype accept_answer = AcceptFd int bool | AcceptErr int

text \<open>\<open>accept\<close> until \<open>EAGAIN\<close>; the boolean says whether \<open>add_fd_to_epoll\<close> succeeds.\<close>

fun accept_clients :: "accept_answer list \<Rightarrow> broker \<Rightarrow> broker_io \<Rightarrow> broker_result" where
  "accept_clients [] b w = Inr (b, w)"
| "accept_clients (AcceptErr errno # answers) b w =
     (if errno = EAGAIN then Inr (b, w) else Inl BrokerAccept)"
| "accept_clients (AcceptFd fd watched # answers) b w =
     (if watched then accept_clients answers (b\<lparr>client_fds := insert fd (client_fds b)\<rparr>) w
      else accept_clients answers (b\<lparr>client_fds := client_fds b - {fd}\<rparr>) (b_close fd w))"

text \<open>What \<open>main\<close> closes after the loop.\<close>

definition close_published :: "broker \<Rightarrow> int \<Rightarrow> int list" where
  "close_published b fd = (case role_by_fd b fd of
     None \<Rightarrow> []
   | Some RoleSubscriber \<Rightarrow> map sa_data_available_event_fd (list_at (subscriber_attachments_by_subscriber_fd b) fd)
   | Some RolePublisher \<Rightarrow> (case shm_fd_by_publisher_fd b fd of None \<Rightarrow> [] | Some shm \<Rightarrow> [shm]))"

end
