(* ===== verification/Broker_Attachments.thy ===== *)
theory Broker_Attachments
  imports Broker_Handlers Map_Sums
begin

text \<open>
  The attachments the broker (\<open>src/broker.cpp\<close>) remembers, as a multiset, and the two laws
  they obey together with the other tables: the slots in use and the free slots of a publisher
  are all its slots, and attachment ids are never used twice.
\<close>

section \<open>All attachments of a table\<close>

definition all_attachments ::
  "(int \<rightharpoonup> subscriber_attachment list) \<Rightarrow> subscriber_attachment multiset"
where
  "all_attachments m = sum_entries mset m"

lemmas all_attachments_insert =
  sum_entries_insert [where h = mset and m = "m :: int \<rightharpoonup> subscriber_attachment list" for m, folded all_attachments_def]
lemmas all_attachments_remove =
  sum_entries_delete [where h = mset and m = "m :: int \<rightharpoonup> subscriber_attachment list" for m, folded all_attachments_def]
lemmas all_attachments_update =
  sum_entries_replace [where h = mset and m = "m :: int \<rightharpoonup> subscriber_attachment list" for m, folded all_attachments_def]

lemma in_all_attachments:
  "finite (dom m) \<Longrightarrow> a \<in># all_attachments m \<longleftrightarrow> (\<exists>fd as. m fd = Some as \<and> a \<in> set as)"
  by (simp add: all_attachments_def in_sum_entries)

section \<open>Free slots and slots in use\<close>

definition slots_in_use :: "subscriber_attachment multiset \<Rightarrow> int \<Rightarrow> nat multiset" where
  "slots_in_use A p = image_mset (\<lambda>a. unat (sa_slot_index a)) (filter_mset (\<lambda>a. sa_publisher_fd a = p) A)"

definition all_slots :: "nat multiset" where
  "all_slots = mset [0..<16]"

text \<open>A publisher has free slots under one topic only, and they are those not in use.\<close>

definition slots_ok :: "(topic_id \<rightharpoonup> int \<rightharpoonup> nat list) \<Rightarrow> subscriber_attachment multiset \<Rightarrow> bool" where
  "slots_ok avail A \<longleftrightarrow>
     (\<forall>t p h. map_at avail t p = Some h \<longrightarrow> sorted h \<and> mset h + slots_in_use A p = all_slots)
     \<and> (\<forall>t t' p. map_at avail t p \<noteq> None \<longrightarrow> map_at avail t' p \<noteq> None \<longrightarrow> t = t')"

definition with_slots :: "(topic_id \<rightharpoonup> int \<rightharpoonup> nat list) \<Rightarrow> topic_id \<Rightarrow> int \<Rightarrow> nat list \<Rightarrow> (topic_id \<rightharpoonup> int \<rightharpoonup> nat list)" where
  "with_slots avail t p h = avail(t \<mapsto> (map_at avail t)(p \<mapsto> h))"

lemma set_slots_alt: "set_slots t p h b = b\<lparr>available_subscriber_slots := with_slots (available_subscriber_slots b) t p h\<rparr>"
  by (simp add: set_slots_def with_slots_def)

lemma map_at_with_slots [simp]:
  "map_at (with_slots avail t p h) t' q = (if t' = t \<and> q = p then Some h else map_at avail t' q)"
  by (simp add: map_at_def with_slots_def)

lemma slots_in_use_add [simp]:
  "slots_in_use (add_mset a A) p
     = (if sa_publisher_fd a = p then add_mset (unat (sa_slot_index a)) (slots_in_use A p) else slots_in_use A p)"
  by (simp add: slots_in_use_def)

lemma slots_in_use_empty [simp]: "slots_in_use {#} p = {#}"
  by (simp add: slots_in_use_def)

lemma slots_okD:
  assumes "slots_ok avail A"
  shows "map_at avail t p = Some h \<Longrightarrow> sorted h"
    "map_at avail t p = Some h \<Longrightarrow> mset h + slots_in_use A p = all_slots"
    "map_at avail t p \<noteq> None \<Longrightarrow> map_at avail t' p \<noteq> None \<Longrightarrow> t = t'"
  using assms unfolding slots_ok_def by blast+

text \<open>Each change of one publisher's free slots that keeps the sum.\<close>

lemma slots_ok_change:
  assumes ok: "slots_ok avail A" and at: "map_at avail t p = Some h"
    and h': "sorted h' \<and> mset h' + slots_in_use B p = all_slots"
    and other: "\<And>q. q \<noteq> p \<Longrightarrow> slots_in_use B q = slots_in_use A q"
  shows "slots_ok (with_slots avail t p h') B"
proof -
  note d = slots_okD [OF ok]
  have "sorted g \<and> mset g + slots_in_use B q = all_slots"
    if "map_at (with_slots avail t p h') u q = Some g" for u q g
  proof (cases "q = p")
    case True
    with that at d(3) [of t p u] h' show ?thesis by (auto split: if_split_asm)
  next
    case False
    with that d(1,2) [of u q g] other show ?thesis by (simp split: if_split_asm)
  qed
  moreover have "u = u'" if "map_at (with_slots avail t p h') u q \<noteq> None"
      "map_at (with_slots avail t p h') u' q \<noteq> None" for u u' q
  proof -
    have "map_at avail v q \<noteq> None" if "map_at (with_slots avail t p h') v q \<noteq> None" for v
      using that at by (cases "v = t \<and> q = p") (simp_all split: if_split_asm)
    with that d(3) show ?thesis by blast
  qed
  ultimately show ?thesis unfolding slots_ok_def by blast
qed

lemma heap_top_slot:
  assumes "slots_ok avail A" "map_at avail t p = Some h" "h \<noteq> []"
  shows "unat (of_nat (heap_top h) :: u32) = heap_top h \<and> heap_top h < 16"
proof -
  from heap.take_one [OF slots_okD(1,2) [OF assms(1,2)]] assms(3)
  have "heap_top h < 16" by (auto simp: all_slots_def)
  then show ?thesis by (simp add: unat_of_nat_small)
qed

lemma slots_take:
  assumes "slots_ok avail A" "map_at avail t p = Some h" "h \<noteq> []"
    and a: "sa_publisher_fd a = p" "sa_slot_index a = of_nat (heap_top h)"
  shows "slots_ok (with_slots avail t p (heap_pop h)) (add_mset a A)"
proof (rule slots_ok_change [OF assms(1,2)])
  show "sorted (heap_pop h) \<and> mset (heap_pop h) + slots_in_use (add_mset a A) p = all_slots"
    using heap.take_one [OF slots_okD(1,2) [OF assms(1,2)]] heap_top_slot [OF assms(1-3)] a assms(3) by simp
qed (use a in simp)

lemma slots_give:
  assumes ok: "slots_ok avail (add_mset a A)" and at: "map_at avail t (sa_publisher_fd a) = Some h"
  shows "slots_ok (with_slots avail t (sa_publisher_fd a) (heap_push (unat (sa_slot_index a)) h)) A"
proof (rule slots_ok_change [OF ok at])
  from slots_okD(2) [OF ok at]
  have "mset h + add_mset (unat (sa_slot_index a)) (slots_in_use A (sa_publisher_fd a)) = all_slots" by simp
  from heap.give_back [OF slots_okD(1) [OF ok at] this]
  show "sorted (heap_push (unat (sa_slot_index a)) h) \<and>
      mset (heap_push (unat (sa_slot_index a)) h) + slots_in_use A (sa_publisher_fd a) = all_slots" .
qed simp

text \<open>A new publisher.\<close>

lemma slots_new:
  assumes ok: "slots_ok avail A" and new: "\<And>t. map_at avail t p = None" and unused: "slots_in_use A p = {#}"
  shows "slots_ok (with_slots avail t p (init_available_subscriber_slots [])) A"
proof -
  note d = slots_okD [OF ok]
  have "sorted g \<and> mset g + slots_in_use A q = all_slots"
    if "map_at (with_slots avail t p (init_available_subscriber_slots [])) u q = Some g" for u q g
    using that d(1,2) [of u q g] unused init_available_subscriber_slots_all
    by (auto simp: all_slots_def split: if_split_asm)
  moreover have "u = u'" if "map_at (with_slots avail t p (init_available_subscriber_slots [])) u q \<noteq> None"
      "map_at (with_slots avail t p (init_available_subscriber_slots [])) u' q \<noteq> None" for u u' q
    using that d(3) [of u q u'] new by (auto split: if_split_asm)
  ultimately show ?thesis unfolding slots_ok_def by blast
qed

text \<open>A publisher's free slots, and any of its attachments, are forgotten.\<close>

lemma slots_forget:
  assumes ok: "slots_ok avail A" and sub: "\<And>t q. map_at avail' t q = (if q = p then None else map_at avail t q)"
    and other: "\<And>q. q \<noteq> p \<Longrightarrow> slots_in_use B q = slots_in_use A q"
  shows "slots_ok avail' B"
  using ok other unfolding slots_ok_def sub by (simp split: if_split_asm)

lemma slots_in_use_bound:
  assumes "slots_ok avail A" "map_at avail t p = Some h"
  shows "length h + size (slots_in_use A p) = 16"
  using slots_okD(2) [OF assms] by (metis all_slots_def length_upt diff_zero size_mset size_union)

text \<open>No slot is in use twice.\<close>

lemma all_slots_count: "count all_slots s = (if s < 16 then 1 else 0)"
  using distinct_count_atmost_1 [of "[0..<16]"] by (simp add: all_slots_def)

lemma slots_in_use_once:
  assumes "slots_ok avail A" "map_at avail t p = Some h"
  shows "count (slots_in_use A p) s \<le> 1" "s \<in> set h \<Longrightarrow> s \<notin># slots_in_use A p" "s \<in># slots_in_use A p \<Longrightarrow> s < 16"
proof -
  have c: "count (mset h) s + count (slots_in_use A p) s = (if s < 16 then 1 else 0)"
    using slots_okD(2) [OF assms] all_slots_count [of s] by (metis count_union)
  then show "count (slots_in_use A p) s \<le> 1" by (simp split: if_split_asm)
  show "s \<notin># slots_in_use A p" if "s \<in> set h"
    using c that by (metis add_eq_if count_eq_zero_iff count_greater_zero_iff diff_is_0_eq le_add2
      less_one not_gr_zero set_mset_mset zero_neq_one add_is_0 not_in_iff add_is_1)
  show "s < 16" if "s \<in># slots_in_use A p"
    using c that by (metis add_is_0 not_in_iff)
qed

section \<open>Attachment ids\<close>

definition ids_ok :: "attachment_id \<Rightarrow> subscriber_attachment multiset \<Rightarrow> bool" where
  "ids_ok n A \<longleftrightarrow> n \<noteq> 0 \<and> (\<forall>a. a \<in># A \<longrightarrow> sa_attachment_id a \<noteq> 0 \<and> sa_attachment_id a < n)
     \<and> (\<forall>i. count (image_mset sa_attachment_id A) i \<le> 1)"

lemma ids_take:
  assumes ok: "ids_ok n A" and a: "sa_attachment_id a = n" "n + 1 \<noteq> 0"
  shows "ids_ok (n + 1) (add_mset a A)"
proof -
  have "unat (n + 1) = Suc (unat n)"
    using a(2) by (metis add.commute unatSuc)
  then have less: "n < n + 1" by (simp add: word_less_nat_alt)
  have "count (image_mset sa_attachment_id A) n = 0"
    using ok by (auto simp: ids_ok_def count_eq_zero_iff)
  with ok a less show ?thesis by (auto simp: ids_ok_def intro: less_trans)
qed

lemma ids_sub:
  assumes "ids_ok n (A + B)"
  shows "ids_ok n A"
  using assms unfolding ids_ok_def by (auto dest: add_leD1)

end
