(* ===== verification/Broker_Outcome.thy ===== *)
theory Broker_Outcome
  imports Broker_Attachments
begin

text \<open>
  Reasoning about the broker's handlers: a triple \<open>outcome r P Q\<close> says that the computation
  \<open>r\<close> ends the process only for a reason in \<open>P\<close> and otherwise returns a value in
  \<open>Q\<close>.  Its rules follow the three forms of sequencing; the kernel's part of a fault is
  named, so that each triple says which environment an \<open>exit\<close> needs.
\<close>

definition outcome :: "broker_fault + 'a \<Rightarrow> (broker_fault \<Rightarrow> bool) \<Rightarrow> ('a \<Rightarrow> bool) \<Rightarrow> bool" where
  "outcome r P Q = (case r of Inl e \<Rightarrow> P e | Inr x \<Rightarrow> Q x)"

lemma outcome_simps [simp]: "outcome (Inl e) P Q = P e" "outcome (Inr x) P Q = Q x"
  by (simp_all add: outcome_def)

lemma outcome_and_then:
  "outcome r P R \<Longrightarrow> (\<And>x. R x \<Longrightarrow> outcome (f x) P Q) \<Longrightarrow> outcome (and_then r f) P Q"
  by (cases r) simp_all

lemma outcome_require:
  "(\<not> b \<Longrightarrow> P e) \<Longrightarrow> (b \<Longrightarrow> outcome r P Q) \<Longrightarrow> outcome (require b e r) P Q"
  by (cases b) simp_all

lemma outcome_found:
  "(x = None \<Longrightarrow> P e) \<Longrightarrow> (\<And>y. x = Some y \<Longrightarrow> outcome (f y) P Q) \<Longrightarrow> outcome (found x e f) P Q"
  by (cases x) simp_all

lemma outcome_mono:
  "outcome r P Q \<Longrightarrow> (\<And>e. P e \<Longrightarrow> P' e) \<Longrightarrow> (\<And>x. Q x \<Longrightarrow> Q' x) \<Longrightarrow> outcome r P' Q'"
  by (cases r) simp_all

lemma outcome_Inr: "outcome r P Q \<Longrightarrow> r = Inr x \<Longrightarrow> Q x"
  by simp

lemma outcome_Inl: "outcome r P Q \<Longrightarrow> r = Inl e \<Longrightarrow> P e"
  by simp

section \<open>The kernel\<close>

definition sends_all :: "kernel \<Rightarrow> bool" where
  "sends_all kern \<longleftrightarrow> (\<forall>n fd. sends kern n fd)"

definition eventfds_all :: "kernel \<Rightarrow> bool" where
  "eventfds_all kern \<longleftrightarrow> (\<forall>n. 0 \<le> new_eventfd kern n)"

text \<open>An \<open>unordered_map\<close> is traversed completely.\<close>

definition visits_all :: "kernel \<Rightarrow> bool" where
  "visits_all kern \<longleftrightarrow> (\<forall>m. finite (dom m) \<longrightarrow> set (topic_order kern m) = dom m)"

definition sent :: "(int \<times> msghdr) list \<Rightarrow> broker_io \<Rightarrow> broker_io" where
  "sent ms w = w\<lparr>outbox := outbox w @ ms\<rparr>"

lemma outcome_transmit:
  assumes "\<not> sends_all kern \<Longrightarrow> P e" "outcome (f (sent [(fd, msg)] w)) P Q"
  shows "outcome (case transmit kern fd msg w of (ok, w) \<Rightarrow> require ok e (f w)) P Q"
  using assms by (auto simp: transmit_def sent_def sends_all_def split: if_split_asm)

lemma sent_simps [simp]:
  "outbox (sent ms w) = outbox w @ ms" "b_closed (sent ms w) = b_closed w"
  "eventfd_calls (sent ms w) = eventfd_calls w" "b_unwatched (sent ms w) = b_unwatched w"
  by (simp_all add: sent_def)

lemma sent_Nil [simp]: "sent [] w = w"
  by (simp add: sent_def)

section \<open>Notifications\<close>

text \<open>What a publisher and a subscriber are told of an attachment, and when it ends.\<close>

definition registered_note :: "subscriber_attachment \<Rightarrow> int \<times> msghdr" where
  "registered_note a = (sa_publisher_fd a,
     send_packet_with_fd (subscriber_event_fd_and_slot_packet (sa_slot_index a)) (sa_data_available_event_fd a))"

definition batch_note :: "int \<Rightarrow> subscriber_attachment list \<Rightarrow> int list \<Rightarrow> int \<times> msghdr" where
  "batch_note subscriber as shms = (subscriber, attachment_batch_message as shms)"

definition subscriber_gone_note :: "subscriber_attachment \<Rightarrow> int \<times> msghdr" where
  "subscriber_gone_note a = (sa_publisher_fd a, plain_message (subscriber_disconnected_packet (sa_slot_index a)))"

definition publisher_gone_note :: "int \<times> subscriber_attachment \<Rightarrow> int \<times> msghdr" where
  "publisher_gone_note = (\<lambda>(subscriber, a). (subscriber, plain_message (publisher_disconnected_packet (sa_attachment_id a))))"

section \<open>Tables\<close>

abbreviation subscribers_of :: "broker \<Rightarrow> topic_id \<Rightarrow> int list" where
  "subscribers_of b t \<equiv> list_at (subscriber_fds_by_topic_id b) t"

abbreviation publishers_of :: "broker \<Rightarrow> topic_id \<Rightarrow> int list" where
  "publishers_of b t \<equiv> list_at (publisher_fds_by_topic_id b) t"

abbreviation topics_of :: "broker \<Rightarrow> int \<Rightarrow> topic_id list" where
  "topics_of b fd \<equiv> list_at (topic_ids_by_subscriber_fd b) fd"

abbreviation attachments_of :: "broker \<Rightarrow> int \<Rightarrow> subscriber_attachment list" where
  "attachments_of b fd \<equiv> list_at (subscriber_attachments_by_subscriber_fd b) fd"

abbreviation free_slots :: "broker \<Rightarrow> topic_id \<Rightarrow> int \<rightharpoonup> nat list" where
  "free_slots b t \<equiv> map_at (available_subscriber_slots b) t"

text \<open>Only the free slots, the attachment counter and the lists of subscribers differ, and the same
  publishers have free slots.\<close>

definition same_tables :: "broker \<Rightarrow> broker \<Rightarrow> bool" where
  "same_tables b b' \<longleftrightarrow> (\<exists>avail n subs. b' = b\<lparr>available_subscriber_slots := avail, next_attachment_id := n,
       subscriber_fds_by_topic_id := subs\<rparr>)
     \<and> (\<forall>t p. free_slots b' t p = None \<longleftrightarrow> free_slots b t p = None)"

lemma same_tablesI:
  assumes "b' = b\<lparr>available_subscriber_slots := available_subscriber_slots b',
      next_attachment_id := next_attachment_id b', subscriber_fds_by_topic_id := subscriber_fds_by_topic_id b'\<rparr>"
    "\<And>t p. free_slots b' t p = None \<longleftrightarrow> free_slots b t p = None"
  shows "same_tables b b'"
  using assms unfolding same_tables_def by blast

lemma same_tables_refl [simp]: "same_tables b b"
  by (rule same_tablesI) simp_all

lemma same_tables_trans: "same_tables b b' \<Longrightarrow> same_tables b' b'' \<Longrightarrow> same_tables b b''"
  unfolding same_tables_def by (elim conjE exE, intro conjI exI) auto

lemma same_tablesD:
  assumes "same_tables b b'"
  shows "subscriber_attachments_by_subscriber_fd b' = subscriber_attachments_by_subscriber_fd b"
    "role_by_fd b' = role_by_fd b" "shm_fd_by_publisher_fd b' = shm_fd_by_publisher_fd b"
    "topic_ids_by_subscriber_fd b' = topic_ids_by_subscriber_fd b"
    "publisher_fds_by_topic_id b' = publisher_fds_by_topic_id b"
    "space_event_fd_by_publisher_fd b' = space_event_fd_by_publisher_fd b"
    "client_fds b' = client_fds b"
    "free_slots b' t p = None \<longleftrightarrow> free_slots b t p = None"
  using assms by (auto simp: same_tables_def)

section \<open>The laws during a registration\<close>

definition ledger_ok :: "broker \<Rightarrow> subscriber_attachment multiset \<Rightarrow> bool" where
  "ledger_ok b A \<longleftrightarrow> slots_ok (available_subscriber_slots b) A \<and> ids_ok (next_attachment_id b) A"

text \<open>The descriptors of new attachments are the eventfds created meanwhile.\<close>

definition fresh_eventfds :: "kernel \<Rightarrow> broker_io \<Rightarrow> subscriber_attachment list \<Rightarrow> bool" where
  "fresh_eventfds kern w as \<longleftrightarrow> map sa_data_available_event_fd as
     = map (new_eventfd kern) [eventfd_calls w..<eventfd_calls w + length as]"

lemma fresh_eventfds_Nil [simp]: "fresh_eventfds kern w []"
  by (simp add: fresh_eventfds_def)

lemma fresh_eventfds_append:
  assumes "fresh_eventfds kern w as" "fresh_eventfds kern w' bs" "eventfd_calls w' = eventfd_calls w + length as"
  shows "fresh_eventfds kern w (as @ bs)"
  using assms upt_add_eq_append [of "eventfd_calls w" "eventfd_calls w + length as" "length bs"]
  by (simp add: fresh_eventfds_def add.assoc)

text \<open>Room for one attachment to each publisher of a list, and for as many ids.\<close>

definition room :: "subscriber_attachment multiset \<Rightarrow> int list \<Rightarrow> bool" where
  "room A ps \<longleftrightarrow> (\<forall>p. size (slots_in_use A p) + count_list ps p \<le> 16)"

definition ids_left :: "attachment_id \<Rightarrow> nat \<Rightarrow> bool" where
  "ids_left n k \<longleftrightarrow> unat n + k < 2 ^ 64"

lemma room_step: "room A (p # ps) \<Longrightarrow> sa_publisher_fd a = p \<Longrightarrow> room (add_mset a A) ps"
  unfolding room_def by (auto split: if_split_asm dest: spec [of _ p])

lemma room_prefix: "room A (ps @ qs) \<Longrightarrow> room A ps"
  unfolding room_def count_list_append by (metis add.assoc add_leD1)

lemma ids_left_prefix: "ids_left n (k + l) \<Longrightarrow> ids_left n k"
  by (simp add: ids_left_def)

lemma next_id:
  fixes n :: attachment_id
  shows "ids_left n (Suc k) \<Longrightarrow> n + 1 \<noteq> 0 \<and> ids_left (n + 1) k"
  using unat_add_no_wrap [of n 1] by (auto simp: ids_left_def unat_eq_zero)

end
