(* ===== verification/Broker_Registration.thy ===== *)
theory Broker_Registration
  imports Broker_Outcome
begin

text \<open>
  The loops of the two registrations: which attachments they make, whom they tell, that they keep
  the ledger of slots and ids, and for which reasons they end the process.
\<close>

section \<open>A subscriber registers\<close>

text \<open>The effect of a loop that has made the attachments \<open>new\<close>.\<close>

definition made_attachments ::
  "kernel \<Rightarrow> broker \<Rightarrow> broker_io \<Rightarrow> subscriber_attachment multiset \<Rightarrow> subscriber_attachment list \<Rightarrow> broker \<Rightarrow> broker_io \<Rightarrow> bool"
where
  "made_attachments kern b w A new b' w' \<longleftrightarrow> same_tables b b' \<and> ledger_ok b' (A + mset new)
     \<and> w' = sent (map registered_note new) (w\<lparr>eventfd_calls := eventfd_calls w + length new\<rparr>)
     \<and> fresh_eventfds kern w new
     \<and> (\<forall>a \<in> set new. space_event_fd_by_publisher_fd b (sa_publisher_fd a) = Some (sa_space_available_event_fd a))"

lemma made_attachmentsD:
  assumes "made_attachments kern b w A new b' w'"
  shows "same_tables b b'" "ledger_ok b' (A + mset new)" "fresh_eventfds kern w new"
    "w' = sent (map registered_note new) (w\<lparr>eventfd_calls := eventfd_calls w + length new\<rparr>)"
    "a \<in> set new \<Longrightarrow> space_event_fd_by_publisher_fd b (sa_publisher_fd a) = Some (sa_space_available_event_fd a)"
  using assms by (simp_all add: made_attachments_def)

lemma made_attachments_Nil: "ledger_ok b A \<Longrightarrow> made_attachments kern b w A [] b w"
  by (simp add: made_attachments_def)

lemma made_attachments_append:
  assumes 1: "made_attachments kern b w A new b' w'" and 2: "made_attachments kern b' w' (A + mset new) more_new b'' w''"
  shows "made_attachments kern b w A (new @ more_new) b'' w''"
proof -
  have "fresh_eventfds kern w (new @ more_new)"
    using made_attachmentsD(4) [OF 1]
    by (intro fresh_eventfds_append [OF made_attachmentsD(3) [OF 1] made_attachmentsD(3) [OF 2]]) simp
  moreover have "w'' = sent (map registered_note (new @ more_new))
      (w\<lparr>eventfd_calls := eventfd_calls w + length (new @ more_new)\<rparr>)"
    using made_attachmentsD(4) [OF 1] made_attachmentsD(4) [OF 2] by (simp add: sent_def add.assoc)
  moreover have "space_event_fd_by_publisher_fd b (sa_publisher_fd a) = Some (sa_space_available_event_fd a)"
    if "a \<in> set (new @ more_new)" for a
    using that made_attachmentsD(5) [OF 1] made_attachmentsD(5) [OF 2] same_tablesD(6) [OF made_attachmentsD(1) [OF 1]] by auto
  ultimately show ?thesis
    using same_tables_trans [OF made_attachmentsD(1) [OF 1] made_attachmentsD(1) [OF 2]] made_attachmentsD(2) [OF 2]
    by (simp add: made_attachments_def add.assoc)
qed

text \<open>The loops of a registration, on the state they thread: the topics the subscriber \<open>fd\<close> has
  joined, and the topic and the publisher of every attachment made; \<open>A\<close> are the attachments of
  the other subscribers.\<close>

type_synonym attach_state = "broker \<times> broker_io \<times> subscriber_attachment list \<times> int list"

definition attaches ::
  "kernel \<Rightarrow> subscriber_attachment multiset \<Rightarrow> int \<Rightarrow> topic_id list \<Rightarrow> (topic_id \<times> int) list \<Rightarrow> attach_state \<Rightarrow> attach_state \<Rightarrow> bool"
where
  "attaches kern A fd joined plan = (\<lambda>(b, w, as, shms) (b', w', as', shms').
     (\<forall>t. subscribers_of b' t = subscribers_of b t @ replicate (count_list joined t) fd)
     \<and> next_attachment_id b' = next_attachment_id b + of_nat (length plan)
     \<and> shms' = shms @ map (\<lambda>(t, p). the (shm_fd_by_publisher_fd b p)) plan
     \<and> (\<exists>new. made_attachments kern b w (A + mset as) new b' w' \<and> as' = as @ new
       \<and> map (\<lambda>a. (sa_topic_id a, sa_publisher_fd a)) new = plan))"

lemma attaches_append:
  assumes "attaches kern A fd joined plan st st'" "attaches kern A fd joined' plan' st' st''"
  shows "attaches kern A fd (joined @ joined') (plan @ plan') st st''"
proof -
  obtain b w as shms b' w' as' shms' b'' w'' as'' shms'' where
    st: "st = (b, w, as, shms)" "st' = (b', w', as', shms')" "st'' = (b'', w'', as'', shms'')"
    by (cases st, cases st', cases st'') auto
  from assms obtain new new' where
    new: "made_attachments kern b w (A + mset as) new b' w'" "as' = as @ new"
      "map (\<lambda>a. (sa_topic_id a, sa_publisher_fd a)) new = plan"
    and new': "made_attachments kern b' w' (A + mset as') new' b'' w''" "as'' = as' @ new'"
      "map (\<lambda>a. (sa_topic_id a, sa_publisher_fd a)) new' = plan'"
    unfolding attaches_def st by auto
  have "made_attachments kern b w (A + mset as) (new @ new') b'' w''"
    using made_attachments_append [OF new(1)] new'(1) new(2) by (simp add: add.assoc)
  moreover have "shm_fd_by_publisher_fd b' = shm_fd_by_publisher_fd b"
    using same_tablesD(3) made_attachmentsD(1) [OF new(1)] by blast
  ultimately show ?thesis
    using assms new new' unfolding attaches_def st
    by (auto simp: algebra_simps replicate_add intro!: exI [of _ "new @ new'"])
qed

text \<open>Why a registration that still has to attach the publishers \<open>ps\<close> may end the process.\<close>

definition attach_fault ::
  "kernel \<Rightarrow> subscriber_attachment multiset \<Rightarrow> attach_state \<Rightarrow> int list \<Rightarrow> broker_fault \<Rightarrow> bool"
where
  "attach_fault kern A st ps e \<longleftrightarrow> (case st of (b, w, as, shms) \<Rightarrow>
       e = BrokerNoFreeSubscriberSlot \<and> \<not> room (A + mset as) ps
     \<or> e = BrokerAttachmentIdExhausted \<and> \<not> ids_left (next_attachment_id b) (length ps)
     \<or> e = SubscriberTopicDataAvailableEventFdCreate \<and> \<not> eventfds_all kern
     \<or> e = SubscriberTopicPublisherRegistrationSend \<and> \<not> sends_all kern)"

lemma attach_fault_prefix: "attach_fault kern A st ps e \<Longrightarrow> attach_fault kern A st (ps @ qs) e"
  unfolding attach_fault_def using room_prefix ids_left_prefix by (fastforce split: prod.splits)

lemma room_move: "room A (ps @ qs) \<Longrightarrow> map sa_publisher_fd as = ps \<Longrightarrow> room (A + mset as) qs"
proof (induction as arbitrary: A ps)
  case (Cons a as)
  then obtain ps' where "ps = sa_publisher_fd a # ps'" "map sa_publisher_fd as = ps'" by auto
  with Cons room_step [of A "sa_publisher_fd a" "ps' @ qs" a] show ?case by fastforce
qed simp

lemma ids_left_move: "ids_left n (k + l) \<Longrightarrow> ids_left (n + of_nat k) l"
  by (simp add: ids_left_def unat_of_nat unat_word_ariths)

lemma attach_fault_suffix:
  assumes "attach_fault kern A st' qs e" "attaches kern A fd joined plan st st'" "map snd plan = ps"
  shows "attach_fault kern A st (ps @ qs) e"
proof -
  obtain b w as shms b' w' as' shms' where st: "st = (b, w, as, shms)" "st' = (b', w', as', shms')"
    by (cases st, cases st') auto
  from assms(2) obtain new where new: "as' = as @ new"
    "map (\<lambda>a. (sa_topic_id a, sa_publisher_fd a)) new = plan"
    and n: "next_attachment_id b' = next_attachment_id b + of_nat (length plan)"
    unfolding attaches_def st by auto
  from new(2) assms(3) have "map sa_publisher_fd new = ps" "length plan = length ps" by auto
  then show ?thesis
    using assms(1) room_move [of "A + mset as" ps qs new] new(1)
      ids_left_move [of "next_attachment_id b" "length ps" "length qs"] n
    by (auto simp: attach_fault_def st add.assoc)
qed

text \<open>Sequencing of loops.\<close>

lemma attaches_after:
  assumes a: "attaches kern A fd joined plan st st'" and ps: "map snd plan = ps"
    and r: "outcome r (attach_fault kern A st' qs) (attaches kern A fd joined' plan' st')"
  shows "outcome r (attach_fault kern A st (ps @ qs)) (attaches kern A fd (joined @ joined') (plan @ plan') st)"
  using attach_fault_suffix [OF _ a ps] attaches_append [OF a] by (rule outcome_mono [OF r])

lemma attaches_and_then:
  assumes "outcome r (attach_fault kern A st ps) (attaches kern A fd joined plan st)" "map snd plan = ps"
    and "\<And>st'. attaches kern A fd joined plan st st' \<Longrightarrow>
      outcome (f st') (attach_fault kern A st' qs) (attaches kern A fd joined' plan' st')"
  shows "outcome (and_then r f) (attach_fault kern A st (ps @ qs)) (attaches kern A fd (joined @ joined') (plan @ plan') st)"
proof (rule outcome_and_then)
  show "outcome r (attach_fault kern A st (ps @ qs)) (attaches kern A fd joined plan st)"
    using attach_fault_prefix by (rule outcome_mono [OF assms(1)]) assumption
qed (rule attaches_after [OF _ assms(2,3)])

text \<open>The publishers that a subscriber is about to be made_attachments to are registered.\<close>

definition registered :: "broker \<Rightarrow> topic_id \<Rightarrow> int \<Rightarrow> bool" where
  "registered b t p \<longleftrightarrow> shm_fd_by_publisher_fd b p \<noteq> None \<and> space_event_fd_by_publisher_fd b p \<noteq> None
     \<and> free_slots b t p \<noteq> None"

lemma registered_same: "same_tables b b' \<Longrightarrow> registered b' t p = registered b t p"
  by (simp add: registered_def same_tablesD)

lemma attach_to_publisher_ok:
  assumes ledger: "ledger_ok b (B + mset as)" and reg: "registered b t p"
  shows "outcome (attach_to_publisher kern t p (b, w, as, shms)) (attach_fault kern B (b, w, as, shms) [p])
    (attaches kern B fd [] [(t, p)] (b, w, as, shms))"
proof -
  from reg obtain shm space slots where
    at: "shm_fd_by_publisher_fd b p = Some shm" "space_event_fd_by_publisher_fd b p = Some space"
      "free_slots b t p = Some slots"
    by (auto simp: registered_def)
  let ?A = "B + mset as"
  from ledger have ok: "slots_ok (available_subscriber_slots b) ?A" "ids_ok (next_attachment_id b) ?A"
    by (simp_all add: ledger_ok_def)
  have none: "\<not> room ?A [p]" if "slots = []"
    using slots_in_use_bound [OF ok(1) at(3)] that by (auto simp: room_def intro!: exI [of _ p])
  have ids: "\<not> ids_left (next_attachment_id b) (length [p])" if "next_attachment_id b + 1 = 0"
    using next_id [of "next_attachment_id b" 0] that by auto
  let ?data = "new_eventfd kern (eventfd_calls w)"
  let ?a = "\<lparr>sa_attachment_id = next_attachment_id b, sa_topic_id = t, sa_publisher_fd = p,
     sa_space_available_event_fd = space, sa_data_available_event_fd = ?data,
     sa_slot_index = of_nat (heap_top slots)\<rparr>"
  let ?b = "b\<lparr>available_subscriber_slots := with_slots (available_subscriber_slots b) t p (heap_pop slots),
     next_attachment_id := next_attachment_id b + 1\<rparr>"
  let ?w = "sent [registered_note ?a] (w\<lparr>eventfd_calls := eventfd_calls w + 1\<rparr>)"
  have made_attachments: "made_attachments kern b w ?A [?a] ?b ?w"
    if "slots \<noteq> []" "next_attachment_id b + 1 \<noteq> 0"
  proof -
    have "ledger_ok ?b (add_mset ?a ?A)"
      using slots_take [OF ok(1) at(3) that(1), of ?a] ids_take [OF ok(2), of ?a] that(2)
      by (simp add: ledger_ok_def)
    moreover have "same_tables b ?b"
      by (rule same_tablesI) (use at(3) in auto)
    ultimately show ?thesis using at(2) by (simp add: made_attachments_def fresh_eventfds_def)
  qed
  show ?thesis
    unfolding attach_to_publisher_def send_subscriber_registered_message_def Let_def set_slots_alt prod.case
    apply (intro outcome_found outcome_require)
    subgoal using at by simp
    subgoal using at by simp
    subgoal using at none by (simp add: attach_fault_def)
    subgoal using at by simp
    subgoal by (auto simp: attach_fault_def eventfds_all_def)
    apply (rule outcome_transmit)
    subgoal by (simp add: attach_fault_def)
    apply (rule outcome_require)
    subgoal using ids by (simp add: attach_fault_def kInvalidAttachmentId_def)
    subgoal using made_attachments at by (auto simp: attaches_def registered_note_def kInvalidAttachmentId_def intro!: exI [of _ "[?a]"])
    done
qed

lemma attaches_same: "attaches kern A fd joined plan (b, st) (b', st') \<Longrightarrow> same_tables b b'"
  by (auto simp: attaches_def made_attachments_def split: prod.splits)

lemma attaches_ledger:
  "attaches kern A fd joined plan (b, st) (b', w', as', shms') \<Longrightarrow> ledger_ok b' (A + mset as')"
  by (auto simp: attaches_def made_attachments_def add.assoc split: prod.splits)

lemma attach_to_publishers_ok:
  assumes "ledger_ok b (A + mset as)" "\<forall>p \<in> set ps. registered b t p"
  shows "outcome (attach_to_publishers kern t ps (b, w, as, shms)) (attach_fault kern A (b, w, as, shms) ps)
    (attaches kern A fd [] (map (Pair t) ps) (b, w, as, shms))"
  using assms
proof (induction ps arbitrary: b w as shms)
  case Nil
  then show ?case by (simp add: attaches_def made_attachments_Nil)
next
  case (Cons p ps)
  have p: "registered b t p" using Cons.prems by simp
  have "outcome (attach_to_publishers kern t ps st') (attach_fault kern A st' ps)
      (attaches kern A fd [] (map (Pair t) ps) st')"
    if st': "attaches kern A fd [] [(t, p)] (b, w, as, shms) st'" for st'
  proof -
    obtain b' w' as' shms' where e: "st' = (b', w', as', shms')" by (cases st')
    show ?thesis
      unfolding e
    proof (rule Cons.IH)
      show "ledger_ok b' (A + mset as')" using attaches_ledger st' unfolding e .
      show "\<forall>p \<in> set ps. registered b' t p"
        using Cons.prems(2) registered_same [OF attaches_same [OF st' [unfolded e]]] by simp
    qed
  qed
  from attaches_and_then [OF attach_to_publisher_ok [OF Cons.prems(1) p] _ this] show ?case by simp
qed

text \<open>A topic, and all topics.\<close>

lemma attach_to_topic_ok:
  assumes "ledger_ok b (A + mset as)" "\<forall>p \<in> set (publishers_of b t). registered b t p"
    and "publisher_fds_by_topic_id b t \<noteq> Some []"
  shows "outcome (attach_to_topic kern fd t (b, w, as, shms))
    (attach_fault kern A (b, w, as, shms) (publishers_of b t))
    (attaches kern A fd [t] (map (Pair t) (publishers_of b t)) (b, w, as, shms))"
proof -
  let ?b = "b\<lparr>subscriber_fds_by_topic_id := (subscriber_fds_by_topic_id b)(t \<mapsto> subscribers_of b t @ [fd])\<rparr>"
  have joined: "attaches kern A fd [t] [] (b, w, as, shms) (?b, w, as, shms)"
  proof -
    have "same_tables b ?b" by (rule same_tablesI) simp_all
    with assms(1) show ?thesis
      by (auto simp: attaches_def made_attachments_def ledger_ok_def list_at_def)
  qed
  show ?thesis
  proof (cases "publisher_fds_by_topic_id b t")
    case None
    with joined show ?thesis by (simp add: attach_to_topic_def list_at_def)
  next
    case (Some ps)
    with assms(3) have ps: "publishers_of b t = ps" "ps \<noteq> []" by (auto simp: list_at_def)
    then have "registered b t (hd ps)" using assms(2) by simp
    then have avail: "available_subscriber_slots b t \<noteq> None"
      by (auto simp: registered_def map_at_def split: option.split_asm)
    have "ledger_ok ?b (A + mset as)" "\<forall>p \<in> set ps. registered ?b t p"
      using assms(1,2) ps by (simp_all add: ledger_ok_def registered_def)
    from attaches_after [OF joined _ attach_to_publishers_ok [OF this]]
    show ?thesis using Some ps avail
      by (simp add: attach_to_topic_def)
  qed
qed

text \<open>What the broker's tables say of publishers, as far as a registration relies on it.\<close>

definition publishers_known :: "broker \<Rightarrow> bool" where
  "publishers_known b \<longleftrightarrow> (\<forall>t. publisher_fds_by_topic_id b t \<noteq> Some []
     \<and> (\<forall>p \<in> set (publishers_of b t). registered b t p))"

lemma publishers_known_same: "same_tables b b' \<Longrightarrow> publishers_known b' = publishers_known b"
  by (simp add: publishers_known_def same_tablesD registered_same)

definition attach_plan :: "broker \<Rightarrow> topic_id list \<Rightarrow> (topic_id \<times> int) list" where
  "attach_plan b topics = concat (map (\<lambda>t. map (Pair t) (publishers_of b t)) topics)"

lemma attach_plan_same: "same_tables b b' \<Longrightarrow> attach_plan b' topics = attach_plan b topics"
  by (simp add: attach_plan_def same_tablesD)

lemma attach_plan_Cons: "attach_plan b (t # topics) = map (Pair t) (publishers_of b t) @ attach_plan b topics"
  by (simp add: attach_plan_def)

lemma attach_to_topics_ok:
  assumes "ledger_ok b (A + mset as)" "publishers_known b"
  shows "outcome (attach_to_topics kern fd topics (b, w, as, shms))
    (attach_fault kern A (b, w, as, shms) (map snd (attach_plan b topics)))
    (attaches kern A fd topics (attach_plan b topics) (b, w, as, shms))"
  using assms
proof (induction topics arbitrary: b w as shms)
  case Nil
  then show ?case by (simp add: attaches_def made_attachments_Nil attach_plan_def)
next
  case (Cons t topics)
  let ?ps = "publishers_of b t"
  have t: "\<forall>p \<in> set ?ps. registered b t p" "publisher_fds_by_topic_id b t \<noteq> Some []"
    using Cons.prems(2) by (auto simp: publishers_known_def)
  have "outcome (attach_to_topics kern fd topics st') (attach_fault kern A st' (map snd (attach_plan b topics)))
      (attaches kern A fd topics (attach_plan b topics) st')"
    if st': "attaches kern A fd [t] (map (Pair t) ?ps) (b, w, as, shms) st'" for st'
  proof -
    obtain b' w' as' shms' where e: "st' = (b', w', as', shms')" by (cases st')
    note same = attaches_same [OF st' [unfolded e]]
    have "ledger_ok b' (A + mset as')" "publishers_known b'"
      using attaches_ledger [OF st' [unfolded e]] publishers_known_same [OF same] Cons.prems(2) by simp_all
    from Cons.IH [OF this] show ?thesis unfolding e attach_plan_same [OF same] .
  qed
  from attaches_and_then [OF attach_to_topic_ok [OF Cons.prems(1) t] _ this]
  show ?case by (simp add: attach_plan_Cons comp_def)
qed

section \<open>A publisher registers\<close>

text \<open>The loop over the subscribers \<open>ss\<close> of its topic; each gets one attachment and is told.\<close>

definition linked_notes :: "int \<Rightarrow> (int \<times> subscriber_attachment) list \<Rightarrow> (int \<times> msghdr) list" where
  "linked_notes shm rs = concat (map (\<lambda>(s, a). [registered_note a, batch_note s [a] [shm]]) rs)"

definition given_to :: "int \<Rightarrow> (int \<times> subscriber_attachment) list \<Rightarrow> subscriber_attachment list" where
  "given_to s rs = map snd (filter (\<lambda>r. fst r = s) rs)"

lemma given_to_append [simp]: "given_to s (rs @ rs') = given_to s rs @ given_to s rs'"
  by (simp add: given_to_def)

lemma length_given_to: "length (given_to s rs) = count_list (map fst rs) s"
  by (induction rs) (auto simp: given_to_def)

definition same_clients :: "broker \<Rightarrow> broker \<Rightarrow> bool" where
  "same_clients b b' \<longleftrightarrow> role_by_fd b' = role_by_fd b \<and> shm_fd_by_publisher_fd b' = shm_fd_by_publisher_fd b
     \<and> topic_ids_by_subscriber_fd b' = topic_ids_by_subscriber_fd b
     \<and> publisher_fds_by_topic_id b' = publisher_fds_by_topic_id b
     \<and> space_event_fd_by_publisher_fd b' = space_event_fd_by_publisher_fd b
     \<and> subscriber_fds_by_topic_id b' = subscriber_fds_by_topic_id b \<and> client_fds b' = client_fds b"

definition made_links ::
  "kernel \<Rightarrow> topic_id \<Rightarrow> int \<Rightarrow> int \<Rightarrow> int \<Rightarrow> int list \<Rightarrow> broker \<times> broker_io \<Rightarrow> broker \<times> broker_io \<Rightarrow> bool"
where
  "made_links kern t p shm space ss = (\<lambda>(b, w) (b', w').
     same_clients b b' \<and> (\<forall>u q. free_slots b' u q = None \<longleftrightarrow> free_slots b u q = None)
     \<and> next_attachment_id b' = next_attachment_id b + of_nat (length ss)
     \<and> dom (subscriber_attachments_by_subscriber_fd b') = dom (subscriber_attachments_by_subscriber_fd b)
     \<and> ledger_ok b' (all_attachments (subscriber_attachments_by_subscriber_fd b'))
     \<and> (\<exists>rs. map fst rs = ss \<and> (\<forall>s. attachments_of b' s = attachments_of b s @ given_to s rs)
          \<and> (\<forall>a \<in> snd ` set rs. sa_topic_id a = t \<and> sa_publisher_fd a = p \<and> sa_space_available_event_fd a = space)
          \<and> all_attachments (subscriber_attachments_by_subscriber_fd b')
            = all_attachments (subscriber_attachments_by_subscriber_fd b) + mset (map snd rs)
          \<and> w' = sent (linked_notes shm rs) (w\<lparr>eventfd_calls := eventfd_calls w + length rs\<rparr>)
          \<and> fresh_eventfds kern w (map snd rs)))"

lemma made_linksD:
  assumes "made_links kern t p shm space ss (b, w) (b', w')"
  shows "role_by_fd b' = role_by_fd b" "shm_fd_by_publisher_fd b' = shm_fd_by_publisher_fd b"
    "topic_ids_by_subscriber_fd b' = topic_ids_by_subscriber_fd b"
    "publisher_fds_by_topic_id b' = publisher_fds_by_topic_id b"
    "space_event_fd_by_publisher_fd b' = space_event_fd_by_publisher_fd b"
    "subscriber_fds_by_topic_id b' = subscriber_fds_by_topic_id b" "client_fds b' = client_fds b"
    "free_slots b' u q = None \<longleftrightarrow> free_slots b u q = None"
    "next_attachment_id b' = next_attachment_id b + of_nat (length ss)"
    "dom (subscriber_attachments_by_subscriber_fd b') = dom (subscriber_attachments_by_subscriber_fd b)"
    "ledger_ok b' (all_attachments (subscriber_attachments_by_subscriber_fd b'))"
  using assms by (auto simp: made_links_def same_clients_def)

lemma made_links_append:
  assumes 1: "made_links kern t p shm space ss st st'" and 2: "made_links kern t p shm space ss' st' st''"
  shows "made_links kern t p shm space (ss @ ss') st st''"
proof -
  obtain b w b' w' b'' w'' where st: "st = (b, w)" "st' = (b', w')" "st'' = (b'', w'')"
    by (cases st, cases st', cases st'') auto
  from 1 obtain rs where rs: "map fst rs = ss" "\<forall>s. attachments_of b' s = attachments_of b s @ given_to s rs"
    "\<forall>a \<in> snd ` set rs. sa_topic_id a = t \<and> sa_publisher_fd a = p \<and> sa_space_available_event_fd a = space"
    "all_attachments (subscriber_attachments_by_subscriber_fd b')
       = all_attachments (subscriber_attachments_by_subscriber_fd b) + mset (map snd rs)"
    "w' = sent (linked_notes shm rs) (w\<lparr>eventfd_calls := eventfd_calls w + length rs\<rparr>)"
    "fresh_eventfds kern w (map snd rs)"
    unfolding made_links_def st by auto
  from 2 obtain rs' where rs': "map fst rs' = ss'" "\<forall>s. attachments_of b'' s = attachments_of b' s @ given_to s rs'"
    "\<forall>a \<in> snd ` set rs'. sa_topic_id a = t \<and> sa_publisher_fd a = p \<and> sa_space_available_event_fd a = space"
    "all_attachments (subscriber_attachments_by_subscriber_fd b'')
       = all_attachments (subscriber_attachments_by_subscriber_fd b') + mset (map snd rs')"
    "w'' = sent (linked_notes shm rs') (w'\<lparr>eventfd_calls := eventfd_calls w' + length rs'\<rparr>)"
    "fresh_eventfds kern w' (map snd rs')"
    unfolding made_links_def st by auto
  have fresh: "fresh_eventfds kern w (map snd (rs @ rs'))"
    unfolding map_append by (rule fresh_eventfds_append [OF rs(6) rs'(6)]) (simp add: rs(5))
  have w: "w'' = sent (linked_notes shm (rs @ rs')) (w\<lparr>eventfd_calls := eventfd_calls w + length (rs @ rs')\<rparr>)"
    by (simp add: rs'(5) rs(5) sent_def linked_notes_def add.assoc)
  have rec: "same_clients b b''"
    using 1 2 unfolding made_links_def st by (simp add: same_clients_def)
  show ?thesis
    unfolding made_links_def st prod.case
    apply (intro conjI exI [of _ "rs @ rs'"] allI)
    subgoal using rec .
    subgoal using made_linksD(8) [OF 1 [unfolded st]] made_linksD(8) [OF 2 [unfolded st]] by blast
    subgoal using made_linksD(9) [OF 1 [unfolded st]] made_linksD(9) [OF 2 [unfolded st]] by (simp add: algebra_simps)
    subgoal using made_linksD(10) [OF 1 [unfolded st]] made_linksD(10) [OF 2 [unfolded st]] by simp
    subgoal using made_linksD(11) [OF 2 [unfolded st]] .
    subgoal using rs(1) rs'(1) by simp
    subgoal using rs(2) rs'(2) by simp
    subgoal using rs(3) rs'(3) unfolding set_append image_Un by blast
    subgoal using rs(4) rs'(4) by (simp add: add.assoc)
    subgoal using w .
    subgoal using fresh .
    done
qed

text \<open>Why it may end the process.\<close>

definition link_fault :: "kernel \<Rightarrow> broker \<Rightarrow> nat \<Rightarrow> broker_fault \<Rightarrow> bool" where
  "link_fault kern b k e \<longleftrightarrow>
       e = BrokerAttachmentIdExhausted \<and> \<not> ids_left (next_attachment_id b) k
     \<or> e = PublisherRegistrationDataAvailableEventFdCreate \<and> \<not> eventfds_all kern
     \<or> e \<in> {PublisherRegistrationSubscriberRegistrationSend, PublisherRegistrationAttachmentBatchSend}
        \<and> \<not> sends_all kern"

lemma attach_subscriber_ok:
  assumes ledger: "ledger_ok b (all_attachments (subscriber_attachments_by_subscriber_fd b))"
    and fin: "finite (dom (subscriber_attachments_by_subscriber_fd b))"
    and s: "subscriber_attachments_by_subscriber_fd b s \<noteq> None" and slots: "free_slots b t p = Some (x # h)"
  shows "outcome (attach_subscriber kern t p shm space s (b, w)) (link_fault kern b 1)
    (made_links kern t p shm space [s] (b, w))"
proof -
  let ?m = "subscriber_attachments_by_subscriber_fd b" and ?h = "x # h"
  let ?A = "all_attachments ?m"
  from s obtain as where as: "?m s = Some as" by blast
  from ledger have ok: "slots_ok (available_subscriber_slots b) ?A" "ids_ok (next_attachment_id b) ?A"
    by (simp_all add: ledger_ok_def)
  have ids: "\<not> ids_left (next_attachment_id b) 1" if "next_attachment_id b + 1 = 0"
    using next_id [of "next_attachment_id b" 0] that by auto
  let ?data = "new_eventfd kern (eventfd_calls w)"
  let ?a = "\<lparr>sa_attachment_id = next_attachment_id b, sa_topic_id = t, sa_publisher_fd = p,
     sa_space_available_event_fd = space, sa_data_available_event_fd = ?data,
     sa_slot_index = of_nat (heap_top ?h)\<rparr>"
  let ?b = "b\<lparr>available_subscriber_slots := with_slots (available_subscriber_slots b) t p (heap_pop ?h),
     next_attachment_id := next_attachment_id b + 1,
     subscriber_attachments_by_subscriber_fd := ?m(s \<mapsto> as @ [?a])\<rparr>"
  let ?w = "sent [batch_note s [?a] [shm]] (sent [registered_note ?a] (w\<lparr>eventfd_calls := eventfd_calls w + 1\<rparr>))"
  have linked: "made_links kern t p shm space [s] (b, w) (?b, ?w)" if "next_attachment_id b + 1 \<noteq> 0"
  proof -
    have A: "all_attachments (?m(s \<mapsto> as @ [?a])) = add_mset ?a ?A"
      using all_attachments_update [OF fin as, of "as @ [?a]"] by simp
    have "ledger_ok ?b (add_mset ?a ?A)"
      using slots_take [OF ok(1) slots, of ?a] ids_take [OF ok(2), of ?a] that by (simp add: ledger_ok_def)
    moreover have "attachments_of ?b u = attachments_of b u @ given_to u [(s, ?a)]" for u
      using as by (simp add: list_at_def given_to_def)
    ultimately show ?thesis
      using as slots unfolding made_links_def
      by (auto simp: A same_clients_def sent_def linked_notes_def fresh_eventfds_def intro!: exI [of _ "[(s, ?a)]"])
  qed
  show ?thesis
    unfolding attach_subscriber_def send_subscriber_registered_message_def
      send_subscriber_attachment_batch_message_def Let_def set_slots_alt prod.case
    apply (intro outcome_found outcome_require)
    subgoal by (auto simp: link_fault_def eventfds_all_def)
    subgoal using slots by simp
    apply (rule outcome_transmit)
    subgoal by (simp add: link_fault_def)
    apply (rule outcome_require)
    subgoal using ids by (simp add: link_fault_def kInvalidAttachmentId_def)
    apply (simp only: list.size kMaxAttachmentsPerBatch_def)
    apply simp
    apply (rule outcome_transmit)
    subgoal by (simp add: link_fault_def)
    apply (rule outcome_found)
    subgoal using as by simp
    subgoal using linked as slots by (auto simp: registered_note_def batch_note_def kInvalidAttachmentId_def)
    done
qed

lemma made_links_in_use:
  assumes "made_links kern t p shm space ss (b, w) (b', w')"
  shows "size (slots_in_use (all_attachments (subscriber_attachments_by_subscriber_fd b')) p)
    = size (slots_in_use (all_attachments (subscriber_attachments_by_subscriber_fd b)) p) + length ss"
proof -
  from assms obtain rs where rs: "map fst rs = ss" "\<forall>a \<in> snd ` set rs. sa_publisher_fd a = p"
    "all_attachments (subscriber_attachments_by_subscriber_fd b')
       = all_attachments (subscriber_attachments_by_subscriber_fd b) + mset (map snd rs)"
    unfolding made_links_def by auto
  have "filter_mset (\<lambda>a. sa_publisher_fd a = p) (mset (map snd rs)) = mset (map snd rs)"
    using rs(2) by (intro filter_mset_eq_conv [THEN iffD2]) auto
  then show ?thesis using rs(1,3) by (auto simp: slots_in_use_def)
qed

lemma link_fault_mono: "link_fault kern b k e \<Longrightarrow> link_fault kern b (k + l) e"
  by (auto simp: link_fault_def ids_left_def)

lemma link_fault_after:
  "link_fault kern b' l e \<Longrightarrow> next_attachment_id b' = next_attachment_id b + of_nat k \<Longrightarrow> link_fault kern b (k + l) e"
  using ids_left_move by (auto simp: link_fault_def)

lemma attach_subscribers_ok:
  assumes "ledger_ok b (all_attachments (subscriber_attachments_by_subscriber_fd b))"
    "finite (dom (subscriber_attachments_by_subscriber_fd b))"
    "set ss \<subseteq> dom (subscriber_attachments_by_subscriber_fd b)" "free_slots b t p \<noteq> None"
    "size (slots_in_use (all_attachments (subscriber_attachments_by_subscriber_fd b)) p) + length ss \<le> 16"
  shows "outcome (attach_subscribers kern t p shm space ss (b, w)) (link_fault kern b (length ss))
    (made_links kern t p shm space ss (b, w))"
  using assms
proof (induction ss arbitrary: b w)
  case Nil
  then show ?case
    by (auto simp: made_links_def same_clients_def linked_notes_def given_to_def intro!: exI [of _ "[]"])
next
  case (Cons s ss)
  from Cons.prems(4) obtain h where h: "free_slots b t p = Some h" by blast
  from Cons.prems(1) have "slots_ok (available_subscriber_slots b) (all_attachments (subscriber_attachments_by_subscriber_fd b))"
    by (simp add: ledger_ok_def)
  from slots_in_use_bound [OF this h] Cons.prems(5) obtain x h' where h': "h = x # h'" by (cases h) auto
  have s: "subscriber_attachments_by_subscriber_fd b s \<noteq> None" using Cons.prems(3) by auto
  show ?case
    unfolding attach_subscribers.simps
  proof (rule outcome_and_then)
    show "outcome (attach_subscriber kern t p shm space s (b, w)) (link_fault kern b (length (s # ss)))
      (made_links kern t p shm space [s] (b, w))"
      using link_fault_mono [of _ _ 1 _ "length ss"]
      by (intro outcome_mono [OF attach_subscriber_ok [OF Cons.prems(1,2) s h [unfolded h']]]) auto
    fix st' assume st': "made_links kern t p shm space [s] (b, w) st'"
    obtain b' w' where e: "st' = (b', w')" by (cases st')
    note d = made_linksD [OF st' [unfolded e]]
    have "outcome (attach_subscribers kern t p shm space ss (b', w')) (link_fault kern b' (length ss))
      (made_links kern t p shm space ss (b', w'))"
      using d(8,10,11) made_links_in_use [OF st' [unfolded e]] Cons.prems(2-5)
      by (intro Cons.IH) auto
    then show "outcome (attach_subscribers kern t p shm space ss st') (link_fault kern b (length (s # ss)))
      (made_links kern t p shm space (s # ss) (b, w))"
      unfolding e
      by (rule outcome_mono) (use link_fault_after [of _ b' "length ss" _ b 1] d(9)
        made_links_append [OF st' [unfolded e], of ss] in auto)
  qed
qed

end
