(* ===== verification/Broker_Invariant.thy ===== *)
theory Broker_Invariant
  imports Broker_Registration
begin

text \<open>
  What the broker's tables satisfy between two messages, and that a registration of a new client
  keeps it.  Subscribers and publishers are matched by topic: a subscriber has as many attachments
  to a publisher as times it named the publisher's topic.
\<close>

section \<open>The invariant\<close>

definition clients_ok :: "broker \<Rightarrow> bool" where
  "clients_ok b \<longleftrightarrow>
     (\<forall>fd. role_by_fd b fd = Some RoleSubscriber \<longleftrightarrow> subscriber_attachments_by_subscriber_fd b fd \<noteq> None)
     \<and> (\<forall>fd. role_by_fd b fd = Some RoleSubscriber \<longleftrightarrow> topic_ids_by_subscriber_fd b fd \<noteq> None)
     \<and> (\<forall>fd. role_by_fd b fd = Some RolePublisher \<longleftrightarrow> shm_fd_by_publisher_fd b fd \<noteq> None)
     \<and> (\<forall>fd. role_by_fd b fd = Some RolePublisher \<longleftrightarrow> space_event_fd_by_publisher_fd b fd \<noteq> None)
     \<and> finite (dom (subscriber_attachments_by_subscriber_fd b))"

definition subscribers_ok :: "broker \<Rightarrow> bool" where
  "subscribers_ok b \<longleftrightarrow> (\<forall>t fd. count_list (subscribers_of b t) fd = count_list (topics_of b fd) t)"

definition publishers_ok :: "broker \<Rightarrow> bool" where
  "publishers_ok b \<longleftrightarrow> (\<forall>t. distinct (publishers_of b t) \<and> publisher_fds_by_topic_id b t \<noteq> Some [])
     \<and> (\<forall>p. shm_fd_by_publisher_fd b p \<noteq> None \<longleftrightarrow> (\<exists>t. p \<in> set (publishers_of b t)))
     \<and> (\<forall>t p. free_slots b t p \<noteq> None \<longleftrightarrow> p \<in> set (publishers_of b t))"

definition links_to :: "int \<Rightarrow> subscriber_attachment list \<Rightarrow> nat" where
  "links_to p as = length (filter (\<lambda>a. sa_publisher_fd a = p) as)"

definition matched :: "broker \<Rightarrow> bool" where
  "matched b \<longleftrightarrow> (\<forall>fd. subscriber_attachments_by_subscriber_fd b fd \<noteq> None \<longrightarrow>
     (\<forall>t. \<forall>p \<in> set (publishers_of b t). links_to p (attachments_of b fd) = count_list (topics_of b fd) t))"

definition attachments_ok :: "broker \<Rightarrow> bool" where
  "attachments_ok b \<longleftrightarrow> (\<forall>fd. \<forall>a \<in> set (attachments_of b fd).
     sa_publisher_fd a \<in> set (publishers_of b (sa_topic_id a))
     \<and> space_event_fd_by_publisher_fd b (sa_publisher_fd a) = Some (sa_space_available_event_fd a))"

definition broker_inv :: "broker \<Rightarrow> bool" where
  "broker_inv b \<longleftrightarrow> clients_ok b \<and> subscribers_ok b \<and> publishers_ok b \<and> matched b \<and> attachments_ok b
     \<and> ledger_ok b (all_attachments (subscriber_attachments_by_subscriber_fd b))"

lemma list_at_upd [simp]: "list_at (m(k \<mapsto> v)) j = (if j = k then v else list_at m j)"
  by (simp add: list_at_def)

lemma list_at_del [simp]: "list_at (m(k := None)) j = (if j = k then [] else list_at m j)"
  by (simp add: list_at_def)

lemma list_at_None: "m k = None \<Longrightarrow> list_at m k = []"
  by (simp add: list_at_def)

lemma list_at_Some: "m k = Some v \<Longrightarrow> list_at m k = v"
  by (simp add: list_at_def)

lemma list_at_in: "x \<in> set (list_at m k) \<Longrightarrow> m k \<noteq> None"
  by (cases "m k") (simp_all add: list_at_def)

lemma broker_invD:
  assumes "broker_inv b"
  shows "clients_ok b" "subscribers_ok b" "publishers_ok b" "matched b" "attachments_ok b"
    "ledger_ok b (all_attachments (subscriber_attachments_by_subscriber_fd b))"
  using assms by (simp_all add: broker_inv_def)

lemma clients_okD:
  assumes "clients_ok b"
  shows "role_by_fd b fd = Some RoleSubscriber \<longleftrightarrow> subscriber_attachments_by_subscriber_fd b fd \<noteq> None"
    "role_by_fd b fd = Some RoleSubscriber \<longleftrightarrow> topic_ids_by_subscriber_fd b fd \<noteq> None"
    "role_by_fd b fd = Some RolePublisher \<longleftrightarrow> shm_fd_by_publisher_fd b fd \<noteq> None"
    "role_by_fd b fd = Some RolePublisher \<longleftrightarrow> space_event_fd_by_publisher_fd b fd \<noteq> None"
    "finite (dom (subscriber_attachments_by_subscriber_fd b))"
  using assms unfolding clients_ok_def by blast+

lemma clients_okI:
  assumes "\<And>fd. (role_by_fd b fd = Some RoleSubscriber \<longleftrightarrow> subscriber_attachments_by_subscriber_fd b fd \<noteq> None)
      \<and> (role_by_fd b fd = Some RoleSubscriber \<longleftrightarrow> topic_ids_by_subscriber_fd b fd \<noteq> None)
      \<and> (role_by_fd b fd = Some RolePublisher \<longleftrightarrow> shm_fd_by_publisher_fd b fd \<noteq> None)
      \<and> (role_by_fd b fd = Some RolePublisher \<longleftrightarrow> space_event_fd_by_publisher_fd b fd \<noteq> None)"
    and "finite (dom (subscriber_attachments_by_subscriber_fd b))"
  shows "clients_ok b"
  using assms unfolding clients_ok_def by blast

lemma publishers_okD:
  assumes "publishers_ok b"
  shows "distinct (publishers_of b t)" "publisher_fds_by_topic_id b t \<noteq> Some []"
    "shm_fd_by_publisher_fd b p \<noteq> None \<longleftrightarrow> (\<exists>t. p \<in> set (publishers_of b t))"
    "free_slots b t p \<noteq> None \<longleftrightarrow> p \<in> set (publishers_of b t)"
  using assms unfolding publishers_ok_def by blast+

lemma unregistered:
  assumes "clients_ok b" "role_by_fd b fd = None"
  shows "subscriber_attachments_by_subscriber_fd b fd = None" "topic_ids_by_subscriber_fd b fd = None"
    "shm_fd_by_publisher_fd b fd = None" "space_event_fd_by_publisher_fd b fd = None"
  using clients_okD(1-4) [OF assms(1), of fd] assms(2) by simp_all

text \<open>A publisher has one topic.\<close>

lemma one_topic:
  assumes "broker_inv b" "p \<in> set (publishers_of b t)" "p \<in> set (publishers_of b t')"
  shows "t = t'"
proof -
  have "slots_ok (available_subscriber_slots b) (all_attachments (subscriber_attachments_by_subscriber_fd b))"
    using broker_invD(6) [OF assms(1)] by (simp add: ledger_ok_def)
  from slots_okD(3) [OF this] publishers_okD(4) [OF broker_invD(3) [OF assms(1)]] assms(2,3)
  show ?thesis by blast
qed

lemma initial_broker_inv: "broker_inv initial_broker"
  by (simp add: broker_inv_def initial_broker_def clients_ok_def subscribers_ok_def publishers_ok_def
    matched_def attachments_ok_def ledger_ok_def slots_ok_def ids_ok_def all_attachments_def list_at_def map_at_def)

lemma publishers_known_if:
  assumes "broker_inv b"
  shows "publishers_known b"
proof -
  note c = clients_okD [OF broker_invD(1) [OF assms]] and p = publishers_okD [OF broker_invD(3) [OF assms]]
  have "registered b t q" if "q \<in> set (publishers_of b t)" for t q
    using that p(3) [of q] p(4) [of t q] c(3,4) [of q] unfolding registered_def by blast
  then show ?thesis using p(2) by (auto simp: publishers_known_def)
qed

section \<open>A subscriber registers\<close>

lemma links_to_simps [simp]:
  "links_to p [] = 0" "links_to p (a # as) = (if sa_publisher_fd a = p then Suc (links_to p as) else links_to p as)"
  "links_to p (as @ bs) = links_to p as + links_to p bs"
  by (simp_all add: links_to_def)

lemma links_to_count: "links_to p as = count_list (map sa_publisher_fd as) p"
  by (induction as) simp_all

lemma count_list_replicate: "count_list (replicate n x) y = (if x = y then n else 0)"
  by (induction n) auto

lemma count_list_map_Pair: "count_list (map (Pair t) xs) (u, x) = (if u = t then count_list xs x else 0)"
  by (induction xs) auto

lemma count_attach_plan:
  "count_list (attach_plan b topics) (t, p) = count_list topics t * count_list (publishers_of b t) p"
  by (induction topics) (simp_all add: attach_plan_def count_list_map_Pair)

lemma count_list_distinct: "distinct xs \<Longrightarrow> count_list xs x = (if x \<in> set xs then 1 else 0)"
  by (induction xs) (auto simp: count_list_0_iff)

text \<open>Every entry of the plan for a publisher is under the publisher's topic.\<close>

lemma count_plan_publisher:
  assumes "broker_inv b" "p \<in> set (publishers_of b t)"
  shows "count_list (map snd (attach_plan b topics)) p = count_list topics t"
proof -
  have one: "count_list (publishers_of b u) p = (if u = t then 1 else 0)" for u
  proof (cases "p \<in> set (publishers_of b u)")
    case True
    then show ?thesis
      using one_topic [OF assms True] publishers_okD(1) [OF broker_invD(3) [OF assms(1)], of u]
      by (simp add: count_list_distinct)
  next
    case False
    then show ?thesis using assms(2) by (auto simp: count_list_0_iff)
  qed
  show ?thesis
    by (induction topics) (auto simp: attach_plan_def comp_def one)
qed

text \<open>The state after the loops, with the new attachments recorded.\<close>

lemma attaches_inv:
  assumes inv: "broker_inv b" and new: "role_by_fd b fd = None"
    and a: "attaches kern (all_attachments (subscriber_attachments_by_subscriber_fd b)) fd topics (attach_plan b topics)
      (b\<lparr>topic_ids_by_subscriber_fd := (topic_ids_by_subscriber_fd b)(fd \<mapsto> topics),
         role_by_fd := (role_by_fd b)(fd \<mapsto> RoleSubscriber)\<rparr>, w, [], []) (b', w', as, shms)"
  shows "broker_inv (b'\<lparr>subscriber_attachments_by_subscriber_fd :=
    (subscriber_attachments_by_subscriber_fd b')(fd \<mapsto> as)\<rparr>)" (is "broker_inv ?b")
proof -
  note i = broker_invD [OF inv] and c = clients_okD [OF broker_invD(1) [OF inv]]
    and p = publishers_okD [OF broker_invD(3) [OF inv]] and u = unregistered [OF broker_invD(1) [OF inv] new]
  let ?start = "b\<lparr>topic_ids_by_subscriber_fd := (topic_ids_by_subscriber_fd b)(fd \<mapsto> topics),
         role_by_fd := (role_by_fd b)(fd \<mapsto> RoleSubscriber)\<rparr>"
  from a have same: "same_tables ?start b'" by (rule attaches_same)
  note f = same_tablesD [OF same, simplified]
  from a have subs: "subscribers_of b' t = subscribers_of b t @ replicate (count_list topics t) fd" for t
    by (simp add: attaches_def)
  from a obtain new where att: "made_attachments kern ?start w (all_attachments (subscriber_attachments_by_subscriber_fd b)) new b' w'"
    and as: "as = new" "map (\<lambda>a. (sa_topic_id a, sa_publisher_fd a)) new = attach_plan b topics"
    by (auto simp: attaches_def)
  have pubs: "map sa_publisher_fd as = map snd (attach_plan b topics)"
    using as(2) unfolding as(1) [symmetric] by (metis (mono_tags, lifting) comp_apply list.map_comp map_eq_conv snd_conv)
  have "clients_ok ?b"
  proof (rule clients_okI)
    fix x
    show "(role_by_fd ?b x = Some RoleSubscriber \<longleftrightarrow> subscriber_attachments_by_subscriber_fd ?b x \<noteq> None)
      \<and> (role_by_fd ?b x = Some RoleSubscriber \<longleftrightarrow> topic_ids_by_subscriber_fd ?b x \<noteq> None)
      \<and> (role_by_fd ?b x = Some RolePublisher \<longleftrightarrow> shm_fd_by_publisher_fd ?b x \<noteq> None)
      \<and> (role_by_fd ?b x = Some RolePublisher \<longleftrightarrow> space_event_fd_by_publisher_fd ?b x \<noteq> None)"
      using c(1-4) [of x] u by (cases "x = fd") (simp_all add: f)
  qed (use c(5) in \<open>simp add: f\<close>)
  moreover have "subscribers_ok ?b"
    using i(2) u(2) by (auto simp: subscribers_ok_def subs f count_list_replicate list_at_None)
  moreover have "publishers_ok ?b"
    using p by (simp add: publishers_ok_def f)
  moreover have "matched ?b"
  proof -
    have "links_to q as = count_list topics t" if "q \<in> set (publishers_of b t)" for t q
      using count_plan_publisher [OF inv that] by (simp add: links_to_count pubs)
    then show ?thesis using i(4) by (auto simp: matched_def f)
  qed
  moreover have "attachments_ok ?b"
  proof -
    have "sa_publisher_fd x \<in> set (publishers_of b (sa_topic_id x))" if "x \<in> set as" for x
    proof -
      have "(sa_topic_id x, sa_publisher_fd x) \<in> set (attach_plan b topics)"
        using that as by (metis (mono_tags, lifting) imageI list.set_map)
      then show ?thesis by (auto simp: attach_plan_def)
    qed
    moreover have "space_event_fd_by_publisher_fd b (sa_publisher_fd x) = Some (sa_space_available_event_fd x)"
      if "x \<in> set as" for x
      using made_attachmentsD(5) [OF att] that as by simp
    ultimately show ?thesis using i(5) by (simp add: attachments_ok_def f)
  qed
  moreover have "ledger_ok ?b (all_attachments (subscriber_attachments_by_subscriber_fd ?b))"
    using made_attachmentsD(2) [OF att] as u(1) c(5)
    by (simp add: f ledger_ok_def all_attachments_insert add.commute)
  ultimately show ?thesis by (simp add: broker_inv_def)
qed

text \<open>What a registration does, and why it may end the process.\<close>

definition subscriber_registered ::
  "kernel \<Rightarrow> int \<Rightarrow> topic_id list \<Rightarrow> broker \<times> broker_io \<Rightarrow> broker \<times> broker_io \<Rightarrow> bool"
where
  "subscriber_registered kern fd topics = (\<lambda>(b, w) (b', w').
     topic_ids_by_subscriber_fd b' = (topic_ids_by_subscriber_fd b)(fd \<mapsto> topics)
     \<and> role_by_fd b' = (role_by_fd b)(fd \<mapsto> RoleSubscriber)
     \<and> publisher_fds_by_topic_id b' = publisher_fds_by_topic_id b
     \<and> shm_fd_by_publisher_fd b' = shm_fd_by_publisher_fd b
     \<and> space_event_fd_by_publisher_fd b' = space_event_fd_by_publisher_fd b
     \<and> client_fds b' = client_fds b
     \<and> (\<forall>t. subscribers_of b' t = subscribers_of b t @ replicate (count_list topics t) fd)
     \<and> (\<exists>as. subscriber_attachments_by_subscriber_fd b' = (subscriber_attachments_by_subscriber_fd b)(fd \<mapsto> as)
       \<and> map (\<lambda>a. (sa_topic_id a, sa_publisher_fd a)) as = attach_plan b topics
       \<and> next_attachment_id b' = next_attachment_id b + of_nat (length as)
       \<and> w' = sent (map registered_note as @
             [batch_note fd as (map (\<lambda>(t, p). the (shm_fd_by_publisher_fd b p)) (attach_plan b topics))])
           (w\<lparr>eventfd_calls := eventfd_calls w + length as\<rparr>)
       \<and> fresh_eventfds kern w as))"

definition subscriber_refused :: "kernel \<Rightarrow> topic_id list \<Rightarrow> broker \<Rightarrow> broker_fault \<Rightarrow> bool" where
  "subscriber_refused kern topics b e \<longleftrightarrow> (let ps = map snd (attach_plan b topics) in
       e = BrokerNoFreeSubscriberSlot \<and> \<not> room (all_attachments (subscriber_attachments_by_subscriber_fd b)) ps
     \<or> e = BrokerAttachmentIdExhausted \<and> \<not> ids_left (next_attachment_id b) (length ps)
     \<or> e = SubscriberTopicDataAvailableEventFdCreate \<and> \<not> eventfds_all kern
     \<or> e = SubscriberTopicPublisherRegistrationSend \<and> \<not> sends_all kern
     \<or> e = SubscriberTopicAttachmentBatchSend \<and> (\<not> sends_all kern \<or> kMaxAttachmentsPerBatch < length ps))"

lemma insert_new_None: "m k = None \<Longrightarrow> insert_new m k v = m(k \<mapsto> v)"
  by (simp add: insert_new_def)

lemma outcome_batch:
  assumes "length shms = length as"
    "\<not> sends_all kern \<or> kMaxAttachmentsPerBatch < length as \<Longrightarrow> P e"
    "outcome (f (sent [batch_note fd as shms] w)) P Q"
  shows "outcome (case send_subscriber_attachment_batch_message kern fd as shms w of (ok, w) \<Rightarrow> require ok e (f w)) P Q"
  using assms by (auto simp: send_subscriber_attachment_batch_message_def batch_note_def intro: outcome_transmit)

lemma register_subscriber_ok:
  assumes inv: "broker_inv b" and new: "role_by_fd b fd = None"
  shows "outcome (register_subscriber kern fd topics b w) (subscriber_refused kern topics b)
    (\<lambda>st'. broker_inv (fst st') \<and> subscriber_registered kern fd topics (b, w) st')"
proof -
  note u = unregistered [OF broker_invD(1) [OF inv] new]
  let ?A = "all_attachments (subscriber_attachments_by_subscriber_fd b)"
  let ?start = "b\<lparr>topic_ids_by_subscriber_fd := (topic_ids_by_subscriber_fd b)(fd \<mapsto> topics),
         role_by_fd := (role_by_fd b)(fd \<mapsto> RoleSubscriber)\<rparr>"
  have plan: "attach_plan ?start topics = attach_plan b topics" by (simp add: attach_plan_def)
  have "ledger_ok ?start (?A + mset [])" "publishers_known ?start"
    using broker_invD(6) [OF inv] publishers_known_if [OF inv]
    by (simp_all add: ledger_ok_def publishers_known_def registered_def)
  note loop = attach_to_topics_ok [OF this, of kern fd topics w "[]", unfolded plan]
  show ?thesis
    unfolding register_subscriber_def Let_def insert_new_None [of "topic_ids_by_subscriber_fd b", OF u(2)]
      insert_new_None [of "role_by_fd b", OF new]
  proof (rule outcome_and_then)
    show "outcome (attach_to_topics kern fd topics (?start, w, [], [])) (subscriber_refused kern topics b)
      (attaches kern ?A fd topics (attach_plan b topics) (?start, w, [], []))"
      by (rule outcome_mono [OF loop]) (auto simp: attach_fault_def subscriber_refused_def)
    fix st' assume a: "attaches kern ?A fd topics (attach_plan b topics) (?start, w, [], []) st'"
    obtain b' w' as shms where st': "st' = (b', w', as, shms)" by (cases st')
    note a = a [unfolded st']
    let ?b = "b'\<lparr>subscriber_attachments_by_subscriber_fd := (subscriber_attachments_by_subscriber_fd b)(fd \<mapsto> as)\<rparr>"
    note f = same_tablesD [OF attaches_same [OF a], simplified]
    from a have shms: "shms = map (\<lambda>(t, p). the (shm_fd_by_publisher_fd b p)) (attach_plan b topics)"
      by (simp add: attaches_def)
    from a have as: "map (\<lambda>a. (sa_topic_id a, sa_publisher_fd a)) as = attach_plan b topics"
      and att: "made_attachments kern ?start w ?A as b' w'" by (auto simp: attaches_def)
    have len: "length as = length (map snd (attach_plan b topics))" using as by (metis length_map)
    have subs: "subscribers_of b' t = subscribers_of b t @ replicate (count_list topics t) fd" for t
      using a by (simp add: attaches_def)
    have nid: "next_attachment_id b' = next_attachment_id b + of_nat (length as)"
      using a len by (simp add: attaches_def)
    have inv': "broker_inv ?b" using attaches_inv [OF inv new a] f(1) by simp
    have reg: "subscriber_registered kern fd topics (b, w) (?b, sent [batch_note fd as shms] w')"
      using made_attachmentsD(3,4) [OF att] as nid subs
      by (auto simp: subscriber_registered_def f shms sent_def intro!: exI [of _ as])
    show "outcome (case st' of (b, w, attachments, shm_fds) \<Rightarrow>
        case send_subscriber_attachment_batch_message kern fd attachments shm_fds w of (ok, w) \<Rightarrow>
        require ok SubscriberTopicAttachmentBatchSend (
        Inr (b\<lparr>subscriber_attachments_by_subscriber_fd :=
             insert_new (subscriber_attachments_by_subscriber_fd b) fd attachments\<rparr>, w)))
      (subscriber_refused kern topics b)
      (\<lambda>st'. broker_inv (fst st') \<and> subscriber_registered kern fd topics (b, w) st')"
      unfolding st' prod.case
      apply (rule outcome_batch)
      subgoal using shms len by simp
      subgoal using len by (auto simp: subscriber_refused_def)
      subgoal using inv' reg u(1) by (simp add: f insert_new_None)
      done
  qed
qed

section \<open>A publisher registers\<close>

definition publisher_registered ::
  "kernel \<Rightarrow> int \<Rightarrow> topic_id \<Rightarrow> int \<Rightarrow> int \<Rightarrow> broker \<times> broker_io \<Rightarrow> broker \<times> broker_io \<Rightarrow> bool"
where
  "publisher_registered kern fd t shm space = (\<lambda>(b, w) (b', w').
     topic_ids_by_subscriber_fd b' = topic_ids_by_subscriber_fd b
     \<and> role_by_fd b' = (role_by_fd b)(fd \<mapsto> RolePublisher)
     \<and> publisher_fds_by_topic_id b' = (publisher_fds_by_topic_id b)(t \<mapsto> publishers_of b t @ [fd])
     \<and> shm_fd_by_publisher_fd b' = (shm_fd_by_publisher_fd b)(fd \<mapsto> shm)
     \<and> space_event_fd_by_publisher_fd b' = (space_event_fd_by_publisher_fd b)(fd \<mapsto> space)
     \<and> subscriber_fds_by_topic_id b' = subscriber_fds_by_topic_id b \<and> client_fds b' = client_fds b
     \<and> dom (subscriber_attachments_by_subscriber_fd b') = dom (subscriber_attachments_by_subscriber_fd b)
     \<and> (\<exists>rs. map fst rs = subscribers_of b t \<and> (\<forall>s. attachments_of b' s = attachments_of b s @ given_to s rs)
       \<and> all_attachments (subscriber_attachments_by_subscriber_fd b')
            = all_attachments (subscriber_attachments_by_subscriber_fd b) + mset (map snd rs)
       \<and> (\<forall>a \<in> snd ` set rs. sa_topic_id a = t \<and> sa_publisher_fd a = fd \<and> sa_space_available_event_fd a = space)
       \<and> next_attachment_id b' = next_attachment_id b + of_nat (length rs)
       \<and> w' = sent ((fd, plain_message (le_bytes 4 (of_nat (length rs) :: u32))) # linked_notes shm rs)
           (w\<lparr>eventfd_calls := eventfd_calls w + length rs\<rparr>)
       \<and> fresh_eventfds kern w (map snd rs)))"

definition publisher_refused :: "kernel \<Rightarrow> topic_id \<Rightarrow> broker \<Rightarrow> broker_fault \<Rightarrow> bool" where
  "publisher_refused kern t b e \<longleftrightarrow> link_fault kern b (length (subscribers_of b t)) e
     \<or> e = BrokerSubscriberSlotCapacity \<and> 16 < length (subscribers_of b t)
     \<or> e = InitialSubscriberCountSend \<and> \<not> sends_all kern"

text \<open>Nothing refers to a client that has not registered.\<close>

lemma unknown_publisher:
  assumes inv: "broker_inv b" and new: "role_by_fd b p = None"
  shows "p \<notin> set (publishers_of b t)" "free_slots b t p = None"
    "slots_in_use (all_attachments (subscriber_attachments_by_subscriber_fd b)) p = {#}"
    "links_to p (attachments_of b s) = 0"
proof -
  note d = publishers_okD [OF broker_invD(3) [OF inv]]
  show no: "p \<notin> set (publishers_of b t)" for t
    using d(3) [of p] unregistered(3) [OF broker_invD(1) [OF inv] new] by blast
  then show "free_slots b t p = None" using d(4) by blast
  have *: "sa_publisher_fd a \<noteq> p" if "a \<in> set (attachments_of b s)" for a s
    using broker_invD(5) [OF inv] that no by (auto simp: attachments_ok_def)
  then show "links_to p (attachments_of b s) = 0" by (auto simp: links_to_def filter_empty_conv)
  have "sa_publisher_fd a \<noteq> p" if "a \<in># all_attachments (subscriber_attachments_by_subscriber_fd b)" for a
    using that * in_all_attachments [OF clients_okD(5) [OF broker_invD(1) [OF inv]], of a]
    by (metis list_at_Some)
  then show "slots_in_use (all_attachments (subscriber_attachments_by_subscriber_fd b)) p = {#}"
    by (auto simp: slots_in_use_def simp flip: set_mset_eq_empty_iff)
qed

text \<open>Everybody in a list of subscribers is a registered subscriber.\<close>

lemma subscribers_registered:
  assumes "broker_inv b"
  shows "set (subscribers_of b t) \<subseteq> dom (subscriber_attachments_by_subscriber_fd b)"
proof
  fix s assume "s \<in> set (subscribers_of b t)"
  then have "count_list (topics_of b s) t \<noteq> 0"
    using broker_invD(2) [OF assms] unfolding subscribers_ok_def by (metis count_list_0_iff)
  then have "topic_ids_by_subscriber_fd b s \<noteq> None" by (metis list_at_None count_list.simps(1))
  then show "s \<in> dom (subscriber_attachments_by_subscriber_fd b)"
    using clients_okD(1,2) [OF broker_invD(1) [OF assms], of s] by auto
qed

lemma links_to_given: "\<forall>a \<in> snd ` set rs. sa_publisher_fd a = p \<Longrightarrow>
    links_to q (given_to s rs) = (if q = p then count_list (map fst rs) s else 0)"
  by (induction rs) (auto simp: given_to_def)

lemma made_links_inv:
  assumes inv: "broker_inv b" and new: "role_by_fd b fd = None"
    and l: "made_links kern t fd shm space (subscribers_of b t)
      (b\<lparr>shm_fd_by_publisher_fd := (shm_fd_by_publisher_fd b)(fd \<mapsto> shm),
         space_event_fd_by_publisher_fd := (space_event_fd_by_publisher_fd b)(fd \<mapsto> space),
         available_subscriber_slots := with_slots (available_subscriber_slots b) t fd (init_available_subscriber_slots []),
         role_by_fd := (role_by_fd b)(fd \<mapsto> RolePublisher)\<rparr>, w) (b', w')"
  shows "broker_inv (b'\<lparr>publisher_fds_by_topic_id :=
    (publisher_fds_by_topic_id b')(t \<mapsto> publishers_of b' t @ [fd])\<rparr>)" (is "broker_inv ?b")
proof -
  note i = broker_invD [OF inv] and c = clients_okD [OF broker_invD(1) [OF inv]]
    and p = publishers_okD [OF broker_invD(3) [OF inv]] and u = unregistered [OF broker_invD(1) [OF inv] new]
    and n = unknown_publisher [OF inv new]
  note f = made_linksD [OF l, simplified]
  from l obtain rs where rs: "map fst rs = subscribers_of b t"
      "\<And>s. attachments_of b' s = attachments_of b s @ given_to s rs"
      "\<forall>a \<in> snd ` set rs. sa_topic_id a = t \<and> sa_publisher_fd a = fd \<and> sa_space_available_event_fd a = space"
    unfolding made_links_def by auto
  have atts: "subscriber_attachments_by_subscriber_fd b' s = None \<longleftrightarrow> subscriber_attachments_by_subscriber_fd b s = None" for s
    using f(10) by (metis domIff)
  have "clients_ok ?b"
  proof (rule clients_okI)
    fix x
    show "(role_by_fd ?b x = Some RoleSubscriber \<longleftrightarrow> subscriber_attachments_by_subscriber_fd ?b x \<noteq> None)
      \<and> (role_by_fd ?b x = Some RoleSubscriber \<longleftrightarrow> topic_ids_by_subscriber_fd ?b x \<noteq> None)
      \<and> (role_by_fd ?b x = Some RolePublisher \<longleftrightarrow> shm_fd_by_publisher_fd ?b x \<noteq> None)
      \<and> (role_by_fd ?b x = Some RolePublisher \<longleftrightarrow> space_event_fd_by_publisher_fd ?b x \<noteq> None)"
      using c(1-4) [of x] u atts [of x] by (cases "x = fd") (simp_all add: f)
  qed (use c(5) f(10) in simp)
  moreover have "subscribers_ok ?b"
    using i(2) by (simp add: subscribers_ok_def f)
  moreover have "publishers_ok ?b"
  proof -
    have mem: "q \<in> set (publishers_of ?b v) \<longleftrightarrow> q \<in> set (publishers_of b v) \<or> q = fd \<and> v = t" for q v
      by (auto simp: f)
    have "distinct (publishers_of ?b v) \<and> publisher_fds_by_topic_id ?b v \<noteq> Some []" for v
      using p(1,2) n(1) by (simp add: f)
    moreover have "shm_fd_by_publisher_fd ?b q \<noteq> None \<longleftrightarrow> (\<exists>v. q \<in> set (publishers_of ?b v))" for q
      using p(3) [of q] unfolding mem by (auto simp: f)
    moreover have "free_slots ?b v q \<noteq> None \<longleftrightarrow> q \<in> set (publishers_of ?b v)" for v q
      using p(4) [of v q] unfolding mem by (auto simp: f)
    ultimately show ?thesis unfolding publishers_ok_def by blast
  qed
  moreover have "matched ?b"
  proof -
    have "links_to q (attachments_of b' s) = count_list (topics_of b s) v"
      if s: "subscriber_attachments_by_subscriber_fd b s \<noteq> None" and q: "q \<in> set (publishers_of ?b v)" for s q v
    proof (cases "q = fd")
      case True
      then have "v = t" using q n(1) by (auto simp: f split: if_split_asm)
      then show ?thesis
        using True n(4) links_to_given [of rs fd q s] rs i(2) by (simp add: subscribers_ok_def)
    next
      case False
      then have "q \<in> set (publishers_of b v)" using q by (auto simp: f split: if_split_asm)
      then show ?thesis
        using False i(4) s links_to_given [of rs fd q s] rs by (simp add: matched_def)
    qed
    then show ?thesis by (simp add: matched_def f atts)
  qed
  moreover have "attachments_ok ?b"
  proof -
    have "sa_topic_id a = t \<and> sa_publisher_fd a = fd \<and> sa_space_available_event_fd a = space"
      if "a \<in> set (given_to s rs)" for a s
      using that rs(3) by (auto simp: given_to_def)
    moreover have "sa_publisher_fd a \<noteq> fd" if "a \<in> set (attachments_of b s)" for a s
      using i(5) n(1) that unfolding attachments_ok_def by metis
    ultimately show ?thesis using i(5) by (auto simp: attachments_ok_def f rs(2))
  qed
  ultimately show ?thesis using f(11) by (simp add: broker_inv_def ledger_ok_def)
qed

lemma register_publisher_ok:
  assumes inv: "broker_inv b" and new: "role_by_fd b fd = None"
  shows "outcome (register_publisher kern fd t shm space b w) (publisher_refused kern t b)
    (\<lambda>st'. broker_inv (fst st') \<and> publisher_registered kern fd t shm space (b, w) st')"
proof -
  note u = unregistered [OF broker_invD(1) [OF inv] new] and n = unknown_publisher [OF inv new]
  let ?ss = "subscribers_of b t" and ?A = "all_attachments (subscriber_attachments_by_subscriber_fd b)"
  let ?start = "b\<lparr>shm_fd_by_publisher_fd := (shm_fd_by_publisher_fd b)(fd \<mapsto> shm),
         space_event_fd_by_publisher_fd := (space_event_fd_by_publisher_fd b)(fd \<mapsto> space),
         available_subscriber_slots := with_slots (available_subscriber_slots b) t fd (init_available_subscriber_slots []),
         role_by_fd := (role_by_fd b)(fd \<mapsto> RolePublisher)\<rparr>"
  let ?note = "(fd, plain_message (le_bytes 4 (of_nat (length ?ss) :: u32)))"
  let ?w = "sent [?note] w"
  have all: "length (init_available_subscriber_slots []) = 16"
    using init_available_subscriber_slots_all by (metis length_upt diff_zero size_mset)
  have ledger: "ledger_ok ?start (all_attachments (subscriber_attachments_by_subscriber_fd ?start))"
    using broker_invD(6) [OF inv] slots_new [of _ ?A fd t, OF _ n(2,3)] by (simp add: ledger_ok_def)
  show ?thesis
    unfolding register_publisher_def Let_def set_slots_alt
    apply (intro outcome_require)
    subgoal using u by simp
    subgoal using u by simp
    subgoal using n(2) by simp
    subgoal using all by (simp add: publisher_refused_def)
    subgoal premises prems
    proof (rule outcome_transmit, goal_cases)
      case 1
      then show ?case by (simp add: publisher_refused_def)
    next
      case 2
      have small: "size (slots_in_use (all_attachments (subscriber_attachments_by_subscriber_fd ?start)) fd) + length ?ss \<le> 16"
        using prems(4) all n(3) by simp
      have free: "free_slots ?start t fd \<noteq> None" by simp
      have dom: "finite (dom (subscriber_attachments_by_subscriber_fd ?start))"
        "set ?ss \<subseteq> dom (subscriber_attachments_by_subscriber_fd ?start)"
        using clients_okD(5) [OF broker_invD(1) [OF inv]] subscribers_registered [OF inv] by simp_all
      have loop: "outcome (attach_subscribers kern t fd shm space ?ss (?start, ?w))
          (link_fault kern ?start (length ?ss)) (made_links kern t fd shm space ?ss (?start, ?w))"
        by (rule attach_subscribers_ok [OF ledger dom free small])
      have "outcome (and_then (attach_subscribers kern t fd shm space ?ss (?start, ?w)) (\<lambda>(b, w).
          Inr (b\<lparr>publisher_fds_by_topic_id := (publisher_fds_by_topic_id b)(t \<mapsto> publishers_of b t @ [fd])\<rparr>, w)))
        (publisher_refused kern t b)
        (\<lambda>st'. broker_inv (fst st') \<and> publisher_registered kern fd t shm space (b, w) st')"
      proof (rule outcome_and_then)
        show "outcome (attach_subscribers kern t fd shm space ?ss (?start, ?w)) (publisher_refused kern t b)
            (made_links kern t fd shm space ?ss (?start, ?w))"
          by (rule outcome_mono [OF loop]) (auto simp: publisher_refused_def link_fault_def)
        fix st' assume l: "made_links kern t fd shm space ?ss (?start, ?w) st'"
        obtain b' w' where st': "st' = (b', w')" by (cases st')
        note l = l [unfolded st'] and f = made_linksD [OF l [unfolded st'], simplified]
        from l obtain rs where rs: "map fst rs = ?ss" "\<And>s. attachments_of b' s = attachments_of b s @ given_to s rs"
            "\<forall>a \<in> snd ` set rs. sa_topic_id a = t \<and> sa_publisher_fd a = fd \<and> sa_space_available_event_fd a = space"
            "all_attachments (subscriber_attachments_by_subscriber_fd b') = ?A + mset (map snd rs)"
            "w' = sent (linked_notes shm rs) (?w\<lparr>eventfd_calls := eventfd_calls ?w + length rs\<rparr>)"
            "fresh_eventfds kern ?w (map snd rs)"
          unfolding made_links_def by auto
        have len: "length rs = length ?ss" using rs(1) by (metis length_map)
        have "publisher_registered kern fd t shm space (b, w)
          (b'\<lparr>publisher_fds_by_topic_id := (publisher_fds_by_topic_id b')(t \<mapsto> publishers_of b' t @ [fd])\<rparr>, w')"
          unfolding publisher_registered_def prod.case
          using f rs len by (intro conjI exI [of _ rs]) (auto simp: sent_def fresh_eventfds_def)
        then show "outcome (case st' of (b, w) \<Rightarrow>
            Inr (b\<lparr>publisher_fds_by_topic_id := (publisher_fds_by_topic_id b)(t \<mapsto> publishers_of b t @ [fd])\<rparr>, w))
          (publisher_refused kern t b)
          (\<lambda>st'. broker_inv (fst st') \<and> publisher_registered kern fd t shm space (b, w) st')"
          using made_links_inv [OF inv new l] by (simp add: st')
      qed
      then show ?case using new by (simp add: insert_new_None)
    qed
    done
qed

end
