(* ===== verification/Broker_Disconnect.thy ===== *)
theory Broker_Disconnect
  imports Broker_Invariant
begin

text \<open>
  The end of a subscriber and of a publisher: whom the broker tells, which descriptors it closes,
  and that its tables satisfy the invariant again.  Apart from a notification that cannot be sent,
  neither can end the process.
\<close>

definition closing :: "int list \<Rightarrow> broker_io \<Rightarrow> broker_io" where
  "closing fds w = w\<lparr>b_closed := b_closed w @ fds\<rparr>"

lemma closing_simps [simp]:
  "outbox (closing fds w) = outbox w" "b_closed (closing fds w) = b_closed w @ fds"
  "eventfd_calls (closing fds w) = eventfd_calls w" "closing [] w = w"
  "closing gs (closing fds w) = closing (fds @ gs) w" "sent ms (closing fds w) = closing fds (sent ms w)"
  "sent ms' (sent ms w) = sent (ms @ ms') w"
  by (simp_all add: closing_def sent_def)

lemma b_close_closing: "b_close fd w = closing [fd] w"
  by (simp add: b_close_def closing_def)

section \<open>A subscriber leaves\<close>

lemma detach_from_publishers_ok:
  assumes "slots_ok (available_subscriber_slots b) (A + mset as)"
    "\<forall>a \<in> set as. free_slots b (sa_topic_id a) (sa_publisher_fd a) \<noteq> None"
  shows "outcome (detach_from_publishers kern as (b, w)) (\<lambda>e. e = SubscriberDisconnectSend \<and> \<not> sends_all kern)
    (\<lambda>(b', w'). b' = b\<lparr>available_subscriber_slots := available_subscriber_slots b'\<rparr>
      \<and> slots_ok (available_subscriber_slots b') A
      \<and> (\<forall>t p. free_slots b' t p = None \<longleftrightarrow> free_slots b t p = None)
      \<and> w' = closing (map sa_data_available_event_fd as) (sent (map subscriber_gone_note as) w))"
  using assms
proof (induction as arbitrary: b w)
  case Nil
  then show ?case by simp
next
  case (Cons a as)
  let ?t = "sa_topic_id a" and ?p = "sa_publisher_fd a"
  from Cons.prems(2) obtain h where h: "free_slots b ?t ?p = Some h" by auto
  then have t: "available_subscriber_slots b ?t \<noteq> None" by (auto simp: map_at_def split: option.split_asm)
  let ?b = "b\<lparr>available_subscriber_slots := with_slots (available_subscriber_slots b) ?t ?p (heap_push (unat (sa_slot_index a)) h)\<rparr>"
  let ?w = "closing [sa_data_available_event_fd a] (sent [subscriber_gone_note a] w)"
  have step: "outcome (detach_from_publisher kern a (b, w)) (\<lambda>e. e = SubscriberDisconnectSend \<and> \<not> sends_all kern)
      (\<lambda>st'. st' = (?b, ?w))"
    unfolding detach_from_publisher_def prod.case Let_def
    by (rule outcome_transmit)
      (simp_all add: t h set_slots_alt b_close_closing subscriber_gone_note_def)
  have "slots_ok (available_subscriber_slots ?b) (A + mset as)"
    using slots_give [of _ a "A + mset as", OF _ h] Cons.prems(1) by simp
  moreover have "\<forall>a \<in> set as. free_slots ?b (sa_topic_id a) (sa_publisher_fd a) \<noteq> None"
    using Cons.prems(2) by simp
  ultimately have IH: "outcome (detach_from_publishers kern as (?b, ?w)) (\<lambda>e. e = SubscriberDisconnectSend \<and> \<not> sends_all kern)
    (\<lambda>(b', w'). b' = ?b\<lparr>available_subscriber_slots := available_subscriber_slots b'\<rparr>
      \<and> slots_ok (available_subscriber_slots b') A
      \<and> (\<forall>t p. free_slots b' t p = None \<longleftrightarrow> free_slots ?b t p = None)
      \<and> w' = closing (map sa_data_available_event_fd as) (sent (map subscriber_gone_note as) ?w))"
    by (rule Cons.IH)
  have none: "free_slots ?b t p = None \<longleftrightarrow> free_slots b t p = None" for t p
    using h by auto
  show ?case
    unfolding detach_from_publishers.simps
    by (rule outcome_and_then [OF step], simp only:, rule outcome_mono [OF IH [unfolded none]]) auto
qed

lemma leave_topics_ok:
  assumes "\<forall>t. count_list topics t \<le> count_list (subscribers_of b t) fd"
  shows "\<exists>b'. leave_topics fd topics b = Inr b'
    \<and> b' = b\<lparr>subscriber_fds_by_topic_id := subscriber_fds_by_topic_id b'\<rparr>
    \<and> (\<forall>t. filter (\<lambda>s. s \<noteq> fd) (subscribers_of b' t) = filter (\<lambda>s. s \<noteq> fd) (subscribers_of b t)
        \<and> count_list (subscribers_of b' t) fd + count_list topics t = count_list (subscribers_of b t) fd)"
  using assms
proof (induction topics arbitrary: b)
  case Nil
  then show ?case by simp
next
  case (Cons t topics)
  have "count_list (subscribers_of b t) fd \<noteq> 0" using Cons.prems by (auto dest: spec [of _ t])
  then have fd: "fd \<in> set (subscribers_of b t)" by (simp add: count_list_0_iff)
  then obtain ss where ss: "subscriber_fds_by_topic_id b t = Some ss" "subscribers_of b t = ss" "fd \<in> set ss"
    using list_at_in by (metis list_at_Some not_Some_eq)
  have removed: "filter (\<lambda>s. s \<noteq> fd) (remove1 fd ss) = filter (\<lambda>s. s \<noteq> fd) ss"
      "Suc (count_list (remove1 fd ss) fd) = count_list ss fd"
    using ss(3) by (induction ss) auto
  let ?b = "b\<lparr>subscriber_fds_by_topic_id := (subscriber_fds_by_topic_id b)(t \<mapsto> remove1 fd ss)\<rparr>"
  have "\<forall>u. count_list topics u \<le> count_list (subscribers_of ?b u) fd"
  proof
    fix u
    show "count_list topics u \<le> count_list (subscribers_of ?b u) fd"
      using Cons.prems [rule_format, of u] removed(2) ss(2) by (auto split: if_split_asm)
  qed
  from Cons.IH [OF this] obtain b' where b': "leave_topics fd topics ?b = Inr b'"
    "b' = ?b\<lparr>subscriber_fds_by_topic_id := subscriber_fds_by_topic_id b'\<rparr>"
    "\<forall>u. filter (\<lambda>s. s \<noteq> fd) (subscribers_of b' u) = filter (\<lambda>s. s \<noteq> fd) (subscribers_of ?b u)
        \<and> count_list (subscribers_of b' u) fd + count_list topics u = count_list (subscribers_of ?b u) fd" by blast
  have "filter (\<lambda>s. s \<noteq> fd) (subscribers_of b' u) = filter (\<lambda>s. s \<noteq> fd) (subscribers_of b u)
        \<and> count_list (subscribers_of b' u) fd + count_list (t # topics) u = count_list (subscribers_of b u) fd" for u
    using b'(3) [rule_format, of u] removed ss(2) by (auto split: if_split_asm)
  moreover have "leave_topics fd (t # topics) b = Inr b'" using ss b'(1) by simp
  moreover have "b' = b\<lparr>subscriber_fds_by_topic_id := subscriber_fds_by_topic_id b'\<rparr>" using b'(2) by simp
  ultimately show ?case by blast
qed

definition subscriber_left :: "int \<Rightarrow> broker \<times> broker_io \<Rightarrow> broker \<times> broker_io \<Rightarrow> bool" where
  "subscriber_left fd = (\<lambda>(b, w) (b', w').
     topic_ids_by_subscriber_fd b' = (topic_ids_by_subscriber_fd b)(fd := None)
     \<and> role_by_fd b' = (role_by_fd b)(fd := None)
     \<and> subscriber_attachments_by_subscriber_fd b' = (subscriber_attachments_by_subscriber_fd b)(fd := None)
     \<and> publisher_fds_by_topic_id b' = publisher_fds_by_topic_id b
     \<and> shm_fd_by_publisher_fd b' = shm_fd_by_publisher_fd b
     \<and> space_event_fd_by_publisher_fd b' = space_event_fd_by_publisher_fd b \<and> client_fds b' = client_fds b
     \<and> next_attachment_id b' = next_attachment_id b
     \<and> (\<forall>t. subscribers_of b' t = filter (\<lambda>s. s \<noteq> fd) (subscribers_of b t))
     \<and> (\<forall>t p. free_slots b' t p = None \<longleftrightarrow> free_slots b t p = None)
     \<and> w' = closing (map sa_data_available_event_fd (attachments_of b fd) @ [fd])
           (sent (map subscriber_gone_note (attachments_of b fd)) w))"

lemma handle_subscriber_disconnect_ok:
  assumes inv: "broker_inv b" and role: "role_by_fd b fd = Some RoleSubscriber"
  shows "outcome (handle_subscriber_disconnect kern fd b w) (\<lambda>e. e = SubscriberDisconnectSend \<and> \<not> sends_all kern)
    (\<lambda>st'. broker_inv (fst st') \<and> subscriber_left fd (b, w) st')"
proof -
  note i = broker_invD [OF inv] and c = clients_okD [OF broker_invD(1) [OF inv]]
    and p = publishers_okD [OF broker_invD(3) [OF inv]]
  let ?m = "subscriber_attachments_by_subscriber_fd b"
  from role c(1,2) [of fd] obtain as topics where at: "?m fd = Some as" "topic_ids_by_subscriber_fd b fd = Some topics"
    by auto
  then have of_fd: "attachments_of b fd = as" "topics_of b fd = topics" by (simp_all add: list_at_Some)
  let ?A = "all_attachments (?m(fd := None))"
  have A: "all_attachments ?m = ?A + mset as" using all_attachments_remove [OF c(5) at(1)] by simp
  have slots: "slots_ok (available_subscriber_slots b) (?A + mset as)" and ids: "ids_ok (next_attachment_id b) (?A + mset as)"
    using i(6) unfolding A by (simp_all add: ledger_ok_def)
  have free: "\<forall>a \<in> set as. free_slots b (sa_topic_id a) (sa_publisher_fd a) \<noteq> None"
    using i(5) p(4) unfolding attachments_ok_def by (metis of_fd(1))
  have notpub: "shm_fd_by_publisher_fd b fd = None" "space_event_fd_by_publisher_fd b fd = None"
    using c(3,4) [of fd] role by simp_all
  show ?thesis
    unfolding handle_subscriber_disconnect_def at found_simps Let_def
  proof (rule outcome_and_then [OF detach_from_publishers_ok [OF slots free]])
    fix st' assume "(\<lambda>(b', w'). b' = b\<lparr>available_subscriber_slots := available_subscriber_slots b'\<rparr>
      \<and> slots_ok (available_subscriber_slots b') ?A
      \<and> (\<forall>t p. free_slots b' t p = None \<longleftrightarrow> free_slots b t p = None)
      \<and> w' = closing (map sa_data_available_event_fd as) (sent (map subscriber_gone_note as) w)) st'"
    then obtain b' w' where st': "st' = (b', w')" and b': "b' = b\<lparr>available_subscriber_slots := available_subscriber_slots b'\<rparr>"
      and ok: "slots_ok (available_subscriber_slots b') ?A" "\<And>t p. free_slots b' t p = None \<longleftrightarrow> free_slots b t p = None"
      and w': "w' = closing (map sa_data_available_event_fd as) (sent (map subscriber_gone_note as) w)" by auto
    obtain avail where avail: "b' = b\<lparr>available_subscriber_slots := avail\<rparr>" using b' by blast
    let ?b = "b'\<lparr>subscriber_attachments_by_subscriber_fd := (subscriber_attachments_by_subscriber_fd b')(fd := None),
           role_by_fd := (role_by_fd b')(fd := None)\<rparr>"
    have "\<forall>t. count_list topics t \<le> count_list (subscribers_of ?b t) fd"
      using i(2) of_fd by (simp add: subscribers_ok_def avail)
    from leave_topics_ok [OF this] obtain b'' where code: "leave_topics fd topics ?b = Inr b''"
      and b'': "b'' = ?b\<lparr>subscriber_fds_by_topic_id := subscriber_fds_by_topic_id b''\<rparr>"
      and subs: "\<And>t. filter (\<lambda>s. s \<noteq> fd) (subscribers_of b'' t) = filter (\<lambda>s. s \<noteq> fd) (subscribers_of ?b t)"
        "\<And>t. count_list (subscribers_of b'' t) fd + count_list topics t = count_list (subscribers_of ?b t) fd"
      by blast
    obtain fds where fds: "b'' = ?b\<lparr>subscriber_fds_by_topic_id := fds\<rparr>" using b'' by blast
    have "count_list (list_at fds t) fd = 0" for t
      using subs(2) [of t] i(2) of_fd by (simp add: fds avail subscribers_ok_def)
    then have "filter (\<lambda>s. s \<noteq> fd) (list_at fds t) = list_at fds t" for t
      by (auto simp: filter_id_conv count_list_0_iff)
    with subs(1) have left: "list_at fds t = filter (\<lambda>s. s \<noteq> fd) (subscribers_of b t)" for t
      by (simp add: fds avail)
    let ?final = "b''\<lparr>topic_ids_by_subscriber_fd := (topic_ids_by_subscriber_fd b'')(fd := None)\<rparr>"
    have eff: "subscriber_left fd (b, w) (?final, b_close fd w')"
      using ok(2) by (simp add: subscriber_left_def fds avail left of_fd w' b_close_closing)
    have "clients_ok ?final"
    proof (rule clients_okI)
      fix x
      show "(role_by_fd ?final x = Some RoleSubscriber \<longleftrightarrow> subscriber_attachments_by_subscriber_fd ?final x \<noteq> None)
        \<and> (role_by_fd ?final x = Some RoleSubscriber \<longleftrightarrow> topic_ids_by_subscriber_fd ?final x \<noteq> None)
        \<and> (role_by_fd ?final x = Some RolePublisher \<longleftrightarrow> shm_fd_by_publisher_fd ?final x \<noteq> None)
        \<and> (role_by_fd ?final x = Some RolePublisher \<longleftrightarrow> space_event_fd_by_publisher_fd ?final x \<noteq> None)"
        using c(1-4) [of x] notpub by (cases "x = fd") (simp_all add: fds avail)
    qed (use c(5) in \<open>simp add: fds avail\<close>)
    moreover have "count_list (filter (\<lambda>s. s \<noteq> fd) xs) s = (if s = fd then 0 else count_list xs s)" for xs s
      by (induction xs) auto
    then have "subscribers_ok ?final"
      using i(2) by (simp add: subscribers_ok_def fds avail left)
    moreover have "publishers_ok ?final"
      using p ok(2) by (simp add: publishers_ok_def fds avail)
    moreover have "matched ?final"
      using i(4) by (simp add: matched_def fds avail)
    moreover have "attachments_ok ?final"
      using i(5) by (simp add: attachments_ok_def fds avail)
    moreover have "ledger_ok ?final (all_attachments (subscriber_attachments_by_subscriber_fd ?final))"
      using ok(1) ids_sub [OF ids] by (simp add: ledger_ok_def fds avail)
    ultimately have "broker_inv ?final" by (simp add: broker_inv_def)
    with eff show "outcome (case st' of (b, w) \<Rightarrow>
        and_then (leave_topics fd topics (b\<lparr>subscriber_attachments_by_subscriber_fd := (subscriber_attachments_by_subscriber_fd b)(fd := None),
           role_by_fd := (role_by_fd b)(fd := None)\<rparr>)) (\<lambda>b.
        Inr (b\<lparr>topic_ids_by_subscriber_fd := (topic_ids_by_subscriber_fd b)(fd := None)\<rparr>, b_close fd w)))
      (\<lambda>e. e = SubscriberDisconnectSend \<and> \<not> sends_all kern)
      (\<lambda>st'. broker_inv (fst st') \<and> subscriber_left fd (b, w) st')"
      unfolding st' prod.case code by simp
  qed
qed

section \<open>A publisher leaves\<close>

lemma remove_first_found:
  assumes "find P xs = Some x"
  shows "P x" "filter P xs = x # filter P (remove_first P xs)"
    "filter (\<lambda>y. \<not> P y) (remove_first P xs) = filter (\<lambda>y. \<not> P y) xs"
    "mset xs = add_mset x (mset (remove_first P xs))"
  using assms by (induction xs) (auto split: if_split_asm)

lemma find_links: "0 < links_to p as \<Longrightarrow> \<exists>a. find (\<lambda>a. sa_publisher_fd a = p) as = Some a"
  by (induction as) auto

lemma links_to_remove:
  "find (\<lambda>a. sa_publisher_fd a = p) as = Some a \<Longrightarrow>
   links_to p as = Suc (links_to p (remove_first (\<lambda>a. sa_publisher_fd a = p) as))"
  using remove_first_found(2) [of "\<lambda>a. sa_publisher_fd a = p" as a] by (simp add: links_to_def)

text \<open>The effect of the loop over the subscribers \<open>ss\<close>: one attachment to the publisher ends for each.\<close>

definition unlinks :: "int \<Rightarrow> int list \<Rightarrow> broker \<times> broker_io \<Rightarrow> broker \<times> broker_io \<Rightarrow> bool" where
  "unlinks p ss = (\<lambda>(b, w) (b', w').
     b' = b\<lparr>subscriber_attachments_by_subscriber_fd := subscriber_attachments_by_subscriber_fd b'\<rparr>
     \<and> dom (subscriber_attachments_by_subscriber_fd b') = dom (subscriber_attachments_by_subscriber_fd b)
     \<and> (\<exists>rs. map fst rs = ss \<and> (\<forall>r \<in> set rs. sa_publisher_fd (snd r) = p)
       \<and> (\<forall>s. filter (\<lambda>a. sa_publisher_fd a \<noteq> p) (attachments_of b' s) = filter (\<lambda>a. sa_publisher_fd a \<noteq> p) (attachments_of b s)
            \<and> filter (\<lambda>a. sa_publisher_fd a = p) (attachments_of b s)
              = given_to s rs @ filter (\<lambda>a. sa_publisher_fd a = p) (attachments_of b' s))
       \<and> all_attachments (subscriber_attachments_by_subscriber_fd b)
            = all_attachments (subscriber_attachments_by_subscriber_fd b') + mset (map snd rs)
       \<and> w' = closing (map (sa_data_available_event_fd \<circ> snd) rs) (sent (map publisher_gone_note rs) w)))"

lemma detach_subscriber_ok:
  assumes fin: "finite (dom (subscriber_attachments_by_subscriber_fd b))"
    and at: "subscriber_attachments_by_subscriber_fd b s = Some as" and link: "0 < links_to p as"
  shows "outcome (detach_subscriber kern p s (b, w)) (\<lambda>e. e = PublisherDisconnectSend \<and> \<not> sends_all kern)
    (\<lambda>st'. unlinks p [s] (b, w) st' \<and> links_to p (attachments_of (fst st') s) = links_to p as - 1
      \<and> (\<forall>u. u \<noteq> s \<longrightarrow> attachments_of (fst st') u = attachments_of b u))"
proof -
  let ?P = "\<lambda>a. sa_publisher_fd a = p" and ?m = "subscriber_attachments_by_subscriber_fd b"
  from find_links [OF link] obtain a where a: "find ?P as = Some a" by blast
  note r = remove_first_found [OF a]
  let ?b = "b\<lparr>subscriber_attachments_by_subscriber_fd := ?m(s \<mapsto> remove_first ?P as)\<rparr>"
  let ?w = "closing [sa_data_available_event_fd a] (sent [publisher_gone_note (s, a)] w)"
  have A: "all_attachments ?m = all_attachments (?m(s \<mapsto> remove_first ?P as)) + mset (map snd [(s, a)])"
    using all_attachments_update [OF fin at, of "remove_first ?P as"] r(4) by simp
  have "filter (\<lambda>a. sa_publisher_fd a \<noteq> p) (attachments_of ?b u) = filter (\<lambda>a. sa_publisher_fd a \<noteq> p) (attachments_of b u)
      \<and> filter ?P (attachments_of b u) = given_to u [(s, a)] @ filter ?P (attachments_of ?b u)" for u
    using r(2,3) at by (simp add: list_at_Some given_to_def)
  then have "unlinks p [s] (b, w) (?b, ?w)"
    unfolding unlinks_def prod.case using at r(1) A by (intro conjI exI [of _ "[(s, a)]"]) auto
  moreover have "links_to p (attachments_of ?b s) = links_to p as - 1"
    using links_to_remove [OF a] by simp
  ultimately show ?thesis
    unfolding detach_subscriber_def prod.case Let_def at a found_simps
    by (intro outcome_transmit) (simp_all add: b_close_closing publisher_gone_note_def)
qed

lemma unlinks_append:
  assumes 1: "unlinks p ss st st'" and 2: "unlinks p ss' st' st''"
  shows "unlinks p (ss @ ss') st st''"
proof -
  obtain b w b' w' b'' w'' where st: "st = (b, w)" "st' = (b', w')" "st'' = (b'', w'')"
    by (cases st, cases st', cases st'') auto
  from 1 obtain rs where b': "b' = b\<lparr>subscriber_attachments_by_subscriber_fd := subscriber_attachments_by_subscriber_fd b'\<rparr>"
    "dom (subscriber_attachments_by_subscriber_fd b') = dom (subscriber_attachments_by_subscriber_fd b)"
    and rs: "map fst rs = ss" "\<forall>r \<in> set rs. sa_publisher_fd (snd r) = p"
    "\<forall>s. filter (\<lambda>a. sa_publisher_fd a \<noteq> p) (attachments_of b' s) = filter (\<lambda>a. sa_publisher_fd a \<noteq> p) (attachments_of b s)
            \<and> filter (\<lambda>a. sa_publisher_fd a = p) (attachments_of b s)
              = given_to s rs @ filter (\<lambda>a. sa_publisher_fd a = p) (attachments_of b' s)"
    "all_attachments (subscriber_attachments_by_subscriber_fd b)
            = all_attachments (subscriber_attachments_by_subscriber_fd b') + mset (map snd rs)"
    "w' = closing (map (sa_data_available_event_fd \<circ> snd) rs) (sent (map publisher_gone_note rs) w)"
    unfolding unlinks_def st by blast
  from 2 obtain rs' where b'': "b'' = b'\<lparr>subscriber_attachments_by_subscriber_fd := subscriber_attachments_by_subscriber_fd b''\<rparr>"
    "dom (subscriber_attachments_by_subscriber_fd b'') = dom (subscriber_attachments_by_subscriber_fd b')"
    and rs': "map fst rs' = ss'" "\<forall>r \<in> set rs'. sa_publisher_fd (snd r) = p"
    "\<forall>s. filter (\<lambda>a. sa_publisher_fd a \<noteq> p) (attachments_of b'' s) = filter (\<lambda>a. sa_publisher_fd a \<noteq> p) (attachments_of b' s)
            \<and> filter (\<lambda>a. sa_publisher_fd a = p) (attachments_of b' s)
              = given_to s rs' @ filter (\<lambda>a. sa_publisher_fd a = p) (attachments_of b'' s)"
    "all_attachments (subscriber_attachments_by_subscriber_fd b')
            = all_attachments (subscriber_attachments_by_subscriber_fd b'') + mset (map snd rs')"
    "w'' = closing (map (sa_data_available_event_fd \<circ> snd) rs') (sent (map publisher_gone_note rs') w')"
    unfolding unlinks_def st by blast
  obtain m m' where m: "b' = b\<lparr>subscriber_attachments_by_subscriber_fd := m\<rparr>"
    "b'' = b'\<lparr>subscriber_attachments_by_subscriber_fd := m'\<rparr>" using b'(1) b''(1) by blast
  have "b'' = b\<lparr>subscriber_attachments_by_subscriber_fd := subscriber_attachments_by_subscriber_fd b''\<rparr>"
    by (simp add: m)
  moreover have "w'' = closing (map (sa_data_available_event_fd \<circ> snd) (rs @ rs'))
      (sent (map publisher_gone_note (rs @ rs')) w)"
    using rs(5) rs'(5) by simp
  ultimately show ?thesis
    unfolding unlinks_def st prod.case
    using b'(2) b''(2) rs(1-4) rs'(1-4) by (intro conjI exI [of _ "rs @ rs'"]) (auto simp: add.assoc)
qed

lemma detach_subscribers_ok:
  assumes "finite (dom (subscriber_attachments_by_subscriber_fd b))"
    "set ss \<subseteq> dom (subscriber_attachments_by_subscriber_fd b)"
    "\<forall>s. count_list ss s \<le> links_to p (attachments_of b s)"
  shows "outcome (detach_subscribers kern p ss (b, w)) (\<lambda>e. e = PublisherDisconnectSend \<and> \<not> sends_all kern)
    (unlinks p ss (b, w))"
  using assms
proof (induction ss arbitrary: b w)
  case Nil
  then show ?case by (auto simp: unlinks_def given_to_def)
next
  case (Cons s ss)
  from Cons.prems(2) obtain as where as: "subscriber_attachments_by_subscriber_fd b s = Some as" by auto
  have link: "0 < links_to p as"
    using Cons.prems(3) [rule_format, of s] as by (simp add: list_at_Some)
  show ?case
    unfolding detach_subscribers.simps
  proof (rule outcome_and_then [OF detach_subscriber_ok [OF Cons.prems(1) as link]])
    fix st' assume st': "unlinks p [s] (b, w) st' \<and> links_to p (attachments_of (fst st') s) = links_to p as - 1
      \<and> (\<forall>u. u \<noteq> s \<longrightarrow> attachments_of (fst st') u = attachments_of b u)"
    obtain b' w' where e: "st' = (b', w')" by (cases st')
    have u: "unlinks p [s] (b, w) (b', w')" using st' e by simp
    have dom: "dom (subscriber_attachments_by_subscriber_fd b') = dom (subscriber_attachments_by_subscriber_fd b)"
      using u by (simp add: unlinks_def)
    have "count_list ss v \<le> links_to p (attachments_of b' v)" for v
      using Cons.prems(3) [rule_format, of v] st' e as
      by (cases "v = s") (simp_all add: list_at_Some split: if_split_asm)
    then have "outcome (detach_subscribers kern p ss (b', w')) (\<lambda>e. e = PublisherDisconnectSend \<and> \<not> sends_all kern)
        (unlinks p ss (b', w'))"
      using Cons.prems(1,2) dom by (intro Cons.IH) auto
    then show "outcome (detach_subscribers kern p ss st') (\<lambda>e. e = PublisherDisconnectSend \<and> \<not> sends_all kern)
        (unlinks p (s # ss) (b, w))"
      unfolding e by (rule outcome_mono) (use unlinks_append [OF u, of ss] in auto)
  qed
qed

text \<open>The search finds the publisher's topic.\<close>

lemma topic_of_publisher_found:
  assumes inv: "broker_inv b" and t: "p \<in> set (publishers_of b t)" and all: "visits_all kern"
  shows "topic_of_publisher kern p b = Some t"
proof -
  let ?P = "\<lambda>topic. p \<in> set (publishers_of b topic)" and ?ts = "topic_order kern (publisher_fds_by_topic_id b)"
  have "t \<in> set ?ts" using all list_at_in [OF t] by (auto simp: visits_all_def)
  with t have "find ?P ?ts \<noteq> None" by (auto simp: find_None_iff)
  then obtain u where u: "find ?P ?ts = Some u" by blast
  then have "?P u" by (auto simp: find_Some_iff)
  with u show ?thesis using one_topic [OF inv t] by (simp add: topic_of_publisher_def)
qed

definition publisher_left :: "int \<Rightarrow> topic_id \<Rightarrow> broker \<times> broker_io \<Rightarrow> broker \<times> broker_io \<Rightarrow> bool" where
  "publisher_left fd t = (\<lambda>(b, w) (b', w').
     topic_ids_by_subscriber_fd b' = topic_ids_by_subscriber_fd b
     \<and> role_by_fd b' = (role_by_fd b)(fd := None)
     \<and> subscriber_fds_by_topic_id b' = subscriber_fds_by_topic_id b
     \<and> shm_fd_by_publisher_fd b' = (shm_fd_by_publisher_fd b)(fd := None)
     \<and> space_event_fd_by_publisher_fd b' = (space_event_fd_by_publisher_fd b)(fd := None)
     \<and> client_fds b' = client_fds b \<and> next_attachment_id b' = next_attachment_id b
     \<and> dom (subscriber_attachments_by_subscriber_fd b') = dom (subscriber_attachments_by_subscriber_fd b)
     \<and> (\<forall>u. publishers_of b' u = filter (\<lambda>p. p \<noteq> fd) (publishers_of b u))
     \<and> (\<forall>s. attachments_of b' s = filter (\<lambda>a. sa_publisher_fd a \<noteq> fd) (attachments_of b s))
     \<and> (\<exists>rs. map fst rs = subscribers_of b t
          \<and> (\<forall>s. given_to s rs = filter (\<lambda>a. sa_publisher_fd a = fd) (attachments_of b s))
          \<and> all_attachments (subscriber_attachments_by_subscriber_fd b)
            = all_attachments (subscriber_attachments_by_subscriber_fd b') + mset (map snd rs)
          \<and> w' = closing (map (sa_data_available_event_fd \<circ> snd) rs
              @ [the (shm_fd_by_publisher_fd b fd), the (space_event_fd_by_publisher_fd b fd), fd])
            (sent (map publisher_gone_note rs) w)))"

text \<open>Forgetting a publisher.\<close>

lemma forget_publisher_effect:
  assumes inv: "broker_inv b" and t: "fd \<in> set (publishers_of b t)"
    and same: "publisher_fds_by_topic_id b' = publisher_fds_by_topic_id b"
      "available_subscriber_slots b' = available_subscriber_slots b"
  shows "publishers_of (forget_publisher fd t b') u = filter (\<lambda>p. p \<noteq> fd) (publishers_of b u)"
    "publisher_fds_by_topic_id (forget_publisher fd t b') u \<noteq> Some []"
    "free_slots (forget_publisher fd t b') u q = (if q = fd then None else free_slots b u q)"
proof -
  note p = publishers_okD [OF broker_invD(3) [OF inv]]
  have other: "fd \<notin> set (publishers_of b u)" if "u \<noteq> t" for u using one_topic [OF inv t] that by blast
  have r: "remove1 fd (publishers_of b t) = filter (\<lambda>p. p \<noteq> fd) (publishers_of b t)"
    using distinct_remove1_removeAll [OF p(1)] by (auto simp: removeAll_filter_not_eq intro: filter_cong)
  have o: "filter (\<lambda>p. p \<noteq> fd) (publishers_of b u) = publishers_of b u" if "u \<noteq> t" for u
    using other [OF that] by (auto simp: filter_id_conv)
  show "publishers_of (forget_publisher fd t b') u = filter (\<lambda>p. p \<noteq> fd) (publishers_of b u)"
    using r o by (cases "u = t") (auto simp: forget_publisher_def Let_def same list_at_def)
  show "publisher_fds_by_topic_id (forget_publisher fd t b') u \<noteq> Some []"
    using p(2) [of u] by (simp add: forget_publisher_def Let_def same)
  have "free_slots b u fd = None" if "u \<noteq> t" for u using other [OF that] p(4) by blast
  moreover have "free_slots b t q = None" if "(free_slots b t)(fd := None) = Map.empty" "q \<noteq> fd" for q
    using fun_cong [OF that(1), of q] that(2) by simp
  ultimately show "free_slots (forget_publisher fd t b') u q = (if q = fd then None else free_slots b u q)"
    by (cases "u = t") (auto simp: forget_publisher_def Let_def same map_at_def)
qed

lemma handle_publisher_disconnect_ok:
  assumes inv: "broker_inv b" and t: "fd \<in> set (publishers_of b t)" and all: "visits_all kern"
  shows "outcome (handle_publisher_disconnect kern fd b w) (\<lambda>e. e = PublisherDisconnectSend \<and> \<not> sends_all kern)
    (\<lambda>st'. broker_inv (fst st') \<and> publisher_left fd t (b, w) st')"
proof -
  note i = broker_invD [OF inv] and c = clients_okD [OF broker_invD(1) [OF inv]]
    and p = publishers_okD [OF broker_invD(3) [OF inv]]
  let ?m = "subscriber_attachments_by_subscriber_fd b" and ?P = "\<lambda>a. sa_publisher_fd a = fd"
  have "shm_fd_by_publisher_fd b fd \<noteq> None" using p(3) [of fd] t by blast
  then obtain shm space where at: "shm_fd_by_publisher_fd b fd = Some shm" "space_event_fd_by_publisher_fd b fd = Some space"
    using c(3,4) [of fd] by auto
  have role: "role_by_fd b fd = Some RolePublisher" using c(3) [of fd] at by simp
  then have nosub: "?m fd = None" "topic_ids_by_subscriber_fd b fd = None" using c(1,2) [of fd] by simp_all
  have free: "free_slots b t fd \<noteq> None" using p(4) [of t fd] t by blast
  then have avail: "available_subscriber_slots b t \<noteq> None"
    by (cases "available_subscriber_slots b t") (simp_all add: map_at_def)
  have links: "links_to fd (attachments_of b s) = count_list (subscribers_of b t) s" for s
  proof (cases "?m s")
    case None
    then have "topic_ids_by_subscriber_fd b s = None" using c(1,2) [of s] by simp
    then show ?thesis using None i(2) by (simp add: list_at_None subscribers_ok_def)
  qed (use i(2,4) t in \<open>simp add: matched_def subscribers_ok_def\<close>)
  have loop: "outcome (detach_subscribers kern fd (subscribers_of b t) (b, w))
      (\<lambda>e. e = PublisherDisconnectSend \<and> \<not> sends_all kern) (unlinks fd (subscribers_of b t) (b, w))"
    using c(5) subscribers_registered [OF inv] links by (intro detach_subscribers_ok) simp_all
  show ?thesis
    unfolding handle_publisher_disconnect_def at found_simps topic_of_publisher_found [OF inv t all] Let_def
    apply (intro outcome_require)
    subgoal using avail by simp
    subgoal using free by simp
  proof (rule outcome_and_then [OF loop], goal_cases)
    case (1 st')
    note u = 1
    obtain b' w' where st': "st' = (b', w')" by (cases st')
    obtain m where m: "b' = b\<lparr>subscriber_attachments_by_subscriber_fd := m\<rparr>"
      using u unfolding st' unlinks_def by blast
    let ?n = "subscriber_attachments_by_subscriber_fd b'"
    from u obtain rs where dom: "dom ?n = dom ?m" and rs: "map fst rs = subscribers_of b t"
      "\<forall>r \<in> set rs. sa_publisher_fd (snd r) = fd"
      "\<forall>s. filter (\<lambda>a. \<not> ?P a) (list_at ?n s) = filter (\<lambda>a. \<not> ?P a) (attachments_of b s)
            \<and> filter ?P (attachments_of b s) = given_to s rs @ filter ?P (list_at ?n s)"
      and A: "all_attachments ?m = all_attachments ?n + mset (map snd rs)"
      and w': "w' = closing (map (sa_data_available_event_fd \<circ> snd) rs) (sent (map publisher_gone_note rs) w)"
      unfolding st' unlinks_def prod.case by blast
    have "length (given_to s rs) = length (filter ?P (attachments_of b s))" for s
      using links [of s] rs(1) by (simp add: length_given_to links_to_def)
    then have none: "filter ?P (list_at ?n s) = []" for s
      using rs(3) [rule_format, of s] by (metis append_self_conv length_append add_cancel_right_right length_0_conv)
    then have given: "given_to s rs = filter ?P (attachments_of b s)" for s using rs(3) [rule_format, of s] by simp
    have left: "list_at ?n s = filter (\<lambda>a. \<not> ?P a) (attachments_of b s)" for s
      using rs(3) [rule_format, of s] none [of s] by (metis (mono_tags, lifting) filter_True filter_empty_conv)
    let ?f = "forget_publisher fd t (b'\<lparr>shm_fd_by_publisher_fd := (shm_fd_by_publisher_fd b')(fd := None)\<rparr>)"
    let ?final = "?f\<lparr>space_event_fd_by_publisher_fd := (space_event_fd_by_publisher_fd b)(fd := None),
            role_by_fd := (role_by_fd b)(fd := None)\<rparr>"
    have same: "subscriber_attachments_by_subscriber_fd ?f = ?n" "role_by_fd ?f = role_by_fd b"
      "space_event_fd_by_publisher_fd ?f = space_event_fd_by_publisher_fd b"
      "shm_fd_by_publisher_fd ?f = (shm_fd_by_publisher_fd b)(fd := None)"
      "topic_ids_by_subscriber_fd ?f = topic_ids_by_subscriber_fd b" "client_fds ?f = client_fds b"
      "subscriber_fds_by_topic_id ?f = subscriber_fds_by_topic_id b" "next_attachment_id ?f = next_attachment_id b"
      by (simp_all add: forget_publisher_def Let_def m)
    note f = forget_publisher_effect [OF inv t, of "b'\<lparr>shm_fd_by_publisher_fd := (shm_fd_by_publisher_fd b')(fd := None)\<rparr>"]
    have f: "publishers_of ?f u = filter (\<lambda>p. p \<noteq> fd) (publishers_of b u)" "publisher_fds_by_topic_id ?f u \<noteq> Some []"
      "free_slots ?f u q = (if q = fd then None else free_slots b u q)" for u q
      by (intro f; simp add: m)+
    have eff: "publisher_left fd t (b, w) (?final, b_close fd (b_close space (b_close shm w')))"
      unfolding publisher_left_def prod.case
      using rs(1) given A at dom by (intro conjI exI [of _ rs]) (auto simp: same f left w' b_close_closing)
    have "links_to q (filter (\<lambda>a. \<not> ?P a) as) = links_to q as" if "q \<noteq> fd" for q as
      using that by (induction as) auto
    moreover have "?m x \<noteq> None" if "?n x \<noteq> None" for x using that dom by (metis domIff)
    ultimately have matched: "matched ?final" using i(4) by (simp add: matched_def same f left)
    have "clients_ok ?final"
    proof (rule clients_okI)
      fix x
      have "?n x = None \<longleftrightarrow> ?m x = None" using dom by (metis domIff)
      then show "(role_by_fd ?final x = Some RoleSubscriber \<longleftrightarrow> subscriber_attachments_by_subscriber_fd ?final x \<noteq> None)
        \<and> (role_by_fd ?final x = Some RoleSubscriber \<longleftrightarrow> topic_ids_by_subscriber_fd ?final x \<noteq> None)
        \<and> (role_by_fd ?final x = Some RolePublisher \<longleftrightarrow> shm_fd_by_publisher_fd ?final x \<noteq> None)
        \<and> (role_by_fd ?final x = Some RolePublisher \<longleftrightarrow> space_event_fd_by_publisher_fd ?final x \<noteq> None)"
        using c(1-4) [of x] nosub by (cases "x = fd") (simp_all add: same)
    qed (use c(5) dom in \<open>simp add: same\<close>)
    moreover have "subscribers_ok ?final" using i(2) by (simp add: subscribers_ok_def same)
    moreover have "publishers_ok ?final"
    proof -
      have mem: "q \<in> set (publishers_of ?final v) \<longleftrightarrow> q \<noteq> fd \<and> q \<in> set (publishers_of b v)" for q v
        by (auto simp: f)
      have "distinct (publishers_of ?final v) \<and> publisher_fds_by_topic_id ?final v \<noteq> Some []" for v
        using p(1) f(2) by (simp add: f(1))
      moreover have "shm_fd_by_publisher_fd ?final q \<noteq> None \<longleftrightarrow> (\<exists>v. q \<in> set (publishers_of ?final v))" for q
        using p(3) [of q] unfolding mem by (auto simp: same)
      moreover have "free_slots ?final v q \<noteq> None \<longleftrightarrow> q \<in> set (publishers_of ?final v)" for v q
        using p(4) [of v q] unfolding mem by (auto simp: f)
      ultimately show ?thesis unfolding publishers_ok_def by blast
    qed
    moreover note matched
    moreover have "attachments_ok ?final" using i(5) by (auto simp: attachments_ok_def same f left)
    moreover have "ledger_ok ?final (all_attachments (subscriber_attachments_by_subscriber_fd ?final))"
    proof -
      have "slots_in_use (all_attachments ?n) q = slots_in_use (all_attachments ?m) q" if "q \<noteq> fd" for q
      proof -
        have "filter_mset (\<lambda>a. sa_publisher_fd a = q) (mset (map snd rs)) = {#}"
          using rs(2) that by (auto simp flip: set_mset_eq_empty_iff)
        then show ?thesis by (simp add: A slots_in_use_def)
      qed
      then show ?thesis
        using i(6) slots_forget [of _ "all_attachments ?m" _ fd "all_attachments ?n", OF _ f(3)]
        by (auto simp: ledger_ok_def same A dest: ids_sub)
    qed
    ultimately have "broker_inv ?final" by (simp add: broker_inv_def)
    with eff show ?case
      unfolding st' prod.case same using at(2) by simp
  qed
qed

end
