(* ===== verification/Broker_System.thy ===== *)
theory Broker_System
  imports Broker_Disconnect Transition_System
begin

text \<open>
  The broker as a transition system: its steps are the \<open>epoll\<close> events of \<open>main\<close>
  (\<open>src/broker.cpp\<close>), its invariant that of the tables, and what may end the process in a
  reachable state.
\<close>

section \<open>Conforming clients\<close>

text \<open>A client sends at most one registration, or one status query; \<open>role\<close> is its entry in
  \<open>role_by_fd\<close>.\<close>

fun conforming :: "broker_role option \<Rightarrow> received list \<Rightarrow> bool" where
  "conforming role [] = True"
| "conforming role (RecvErr errno # answers) = True"
| "conforming role (RecvMsg msg # answers) = (msg_bytes msg = [] \<or>
     (case message_type_of (hd (msg_bytes msg)) of
        Some StatusQuery \<Rightarrow> role = None
      | Some SubscriberTopicRegistration \<Rightarrow> role = None \<and> conforming (Some RoleSubscriber) answers
      | Some PublisherTopicRegistration \<Rightarrow> role = None \<and> conforming (Some RolePublisher) answers
      | _ \<Rightarrow> conforming role answers))"

section \<open>Why the broker may exit\<close>

text \<open>A client breaks the protocol, or goes away before it has registered.\<close>

definition client_fault :: "broker_fault \<Rightarrow> bool" where
  "client_fault e \<longleftrightarrow> e \<in> {BrokerClosedFdRoleMissing, BrokerRecvFdRoleMissing, BrokerControlCmsgTruncated,
     BrokerStatusQuerySize, SubscriberTopicRegistrationMessageSize, SubscriberTopicRegistrationCount,
     PublisherRegistrationShmFdMissing, PublisherRegistrationCmsg}"

text \<open>The kernel refuses a call.\<close>

definition kernel_fault :: "kernel \<Rightarrow> broker_fault \<Rightarrow> bool" where
  "kernel_fault kern e \<longleftrightarrow>
       e \<in> {SubscriberTopicDataAvailableEventFdCreate, PublisherRegistrationDataAvailableEventFdCreate}
         \<and> \<not> eventfds_all kern
     \<or> e \<in> {SubscriberTopicPublisherRegistrationSend, PublisherRegistrationSubscriberRegistrationSend,
          PublisherRegistrationAttachmentBatchSend, SubscriberTopicAttachmentBatchSend, InitialSubscriberCountSend,
          SubscriberDisconnectSend, PublisherDisconnectSend} \<and> \<not> sends_all kern
     \<or> e = BrokerAccept"

text \<open>A registration exceeds a capacity.\<close>

definition capacity_fault :: "broker_fault \<Rightarrow> bool" where
  "capacity_fault e \<longleftrightarrow> e \<in> {BrokerNoFreeSubscriberSlot, BrokerSubscriberSlotCapacity, BrokerAttachmentIdExhausted,
     SubscriberTopicAttachmentBatchSend}"

definition external_fault :: "kernel \<Rightarrow> broker_fault \<Rightarrow> bool" where
  "external_fault kern e \<longleftrightarrow> client_fault e \<or> kernel_fault kern e \<or> capacity_fault e"

lemmas fault_defs = external_fault_def client_fault_def kernel_fault_def capacity_fault_def

section \<open>The handlers\<close>

text \<open>The connection of every registered client is watched, and connections are finitely many.\<close>

definition system_inv :: "broker \<Rightarrow> bool" where
  "system_inv b \<longleftrightarrow> broker_inv b \<and> dom (role_by_fd b) \<subseteq> client_fds b \<and> finite (client_fds b)"

lemma broker_inv_client_fds [simp]: "broker_inv (b\<lparr>client_fds := fds\<rparr>) = broker_inv b"
  by (simp add: broker_inv_def clients_ok_def subscribers_ok_def publishers_ok_def matched_def
    attachments_ok_def ledger_ok_def)

lemma system_inv_registered:
  assumes "broker_inv b'" "role_by_fd b' = (role_by_fd b)(fd \<mapsto> role)" "client_fds b' = client_fds b"
    "fd \<in> client_fds b" "dom (role_by_fd b) \<subseteq> client_fds b" "finite (client_fds b)"
  shows "system_inv b'"
  using assms by (simp add: system_inv_def)

lemma handle_subscriber_topic_registration_ok:
  assumes inv: "broker_inv b" and new: "role_by_fd b fd = None"
  shows "outcome (handle_subscriber_topic_registration kern fd packet b w)
    (\<lambda>e. e = SubscriberTopicRegistrationMessageSize \<and> length packet \<noteq> kSubscriberTopicRegistrationMessageSize
      \<or> e = SubscriberTopicRegistrationCount \<or> (\<exists>topics. subscriber_refused kern topics b e))
    (\<lambda>st'. broker_inv (fst st') \<and> (\<exists>topics. topics \<noteq> [] \<and> length topics \<le> kMaxSubscriberTopicCount
      \<and> subscriber_registered kern fd topics (b, w) st'))"
proof -
  have count: "field_u32 packet 1 \<noteq> None" if "length packet = kSubscriberTopicRegistrationMessageSize"
    using that by (simp add: field_u32_def field_def protocol_simps)
  have topics: "\<exists>ts. read_topic_ids packet off n = Some ts \<and> length ts = n" if "off + n \<le> length packet" for off n
    using that
  proof (induction n arbitrary: off)
    case (Suc n)
    from Suc.IH [of "off + 1"] Suc.prems obtain ts where "read_topic_ids packet (off + 1) n = Some ts" "length ts = n" by auto
    then show ?case using Suc.prems by (simp add: field_u8_def field_def)
  qed simp
  show ?thesis
    unfolding handle_subscriber_topic_registration_def
    apply (intro outcome_require outcome_found)
    subgoal by simp
    subgoal using count by simp
    subgoal by simp
    subgoal for n using topics [of "1 + 4" "unat n"] by (auto simp: protocol_simps)
    subgoal for n ts
      using topics [of "1 + 4" "unat n"]
      by (intro outcome_mono [OF register_subscriber_ok [OF inv new]])
        (auto simp: protocol_simps unat_eq_zero intro!: exI [of _ ts])
    done
qed

lemma handle_publisher_topic_registration_ok:
  assumes inv: "broker_inv b" and new: "role_by_fd b fd = None"
  shows "outcome (handle_publisher_topic_registration kern fd packet cmsg b w)
    (\<lambda>e. e \<in> {PublisherRegistrationShmFdMissing, PublisherRegistrationCmsg} \<or> (\<exists>t. publisher_refused kern t b e))
    (\<lambda>st'. broker_inv (fst st') \<and> (\<exists>t shm space. publisher_registered kern fd t shm space (b, w) st'))"
  unfolding handle_publisher_topic_registration_def
proof (intro outcome_found outcome_require, goal_cases)
  case (3 c)
  show ?case
  proof (cases "cmsg_fds c")
    case (Cons shm fds)
    then show ?thesis
      by (cases fds) (auto intro!: outcome_mono [OF register_publisher_ok [OF inv new]])
  qed simp
qed simp_all

lemma registered_role:
  assumes "system_inv b" "role_by_fd b fd = Some RolePublisher"
  shows "\<exists>t. fd \<in> set (publishers_of b t)"
proof -
  have inv: "broker_inv b" using assms(1) by (simp add: system_inv_def)
  from clients_okD(3) [OF broker_invD(1) [OF inv]] publishers_okD(3) [OF broker_invD(3) [OF inv], of fd] assms(2)
  show ?thesis by blast
qed

lemma client_fault_external: "client_fault e \<Longrightarrow> external_fault kern e"
  by (simp add: external_fault_def)

lemma subscriber_refused_external: "subscriber_refused kern topics b e \<Longrightarrow> external_fault kern e"
  by (auto simp: subscriber_refused_def Let_def fault_defs)

lemma publisher_refused_external: "publisher_refused kern t b e \<Longrightarrow> external_fault kern e"
  by (auto simp: publisher_refused_def link_fault_def fault_defs)

text \<open>A new client registers.\<close>

lemma subscriber_registration_step:
  assumes "system_inv b" "fd \<in> client_fds b" and new: "role_by_fd b fd = None"
  shows "outcome (handle_subscriber_topic_registration kern fd packet b w) (external_fault kern)
    (\<lambda>st'. system_inv (fst st') \<and> client_fds (fst st') = client_fds b \<and> role_by_fd (fst st') fd = Some RoleSubscriber)"
proof -
  have inv: "broker_inv b" "dom (role_by_fd b) \<subseteq> client_fds b" "finite (client_fds b)" using assms by (simp_all add: system_inv_def)
  show ?thesis
  proof (rule outcome_mono [OF handle_subscriber_topic_registration_ok [OF inv(1) new]], goal_cases)
    case (1 e)
    then consider "client_fault e" | topics where "subscriber_refused kern topics b e"
      unfolding client_fault_def by blast
    then show ?case using subscriber_refused_external by cases (blast intro: client_fault_external)+
  next
    case (2 st')
    then obtain topics where "subscriber_registered kern fd topics (b, w) st'" by blast
    then have "role_by_fd (fst st') = (role_by_fd b)(fd \<mapsto> RoleSubscriber)" "client_fds (fst st') = client_fds b"
      unfolding subscriber_registered_def by (cases st', simp)+
    with 2 system_inv_registered [OF _ this assms(2) inv(2,3)] show ?case by simp
  qed
qed

lemma publisher_registration_step:
  assumes "system_inv b" "fd \<in> client_fds b" and new: "role_by_fd b fd = None"
  shows "outcome (handle_publisher_topic_registration kern fd packet cmsg b w) (external_fault kern)
    (\<lambda>st'. system_inv (fst st') \<and> client_fds (fst st') = client_fds b \<and> role_by_fd (fst st') fd = Some RolePublisher)"
proof -
  have inv: "broker_inv b" "dom (role_by_fd b) \<subseteq> client_fds b" "finite (client_fds b)" using assms by (simp_all add: system_inv_def)
  show ?thesis
  proof (rule outcome_mono [OF handle_publisher_topic_registration_ok [OF inv(1) new]], goal_cases)
    case (1 e)
    then consider "client_fault e" | t where "publisher_refused kern t b e"
      unfolding client_fault_def by blast
    then show ?case using publisher_refused_external by cases (blast intro: client_fault_external)+
  next
    case (2 st')
    then obtain t shm space where "publisher_registered kern fd t shm space (b, w) st'" by blast
    then have "role_by_fd (fst st') = (role_by_fd b)(fd \<mapsto> RolePublisher)" "client_fds (fst st') = client_fds b"
      unfolding publisher_registered_def by (cases st', simp)+
    with 2 system_inv_registered [OF _ this assms(2) inv(2,3)] show ?case by simp
  qed
qed

text \<open>A registered client goes away.\<close>

lemma peer_gone_ok:
  assumes inv: "broker_inv b" and role: "role_by_fd b fd = Some role" and all: "visits_all kern"
  shows "outcome (peer_gone kern fd role b w) (external_fault kern)
    (\<lambda>st'. broker_inv (fst st') \<and> role_by_fd (fst st') = (role_by_fd b)(fd := None) \<and> client_fds (fst st') = client_fds b)"
proof (cases role)
  case RoleSubscriber
  with role have "role_by_fd b fd = Some RoleSubscriber" by simp
  from handle_subscriber_disconnect_ok [OF inv this] show ?thesis
    unfolding peer_gone_def RoleSubscriber broker_role.case
    by (rule outcome_mono) (auto simp: fault_defs subscriber_left_def)
next
  case RolePublisher
  with role clients_okD(3) [OF broker_invD(1) [OF inv], of fd] publishers_okD(3) [OF broker_invD(3) [OF inv], of fd]
  obtain t where "fd \<in> set (publishers_of b t)" by auto
  from handle_publisher_disconnect_ok [OF inv this all] show ?thesis
    unfolding peer_gone_def RolePublisher broker_role.case
    by (rule outcome_mono) (auto simp: fault_defs publisher_left_def)
qed

text \<open>All messages of one event.\<close>

lemma receive_client_messages_ok:
  assumes "system_inv b" "fd \<in> client_fds b" "conforming (role_by_fd b fd) answers" "visits_all kern"
  shows "outcome (receive_client_messages kern snapshot fd answers b w) (external_fault kern) (\<lambda>st'. system_inv (fst st'))"
  using assms
proof (induction kern snapshot fd answers b w rule: receive_client_messages.induct)
  case (1 kern snapshot fd b w)
  then show ?case by simp
next
  case (2 kern snapshot fd errno answers b w)
  have inv: "broker_inv b" "dom (role_by_fd b) \<subseteq> client_fds b" "finite (client_fds b)" using 2 by (simp_all add: system_inv_def)
  show ?case
  proof (cases "errno = EAGAIN")
    case False
    have "outcome (peer_failed kern fd b w) (external_fault kern) (\<lambda>st'. system_inv (fst st'))"
      unfolding peer_failed_def
    proof (rule outcome_found, simp add: fault_defs, rule outcome_require, simp add: 2)
      fix role assume "role_by_fd b fd = Some role"
      then have role: "role_by_fd (b\<lparr>client_fds := client_fds b - {fd}\<rparr>) fd = Some role" by simp
      have "broker_inv (b\<lparr>client_fds := client_fds b - {fd}\<rparr>)" using inv by simp
      from peer_gone_ok [OF this role 2(4)]
      show "outcome (peer_gone kern fd role (b\<lparr>client_fds := client_fds b - {fd}\<rparr>) w) (external_fault kern)
        (\<lambda>st'. system_inv (fst st'))"
        by (rule outcome_mono) (use inv in \<open>auto simp: system_inv_def\<close>)
    qed
    with False show ?thesis by simp
  qed (use 2 in simp)
next
  case (3 kern snapshot fd msg answers b w)
  have inv: "broker_inv b" "dom (role_by_fd b) \<subseteq> client_fds b" "finite (client_fds b)" using 3 by (simp_all add: system_inv_def)
  show ?case
  proof (cases "msg_bytes msg = []")
    case True
    have "outcome (peer_closed kern fd b w) (external_fault kern) (\<lambda>st'. system_inv (fst st'))"
      unfolding peer_closed_def
    proof (rule outcome_found, simp add: fault_defs)
      fix role assume "role_by_fd b fd = Some role"
      from peer_gone_ok [OF inv(1) this 3(5)]
      show "outcome (peer_gone kern fd role b w) (external_fault kern) (\<lambda>st'. system_inv (fst st'))"
        by (rule outcome_mono) (use inv in \<open>auto simp: system_inv_def\<close>)
    qed
    with True show ?thesis by simp
  next
    case False
    let ?type = "message_type_of (hd (msg_bytes msg))"
    let ?post = "\<lambda>(fd_closed, b' :: broker, w' :: broker_io). system_inv b' \<and> (\<not> fd_closed \<longrightarrow> fd \<in> client_fds b' \<and> conforming (role_by_fd b' fd) answers)"
    have handled: "outcome (handle_client_message kern snapshot fd msg (msg_truncated msg) b w) (external_fault kern) ?post"
      unfolding handle_client_message_def
    proof (rule outcome_require, simp add: fault_defs)
      show "outcome (case ?type of
           Some StatusQuery \<Rightarrow> and_then (handle_status_query kern snapshot fd (msg_bytes msg) b w) (\<lambda>(b, w). Inr (True, b, w))
         | Some SubscriberTopicRegistration \<Rightarrow>
             and_then (handle_subscriber_topic_registration kern fd (msg_bytes msg) b w) (\<lambda>(b, w). Inr (False, b, w))
         | Some PublisherTopicRegistration \<Rightarrow>
             and_then (handle_publisher_topic_registration kern fd (msg_bytes msg) (msg_control msg) b w) (\<lambda>(b, w). Inr (False, b, w))
         | _ \<Rightarrow> Inr (False, b, w)) (external_fault kern) ?post"
      proof (cases "?type \<in> {Some StatusQuery, Some SubscriberTopicRegistration, Some PublisherTopicRegistration}")
        case True
        with 3(4) False have new: "role_by_fd b fd = None" by auto
        from True consider "?type = Some StatusQuery" | "?type = Some SubscriberTopicRegistration"
          | "?type = Some PublisherTopicRegistration" by blast
        then show ?thesis
        proof cases
          case 1
          have "system_inv (b\<lparr>client_fds := client_fds b - {fd}\<rparr>)"
            using inv new by (auto simp: system_inv_def)
          then show ?thesis
            using 1 by (auto simp: handle_status_query_def Let_def transmit_def fault_defs
              intro!: outcome_and_then [where R = "\<lambda>st'. system_inv (fst st')"] outcome_require)
        next
          case 2
          have conf: "conforming (Some RoleSubscriber) answers" using 3(4) False 2 by simp
          note subscriber_registration_step [OF 3(2,3) new, of kern "msg_bytes msg" w]
          then show ?thesis
            unfolding 2 option.case broker_message_type.case
            by (rule outcome_and_then) (use conf 3(3) in \<open>simp add: split_beta\<close>)
        next
          case p: 3
          have conf: "conforming (Some RolePublisher) answers" using 3(4) False p by simp
          note publisher_registration_step [OF 3(2,3) new, of kern "msg_bytes msg" "msg_control msg" w]
          then show ?thesis
            unfolding p option.case broker_message_type.case
            by (rule outcome_and_then) (use conf 3(3) in \<open>simp add: split_beta\<close>)
        qed
      next
        case other: False
        then show ?thesis
          using 3(2,3,4) False by (auto split: option.split_asm option.split broker_message_type.split_asm broker_message_type.split)
      qed
    qed
    have "outcome (and_then (handle_client_message kern snapshot fd msg (msg_truncated msg) b w) (\<lambda>(fd_closed, b, w).
        if fd_closed then Inr (b, w) else receive_client_messages kern snapshot fd answers b w))
      (external_fault kern) (\<lambda>st'. system_inv (fst st'))"
    proof (rule outcome_and_then [OF handled])
      fix x assume x: "?post x"
      obtain fd_closed b' w' where e: "x = (fd_closed, b', w')" by (cases x)
      show "outcome (case x of (fd_closed, b, w) \<Rightarrow>
          if fd_closed then Inr (b, w) else receive_client_messages kern snapshot fd answers b w)
        (external_fault kern) (\<lambda>st'. system_inv (fst st'))"
        using x 3(1) [OF False] 3(5) unfolding e by auto
    qed
    with False show ?thesis by simp
  qed
qed

section \<open>The transition system\<close>

datatype broker_event = Accepts "accept_answer list" | Receives int "received list"

text \<open>A descriptor that \<open>accept\<close> returns was closed before, so it is not a registered client's; a
  watched descriptor that becomes readable is in \<open>client_fds\<close>.\<close>

inductive broker_step ::
  "kernel \<Rightarrow> (broker \<Rightarrow> bytes) \<Rightarrow> broker \<times> broker_io \<Rightarrow> broker_event \<Rightarrow> broker \<times> broker_io \<Rightarrow> bool"
  for kern snapshot
where
  accepts: "\<forall>fd watched. AcceptFd fd watched \<in> set answers \<longrightarrow> role_by_fd b fd = None \<Longrightarrow>
    accept_clients answers b w = Inr st' \<Longrightarrow> broker_step kern snapshot (b, w) (Accepts answers) st'"
| receives: "fd \<in> client_fds b \<Longrightarrow> conforming (role_by_fd b fd) answers \<Longrightarrow>
    receive_client_messages kern snapshot fd answers b w = Inr st' \<Longrightarrow>
    broker_step kern snapshot (b, w) (Receives fd answers) st'"

inductive_cases broker_stepE: "broker_step kern snapshot st ev st'"

lemma accept_clients_inv:
  assumes "system_inv b" "\<forall>fd watched. AcceptFd fd watched \<in> set answers \<longrightarrow> role_by_fd b fd = None"
    "accept_clients answers b w = Inr st'"
  shows "system_inv (fst st')"
  using assms
proof (induction answers b w rule: accept_clients.induct)
  case (3 fd watched answers b w)
  have new: "role_by_fd b fd = None" using 3(4) by auto
  show ?case
  proof (cases watched)
    case True
    have "system_inv (b\<lparr>client_fds := insert fd (client_fds b)\<rparr>)"
      using 3(3) by (auto simp: system_inv_def)
    moreover have "\<forall>g watched. AcceptFd g watched \<in> set answers \<longrightarrow> role_by_fd (b\<lparr>client_fds := insert fd (client_fds b)\<rparr>) g = None"
      using 3(4) by simp
    ultimately show ?thesis using 3(1) [OF True] 3(5) True by simp
  next
    case False
    have "system_inv (b\<lparr>client_fds := client_fds b - {fd}\<rparr>)"
      using 3(3) new by (auto simp: system_inv_def)
    moreover have "\<forall>g watched. AcceptFd g watched \<in> set answers \<longrightarrow> role_by_fd (b\<lparr>client_fds := client_fds b - {fd}\<rparr>) g = None"
      using 3(4) by simp
    ultimately show ?thesis using 3(2) [OF False] 3(5) False by simp
  qed
qed (auto split: if_split_asm)

lemma initial_system_inv: "system_inv initial_broker"
  using initial_broker_inv by (simp add: system_inv_def initial_broker_def)

interpretation broker: transition_system "\<lambda>st. fst st = initial_broker" "broker_step kern snapshot"
  "\<lambda>st. visits_all kern \<longrightarrow> system_inv (fst st)" for kern snapshot
proof
  fix st :: "broker \<times> broker_io"
  assume "fst st = initial_broker"
  then show "visits_all kern \<longrightarrow> system_inv (fst st)" by (simp add: initial_system_inv)
next
  fix st st' :: "broker \<times> broker_io" and ev
  assume "visits_all kern \<longrightarrow> system_inv (fst st)" "broker_step kern snapshot st ev st'"
  then show "visits_all kern \<longrightarrow> system_inv (fst st')"
    by (auto elim!: broker_stepE intro: outcome_Inr [OF receive_client_messages_ok])
      (rule accept_clients_inv, assumption, blast, assumption)
qed

text \<open>Reachable states.\<close>

definition initial_io :: broker_io where
  "initial_io = \<lparr>outbox = [], b_closed = [], b_unwatched = [], eventfd_calls = 0\<rparr>"

definition broker_reachable :: "kernel \<Rightarrow> (broker \<Rightarrow> bytes) \<Rightarrow> broker \<Rightarrow> broker_io \<Rightarrow> bool" where
  "broker_reachable kern snapshot b w \<longleftrightarrow>
     (\<exists>events. run (broker_step kern snapshot) (initial_broker, initial_io) events (b, w))"

lemma broker_reachable_inv:
  "broker_reachable kern snapshot b w \<Longrightarrow> visits_all kern \<Longrightarrow> system_inv b"
  using broker.run_inv [of kern snapshot] by (fastforce simp: broker_reachable_def)

lemma reachable_initial: "broker_reachable kern snapshot initial_broker initial_io"
  unfolding broker_reachable_def using run_nil [of "broker_step kern snapshot"] by blast

lemma reachable_step:
  "broker_reachable kern snapshot b w \<Longrightarrow> broker_step kern snapshot (b, w) ev (b', w') \<Longrightarrow>
   broker_reachable kern snapshot b' w'"
  unfolding broker_reachable_def using run_snoc [where step = "broker_step kern snapshot"] by blast

end
