(* ===== verification/Broker_Service.thy ===== *)
theory Broker_Service
  imports Broker_System
begin

text \<open>
  What a client gets from the broker: the registration messages of the two libraries are read back
  as they were written, a publisher has as many slots in use as its topic has subscribers, and so
  the capacities that a registration needs can be read off the tables.
\<close>

section \<open>Round trips of the registrations\<close>

lemma subscriber_registration_read:
  assumes n: "topics \<noteq> []" "length topics \<le> kMaxSubscriberTopicCount"
    and packet: "subscriber_topic_registration_packet topics = Some packet"
  shows "handle_subscriber_topic_registration kern fd packet b w = register_subscriber kern fd topics b w"
proof -
  let ?n = "of_nat (length topics) :: u32"
  have u: "unat ?n = length topics" using n(2) by (simp add: unat_of_nat_small protocol_simps)
  then have n0: "?n \<noteq> 0" using n(1) by (metis length_0_conv unat_0)
  let ?pad = "replicate (kMaxSubscriberTopicCount - length topics) (0 :: u8)"
  have p: "packet = [type_byte SubscriberTopicRegistration] @ le_bytes 4 ?n @ topics @ ?pad"
    using packet u n n0 by (simp add: subscriber_topic_registration_packet_def Let_def split: if_split_asm)
  have len: "length packet = kSubscriberTopicRegistrationMessageSize"
    using n(2) by (simp add: p protocol_simps)
  have c: "field_u32 packet 1 = Some ?n"
    unfolding p by (rule field_u32_le) simp
  have t: "read_topic_ids packet (1 + 4) (unat ?n) = Some topics"
    using read_topic_ids_inverse [of "1 + 4" "[type_byte SubscriberTopicRegistration] @ le_bytes 4 ?n" topics ?pad]
    by (simp add: p u)
  show ?thesis
    unfolding handle_subscriber_topic_registration_def using len c t n0 u n(2) by simp
qed

lemma publisher_registration_read:
  "handle_publisher_topic_registration kern fd (publisher_topic_registration_packet t)
     (msg_control (send_packet_with_fds (publisher_topic_registration_packet t) [shm, space])) b w
   = register_publisher kern fd t shm space b w"
  by (simp add: handle_publisher_topic_registration_def send_packet_with_fds_def
    publisher_topic_registration_packet_def)

section \<open>Capacities\<close>

lemma size_slots_in_use:
  assumes "finite (dom m)"
  shows "size (slots_in_use (all_attachments m) p) = (\<Sum>fd \<in> dom m. links_to p (list_at m fd))"
proof -
  have "size (filter_mset (\<lambda>a. sa_publisher_fd a = p) (\<Sum>fd \<in> F. mset (the (m fd))))
      = (\<Sum>fd \<in> F. links_to p (the (m fd)))" if "finite F" for F
    using that by (induction F) (simp_all add: links_to_def flip: mset_filter)
  then have "size (slots_in_use (all_attachments m) p) = (\<Sum>fd \<in> dom m. links_to p (the (m fd)))"
    using assms by (simp add: slots_in_use_def all_attachments_def sum_entries_def)
  also have "\<dots> = (\<Sum>fd \<in> dom m. links_to p (list_at m fd))"
    by (intro sum.cong) (auto simp: list_at_Some)
  finally show ?thesis .
qed

lemma slots_in_use_subscribers:
  assumes inv: "broker_inv b" and t: "p \<in> set (publishers_of b t)"
  shows "size (slots_in_use (all_attachments (subscriber_attachments_by_subscriber_fd b)) p) = length (subscribers_of b t)"
proof -
  let ?m = "subscriber_attachments_by_subscriber_fd b"
  note i = broker_invD [OF inv] and fin = clients_okD(5) [OF broker_invD(1) [OF inv]]
  have "(\<Sum>fd \<in> dom ?m. links_to p (attachments_of b fd)) = (\<Sum>fd \<in> dom ?m. count_list (subscribers_of b t) fd)"
    using i(2,4) t by (intro sum.cong) (auto simp: matched_def subscribers_ok_def)
  also have "\<dots> = length (subscribers_of b t)"
    by (rule sum_count_set [OF subscribers_registered [OF inv] fin])
  finally show ?thesis by (simp add: size_slots_in_use [OF fin])
qed

lemma free_and_used:
  assumes "broker_inv b" "free_slots b t p = Some h"
  shows "length h + size (slots_in_use (all_attachments (subscriber_attachments_by_subscriber_fd b)) p) = 16"
  using broker_invD(6) [OF assms(1)] slots_in_use_bound [OF _ assms(2)] by (simp add: ledger_ok_def)

text \<open>There is room for a subscriber of the given topics.\<close>

definition fits :: "broker \<Rightarrow> topic_id list \<Rightarrow> bool" where
  "fits b topics \<longleftrightarrow> length (attach_plan b topics) \<le> kMaxAttachmentsPerBatch
     \<and> ids_left (next_attachment_id b) (length (attach_plan b topics))
     \<and> (\<forall>t \<in> set topics. publishers_of b t \<noteq> [] \<longrightarrow> length (subscribers_of b t) + count_list topics t \<le> 16)"

lemma fits_room:
  assumes inv: "broker_inv b" and f: "fits b topics"
  shows "room (all_attachments (subscriber_attachments_by_subscriber_fd b)) (map snd (attach_plan b topics))"
  unfolding room_def
proof
  fix p
  let ?use = "size (slots_in_use (all_attachments (subscriber_attachments_by_subscriber_fd b)) p)"
  show "?use + count_list (map snd (attach_plan b topics)) p \<le> 16"
  proof (cases "\<exists>t. p \<in> set (publishers_of b t)")
    case True
    then obtain t where t: "p \<in> set (publishers_of b t)" by blast
    obtain h where h: "free_slots b t p = Some h"
      using t publishers_okD(4) [OF broker_invD(3) [OF inv], of t p] by blast
    have "?use \<le> 16"
      using free_and_used [OF inv h] by simp
    moreover have "length (subscribers_of b t) + count_list topics t \<le> 16" if "t \<in> set topics"
      using f t that unfolding fits_def by (metis empty_iff list.set(1))
    ultimately show ?thesis
      using slots_in_use_subscribers [OF inv t] count_plan_publisher [OF inv t, of topics]
      by (cases "t \<in> set topics") (auto simp: count_list_0_iff)
  next
    case False
    then have "p \<notin> set (map snd (attach_plan b topics))" by (auto simp: attach_plan_def)
    moreover have "shm_fd_by_publisher_fd b p = None"
      using False publishers_okD(3) [OF broker_invD(3) [OF inv], of p] by blast
    then have "?use = 0"
    proof -
      have "sa_publisher_fd a \<noteq> p" if "a \<in> set (attachments_of b s)" for a s
        using broker_invD(5) [OF inv] that False by (auto simp: attachments_ok_def)
      then have "links_to p (attachments_of b s) = 0" for s by (auto simp: links_to_def filter_empty_conv)
      then show ?thesis
        by (simp add: size_slots_in_use clients_okD(5) [OF broker_invD(1) [OF inv]])
    qed
    ultimately show ?thesis by (simp add: count_list_0_iff)
  qed
qed

section \<open>Registrations that succeed\<close>

lemma outcome_total:
  "outcome r P Q \<Longrightarrow> (\<And>e. \<not> P e) \<Longrightarrow> \<exists>x. r = Inr x \<and> Q x"
  by (cases r) auto

lemma register_subscriber_total:
  assumes inv: "broker_inv b" and new: "role_by_fd b fd = None" and f: "fits b topics"
    and kern: "sends_all kern" "eventfds_all kern"
  shows "\<exists>b' w'. register_subscriber kern fd topics b w = Inr (b', w') \<and> broker_inv b'
    \<and> subscriber_registered kern fd topics (b, w) (b', w')"
proof -
  have "\<not> subscriber_refused kern topics b e" for e
    using fits_room [OF inv f] f kern by (auto simp: subscriber_refused_def Let_def fits_def)
  from outcome_total [OF register_subscriber_ok [OF inv new] this] show ?thesis by auto
qed

lemma register_publisher_total:
  assumes inv: "broker_inv b" and new: "role_by_fd b fd = None"
    and n: "length (subscribers_of b t) \<le> 16" "ids_left (next_attachment_id b) (length (subscribers_of b t))"
    and kern: "sends_all kern" "eventfds_all kern"
  shows "\<exists>b' w'. register_publisher kern fd t shm space b w = Inr (b', w') \<and> broker_inv b'
    \<and> publisher_registered kern fd t shm space (b, w) (b', w')"
proof -
  have "\<not> publisher_refused kern t b e" for e
    using n kern by (auto simp: publisher_refused_def link_fault_def)
  from outcome_total [OF register_publisher_ok [OF inv new] this] show ?thesis by auto
qed

section \<open>A full topic\<close>

text \<open>A subscriber that names one full topic with a publisher.\<close>

lemma full_topic_refused:
  assumes inv: "broker_inv b" and new: "role_by_fd b fd = None"
    and p: "publishers_of b t \<noteq> []" and n: "16 \<le> length (subscribers_of b t)"
  shows "register_subscriber kern fd [t] b w = Inl BrokerNoFreeSubscriberSlot"
proof -
  obtain p ps where ps: "publisher_fds_by_topic_id b t = Some (p # ps)" "publishers_of b t = p # ps"
    using p by (cases "publisher_fds_by_topic_id b t"; cases "publishers_of b t") (auto simp: list_at_def)
  then have t: "p \<in> set (publishers_of b t)" by simp
  have reg: "registered b t p" using publishers_known_if [OF inv] t by (auto simp: publishers_known_def)
  then obtain shm h where at: "shm_fd_by_publisher_fd b p = Some shm" "free_slots b t p = Some h"
    by (auto simp: registered_def)
  have "length h = 0"
    using free_and_used [OF inv at(2)] slots_in_use_subscribers [OF inv t] n by linarith
  then have "h = []" by simp
  moreover have "available_subscriber_slots b t \<noteq> None"
    using at(2) by (cases "available_subscriber_slots b t") (simp_all add: map_at_def)
  ultimately show ?thesis
    using at ps by (simp add: register_subscriber_def Let_def attach_to_topic_def attach_to_publisher_def)
qed

end
