(* ===== verification/Broker_Account.thy ===== *)
theory Broker_Account
  imports Broker_Service
begin

text \<open>
  The descriptors of the broker: those its tables own, those it has closed, and how each handler
  changes the two together.
\<close>

definition broker_owned :: "broker \<Rightarrow> int multiset" where
  "broker_owned b =
     image_mset sa_data_available_event_fd (all_attachments (subscriber_attachments_by_subscriber_fd b))
     + sum_entries (\<lambda>fd. {#fd#}) (shm_fd_by_publisher_fd b)
     + sum_entries (\<lambda>fd. {#fd#}) (space_event_fd_by_publisher_fd b)
     + mset_set (dom (role_by_fd b))"

definition broker_account :: "broker \<times> broker_io \<Rightarrow> int multiset" where
  "broker_account = (\<lambda>(b, w). broker_owned b + mset (b_closed w))"

text \<open>The eventfds created between two states.\<close>

definition created :: "kernel \<Rightarrow> broker_io \<Rightarrow> broker_io \<Rightarrow> int multiset" where
  "created kern w w' = mset (map (new_eventfd kern) [eventfd_calls w..<eventfd_calls w'])"

lemma broker_finite:
  assumes "broker_inv b"
  shows "finite (dom (shm_fd_by_publisher_fd b))" "finite (dom (space_event_fd_by_publisher_fd b))"
    "finite (dom (role_by_fd b))"
proof -
  note c = clients_okD [OF broker_invD(1) [OF assms]] and p = publishers_okD [OF broker_invD(3) [OF assms]]
  have "dom (shm_fd_by_publisher_fd b) \<subseteq> (\<Union>t. set (publishers_of b t))" using p(3) by blast
  then show shm: "finite (dom (shm_fd_by_publisher_fd b))" by (rule finite_subset) simp
  have "dom (space_event_fd_by_publisher_fd b) = dom (shm_fd_by_publisher_fd b)" using c(3,4) by blast
  with shm show "finite (dom (space_event_fd_by_publisher_fd b))" by simp
  have "dom (role_by_fd b) \<subseteq> dom (subscriber_attachments_by_subscriber_fd b) \<union> dom (shm_fd_by_publisher_fd b)"
  proof
    fix x assume "x \<in> dom (role_by_fd b)"
    then obtain r where "role_by_fd b x = Some r" by blast
    then show "x \<in> dom (subscriber_attachments_by_subscriber_fd b) \<union> dom (shm_fd_by_publisher_fd b)"
      using c(1,3) [of x] by (cases r) auto
  qed
  then show "finite (dom (role_by_fd b))" by (rule finite_subset) (simp add: shm c(5))
qed

lemma subscriber_registered_account:
  assumes inv: "broker_inv b" and new: "role_by_fd b fd = None"
    and reg: "subscriber_registered kern fd topics (b, w) (b', w')"
  shows "broker_account (b', w') = broker_account (b, w) + {#fd#} + created kern w w'"
proof -
  from reg obtain as where as: "subscriber_attachments_by_subscriber_fd b' = (subscriber_attachments_by_subscriber_fd b)(fd \<mapsto> as)"
      "fresh_eventfds kern w as"
      "eventfd_calls w' = eventfd_calls w + length as" "b_closed w' = b_closed w"
    unfolding subscriber_registered_def by auto
  from as(2,3) have "image_mset sa_data_available_event_fd (mset as) = created kern w w'"
    by (simp add: created_def fresh_eventfds_def flip: mset_map)
  moreover have "all_attachments (subscriber_attachments_by_subscriber_fd b')
      = mset as + all_attachments (subscriber_attachments_by_subscriber_fd b)"
    unfolding as(1) by (rule all_attachments_insert [OF clients_okD(5) unregistered(1)])
      (use broker_invD(1) [OF inv] new in simp_all)
  moreover have "mset_set (dom (role_by_fd b')) = add_mset fd (mset_set (dom (role_by_fd b)))"
    using reg new broker_finite(3) [OF inv] by (simp add: subscriber_registered_def domIff)
  moreover have "shm_fd_by_publisher_fd b' = shm_fd_by_publisher_fd b"
      "space_event_fd_by_publisher_fd b' = space_event_fd_by_publisher_fd b"
    using reg by (simp_all add: subscriber_registered_def)
  ultimately show ?thesis
    by (simp add: broker_account_def broker_owned_def as(4))
qed

lemma publisher_registered_account:
  assumes inv: "broker_inv b" and new: "role_by_fd b fd = None"
    and reg: "publisher_registered kern fd t shm space (b, w) (b', w')"
  shows "broker_account (b', w') = broker_account (b, w) + {#fd, shm, space#} + created kern w w'"
proof -
  note u = unregistered [OF broker_invD(1) [OF inv] new] and fin = broker_finite [OF inv]
  from reg obtain rs where rs: "all_attachments (subscriber_attachments_by_subscriber_fd b')
            = all_attachments (subscriber_attachments_by_subscriber_fd b) + mset (map snd rs)"
      "fresh_eventfds kern w (map snd rs)"
      "w' = sent ((fd, plain_message (le_bytes 4 (of_nat (length rs) :: u32))) # linked_notes shm rs)
         (w\<lparr>eventfd_calls := eventfd_calls w + length rs\<rparr>)"
    unfolding publisher_registered_def prod.case by blast
  from rs(2,3) have "image_mset sa_data_available_event_fd (mset (map snd rs)) = created kern w w'"
    unfolding created_def fresh_eventfds_def by (simp add: flip: mset_map)
  moreover have "mset_set (dom (role_by_fd b')) = add_mset fd (mset_set (dom (role_by_fd b)))"
    using reg new fin(3) by (simp add: publisher_registered_def domIff)
  moreover have "sum_entries (\<lambda>fd. {#fd#}) (shm_fd_by_publisher_fd b')
      = add_mset shm (sum_entries (\<lambda>fd. {#fd#}) (shm_fd_by_publisher_fd b))"
    using reg sum_entries_insert [OF fin(1) u(3), of "\<lambda>fd. {#fd#}" shm] by (simp add: publisher_registered_def)
  moreover have "sum_entries (\<lambda>fd. {#fd#}) (space_event_fd_by_publisher_fd b')
      = add_mset space (sum_entries (\<lambda>fd. {#fd#}) (space_event_fd_by_publisher_fd b))"
    using reg sum_entries_insert [OF fin(2) u(4), of "\<lambda>fd. {#fd#}" space] by (simp add: publisher_registered_def)
  ultimately show ?thesis
    by (simp add: broker_account_def broker_owned_def rs(1,3) ac_simps del: mset_map)
qed

lemma subscriber_left_account:
  assumes inv: "broker_inv b" and role: "role_by_fd b fd = Some RoleSubscriber"
    and left: "subscriber_left fd (b, w) (b', w')"
  shows "broker_account (b', w') = broker_account (b, w)"
proof -
  let ?m = "subscriber_attachments_by_subscriber_fd b"
  note c = clients_okD [OF broker_invD(1) [OF inv]]
  obtain as where as: "?m fd = Some as" using c(1) [of fd] role by auto
  have "all_attachments ?m = mset as + all_attachments (?m(fd := None))"
    by (rule all_attachments_remove [OF c(5) as])
  moreover have "mset_set (dom (role_by_fd b)) = add_mset fd (mset_set (dom (role_by_fd b) - {fd}))"
    using role broker_finite(3) [OF inv] by (intro mset_set.remove) auto
  ultimately show ?thesis
    using left as by (simp add: subscriber_left_def broker_account_def broker_owned_def list_at_Some ac_simps)
qed

lemma publisher_left_account:
  assumes inv: "broker_inv b" and t: "fd \<in> set (publishers_of b t)"
    and left: "publisher_left fd t (b, w) (b', w')"
  shows "broker_account (b', w') = broker_account (b, w)"
proof -
  note c = clients_okD [OF broker_invD(1) [OF inv]] and fin = broker_finite [OF inv]
  have "shm_fd_by_publisher_fd b fd \<noteq> None"
    using publishers_okD(3) [OF broker_invD(3) [OF inv], of fd] t by blast
  then obtain shm space where at: "shm_fd_by_publisher_fd b fd = Some shm" "space_event_fd_by_publisher_fd b fd = Some space"
      "role_by_fd b fd = Some RolePublisher"
    using c(3,4) [of fd] by auto
  from left obtain rs where rs: "all_attachments (subscriber_attachments_by_subscriber_fd b)
            = all_attachments (subscriber_attachments_by_subscriber_fd b') + mset (map snd rs)"
      "w' = closing (map (sa_data_available_event_fd \<circ> snd) rs
              @ [the (shm_fd_by_publisher_fd b fd), the (space_event_fd_by_publisher_fd b fd), fd])
            (sent (map publisher_gone_note rs) w)"
    unfolding publisher_left_def prod.case by blast
  have "mset_set (dom (role_by_fd b)) = add_mset fd (mset_set (dom (role_by_fd b) - {fd}))"
    using at(3) fin(3) by (intro mset_set.remove) auto
  moreover have "sum_entries (\<lambda>fd. {#fd#}) (shm_fd_by_publisher_fd b)
      = add_mset shm (sum_entries (\<lambda>fd. {#fd#}) (shm_fd_by_publisher_fd b'))"
    using left sum_entries_delete [OF fin(1) at(1), of "\<lambda>fd. {#fd#}"] by (simp add: publisher_left_def)
  moreover have "sum_entries (\<lambda>fd. {#fd#}) (space_event_fd_by_publisher_fd b)
      = add_mset space (sum_entries (\<lambda>fd. {#fd#}) (space_event_fd_by_publisher_fd b'))"
    using left sum_entries_delete [OF fin(2) at(2), of "\<lambda>fd. {#fd#}"] by (simp add: publisher_left_def)
  moreover have "role_by_fd b' = (role_by_fd b)(fd := None)" using left by (simp add: publisher_left_def)
  ultimately show ?thesis
    using rs at by (simp add: broker_account_def broker_owned_def image_mset.compositionality ac_simps)
qed

end
