(* ===== verification/Broker_Scenario.thy ===== *)
theory Broker_Scenario
  imports Broker_Account
begin

text \<open>
  A concrete history of the broker: a publisher on descriptor 5 registers for the camera topic,
  then a subscriber on descriptor 8.  Its states are the inputs of the examples in the properties.
\<close>

definition demo_kernel :: kernel where
  "demo_kernel = \<lparr>sends = \<lambda>n fd. True, new_eventfd = \<lambda>n. 100 + int n, stale_byte = 0,
     topic_order = \<lambda>m. sorted_list_of_set (dom m)\<rparr>"

definition demo_snapshot :: "broker \<Rightarrow> bytes" where
  "demo_snapshot = (\<lambda>b. [])"

lemma demo_kernel_ok: "sends_all demo_kernel" "eventfds_all demo_kernel" "visits_all demo_kernel"
  by (simp_all add: sends_all_def eventfds_all_def visits_all_def demo_kernel_def)

text \<open>Both clients have connected.\<close>

definition demo_connected :: broker where
  "demo_connected = initial_broker\<lparr>client_fds := {5, 8}\<rparr>"

lemma demo_connected_reachable: "broker_reachable demo_kernel demo_snapshot demo_connected initial_io"
proof (rule reachable_step [OF reachable_initial])
  show "broker_step demo_kernel demo_snapshot (initial_broker, initial_io)
      (Accepts [AcceptFd 5 True, AcceptFd 8 True, AcceptErr EAGAIN]) (demo_connected, initial_io)"
    by (rule accepts) (auto simp: initial_broker_def demo_connected_def)
qed

lemma demo_connected_simps:
  "role_by_fd demo_connected = Map.empty" "publishers_of demo_connected t = []" "subscribers_of demo_connected t = []"
  "client_fds demo_connected = {5, 8}" "next_attachment_id demo_connected = 1"
  "all_attachments (subscriber_attachments_by_subscriber_fd demo_connected) = {#}"
  by (simp_all add: demo_connected_def initial_broker_def list_at_def all_attachments_def)

lemma demo_connected_inv: "broker_inv demo_connected"
  using broker_reachable_inv [OF demo_connected_reachable demo_kernel_ok(3)] by (simp add: system_inv_def)

text \<open>The messages of the clients.\<close>

definition demo_publisher_message :: msghdr where
  "demo_publisher_message = send_packet_with_fds (publisher_topic_registration_packet kTopicCamera) [6, 7]"

definition demo_subscriber_packet :: bytes where
  "demo_subscriber_packet = [2, 1, 0, 0, 0, 1, 0, 0, 0, 0]"

lemma demo_subscriber_packet_eq:
  "subscriber_topic_registration_packet [kTopicCamera] = Some demo_subscriber_packet"
  by (simp add: subscriber_topic_registration_packet_def demo_subscriber_packet_def protocol_simps
    kTopicCamera_def le_bytes_def upt_rec numeral_eq_Suc)

text \<open>The publisher has registered.\<close>

lemma demo_publisher_registered:
  "\<exists>b w. broker_reachable demo_kernel demo_snapshot b w \<and> client_fds b = {5, 8}
    \<and> (\<forall>t. publishers_of b t = (if t = kTopicCamera then [5] else [])) \<and> role_by_fd b = [5 \<mapsto> RolePublisher]
    \<and> (\<forall>t. subscribers_of b t = []) \<and> next_attachment_id b = 1"
proof -
  have "\<exists>b w. register_publisher demo_kernel 5 kTopicCamera 6 7 demo_connected initial_io = Inr (b, w)
      \<and> broker_inv b \<and> publisher_registered demo_kernel 5 kTopicCamera 6 7 (demo_connected, initial_io) (b, w)"
    using demo_kernel_ok
    by (intro register_publisher_total [OF demo_connected_inv]) (simp_all add: demo_connected_simps ids_left_def)
  then obtain b w where code: "register_publisher demo_kernel 5 kTopicCamera 6 7 demo_connected initial_io = Inr (b, w)"
    and reg: "publisher_registered demo_kernel 5 kTopicCamera 6 7 (demo_connected, initial_io) (b, w)" by blast
  have "receive_client_messages demo_kernel demo_snapshot 5 [RecvMsg demo_publisher_message] demo_connected initial_io = Inr (b, w)"
    using code by (simp add: demo_publisher_message_def handle_client_message_def send_packet_with_fds_def
      publisher_topic_registration_packet_def handle_publisher_topic_registration_def message_type_of_def)
  moreover have "conforming (role_by_fd demo_connected 5) [RecvMsg demo_publisher_message]"
    by (simp add: demo_publisher_message_def send_packet_with_fds_def publisher_topic_registration_packet_def
      message_type_of_def demo_connected_simps)
  ultimately have "broker_step demo_kernel demo_snapshot (demo_connected, initial_io)
      (Receives 5 [RecvMsg demo_publisher_message]) (b, w)"
    by (intro receives) (simp_all add: demo_connected_simps)
  note reachable_step [OF demo_connected_reachable this]
  moreover from reg have "publisher_fds_by_topic_id b = [kTopicCamera \<mapsto> [5]]" "role_by_fd b = [5 \<mapsto> RolePublisher]"
      "client_fds b = {5, 8}" "subscriber_fds_by_topic_id b = Map.empty"
    by (simp_all add: publisher_registered_def demo_connected_def initial_broker_def list_at_def)
  moreover from reg obtain rs :: "(int \<times> subscriber_attachment) list" where "map fst rs = subscribers_of demo_connected kTopicCamera"
      "next_attachment_id b = next_attachment_id demo_connected + of_nat (length rs)"
    unfolding publisher_registered_def prod.case by blast
  then have "next_attachment_id b = 1" by (simp add: demo_connected_simps)
  ultimately show ?thesis by (auto simp: list_at_def)
qed

text \<open>And the subscriber.\<close>

lemma demo_subscriber_registered:
  "\<exists>b w. broker_reachable demo_kernel demo_snapshot b w \<and> client_fds b = {5, 8}
    \<and> (\<forall>t. publishers_of b t = (if t = kTopicCamera then [5] else []))
    \<and> role_by_fd b = [5 \<mapsto> RolePublisher, 8 \<mapsto> RoleSubscriber]
    \<and> topics_of b 8 = [kTopicCamera] \<and> next_attachment_id b = 2"
proof -
  obtain b w where b: "broker_reachable demo_kernel demo_snapshot b w" "client_fds b = {5, 8}"
    "\<forall>t. publishers_of b t = (if t = kTopicCamera then [5] else [])" "role_by_fd b = [5 \<mapsto> RolePublisher]"
    "\<forall>t. subscribers_of b t = []" "next_attachment_id b = 1"
    using demo_publisher_registered by blast
  have inv: "broker_inv b" using broker_reachable_inv [OF b(1) demo_kernel_ok(3)] by (simp add: system_inv_def)
  have plan: "attach_plan b [kTopicCamera] = [(kTopicCamera, 5)]" using b(3) by (simp add: attach_plan_def)
  have "fits b [kTopicCamera]" using b(3,5,6) by (simp add: fits_def plan protocol_simps ids_left_def)
  moreover have "role_by_fd b 8 = None" using b(4) by simp
  ultimately obtain b' w' where
    code: "register_subscriber demo_kernel 8 [kTopicCamera] b w = Inr (b', w')"
    and reg: "subscriber_registered demo_kernel 8 [kTopicCamera] (b, w) (b', w')"
    using register_subscriber_total [OF inv _ _ demo_kernel_ok(1,2)] by blast
  have "handle_subscriber_topic_registration demo_kernel 8 demo_subscriber_packet b w = Inr (b', w')"
    using subscriber_registration_read [OF _ _ demo_subscriber_packet_eq] code by (simp add: protocol_simps)
  then have "receive_client_messages demo_kernel demo_snapshot 8 [RecvMsg (plain_message demo_subscriber_packet)] b w = Inr (b', w')"
    by (simp add: handle_client_message_def plain_message_def demo_subscriber_packet_def message_type_of_def)
  moreover have "conforming (role_by_fd b 8) [RecvMsg (plain_message demo_subscriber_packet)]"
    by (simp add: plain_message_def demo_subscriber_packet_def message_type_of_def b(4))
  ultimately have "broker_step demo_kernel demo_snapshot (b, w)
      (Receives 8 [RecvMsg (plain_message demo_subscriber_packet)]) (b', w')"
    using b(2) by (intro receives) simp_all
  note reachable_step [OF b(1) this]
  moreover from reg have "client_fds b' = {5, 8}" "\<forall>t. publishers_of b' t = (if t = kTopicCamera then [5] else [])"
      "role_by_fd b' = [5 \<mapsto> RolePublisher, 8 \<mapsto> RoleSubscriber]" "topics_of b' 8 = [kTopicCamera]"
    using b(2-4) by (simp_all add: subscriber_registered_def)
  moreover from reg obtain as :: "subscriber_attachment list" where "map (\<lambda>a. (sa_topic_id a, sa_publisher_fd a)) as = [(kTopicCamera, 5)]"
      "next_attachment_id b' = next_attachment_id b + of_nat (length as)"
    unfolding subscriber_registered_def prod.case plan by (metis (no_types, lifting))
  then have "next_attachment_id b' = 2" using b(6) by (cases as) auto
  ultimately show ?thesis by blast
qed

text \<open>And as many subscribers of the same topic as there are slots.\<close>

lemma demo_crowd:
  "n \<le> 16 \<Longrightarrow> \<exists>b w. broker_reachable demo_kernel demo_snapshot b w
    \<and> (\<forall>t. publishers_of b t = (if t = kTopicCamera then [5] else []))
    \<and> length (subscribers_of b kTopicCamera) = n \<and> (\<forall>fd. 8 + int n \<le> fd \<longrightarrow> role_by_fd b fd = None)
    \<and> next_attachment_id b = 1 + of_nat n"
proof (induction n)
  case 0
  obtain b w where "broker_reachable demo_kernel demo_snapshot b w"
    "\<forall>t. publishers_of b t = (if t = kTopicCamera then [5] else [])" "role_by_fd b = [5 \<mapsto> RolePublisher]"
    "\<forall>t. subscribers_of b t = []" "next_attachment_id b = 1"
    using demo_publisher_registered by blast
  then show ?case by (intro exI conjI) (assumption | simp)+
next
  case (Suc n)
  then obtain b w where b: "broker_reachable demo_kernel demo_snapshot b w"
    "\<forall>t. publishers_of b t = (if t = kTopicCamera then [5] else [])" "length (subscribers_of b kTopicCamera) = n"
    "\<forall>fd. 8 + int n \<le> fd \<longrightarrow> role_by_fd b fd = None" "next_attachment_id b = 1 + of_nat n" by auto
  let ?fd = "8 + int n" and ?b = "b\<lparr>client_fds := insert (8 + int n) (client_fds b)\<rparr>"
  have "broker_step demo_kernel demo_snapshot (b, w) (Accepts [AcceptFd ?fd True]) (?b, w)"
    using b(4) by (intro accepts) auto
  note acc = reachable_step [OF b(1) this]
  have inv: "broker_inv ?b" using broker_reachable_inv [OF acc demo_kernel_ok(3)] by (simp add: system_inv_def)
  have plan: "attach_plan ?b [kTopicCamera] = [(kTopicCamera, 5)]" using b(2) by (simp add: attach_plan_def)
  have "Suc n < 2 ^ LENGTH(64)" using Suc.prems by simp
  then have "unat (of_nat (Suc n) :: attachment_id) = Suc n" by (rule unat_of_nat_small)
  then have "fits ?b [kTopicCamera]" using b(2,3,5) Suc.prems by (simp add: fits_def plan protocol_simps ids_left_def)
  moreover have "role_by_fd ?b ?fd = None" using b(4) by simp
  ultimately obtain b' w' where
    code: "register_subscriber demo_kernel ?fd [kTopicCamera] ?b w = Inr (b', w')"
    and reg: "subscriber_registered demo_kernel ?fd [kTopicCamera] (?b, w) (b', w')"
    using register_subscriber_total [OF inv _ _ demo_kernel_ok(1,2)] by blast
  have "handle_subscriber_topic_registration demo_kernel ?fd demo_subscriber_packet ?b w = Inr (b', w')"
    using subscriber_registration_read [OF _ _ demo_subscriber_packet_eq] code by (simp add: protocol_simps)
  then have "receive_client_messages demo_kernel demo_snapshot ?fd [RecvMsg (plain_message demo_subscriber_packet)] ?b w = Inr (b', w')"
    by (simp add: handle_client_message_def plain_message_def demo_subscriber_packet_def message_type_of_def)
  moreover have "conforming (role_by_fd ?b ?fd) [RecvMsg (plain_message demo_subscriber_packet)]"
    using b(4) by (simp add: plain_message_def demo_subscriber_packet_def message_type_of_def)
  ultimately have "broker_step demo_kernel demo_snapshot (?b, w)
      (Receives ?fd [RecvMsg (plain_message demo_subscriber_packet)]) (b', w')"
    by (intro receives) simp_all
  note reachable_step [OF acc this]
  moreover from reg have "\<forall>t. publishers_of b' t = (if t = kTopicCamera then [5] else [])"
      "length (subscribers_of b' kTopicCamera) = Suc n" "\<forall>fd. 8 + int (Suc n) \<le> fd \<longrightarrow> role_by_fd b' fd = None"
    using b(2-4) by (simp_all add: subscriber_registered_def)
  moreover from reg obtain as :: "subscriber_attachment list" where "map (\<lambda>a. (sa_topic_id a, sa_publisher_fd a)) as = [(kTopicCamera, 5)]"
      "next_attachment_id b' = next_attachment_id ?b + of_nat (length as)"
    unfolding subscriber_registered_def prod.case plan by (metis (no_types, lifting))
  then have "next_attachment_id b' = 1 + of_nat (Suc n)" using b(5) by (cases as) auto
  ultimately show ?case by (intro exI conjI)
qed

end
