(* ===== verification/Broker_Properties.thy ===== *)
theory Broker_Properties
  imports Broker_Scenario
begin

text \<open>
  The properties of the broker: its tables in every reachable state, what ends the process, and
  what each registration and each disconnection does.
\<close>

lemma reachable_tables:
  assumes "broker_reachable kern snapshot b w" "visits_all kern"
  shows "broker_inv b"
  using broker_reachable_inv [OF assms] by (simp add: system_inv_def)

section \<open>The tables\<close>

text \<open>Property C6. In every reachable state, a publisher's heap of free slots and the slots of its
  attachments are together the slots 0 to 15, each once: two subscribers never share a slot, a slot
  in use is never free, and none is lost.\<close>

theorem broker_slots_partitioned:
  assumes "broker_reachable kern snapshot b w" "visits_all kern" "p \<in> set (publishers_of b t)"
  shows "\<exists>h. free_slots b t p = Some h \<and> sorted h
    \<and> mset h + {#unat (sa_slot_index a) |a \<in># all_attachments (subscriber_attachments_by_subscriber_fd b). sa_publisher_fd a = p#}
      = mset [0..<16]"
proof -
  note inv = reachable_tables [OF assms(1,2)]
  obtain h where h: "free_slots b t p = Some h"
    using assms(3) publishers_okD(4) [OF broker_invD(3) [OF inv], of t p] by blast
  have "slots_ok (available_subscriber_slots b) (all_attachments (subscriber_attachments_by_subscriber_fd b))"
    using broker_invD(6) [OF inv] by (simp add: ledger_ok_def)
  from h slots_okD(1,2) [OF this h] show ?thesis by (auto simp: slots_in_use_def all_slots_def)
qed

theorem broker_slots_partitioned_witness:
  "\<exists>b w h. broker_reachable demo_kernel demo_snapshot b w \<and> free_slots b kTopicCamera 5 = Some h
    \<and> mset h + {#unat (sa_slot_index a) |a \<in># all_attachments (subscriber_attachments_by_subscriber_fd b). sa_publisher_fd a = 5#}
      = mset [0..<16]"
proof -
  obtain b w where b: "broker_reachable demo_kernel demo_snapshot b w"
    "\<forall>t. publishers_of b t = (if t = kTopicCamera then [5] else [])"
    using demo_subscriber_registered by blast
  have "5 \<in> set (publishers_of b kTopicCamera)" using b(2) by simp
  from broker_slots_partitioned [OF b(1) demo_kernel_ok(3) this] b(1) show ?thesis by blast
qed

text \<open>In every reachable state no attachment id is used twice, none is the invalid id,
  and all are below the next one: an id is never given out again.\<close>

theorem broker_ids_unique:
  assumes "broker_reachable kern snapshot b w" "visits_all kern"
  shows "(\<forall>i. count (image_mset sa_attachment_id (all_attachments (subscriber_attachments_by_subscriber_fd b))) i \<le> 1)
    \<and> (\<forall>fd. \<forall>a \<in> set (attachments_of b fd). sa_attachment_id a \<noteq> kInvalidAttachmentId
        \<and> sa_attachment_id a < next_attachment_id b)"
proof -
  note inv = reachable_tables [OF assms(1,2)]
  have ids: "ids_ok (next_attachment_id b) (all_attachments (subscriber_attachments_by_subscriber_fd b))"
    using broker_invD(6) [OF inv] by (simp add: ledger_ok_def)
  have "a \<in># all_attachments (subscriber_attachments_by_subscriber_fd b)" if "a \<in> set (attachments_of b fd)" for a fd
    using that in_all_attachments [OF clients_okD(5) [OF broker_invD(1) [OF inv]]] list_at_in [OF that]
    by (metis list_at_Some not_None_eq)
  with ids show ?thesis by (simp add: ids_ok_def kInvalidAttachmentId_def)
qed

theorem broker_ids_unique_witness:
  "\<exists>b w. broker_reachable demo_kernel demo_snapshot b w \<and> next_attachment_id b = 2
    \<and> (\<forall>i. count (image_mset sa_attachment_id (all_attachments (subscriber_attachments_by_subscriber_fd b))) i \<le> 1)"
proof -
  obtain b w where b: "broker_reachable demo_kernel demo_snapshot b w" "next_attachment_id b = 2"
    using demo_subscriber_registered by blast
  from broker_ids_unique [OF b(1) demo_kernel_ok(3)] b show ?thesis by blast
qed

text \<open>Property C11. Matching by topic: in every reachable state a subscriber has exactly as many
  attachments to a publisher as times it named the publisher's topic when it registered, it is
  listed under a topic as often as it named it, and every attachment is to a publisher that is
  registered for the attachment's topic.\<close>

theorem broker_matches_by_topic:
  assumes "broker_reachable kern snapshot b w" "visits_all kern"
    "role_by_fd b s = Some RoleSubscriber" "p \<in> set (publishers_of b t)"
  shows "length (filter (\<lambda>a. sa_publisher_fd a = p) (attachments_of b s)) = count_list (topics_of b s) t
    \<and> count_list (subscribers_of b t) s = count_list (topics_of b s) t
    \<and> (\<forall>a \<in> set (attachments_of b s). sa_publisher_fd a \<in> set (publishers_of b (sa_topic_id a))
        \<and> role_by_fd b (sa_publisher_fd a) = Some RolePublisher)"
proof -
  note inv = reachable_tables [OF assms(1,2)]
  note i = broker_invD [OF inv] and c = clients_okD [OF broker_invD(1) [OF inv]]
    and p = publishers_okD [OF broker_invD(3) [OF inv]]
  have "links_to p (attachments_of b s) = count_list (topics_of b s) t"
    using i(4) c(1) [of s] assms(3,4) by (simp add: matched_def)
  moreover have "role_by_fd b q = Some RolePublisher" if "q \<in> set (publishers_of b u)" for q u
    using c(3) [of q] p(3) [of q] that by blast
  with i(5) have "\<forall>a \<in> set (attachments_of b s). sa_publisher_fd a \<in> set (publishers_of b (sa_topic_id a))
        \<and> role_by_fd b (sa_publisher_fd a) = Some RolePublisher"
    unfolding attachments_ok_def by blast
  ultimately show ?thesis using i(2) by (simp add: links_to_def subscribers_ok_def)
qed

theorem broker_matches_by_topic_witness:
  "\<exists>b w. broker_reachable demo_kernel demo_snapshot b w
    \<and> length (filter (\<lambda>a. sa_publisher_fd a = 5) (attachments_of b 8)) = 1"
proof -
  obtain b w where b: "broker_reachable demo_kernel demo_snapshot b w"
    "\<forall>t. publishers_of b t = (if t = kTopicCamera then [5] else [])"
    "role_by_fd b = [5 \<mapsto> RolePublisher, 8 \<mapsto> RoleSubscriber]" "topics_of b 8 = [kTopicCamera]"
    using demo_subscriber_registered by blast
  have "role_by_fd b 8 = Some RoleSubscriber" "5 \<in> set (publishers_of b kTopicCamera)" using b by simp_all
  from broker_matches_by_topic [OF b(1) demo_kernel_ok(3) this] b(1,4) show ?thesis by auto
qed

section \<open>Why the broker ends\<close>

text \<open>Property C16. In every reachable state, the messages of a client that registers at most once
  can end the process only for an external reason (the client broke the protocol or went away
  unregistered, the kernel refused a call, or a capacity was exceeded); none of the internal
  inconsistencies that the code checks for can occur, and otherwise the tables stay consistent.\<close>

theorem broker_exits_for_external_reasons:
  assumes "broker_reachable kern snapshot b w" "visits_all kern"
    "fd \<in> client_fds b" "conforming (role_by_fd b fd) answers"
  shows "case receive_client_messages kern snapshot fd answers b w of
      Inl e \<Rightarrow> client_fault e \<or> kernel_fault kern e \<or> capacity_fault e
    | Inr (b', w') \<Rightarrow> broker_inv b' \<and> dom (role_by_fd b') \<subseteq> client_fds b'"
  using receive_client_messages_ok [OF broker_reachable_inv [OF assms(1,2)] assms(3,4,2), of snapshot w]
  by (cases "receive_client_messages kern snapshot fd answers b w")
    (simp_all add: external_fault_def system_inv_def split_beta)

theorem broker_exits_for_external_reasons_witness:
  "receive_client_messages demo_kernel demo_snapshot 5 [RecvMsg (plain_message [])] demo_connected initial_io
     = Inl BrokerClosedFdRoleMissing \<and> client_fault BrokerClosedFdRoleMissing"
proof -
  have code: "receive_client_messages demo_kernel demo_snapshot 5 [RecvMsg (plain_message [])] demo_connected initial_io
     = Inl BrokerClosedFdRoleMissing"
    by (simp add: plain_message_def peer_closed_def demo_connected_simps)
  have "5 \<in> client_fds demo_connected" "conforming (role_by_fd demo_connected 5) [RecvMsg (plain_message [])]"
    by (simp_all add: demo_connected_simps plain_message_def)
  from broker_exits_for_external_reasons [OF demo_connected_reachable demo_kernel_ok(3) this] code
  show ?thesis by (simp add: kernel_fault_def capacity_fault_def)
qed

section \<open>Registrations\<close>

text \<open>Property C20. A new subscriber with one to five topics is served whenever there is room (at most
  ten publishers of its topics, each with a free slot, and ids left) and the kernel cooperates: the
  packet of its library is read back, it gets one attachment for each publisher of each topic it
  named, in order, with the publisher's descriptors, every such publisher is told, and one batch
  message with all attachments is sent to it last.\<close>

theorem subscriber_registration_served:
  assumes "broker_reachable kern snapshot b w" "visits_all kern" "sends_all kern" "eventfds_all kern"
    "role_by_fd b fd = None" "topics \<noteq> []" "length topics \<le> kMaxSubscriberTopicCount" "fits b topics"
    "subscriber_topic_registration_packet topics = Some packet"
  shows "\<exists>b' w' as. handle_subscriber_topic_registration kern fd packet b w = Inr (b', w')
    \<and> topics_of b' fd = topics \<and> role_by_fd b' fd = Some RoleSubscriber \<and> attachments_of b' fd = as
    \<and> map (\<lambda>a. (sa_topic_id a, sa_publisher_fd a)) as
        = concat (map (\<lambda>t. map (Pair t) (publishers_of b t)) topics)
    \<and> outbox w' = outbox w @ map registered_note as
        @ [batch_note fd as (map (\<lambda>a. the (shm_fd_by_publisher_fd b (sa_publisher_fd a))) as)]
    \<and> map sa_data_available_event_fd as = map (new_eventfd kern) [eventfd_calls w..<eventfd_calls w + length as]"
proof -
  note inv = reachable_tables [OF assms(1,2)]
  from register_subscriber_total [OF inv assms(5,8,3,4), of w] obtain b' w' where
    code: "register_subscriber kern fd topics b w = Inr (b', w')"
    and reg: "subscriber_registered kern fd topics (b, w) (b', w')" by blast
  from reg obtain as :: "subscriber_attachment list" where
    as: "subscriber_attachments_by_subscriber_fd b' = (subscriber_attachments_by_subscriber_fd b)(fd \<mapsto> as)"
      "map (\<lambda>a. (sa_topic_id a, sa_publisher_fd a)) as = attach_plan b topics" "fresh_eventfds kern w as"
      "w' = sent (map registered_note as @
             [batch_note fd as (map (\<lambda>(t, p). the (shm_fd_by_publisher_fd b p)) (attach_plan b topics))])
           (w\<lparr>eventfd_calls := eventfd_calls w + length as\<rparr>)"
    unfolding subscriber_registered_def prod.case by (metis (no_types, lifting))
  have "map (\<lambda>(t, p). the (shm_fd_by_publisher_fd b p)) (attach_plan b topics)
      = map (\<lambda>a. the (shm_fd_by_publisher_fd b (sa_publisher_fd a))) as"
    by (simp add: as(2) [symmetric])
  with as have "outbox w' = outbox w @ map registered_note as
        @ [batch_note fd as (map (\<lambda>a. the (shm_fd_by_publisher_fd b (sa_publisher_fd a))) as)]" by simp
  moreover have "handle_subscriber_topic_registration kern fd packet b w = Inr (b', w')"
    using subscriber_registration_read [OF assms(6,7,9)] code by simp
  moreover have "topics_of b' fd = topics" "role_by_fd b' fd = Some RoleSubscriber" "attachments_of b' fd = as"
    using reg as(1) by (simp_all add: subscriber_registered_def)
  ultimately show ?thesis
    using as(2,3) by (intro exI conjI) (assumption | simp add: attach_plan_def fresh_eventfds_def)+
qed

theorem subscriber_registration_served_witness:
  "\<exists>b w b' w' as. broker_reachable demo_kernel demo_snapshot b w
    \<and> handle_subscriber_topic_registration demo_kernel 8 demo_subscriber_packet b w = Inr (b', w')
    \<and> attachments_of b' 8 = as \<and> map (\<lambda>a. (sa_topic_id a, sa_publisher_fd a)) as = [(kTopicCamera, 5)]"
proof -
  obtain b w where b: "broker_reachable demo_kernel demo_snapshot b w"
    "\<forall>t. publishers_of b t = (if t = kTopicCamera then [5] else [])" "role_by_fd b = [5 \<mapsto> RolePublisher]"
    "\<forall>t. subscribers_of b t = []" "next_attachment_id b = 1"
    using demo_publisher_registered by blast
  have plan: "attach_plan b [kTopicCamera] = [(kTopicCamera, 5)]" using b(2) by (simp add: attach_plan_def)
  have f: "fits b [kTopicCamera]" "role_by_fd b 8 = None" using b by (simp_all add: fits_def plan protocol_simps ids_left_def)
  have ne: "[kTopicCamera] \<noteq> []" "length [kTopicCamera] \<le> kMaxSubscriberTopicCount" by (simp_all add: protocol_simps)
  have c: "concat (map (\<lambda>t. map (Pair t) (publishers_of b t)) [kTopicCamera]) = [(kTopicCamera, 5)]"
    using b(2) by simp
  from subscriber_registration_served [OF b(1) demo_kernel_ok(3,1,2) f(2) ne f(1) demo_subscriber_packet_eq, unfolded c]
  obtain b' w' and as :: "subscriber_attachment list" where "handle_subscriber_topic_registration demo_kernel 8 demo_subscriber_packet b w = Inr (b', w')"
    "attachments_of b' 8 = as" "map (\<lambda>a. (sa_topic_id a, sa_publisher_fd a)) as = [(kTopicCamera, 5)]" by - (elim exE conjE, rule that)
  with b(1) show ?thesis by (intro exI conjI)
qed

text \<open>Property C21. A new publisher is served whenever its topic has at most 16 subscribers, ids are
  left and the kernel cooperates: the message of its library is read back, it is told the number of
  subscribers first, and then, subscriber by subscriber in the order of their registration, it is
  told the slot and the subscriber gets a batch of one attachment with the publisher's two
  descriptors and a new eventfd.\<close>

theorem publisher_registration_served:
  assumes "broker_reachable kern snapshot b w" "visits_all kern" "sends_all kern" "eventfds_all kern"
    "role_by_fd b fd = None" "length (subscribers_of b t) \<le> 16"
    "unat (next_attachment_id b) + length (subscribers_of b t) < 2 ^ 64"
  shows "\<exists>b' w' rs. handle_publisher_topic_registration kern fd (publisher_topic_registration_packet t)
      (msg_control (send_packet_with_fds (publisher_topic_registration_packet t) [shm, space])) b w = Inr (b', w')
    \<and> publishers_of b' t = publishers_of b t @ [fd] \<and> role_by_fd b' fd = Some RolePublisher
    \<and> map fst rs = subscribers_of b t
    \<and> (\<forall>s. attachments_of b' s = attachments_of b s @ given_to s rs)
    \<and> (\<forall>a \<in> snd ` set rs. sa_topic_id a = t \<and> sa_publisher_fd a = fd \<and> sa_space_available_event_fd a = space)
    \<and> outbox w' = outbox w @ (fd, plain_message (le_bytes 4 (of_nat (length rs) :: u32)))
        # concat (map (\<lambda>(s, a). [registered_note a, batch_note s [a] [shm]]) rs)"
proof -
  note inv = reachable_tables [OF assms(1,2)]
  have "ids_left (next_attachment_id b) (length (subscribers_of b t))" using assms(7) by (simp add: ids_left_def)
  from register_publisher_total [OF inv assms(5,6) this assms(3,4), of shm space w] obtain b' w' where
    code: "register_publisher kern fd t shm space b w = Inr (b', w')"
    and reg: "publisher_registered kern fd t shm space (b, w) (b', w')" by blast
  from reg obtain rs :: "(int \<times> subscriber_attachment) list" where rs: "map fst rs = subscribers_of b t"
      "\<forall>s. attachments_of b' s = attachments_of b s @ given_to s rs"
      "\<forall>a \<in> snd ` set rs. sa_topic_id a = t \<and> sa_publisher_fd a = fd \<and> sa_space_available_event_fd a = space"
      "w' = sent ((fd, plain_message (le_bytes 4 (of_nat (length rs) :: u32))) # linked_notes shm rs)
           (w\<lparr>eventfd_calls := eventfd_calls w + length rs\<rparr>)"
    unfolding publisher_registered_def prod.case by blast
  have "publishers_of b' t = publishers_of b t @ [fd]" "role_by_fd b' fd = Some RolePublisher"
    using reg by (simp_all add: publisher_registered_def)
  then show ?thesis
    using rs code by (intro exI conjI) (assumption | simp only: publisher_registration_read | simp add: linked_notes_def)+
qed

theorem publisher_registration_served_witness:
  "\<exists>b' w'. handle_publisher_topic_registration demo_kernel 5 (publisher_topic_registration_packet kTopicCamera)
      (msg_control (send_packet_with_fds (publisher_topic_registration_packet kTopicCamera) [6, 7]))
      demo_connected initial_io = Inr (b', w')
    \<and> publishers_of b' kTopicCamera = [5]"
proof -
  have "role_by_fd demo_connected 5 = None" "length (subscribers_of demo_connected kTopicCamera) \<le> 16"
    "unat (next_attachment_id demo_connected) + length (subscribers_of demo_connected kTopicCamera) < 2 ^ 64"
    by (simp_all add: demo_connected_simps)
  from publisher_registration_served [OF demo_connected_reachable demo_kernel_ok(3,1,2) this, of 6 7]
  show ?thesis by (auto simp: demo_connected_simps)
qed

section \<open>Disconnections\<close>

text \<open>Property C10. When a subscriber goes away, and its publishers can be told, the broker never exits:
  every publisher it was attached to is told the slot of each attachment, in order, the data
  eventfds of the attachments and the connection are closed, each once, the subscriber is in no
  table any more, other subscribers stay listed in their order, and exactly its slots become free
  again.\<close>

theorem subscriber_disconnect_exact:
  assumes "broker_reachable kern snapshot b w" "visits_all kern" "sends_all kern"
    "role_by_fd b fd = Some RoleSubscriber"
  shows "\<exists>b' w'. handle_subscriber_disconnect kern fd b w = Inr (b', w')
    \<and> outbox w' = outbox w @ map (\<lambda>a. (sa_publisher_fd a,
          plain_message (subscriber_disconnected_packet (sa_slot_index a)))) (attachments_of b fd)
    \<and> b_closed w' = b_closed w @ map sa_data_available_event_fd (attachments_of b fd) @ [fd]
    \<and> role_by_fd b' = (role_by_fd b)(fd := None) \<and> attachments_of b' fd = [] \<and> topics_of b' fd = []
    \<and> (\<forall>s. s \<noteq> fd \<longrightarrow> attachments_of b' s = attachments_of b s)
    \<and> (\<forall>t. subscribers_of b' t = filter (\<lambda>s. s \<noteq> fd) (subscribers_of b t))
    \<and> (\<forall>t p h. free_slots b t p = Some h \<longrightarrow> (\<exists>h'. free_slots b' t p = Some h'
        \<and> mset h' = mset h + mset (map (\<lambda>a. unat (sa_slot_index a))
            (filter (\<lambda>a. sa_publisher_fd a = p) (attachments_of b fd)))))"
proof -
  note inv = reachable_tables [OF assms(1,2)]
  let ?m = "subscriber_attachments_by_subscriber_fd b" and ?as = "attachments_of b fd"
  from outcome_total [OF handle_subscriber_disconnect_ok [OF inv assms(4), of kern w]] assms(3) obtain b' w' where
    code: "handle_subscriber_disconnect kern fd b w = Inr (b', w')" and inv': "broker_inv b'"
    and left: "subscriber_left fd (b, w) (b', w')" by auto
  have m': "subscriber_attachments_by_subscriber_fd b' = ?m(fd := None)" using left by (simp add: subscriber_left_def)
  have "?m fd \<noteq> None" using clients_okD(1) [OF broker_invD(1) [OF inv], of fd] assms(4) by simp
  then have "?m fd = Some ?as" by (auto simp: list_at_Some)
  from all_attachments_remove [OF clients_okD(5) [OF broker_invD(1) [OF inv]] this]
  have A: "all_attachments ?m = mset ?as + all_attachments (subscriber_attachments_by_subscriber_fd b')" unfolding m' .
  have slots: "\<exists>h'. free_slots b' t p = Some h' \<and> mset h' = mset h + mset (map (\<lambda>a. unat (sa_slot_index a))
            (filter (\<lambda>a. sa_publisher_fd a = p) ?as))" if h: "free_slots b t p = Some h" for t p h
  proof -
    have "free_slots b' t p \<noteq> None" using left h by (simp add: subscriber_left_def)
    then obtain h' where h': "free_slots b' t p = Some h'" by blast
    have "mset h + slots_in_use (all_attachments ?m) p = all_slots"
      "mset h' + slots_in_use (all_attachments (subscriber_attachments_by_subscriber_fd b')) p = all_slots"
      using slots_okD(2) [OF _ h] slots_okD(2) [OF _ h'] broker_invD(6) [OF inv] broker_invD(6) [OF inv']
      by (simp_all add: ledger_ok_def)
    then have "mset h' + slots_in_use (all_attachments (subscriber_attachments_by_subscriber_fd b')) p
        = (mset h + slots_in_use (mset ?as) p) + slots_in_use (all_attachments (subscriber_attachments_by_subscriber_fd b')) p"
      unfolding A by (simp add: slots_in_use_def ac_simps)
    then have "mset h' = mset h + slots_in_use (mset ?as) p" by simp
    with h' show ?thesis by (simp add: slots_in_use_def flip: mset_filter)
  qed
  show ?thesis
    using code left slots
    by (intro exI conjI) (assumption | simp add: subscriber_left_def subscriber_gone_note_def)+
qed

theorem subscriber_disconnect_exact_witness:
  "\<exists>b w b' w'. broker_reachable demo_kernel demo_snapshot b w
    \<and> handle_subscriber_disconnect demo_kernel 8 b w = Inr (b', w') \<and> role_by_fd b' = [5 \<mapsto> RolePublisher]"
proof -
  obtain b w where b: "broker_reachable demo_kernel demo_snapshot b w"
    "role_by_fd b = [5 \<mapsto> RolePublisher, 8 \<mapsto> RoleSubscriber]"
    using demo_subscriber_registered by blast
  then have "role_by_fd b 8 = Some RoleSubscriber" by simp
  from subscriber_disconnect_exact [OF b(1) demo_kernel_ok(3,1) this] obtain b' w' where
    "handle_subscriber_disconnect demo_kernel 8 b w = Inr (b', w')" "role_by_fd b' = (role_by_fd b)(8 := None)"
    by - (elim exE conjE, rule that)
  moreover have "([5 \<mapsto> RolePublisher, 8 \<mapsto> RoleSubscriber])(8 := None) = [5 :: int \<mapsto> RolePublisher]" by auto
  ultimately show ?thesis using b by metis
qed

text \<open>Property C9. When a publisher goes away, and its subscribers can be told, the broker never
  exits: for every attachment to it, and for no other, the attachment's subscriber is told its id
  and its data eventfd is closed; then the publisher's two descriptors and its connection are
  closed, its slots and its topic entry are forgotten, and all other attachments stay as they were.\<close>

theorem publisher_disconnect_exact:
  assumes "broker_reachable kern snapshot b w" "visits_all kern" "sends_all kern" "fd \<in> set (publishers_of b t)"
  shows "\<exists>b' w' rs. handle_publisher_disconnect kern fd b w = Inr (b', w')
    \<and> map fst rs = subscribers_of b t
    \<and> (\<forall>s. given_to s rs = filter (\<lambda>a. sa_publisher_fd a = fd) (attachments_of b s))
    \<and> outbox w' = outbox w @ map (\<lambda>(s, a). (s, plain_message (publisher_disconnected_packet (sa_attachment_id a)))) rs
    \<and> b_closed w' = b_closed w @ map (sa_data_available_event_fd \<circ> snd) rs
        @ [the (shm_fd_by_publisher_fd b fd), the (space_event_fd_by_publisher_fd b fd), fd]
    \<and> role_by_fd b' = (role_by_fd b)(fd := None)
    \<and> (\<forall>s. attachments_of b' s = filter (\<lambda>a. sa_publisher_fd a \<noteq> fd) (attachments_of b s))
    \<and> (\<forall>u. publishers_of b' u = filter (\<lambda>p. p \<noteq> fd) (publishers_of b u) \<and> free_slots b' u fd = None)"
proof -
  note inv = reachable_tables [OF assms(1,2)]
  from outcome_total [OF handle_publisher_disconnect_ok [OF inv assms(4,2), of w]] assms(3) obtain b' w' where
    code: "handle_publisher_disconnect kern fd b w = Inr (b', w')" and inv': "broker_inv b'"
    and left: "publisher_left fd t (b, w) (b', w')" by auto
  from left obtain rs where rs: "map fst rs = subscribers_of b t"
    "\<forall>s. given_to s rs = filter (\<lambda>a. sa_publisher_fd a = fd) (attachments_of b s)"
    "w' = closing (map (sa_data_available_event_fd \<circ> snd) rs
              @ [the (shm_fd_by_publisher_fd b fd), the (space_event_fd_by_publisher_fd b fd), fd])
            (sent (map publisher_gone_note rs) w)"
    unfolding publisher_left_def prod.case by blast
  have "free_slots b' u fd = None" for u
    using publishers_okD(4) [OF broker_invD(3) [OF inv'], of u fd] left by (auto simp: publisher_left_def)
  then show ?thesis
    using code left rs
    by (intro exI conjI) (assumption | simp add: publisher_left_def publisher_gone_note_def)+
qed

theorem publisher_disconnect_exact_witness:
  "\<exists>b w b' w'. broker_reachable demo_kernel demo_snapshot b w
    \<and> handle_publisher_disconnect demo_kernel 5 b w = Inr (b', w') \<and> role_by_fd b' = [8 \<mapsto> RoleSubscriber]"
proof -
  obtain b w where b: "broker_reachable demo_kernel demo_snapshot b w"
    "\<forall>t. publishers_of b t = (if t = kTopicCamera then [5] else [])"
    "role_by_fd b = [5 \<mapsto> RolePublisher, 8 \<mapsto> RoleSubscriber]"
    using demo_subscriber_registered by blast
  then have "5 \<in> set (publishers_of b kTopicCamera)" by simp
  from publisher_disconnect_exact [OF b(1) demo_kernel_ok(3,1) this] obtain b' w' where
    "handle_publisher_disconnect demo_kernel 5 b w = Inr (b', w')" "role_by_fd b' = (role_by_fd b)(5 := None)"
    by - (elim exE conjE, rule that)
  moreover have "([5 \<mapsto> RolePublisher, 8 \<mapsto> RoleSubscriber])(5 := None) = [8 :: int \<mapsto> RoleSubscriber]" by auto
  ultimately show ?thesis using b(1,3) by metis
qed

text \<open>Property C27. No descriptor is lost or closed twice by the broker: a registration adds to its
  account (descriptors owned by its tables or closed) exactly the connection, the descriptors
  received and the eventfds created, and a disconnection leaves the account as it is, so what
  leaves the tables is closed exactly once.\<close>

theorem broker_descriptors_accounted:
  assumes "broker_reachable kern snapshot b w" "visits_all kern"
  shows "(role_by_fd b fd = None \<longrightarrow> handle_subscriber_topic_registration kern fd packet b w = Inr (b', w') \<longrightarrow>
        broker_account (b', w') = broker_account (b, w) + {#fd#} + created kern w w')
    \<and> (role_by_fd b fd = None \<longrightarrow> register_publisher kern fd t shm space b w = Inr (b', w') \<longrightarrow>
        broker_account (b', w') = broker_account (b, w) + {#fd, shm, space#} + created kern w w')
    \<and> (role_by_fd b fd = Some role \<longrightarrow> peer_gone kern fd role b w = Inr (b', w') \<longrightarrow>
        broker_account (b', w') = broker_account (b, w))"
proof (intro conjI impI)
  note inv = reachable_tables [OF assms]
  show "broker_account (b', w') = broker_account (b, w) + {#fd#} + created kern w w'"
    if new: "role_by_fd b fd = None" and code: "handle_subscriber_topic_registration kern fd packet b w = Inr (b', w')"
  proof -
    obtain topics where "subscriber_registered kern fd topics (b, w) (b', w')"
      using outcome_Inr [OF handle_subscriber_topic_registration_ok [OF inv new] code] by auto
    then show ?thesis by (rule subscriber_registered_account [OF inv new])
  qed
  show "broker_account (b', w') = broker_account (b, w) + {#fd, shm, space#} + created kern w w'"
    if "role_by_fd b fd = None" "register_publisher kern fd t shm space b w = Inr (b', w')"
    using outcome_Inr [OF register_publisher_ok [OF inv that(1)] that(2)]
    by (blast intro: publisher_registered_account [OF inv that(1)])
  show "broker_account (b', w') = broker_account (b, w)"
    if role: "role_by_fd b fd = Some role" and code: "peer_gone kern fd role b w = Inr (b', w')"
  proof (cases role)
    case RoleSubscriber
    with role code outcome_Inr [OF handle_subscriber_disconnect_ok [OF inv], of fd kern w "(b', w')"] show ?thesis
      by (auto simp: peer_gone_def intro: subscriber_left_account [OF inv])
  next
    case RolePublisher
    with role clients_okD(3) [OF broker_invD(1) [OF inv], of fd] publishers_okD(3) [OF broker_invD(3) [OF inv], of fd]
    obtain u where u: "fd \<in> set (publishers_of b u)" by auto
    with RolePublisher code outcome_Inr [OF handle_publisher_disconnect_ok [OF inv u assms(2)], of w "(b', w')"]
    show ?thesis by (auto simp: peer_gone_def intro: publisher_left_account [OF inv u])
  qed
qed

theorem broker_descriptors_accounted_witness:
  "\<exists>b w b' w'. broker_reachable demo_kernel demo_snapshot b w \<and> peer_gone demo_kernel 8 RoleSubscriber b w = Inr (b', w')
    \<and> broker_account (b', w') = broker_account (b, w)"
proof -
  obtain b w where b: "broker_reachable demo_kernel demo_snapshot b w"
    "role_by_fd b = [5 \<mapsto> RolePublisher, 8 \<mapsto> RoleSubscriber]"
    using demo_subscriber_registered by blast
  then have role: "role_by_fd b 8 = Some RoleSubscriber" by simp
  from outcome_total [OF handle_subscriber_disconnect_ok [OF reachable_tables [OF b(1) demo_kernel_ok(3)] role, of demo_kernel w]]
    demo_kernel_ok(1) obtain b' w' where "peer_gone demo_kernel 8 RoleSubscriber b w = Inr (b', w')"
    by (auto simp: peer_gone_def)
  with broker_descriptors_accounted [OF b(1) demo_kernel_ok(3), of 8] role b(1) show ?thesis by blast
qed

text \<open>Property C28. A topic that has a publisher holds 16 subscribers: with a cooperative kernel, the
  registration of a 17th (of that topic alone) is not refused to the client but ends the broker.\<close>

theorem full_topic_ends_broker:
  assumes "broker_reachable kern snapshot b w" "visits_all kern" "role_by_fd b fd = None"
    "publishers_of b t \<noteq> []" "16 \<le> length (subscribers_of b t)"
    "subscriber_topic_registration_packet [t] = Some packet"
  shows "handle_subscriber_topic_registration kern fd packet b w = Inl BrokerNoFreeSubscriberSlot"
  using subscriber_registration_read [OF _ _ assms(6)]
    full_topic_refused [OF reachable_tables [OF assms(1,2)] assms(3,4,5)]
  by (simp add: protocol_simps)

theorem full_topic_ends_broker_witness:
  "\<exists>b w. broker_reachable demo_kernel demo_snapshot b w
    \<and> handle_subscriber_topic_registration demo_kernel 24 demo_subscriber_packet b w = Inl BrokerNoFreeSubscriberSlot"
proof -
  obtain b w where b: "broker_reachable demo_kernel demo_snapshot b w"
    "\<forall>t. publishers_of b t = (if t = kTopicCamera then [5] else [])" "length (subscribers_of b kTopicCamera) = 16"
    "\<forall>fd. 8 + int 16 \<le> fd \<longrightarrow> role_by_fd b fd = None"
    using demo_crowd [of 16] by auto
  have "role_by_fd b 24 = None" "publishers_of b kTopicCamera \<noteq> []" "16 \<le> length (subscribers_of b kTopicCamera)"
    using b by simp_all
  from full_topic_ends_broker [OF b(1) demo_kernel_ok(3) this demo_subscriber_packet_eq] b(1) show ?thesis by blast
qed

end
