(* ===== verification/Client_Connection.thy ===== *)
theory Client_Connection
  imports Fd_Helpers "HOL-Library.Multiset"
begin

text \<open>
  What the two client libraries share when they create and destroy an object: the connection to
  the broker's socket (\<open>connect_to_broker\<close>, the same in \<open>src/publisher.cpp\<close> and
  \<open>src/subscriber.cpp\<close>), the guard of a descriptor just obtained, the state of the worker's
  thread, and the ledger of descriptors by which both are judged.
\<close>

text \<open>\<open>attempt n\<close> says whether the call of \<open>connect\<close> number \<open>n\<close> succeeds; the result is the last
  \<open>connect_status\<close>.\<close>

function connect_retry :: "(nat \<Rightarrow> bool) \<Rightarrow> nat \<Rightarrow> bool \<Rightarrow> bool" where
  "connect_retry attempt retry_count connected =
     (if \<not> connected \<and> retry_count < 2
      then connect_retry attempt (Suc retry_count) (attempt retry_count) else connected)"
  by pat_completeness auto
termination by (relation "measure (\<lambda>(_, n, _). 2 - n)") auto

declare connect_retry.simps [simp del]

definition broker_connected :: "(nat \<Rightarrow> bool) \<Rightarrow> bool" where
  "broker_connected attempt = connect_retry attempt 1 (attempt 0)"

lemma broker_connected_iff: "broker_connected attempt \<longleftrightarrow> attempt 0 \<or> attempt 1"
  by (simp add: broker_connected_def connect_retry.simps [of attempt "Suc 0"]
      connect_retry.simps [of attempt "Suc (Suc 0)"])

text \<open>Descriptors that are open: a negative number is none.\<close>

definition open_fds :: "int list \<Rightarrow> int multiset" where
  "open_fds fds = mset (filter (\<lambda>fd. 0 \<le> fd) fds)"

lemma open_fds_simps [simp]:
  "open_fds [] = {#}"
  "open_fds (fd # fds) = (if 0 \<le> fd then {#fd#} else {#}) + open_fds fds"
  "open_fds (fds @ fds') = open_fds fds + open_fds fds'"
  by (simp_all add: open_fds_def)

lemma open_fds_all: "\<forall>fd \<in> set fds. 0 \<le> fd \<Longrightarrow> open_fds fds = mset fds"
  by (simp add: open_fds_def)

lemma open_fds_perm: "mset fds = mset fds' \<Longrightarrow> open_fds fds = open_fds fds'"
  by (simp add: open_fds_def)

lemma open_fds_close_each: "mset (close_each fds) = open_fds fds"
  by (simp add: open_fds_def close_each_def)

text \<open>\<open>run_thread_\<close>: not joinable, running, or returned and not yet joined.\<close>

datatype 'e run_thread = NotJoinable | Running | Returned 'e

text \<open>A move ends with the resources in \<open>this\<close>, or with one of its two exceptions.\<close>

datatype transfer = Transferred | TransferDrainFailed | TransferThreadFailed

section \<open>Guarded descriptors\<close>

text \<open>A descriptor just obtained: an error when it is negative; otherwise it is guarded by an
  \<open>FdGuard\<close> during \<open>body\<close>, which closes it when that ends in an error; on the way to success it is
  released.  \<open>gain\<close> and \<open>close\<close> record in the state of the process that a descriptor was obtained
  and closed.\<close>

definition with_fd ::
  "(int \<Rightarrow> 'h \<Rightarrow> 'h) \<Rightarrow> (int \<Rightarrow> 'h \<Rightarrow> 'h) \<Rightarrow> 'e \<Rightarrow> int \<Rightarrow> ('h \<Rightarrow> ('e + 'a) \<times> 'h) \<Rightarrow> 'h \<Rightarrow> ('e + 'a) \<times> 'h"
where
  "with_fd gain close e fd body h =
     (if fd < 0 then (Inl e, h)
      else case body (gain fd h) of
        (Inl e', h') \<Rightarrow> (Inl e', close fd h')
      | (Inr x, h') \<Rightarrow> (Inr x, h'))"

text \<open>Between \<open>h\<close> and \<open>h'\<close> the descriptors obtained and those owned before are closed or owned
  after.\<close>

definition fd_ledger ::
  "('h \<Rightarrow> int list) \<Rightarrow> ('h \<Rightarrow> int list) \<Rightarrow> 'h \<Rightarrow> int multiset \<Rightarrow> 'h \<Rightarrow> int multiset \<Rightarrow> bool"
where
  "fd_ledger obtained closed_by h owned h' owned' \<longleftrightarrow>
     mset (obtained h') + mset (closed_by h) + owned = mset (obtained h) + mset (closed_by h') + owned'"

text \<open>A step of the creation: an error leaves nothing open, a success what the result owns; \<open>same\<close>
  holds of what the creation leaves alone besides.\<close>

definition fd_settles ::
  "('h \<Rightarrow> int list) \<Rightarrow> ('h \<Rightarrow> int list) \<Rightarrow> ('h \<Rightarrow> 'h \<Rightarrow> bool)
     \<Rightarrow> 'h \<Rightarrow> ('e + 'a) \<times> 'h \<Rightarrow> ('a \<Rightarrow> int list) \<Rightarrow> bool"
where
  "fd_settles obtained closed_by same h = (\<lambda>(r, h') own. same h h' \<and>
     (case r of Inl _ \<Rightarrow> fd_ledger obtained closed_by h {#} h' {#}
        | Inr x \<Rightarrow> fd_ledger obtained closed_by h {#} h' (open_fds (own x))))"

text \<open>What a client library asks of the process it runs in: obtaining and closing a descriptor are
  recorded, and touch nothing else.\<close>

locale fd_process =
  fixes obtained closed_by :: "'h \<Rightarrow> int list"
    and gain close :: "int \<Rightarrow> 'h \<Rightarrow> 'h"
    and same :: "'h \<Rightarrow> 'h \<Rightarrow> bool"
  assumes gain [simp]: "obtained (gain fd h) = obtained h @ [fd]" "closed_by (gain fd h) = closed_by h"
    and close [simp]: "obtained (close fd h) = obtained h"
      "mset (closed_by (close fd h)) = mset (closed_by h) + open_fds [fd]"
    and same [simp]: "same h h" "same h (gain fd h') \<longleftrightarrow> same h h'" "same h (close fd h') \<longleftrightarrow> same h h'"
      "same (gain fd h) h' \<longleftrightarrow> same h h'"
    and same_trans: "same h h1 \<Longrightarrow> same h1 h2 \<Longrightarrow> same h h2"
begin

abbreviation ledger :: "'h \<Rightarrow> int multiset \<Rightarrow> 'h \<Rightarrow> int multiset \<Rightarrow> bool" where
  "ledger \<equiv> fd_ledger obtained closed_by"

abbreviation settles :: "'h \<Rightarrow> ('e + 'a) \<times> 'h \<Rightarrow> ('a \<Rightarrow> int list) \<Rightarrow> bool" where
  "settles \<equiv> fd_settles obtained closed_by same"

lemma ledger_refl [simp]: "ledger h X h X"
  by (simp add: fd_ledger_def)

lemma ledger_trans:
  assumes "ledger h X h1 Y" "ledger h1 Y h2 Z"
  shows "ledger h X h2 Z"
  unfolding fd_ledger_def
proof (rule multiset_eqI)
  fix fd
  show "count (mset (obtained h2) + mset (closed_by h) + X) fd
    = count (mset (obtained h) + mset (closed_by h2) + Z) fd"
    using arg_cong [OF assms(1) [unfolded fd_ledger_def], of "\<lambda>M. count M fd"]
      arg_cong [OF assms(2) [unfolded fd_ledger_def], of "\<lambda>M. count M fd"]
    unfolding count_union by linarith
qed

lemma settles_error [simp]: "settles h (Inl e, h) own"
  by (simp add: fd_settles_def)

lemma settles_with_fd:
  assumes "settles (gain fd h) (body (gain fd h)) own"
    and "\<And>x h'. body (gain fd h) = (Inr x, h') \<Longrightarrow> open_fds (own' x) = open_fds (fd # own x)"
  shows "settles h (with_fd gain close e fd body h) own'"
proof (cases "body (gain fd h)")
  case (Pair r h')
  with assms show ?thesis
    by (cases r) (auto simp: fd_settles_def with_fd_def fd_ledger_def)
qed

lemma settles_rename:
  assumes "settles h m own" and "\<And>x. open_fds (own' (f x)) = open_fds (own x)"
  shows "settles h (case m of (Inl e, h) \<Rightarrow> (Inl e, h) | (Inr x, h) \<Rightarrow> (Inr (f x), h)) own'"
  using assms by (cases m; cases "fst m") (auto simp: fd_settles_def)

lemma settles_wrap:
  assumes "settles h m own" and "\<And>x. own' (f x) = own x"
  shows "settles h (case m of (Inl e, h) \<Rightarrow> (Inl e, h) | (Inr x, h) \<Rightarrow> (Inr (f x), h)) own'"
  by (rule settles_rename [OF assms(1)]) (simp add: assms(2))

text \<open>A step that neither opens nor closes can come first.\<close>

lemma settles_after:
  assumes "obtained h1 = obtained h" "closed_by h1 = closed_by h" "same h h1"
    and "settles h1 m own"
  shows "settles h m own"
  using assms by (cases m; cases "fst m") (auto simp: fd_settles_def fd_ledger_def intro: same_trans)

text \<open>Something acquired before, that the rest gives back when it fails.\<close>

lemma settles_then:
  assumes "settles h (Inr x, h1) own1" and "settles h1 m own2"
    and "\<And>y. open_fds (own (f y)) = open_fds (own1 x) + open_fds (own2 y)"
    and "open_fds [fd] = open_fds (own1 x)"
  shows "settles h (case m of (Inl e, h) \<Rightarrow> (Inl e, close fd h) | (Inr y, h) \<Rightarrow> (Inr (f y), h)) own"
proof (cases m)
  case (Pair r h2)
  show ?thesis
  proof (cases r)
    case (Inl e)
    have "ledger h {#} h2 (open_fds (own1 x))"
    proof (rule ledger_trans)
      show "ledger h {#} h1 (open_fds (own1 x))" using assms(1) by (simp add: fd_settles_def)
      show "ledger h1 (open_fds (own1 x)) h2 (open_fds (own1 x))"
        using assms(2) Pair Inl by (simp add: fd_settles_def fd_ledger_def)
    qed
    then have "ledger h {#} (close fd h2) {#}" using assms(4) by (simp add: fd_ledger_def)
    with Pair Inl assms(1,2) show ?thesis by (auto simp: fd_settles_def intro: same_trans)
  next
    case (Inr y)
    have "ledger h {#} h2 (open_fds (own1 x) + open_fds (own2 y))"
    proof (rule ledger_trans)
      show "ledger h {#} h1 (open_fds (own1 x))" using assms(1) by (simp add: fd_settles_def)
      show "ledger h1 (open_fds (own1 x)) h2 (open_fds (own1 x) + open_fds (own2 y))"
        using assms(2) Pair Inr by (simp add: fd_settles_def fd_ledger_def ac_simps)
    qed
    with Pair Inr assms(1,2,3) show ?thesis by (auto simp: fd_settles_def intro: same_trans)
  qed
qed

text \<open>The socket is returned when \<open>connect\<close> has succeeded.\<close>

lemma settles_connect:
  "settles h (with_fd gain close e fd (\<lambda>h. (if connected then Inr fd else Inl e', h)) h) (\<lambda>fd. [fd])"
  by (rule settles_with_fd [where own = "\<lambda>_. []"]) (auto simp: fd_settles_def split: if_split_asm)

end

end
