(* ===== verification/Publisher_Lifecycle.thy ===== *)
theory Publisher_Lifecycle
  imports Worker_Runs Client_Connection
begin

text \<open>
  The life of a \<open>Publisher\<close> (\<open>src/publisher.cpp\<close>): creation with its handshake, the transfer by a
  move, the worker's thread, and destruction.  An \<open>FdGuard\<close> is a function around the rest of its
  scope: it closes the descriptor when that ends in an error and not when it was released on the
  way to success.
\<close>

section \<open>The object and its process\<close>

record publisher_object =
  object :: publisher
  shm_name :: string
  shared_data_ptr :: "nat option"
  run_thread :: "run_error run_thread"

text \<open>The process: the effects of the operations of \<open>object\<close>, the descriptors obtained from the
  kernel, the segments mapped, the names of shared memory objects on the machine and the messages
  sent to the broker.\<close>

record host =
  world :: io
  opened :: "int list"
  mapped :: "nat set"
  shm_names :: "string set"
  host_sent :: "msghdr list"

text \<open>The kernel's answers during one call of \<open>create\<close>.\<close>

record create_answers =
  unlink_answer :: syscall
  shm_open_answer :: int
  ftruncate_ok :: bool
  mmap_shared :: "(nat \<times> shared_data) option"
  epoll_create_answer :: int
  socket_answer :: int
  connect_ok :: "nat \<Rightarrow> bool"
  space_eventfd :: int
  work_eventfd :: int
  shutdown_eventfd :: int
  exit_eventfd :: int
  watch_ok :: "int \<Rightarrow> bool"
  signal_ok :: "int \<Rightarrow> bool"
  registration_sent :: int
  count_received :: bytes
  registrations_received :: "received list"
  thread_created :: bool

definition ENOENT :: int where "ENOENT = 2"

definition host_close :: "int \<Rightarrow> host \<Rightarrow> host" where
  "host_close fd h = h\<lparr>world := close_fd fd (world h)\<rparr>"

definition host_close_all :: "int list \<Rightarrow> host \<Rightarrow> host" where
  "host_close_all fds h = h\<lparr>world := (world h)\<lparr>closed := closed (world h) @ close_each fds\<rparr>\<rparr>"

definition shm_unlink :: "string \<Rightarrow> host \<Rightarrow> host" where
  "shm_unlink name h = h\<lparr>shm_names := shm_names h - {name}\<rparr>"

type_synonym 'a creation = "(create_error + 'a) \<times> host"

text \<open>\<open>guarded e fd body\<close>: a descriptor of this process, held by an \<open>FdGuard\<close> during \<open>body\<close>.\<close>

definition host_gain :: "int \<Rightarrow> host \<Rightarrow> host" where
  "host_gain fd h = h\<lparr>opened := opened h @ [fd]\<rparr>"

abbreviation guarded :: "create_error \<Rightarrow> int \<Rightarrow> (host \<Rightarrow> 'a creation) \<Rightarrow> host \<Rightarrow> 'a creation" where
  "guarded \<equiv> with_fd host_gain host_close"

section \<open>Creation\<close>

definition create_and_map_shared_data ::
  "create_answers \<Rightarrow> string \<Rightarrow> host \<Rightarrow> (int \<times> nat) creation option"
where
  "create_and_map_shared_data k name h =
     (if unlink_answer k \<noteq> SysOk \<and> unlink_answer k \<noteq> SysErr ENOENT
      then Some (Inl SharedMemoryUnlinkFailed, h)
      else
        let h = shm_unlink name h; fd = shm_open_answer k in
        if fd < 0 then Some (Inl SharedMemoryOpenFailed, h)
        else
          let h = h\<lparr>opened := opened h @ [fd], shm_names := insert name (shm_names h)\<rparr> in
          if \<not> ftruncate_ok k
          then Some (Inl SharedMemoryResizeFailed, shm_unlink name (host_close fd h))
          else (case mmap_shared k of
              None \<Rightarrow> Some (Inl SharedMemoryMapFailed, shm_unlink name (host_close fd h))
            | Some (addr, sd) \<Rightarrow> do {
                sd \<leftarrow> create_shared_data sd;
                Some (Inr (fd, addr),
                  h\<lparr>mapped := insert addr (mapped h), world := (world h)\<lparr>shm := sd\<rparr>\<rparr>)
              }))"

text \<open>\<open>guarded\<close> closes the socket again when \<open>connect\<close> has failed; on success it is returned.\<close>

definition connect_to_broker :: "create_answers \<Rightarrow> host \<Rightarrow> int creation" where
  "connect_to_broker k h =
     guarded BrokerSocketCreateFailed (socket_answer k)
       (\<lambda>h. (if broker_connected (connect_ok k) then Inr (socket_answer k) else Inl BrokerConnectFailed, h)) h"

definition send_publisher_topic_registration ::
  "create_answers \<Rightarrow> topic_id \<Rightarrow> int \<Rightarrow> int \<Rightarrow> host \<Rightarrow> create_error option \<times> host"
where
  "send_publisher_topic_registration k topic segment_fd space_fd h =
     (let packet = publisher_topic_registration_packet topic in
      if registration_sent k \<noteq> int (length packet) then (Some TopicRegistrationSendFailed, h)
      else (None, h\<lparr>host_sent := host_sent h @ [send_packet_with_fds packet [segment_fd, space_fd]]\<rparr>))"

text \<open>\<open>create\<close> from the shutdown eventfd to the construction of the object: the two eventfds of
  the worker, \<open>-1\<close> in the synchronous mode.\<close>

definition create_worker_eventfds :: "create_answers \<Rightarrow> u32 \<Rightarrow> host \<Rightarrow> (int \<times> int) creation" where
  "create_worker_eventfds k flags h =
     (if flags AND ASYNCHRONOUS = 0 then (Inr (-1, -1), h)
      else guarded ShutdownEventFdCreateFailed (shutdown_eventfd k) (\<lambda>h.
        if \<not> watch_ok k (shutdown_eventfd k) then (Inl ShutdownEpollAddFailed, h)
        else guarded WorkerExitEventFdCreateFailed (exit_eventfd k)
          (\<lambda>h. (Inr (shutdown_eventfd k, exit_eventfd k), h)) h) h)"

text \<open>The publish work eventfd and what follows it.\<close>

definition create_work_eventfds :: "create_answers \<Rightarrow> u32 \<Rightarrow> host \<Rightarrow> (int \<times> int \<times> int) creation" where
  "create_work_eventfds k flags h =
     guarded PublishWorkEventFdCreateFailed (work_eventfd k) (\<lambda>h.
       if \<not> watch_ok k (work_eventfd k) then (Inl PublishWorkEpollAddFailed, h)
       else if \<not> signal_ok k (work_eventfd k) then (Inl PublishWorkInitialSignalFailed, h)
       else
         let h = h\<lparr>world := (world h)\<lparr>signalled := signalled (world h) @ [work_eventfd k]\<rparr>\<rparr> in
         case create_worker_eventfds k flags h of
           (Inl e, h) \<Rightarrow> (Inl e, h)
         | (Inr fds, h) \<Rightarrow> (Inr (work_eventfd k, fds), h)) h"

text \<open>The space eventfd, the registration and what follows them.\<close>

definition register_and_create_eventfds ::
  "create_answers \<Rightarrow> topic_id \<Rightarrow> int \<Rightarrow> u32 \<Rightarrow> host \<Rightarrow> (int \<times> int \<times> int \<times> int) creation"
where
  "register_and_create_eventfds k topic segment_fd flags h =
     guarded SpaceAvailableEventFdCreateFailed (space_eventfd k) (\<lambda>h.
       if \<not> watch_ok k (space_eventfd k) then (Inl SpaceAvailableEpollAddFailed, h)
       else case send_publisher_topic_registration k topic segment_fd (space_eventfd k) h of
         (Some e, h) \<Rightarrow> (Inl e, h)
       | (None, h) \<Rightarrow>
           (case create_work_eventfds k flags h of
              (Inl e, h) \<Rightarrow> (Inl e, h)
            | (Inr fds, h) \<Rightarrow> (Inr (space_eventfd k, fds), h))) h"

text \<open>The guard of the socket begins when \<open>connect_to_broker\<close> has returned it.\<close>

definition connect_and_register ::
  "create_answers \<Rightarrow> topic_id \<Rightarrow> int \<Rightarrow> u32 \<Rightarrow> host \<Rightarrow> (int \<times> int \<times> int \<times> int \<times> int) creation"
where
  "connect_and_register k topic segment_fd flags h = (case connect_to_broker k h of
     (Inl e, h) \<Rightarrow> (Inl e, h)
   | (Inr broker_fd, h) \<Rightarrow> (case register_and_create_eventfds k topic segment_fd flags h of
         (Inl e, h) \<Rightarrow> (Inl e, host_close broker_fd h)
       | (Inr fds, h) \<Rightarrow> (Inr (broker_fd, fds), h)))"

text \<open>\<open>InitialResources\<close> and the constructor.\<close>

definition new_publisher :: "u32 \<Rightarrow> string \<Rightarrow> nat \<Rightarrow> int \<Rightarrow> int \<times> int \<times> int \<times> int \<times> int \<Rightarrow> publisher_object" where
  "new_publisher flags name addr epoll_fd = (\<lambda>(broker_fd, space_fd, work_fd, shutdown_fd, exit_fd).
     \<lparr>object =
        \<lparr>data_available_event_fds = [], slot_by_event_fd = Map.empty, event_fd_by_slot = (\<lambda>_. 0),
         pub_flags = flags, run_thread_active = False, worker_stop_intent = Destroy,
         pending_messages = [], in_flight = None, pub_broker_fd = broker_fd, pub_epoll_fd = epoll_fd,
         space_available_event_fd = space_fd, publish_work_event_fd = work_fd,
         pub_shutdown_event_fd = shutdown_fd, pub_worker_exit_event_fd = exit_fd, pub_events = [], seq = 0\<rparr>,
      shm_name = name, shared_data_ptr = Some addr, run_thread = NotJoinable\<rparr>)"

text \<open>\<open>create\<close> up to the constructor, inside the guard of the mapping.\<close>

definition acquire_resources ::
  "create_answers \<Rightarrow> topic_id \<Rightarrow> string \<Rightarrow> u32 \<Rightarrow> int \<Rightarrow> nat \<Rightarrow> host \<Rightarrow> publisher_object creation"
where
  "acquire_resources k topic name flags segment_fd addr h =
     (case guarded EpollCreateFailed (epoll_create_answer k) (connect_and_register k topic segment_fd flags) h of
        (Inl e, h) \<Rightarrow> (Inl e, shm_unlink name (h\<lparr>mapped := mapped h - {addr}\<rparr>))
      | (Inr fds, h) \<Rightarrow> (Inr (new_publisher flags name addr (epoll_create_answer k) fds), h))"

section \<open>The handshake\<close>

text \<open>The guard of the received descriptor closes it on every error return.\<close>

definition receive_subscriber_registration ::
  "received \<Rightarrow> host \<Rightarrow> subscriber_registration creation option"
where
  "receive_subscriber_registration answer h = do {
     (received_size, errno, fd, dropped) \<leftarrow> receive_packet_with_fd answer (-1);
     let packet = (case answer of RecvErr _ \<Rightarrow> [] | RecvMsg msg \<Rightarrow> msg_bytes msg);
     let h = host_close_all dropped (h\<lparr>opened := opened h @ received_fds answer\<rparr>);
     if received_size \<noteq> int kSubscriberEventFdAndSlotMessageSize
     then Some (Inl InitialSubscriberRegistrationReceiveFailed, host_close fd h)
     else if fd < 0 then Some (Inl InitialSubscriberRegistrationEventFdMissing, host_close fd h)
     else if message_type_of (packet ! 0) \<noteq> Some SubscriberEventFdAndSlot
     then Some (Inl InitialSubscriberRegistrationTypeInvalid, host_close fd h)
     else do {
       slot \<leftarrow> field_u32 packet 1;
       Some (Inr \<lparr>reg_event_fd = fd, reg_slot_index = slot\<rparr>, h)
     }
   }"

fun tracking_create_error :: "subscriber_tracking_error \<Rightarrow> create_error" where
  "tracking_create_error SlotOutOfRange = SubscriberSlotOutOfRange"
| "tracking_create_error SlotAlreadyTracked = SubscriberSlotAlreadyTracked"
| "tracking_create_error EventFdAlreadyTracked = SubscriberEventFdAlreadyTracked"

text \<open>\<open>close_fd\<close> on each entry of the vector, which it sets to \<open>-1\<close>.\<close>

definition close_initial_subscriber_event_fds :: "publisher \<Rightarrow> host \<Rightarrow> publisher \<times> host" where
  "close_initial_subscriber_event_fds p h =
     (p\<lparr>data_available_event_fds := map (\<lambda>fd. fst (close_fd_var fd)) (data_available_event_fds p)\<rparr>,
      host_close_all (data_available_event_fds p) h)"

text \<open>The loop over the remaining registrations; \<^term>\<open>None\<close> while \<open>recvmsg\<close> has not returned.\<close>

fun track_initial_subscribers ::
  "nat \<Rightarrow> received list \<Rightarrow> publisher \<Rightarrow> host \<Rightarrow> (create_error option \<times> publisher \<times> host) option"
where
  "track_initial_subscribers 0 answers p h = Some (None, p, h)"
| "track_initial_subscribers (Suc n) [] p h = None"
| "track_initial_subscribers (Suc n) (answer # answers) p h = do {
     (r, h) \<leftarrow> receive_subscriber_registration answer h;
     case r of
       Inl e \<Rightarrow> (let (p, h) = close_initial_subscriber_event_fds p h in Some (Some e, p, h))
     | Inr reg \<Rightarrow> do {
         (tracking_error, p, w) \<leftarrow> track_subscriber reg p (world h);
         let h = h\<lparr>world := w\<rparr>;
         case tracking_error of
           Some e \<Rightarrow> (let (p, h) = close_initial_subscriber_event_fds p h
                     in Some (Some (tracking_create_error e), p, h))
         | None \<Rightarrow> track_initial_subscribers n answers p h
       }
   }"

definition receive_and_track_initial_subscriber_registrations ::
  "create_answers \<Rightarrow> publisher \<Rightarrow> host \<Rightarrow> (create_error option \<times> publisher \<times> host) option"
where
  "receive_and_track_initial_subscriber_registrations k p h =
     (if length (count_received k) \<noteq> 4 then Some (Some InitialSubscriberCountReceiveFailed, p, h)
      else do {
        subscriber_count \<leftarrow> field_u32 (count_received k) 0;
        track_initial_subscribers (unat subscriber_count) (registrations_received k) p h
      })"

section \<open>The worker's thread, destruction and transfer\<close>

text \<open>What the worker meets while it is being stopped.\<close>

record worker_answers =
  worker_signal :: "int \<Rightarrow> bool"
  worker_drain :: "int \<Rightarrow> bool"
  worker_waits :: "int epoll_answer list"
  worker_received :: "received list"

text \<open>\<open>created\<close>: whether the thread could be created; otherwise the exception leaves the function.\<close>

definition start_run_thread :: "bool \<Rightarrow> publisher_object \<Rightarrow> bool \<times> publisher_object" where
  "start_run_thread created obj =
     (let p = (object obj)\<lparr>worker_stop_intent := Destroy, run_thread_active := True\<rparr> in
      if created then (True, obj\<lparr>object := p, run_thread := Running\<rparr>)
      else (False, obj\<lparr>object := p\<lparr>run_thread_active := False\<rparr>\<rparr>))"

text \<open>The caller does nothing else until the thread is joined, so what a running worker still does
  is its thread function from the state it is in.\<close>

definition stop_run_thread ::
  "worker_answers \<Rightarrow> worker_stop_intent \<Rightarrow> publisher_object \<Rightarrow> io \<Rightarrow> (bool \<times> publisher_object \<times> io) option"
where
  "stop_run_thread a intent obj w = (case run_thread obj of
     NotJoinable \<Rightarrow> Some (False, obj, w)
   | Returned reason \<Rightarrow> Some (False, obj\<lparr>run_thread := NotJoinable\<rparr>, w)
   | Running \<Rightarrow> do {
       let p = (object obj)\<lparr>worker_stop_intent := intent\<rparr>;
       let w = (if worker_signal a (pub_shutdown_event_fd p)
            then w\<lparr>signalled := signalled w @ [pub_shutdown_event_fd p]\<rparr> else w);
       (reason, p, w) \<leftarrow> worker_thread (worker_signal a) (worker_drain a) (worker_waits a) (worker_received a) p w;
       Some (intent = Transfer \<and> reason = RunNone, obj\<lparr>object := p, run_thread := NotJoinable\<rparr>, w)
     })"

text \<open>The descriptors that \<open>release_resources\<close> closes, in its order.\<close>

definition object_fds :: "publisher \<Rightarrow> int list" where
  "object_fds p = [pub_broker_fd p, publish_work_event_fd p, space_available_event_fd p,
     pub_shutdown_event_fd p, pub_worker_exit_event_fd p] @ data_available_event_fds p @ [pub_epoll_fd p]"

definition release_resources :: "worker_answers \<Rightarrow> publisher_object \<Rightarrow> host \<Rightarrow> (publisher_object \<times> host) option" where
  "release_resources a obj h = do {
     (_, obj, w) \<leftarrow> stop_run_thread a Destroy obj (world h);
     let p = object obj;
     let h = host_close_all (object_fds p) (h\<lparr>world := w\<rparr>);
     let p = p\<lparr>pub_broker_fd := fst (close_fd_var (pub_broker_fd p)),
          publish_work_event_fd := fst (close_fd_var (publish_work_event_fd p)),
          space_available_event_fd := fst (close_fd_var (space_available_event_fd p)),
          pub_shutdown_event_fd := fst (close_fd_var (pub_shutdown_event_fd p)),
          pub_worker_exit_event_fd := fst (close_fd_var (pub_worker_exit_event_fd p)),
          data_available_event_fds := [], slot_by_event_fd := Map.empty,
          pub_epoll_fd := fst (close_fd_var (pub_epoll_fd p))\<rparr>;
     let h = (case shared_data_ptr obj of None \<Rightarrow> h | Some addr \<Rightarrow> h\<lparr>mapped := mapped h - {addr}\<rparr>);
     let h = (if shm_name obj \<noteq> '''' then shm_unlink (shm_name obj) h else h);
     Some (obj\<lparr>object := p, shared_data_ptr := None, shm_name := ''''\<rparr>, h)
   }"

text \<open>The members that a move takes over, and what it leaves behind.\<close>

definition moved :: "publisher_object \<Rightarrow> publisher_object \<Rightarrow> publisher_object" where
  "moved this other = other\<lparr>object := (object other)\<lparr>run_thread_active := run_thread_active (object this),
     worker_stop_intent := worker_stop_intent (object this)\<rparr>, run_thread := run_thread this\<rparr>"

definition moved_from :: "publisher_object \<Rightarrow> publisher_object" where
  "moved_from other = other\<lparr>object := (object other)
     \<lparr>pub_flags := SYNCHRONOUS, pending_messages := [], in_flight := None, pub_broker_fd := -1,
      pub_epoll_fd := -1, publish_work_event_fd := -1, space_available_event_fd := -1,
      pub_shutdown_event_fd := -1, pub_worker_exit_event_fd := -1, pub_events := [],
      data_available_event_fds := [], slot_by_event_fd := Map.empty, seq := 0\<rparr>,
     shm_name := '''', shared_data_ptr := None\<rparr>"

text \<open>Moving the map leaves it empty, as libstdc++ does.\<close>

definition take_resources_from ::
  "worker_answers \<Rightarrow> bool \<Rightarrow> publisher_object \<Rightarrow> publisher_object \<Rightarrow> host
     \<Rightarrow> (transfer \<times> publisher_object \<times> publisher_object \<times> host) option"
where
  "take_resources_from a created this other h = do {
     (restart, other, w) \<leftarrow> stop_run_thread a Transfer other (world h);
     let h = h\<lparr>world := w\<rparr>;
     if restart \<and> \<not> (worker_drain a (pub_shutdown_event_fd (object other))
          \<and> worker_drain a (pub_worker_exit_event_fd (object other)))
     then Some (TransferDrainFailed, this, other, h)
     else
       let this = moved this other; other = moved_from other in
       if \<not> restart then Some (Transferred, this, other, h)
       else (case start_run_thread created this of
           (True, this) \<Rightarrow> Some (Transferred, this, other, h)
         | (False, this) \<Rightarrow> do {
             (this, h) \<leftarrow> release_resources a this h;
             Some (TransferThreadFailed, this, other, h)
           })
   }"

text \<open>The move assignment to another object.\<close>

definition move_assign ::
  "worker_answers \<Rightarrow> worker_answers \<Rightarrow> bool \<Rightarrow> publisher_object \<Rightarrow> publisher_object \<Rightarrow> host
     \<Rightarrow> (transfer \<times> publisher_object \<times> publisher_object \<times> host) option"
where
  "move_assign a b created this other h = do {
     (this, h) \<leftarrow> release_resources a this h;
     take_resources_from b created this other h
   }"

text \<open>A publisher without resources: the members of the move constructor's target.\<close>

definition empty_publisher :: publisher_object where
  "empty_publisher = moved_from (new_publisher 0 '''' 0 (-1) (-1, -1, -1, -1, -1))"

section \<open>\<open>create\<close>\<close>

text \<open>From the constructor to the return: the handshake, the watch on the broker, the move into the
  result, and the worker.  Leaving with an error destroys the object.  No thread runs before
  \<open>start_run_thread\<close>, so the move and the destructor meet no worker.\<close>

definition no_worker :: worker_answers where
  "no_worker = \<lparr>worker_signal = \<lambda>_. False, worker_drain = \<lambda>_. False, worker_waits = [], worker_received = []\<rparr>"

definition complete_creation :: "create_answers \<Rightarrow> publisher_object \<Rightarrow> host \<Rightarrow> publisher_object creation option" where
  "complete_creation k obj h = do {
     (failure, p, h) \<leftarrow> receive_and_track_initial_subscriber_registrations k (object obj) h;
     let obj = obj\<lparr>object := p\<rparr>;
     case failure of
       Some e \<Rightarrow> do { (_, h) \<leftarrow> release_resources no_worker obj h; Some (Inl e, h) }
     | None \<Rightarrow>
         if \<not> watch_ok k (pub_broker_fd p)
         then do { (_, h) \<leftarrow> release_resources no_worker obj h; Some (Inl BrokerEpollAddFailed, h) }
         else do {
           (_, result, obj, h) \<leftarrow> take_resources_from no_worker True empty_publisher obj h;
           (r, h) \<leftarrow> (if pub_flags (object result) AND ASYNCHRONOUS = 0 then Some (Inr result, h)
             else (case start_run_thread (thread_created k) result of
                 (True, result) \<Rightarrow> Some (Inr result, h)
               | (False, result) \<Rightarrow> do {
                   (_, h) \<leftarrow> release_resources no_worker result h;
                   Some (Inl RunThreadCreateFailed, h)
                 }));
           (_, h) \<leftarrow> release_resources no_worker obj h;
           Some (r, h)
         }
   }"

definition create_publisher ::
  "create_answers \<Rightarrow> topic_id \<Rightarrow> string \<Rightarrow> u32 \<Rightarrow> host \<Rightarrow> publisher_object creation option"
where
  "create_publisher k topic name flags h =
     (let execution_mode_flags = flags AND (SYNCHRONOUS OR ASYNCHRONOUS) in
      if execution_mode_flags \<noteq> SYNCHRONOUS \<and> execution_mode_flags \<noteq> ASYNCHRONOUS
      then Some (Inl PublisherModeFlagsInvalid, h)
      else do {
        (segment, h) \<leftarrow> create_and_map_shared_data k name h;
        case segment of
          Inl e \<Rightarrow> Some (Inl e, h)
        | Inr (segment_fd, addr) \<Rightarrow> do {
            (r, h) \<leftarrow> (case acquire_resources k topic name flags segment_fd addr h of
                (Inl e, h) \<Rightarrow> Some (Inl e, h)
              | (Inr obj, h) \<Rightarrow> complete_creation k obj h);
            Some (r, host_close segment_fd h)
          }
      })"

end
