(* ===== verification/Publisher_Resources.thy ===== *)
theory Publisher_Resources
  imports Publisher_Lifecycle
begin

text \<open>
  The resources of a publisher: every descriptor a publisher obtains while it is created is closed
  exactly once or owned by the object, and the destructor gives everything back.
\<close>

section \<open>The ledger of descriptors\<close>

text \<open>What the creation leaves alone besides.\<close>

definition same_memory :: "host \<Rightarrow> host \<Rightarrow> bool" where
  "same_memory h h' \<longleftrightarrow> mapped h' = mapped h \<and> shm_names h' = shm_names h \<and> shm (world h') = shm (world h)"

lemma same_memory_refl [simp]: "same_memory h h"
  by (simp add: same_memory_def)

lemma same_memory_opened [simp]: "same_memory h (h'\<lparr>opened := fds\<rparr>) \<longleftrightarrow> same_memory h h'"
  by (simp add: same_memory_def)

lemma same_memory_trans: "same_memory h h1 \<Longrightarrow> same_memory h1 h2 \<Longrightarrow> same_memory h h2"
  by (simp add: same_memory_def)

lemma host_close_simps [simp]:
  "opened (host_close fd h) = opened h" "mset (closed (world (host_close fd h))) = mset (closed (world h)) + open_fds [fd]"
  "same_memory h' (host_close fd h) \<longleftrightarrow> same_memory h' h" "mapped (host_close fd h) = mapped h"
  "shm_names (host_close fd h) = shm_names h" "shm (world (host_close fd h)) = shm (world h)"
  "host_sent (host_close fd h) = host_sent h"
  by (simp_all add: host_close_def close_fd_def same_memory_def)

lemma host_close_all_simps [simp]:
  "opened (host_close_all fds h) = opened h"
  "mset (closed (world (host_close_all fds h))) = mset (closed (world h)) + open_fds fds"
  "same_memory h' (host_close_all fds h) \<longleftrightarrow> same_memory h' h" "mapped (host_close_all fds h) = mapped h"
  "shm_names (host_close_all fds h) = shm_names h" "shm (world (host_close_all fds h)) = shm (world h)"
  "host_sent (host_close_all fds h) = host_sent h"
  by (simp_all add: host_close_all_def same_memory_def open_fds_close_each)

lemma host_gain_simps [simp]:
  "opened (host_gain fd h) = opened h @ [fd]" "world (host_gain fd h) = world h" "mapped (host_gain fd h) = mapped h"
  "shm_names (host_gain fd h) = shm_names h" "host_sent (host_gain fd h) = host_sent h"
  "same_memory h' (host_gain fd h) \<longleftrightarrow> same_memory h' h" "same_memory (host_gain fd h) h' \<longleftrightarrow> same_memory h h'"
  by (simp_all add: host_gain_def same_memory_def)

abbreviation host_closed :: "host \<Rightarrow> int list" where
  "host_closed h \<equiv> closed (world h)"

text \<open>The process of a publisher.\<close>

interpretation pub_fds: fd_process opened host_closed host_gain host_close same_memory
  by unfold_locales (auto intro: same_memory_trans)

abbreviation ledger :: "host \<Rightarrow> int multiset \<Rightarrow> host \<Rightarrow> int multiset \<Rightarrow> bool" where
  "ledger \<equiv> fd_ledger opened host_closed"

abbreviation settles :: "host \<Rightarrow> 'a creation \<Rightarrow> ('a \<Rightarrow> int list) \<Rightarrow> bool" where
  "settles \<equiv> fd_settles opened host_closed same_memory"

lemmas settles_with_fd = pub_fds.settles_with_fd
lemmas settles_wrap = pub_fds.settles_wrap
lemmas settles_after = pub_fds.settles_after
lemmas settles_then = pub_fds.settles_then
lemmas ledger_trans = pub_fds.ledger_trans

section \<open>The straight part of the creation\<close>

lemma connect_to_broker_settles: "settles h (connect_to_broker k h) (\<lambda>fd. [fd])"
  unfolding connect_to_broker_def by (rule pub_fds.settles_connect)

lemma create_worker_eventfds_settles:
  "settles h (create_worker_eventfds k flags h) (\<lambda>(shutdown, exit). [shutdown, exit])"
proof (cases "flags AND ASYNCHRONOUS = 0")
  case True
  then show ?thesis by (simp add: create_worker_eventfds_def fd_settles_def)
next
  case False
  have inner: "settles h1 (guarded WorkerExitEventFdCreateFailed (exit_eventfd k)
      (\<lambda>h. (Inr (shutdown_eventfd k, exit_eventfd k), h)) h1) (\<lambda>(shutdown, exit). [exit])" for h1
    by (rule settles_with_fd [where own = "\<lambda>_. []"]) (auto simp: fd_settles_def)
  have fst: "x = (shutdown_eventfd k, exit_eventfd k)" if "guarded WorkerExitEventFdCreateFailed (exit_eventfd k)
      (\<lambda>h. (Inr (shutdown_eventfd k, exit_eventfd k), h)) h1 = (Inr x, h2)" for x h1 h2
    using that by (auto simp: with_fd_def split: if_split_asm)
  from False show ?thesis
    unfolding create_worker_eventfds_def
    by (simp, intro settles_with_fd [where own = "\<lambda>(shutdown, exit). [exit]"])
      (auto simp: inner dest: fst split: if_split_asm)
qed

lemma create_work_eventfds_settles:
  "settles h (create_work_eventfds k flags h) (\<lambda>(work, shutdown, exit). [work, shutdown, exit])"
  unfolding create_work_eventfds_def
proof (rule settles_with_fd [where own = "\<lambda>(work, shutdown, exit). [shutdown, exit]"])
  let ?h = "host_gain (work_eventfd k) h"
  let ?s = "?h\<lparr>world := (world ?h)\<lparr>signalled := signalled (world ?h) @ [work_eventfd k]\<rparr>\<rparr>"
  have "settles ?h (case create_worker_eventfds k flags ?s of (Inl e, h) \<Rightarrow> (Inl e, h)
      | (Inr fds, h) \<Rightarrow> (Inr (work_eventfd k, fds), h)) (\<lambda>(work, shutdown, exit). [shutdown, exit])"
    by (rule settles_after [where ?h1.0 = ?s], simp_all add: same_memory_def)
      (rule settles_wrap [OF create_worker_eventfds_settles], auto)
  then show "settles ?h (if \<not> watch_ok k (work_eventfd k) then (Inl PublishWorkEpollAddFailed, ?h)
       else if \<not> signal_ok k (work_eventfd k) then (Inl PublishWorkInitialSignalFailed, ?h)
       else let h = ?s in case create_worker_eventfds k flags h of
           (Inl e, h) \<Rightarrow> (Inl e, h)
         | (Inr fds, h) \<Rightarrow> (Inr (work_eventfd k, fds), h)) (\<lambda>(work, shutdown, exit). [shutdown, exit])"
    by (simp add: Let_def)
qed (auto simp: Let_def split: if_split_asm prod.split_asm sum.split_asm)

lemma send_publisher_topic_registration_frame:
  "send_publisher_topic_registration k topic segment space h = (r, h') \<Longrightarrow>
   opened h' = opened h \<and> closed (world h') = closed (world h) \<and> same_memory h h'"
  by (auto simp: send_publisher_topic_registration_def Let_def same_memory_def split: if_split_asm)

lemma register_and_create_eventfds_settles:
  "settles h (register_and_create_eventfds k topic segment flags h)
    (\<lambda>(space, work, shutdown, exit). [space, work, shutdown, exit])"
  unfolding register_and_create_eventfds_def
proof (rule settles_with_fd [where own = "\<lambda>(space, work, shutdown, exit). [work, shutdown, exit]"])
  let ?h = "host_gain (space_eventfd k) h"
  obtain r h1 where s: "send_publisher_topic_registration k topic segment (space_eventfd k) ?h = (r, h1)"
    by fastforce
  note f = send_publisher_topic_registration_frame [OF s]
  have n: "settles ?h (case create_work_eventfds k flags h1 of (Inl e, h) \<Rightarrow> (Inl e, h)
            | (Inr fds, h) \<Rightarrow> (Inr (space_eventfd k, fds), h))
      (\<lambda>(space, work, shutdown, exit). [work, shutdown, exit])"
    by (rule settles_after [where ?h1.0 = h1], use f in simp, use f in simp, use f in simp)
      (rule settles_wrap [OF create_work_eventfds_settles], auto)
  have e: "settles ?h (Inl e, h1) (\<lambda>(space :: int, work, shutdown, exit). [work, shutdown, exit])" for e
    using f by (simp add: fd_settles_def fd_ledger_def)
  show "settles ?h (if \<not> watch_ok k (space_eventfd k) then (Inl SpaceAvailableEpollAddFailed, ?h)
       else case send_publisher_topic_registration k topic segment (space_eventfd k) ?h of
         (Some e, h) \<Rightarrow> (Inl e, h)
       | (None, h) \<Rightarrow> (case create_work_eventfds k flags h of
              (Inl e, h) \<Rightarrow> (Inl e, h)
            | (Inr fds, h) \<Rightarrow> (Inr (space_eventfd k, fds), h)))
      (\<lambda>(space, work, shutdown, exit). [work, shutdown, exit])"
    using n e by (cases r) (simp_all add: s)
qed (auto split: if_split_asm prod.split_asm sum.split_asm option.split_asm)

lemma connect_and_register_settles:
  "settles h (connect_and_register k topic segment flags h)
    (\<lambda>(broker, space, work, shutdown, exit). [broker, space, work, shutdown, exit])"
proof (cases "connect_to_broker k h")
  case (Pair r h1)
  have c: "settles h (r, h1) (\<lambda>fd. [fd])" using connect_to_broker_settles [of h k] Pair by simp
  show ?thesis
  proof (cases r)
    case (Inl e)
    with Pair c show ?thesis by (simp add: connect_and_register_def fd_settles_def)
  next
    case (Inr fd)
    with c have "settles h (Inr fd, h1) (\<lambda>fd. [fd])" by simp
    from settles_then [where f = "\<lambda>fds. (fd, fds)", OF this register_and_create_eventfds_settles] Pair Inr show ?thesis
      by (simp add: connect_and_register_def case_prod_beta)
  qed
qed

lemma acquire_resources_settles:
  assumes "acquire_resources k topic name flags segment addr h = (r, h')"
  shows "case r of
      Inl e \<Rightarrow> ledger h {#} h' {#} \<and> mapped h' = mapped h - {addr} \<and> shm_names h' = shm_names h - {name}
    | Inr obj \<Rightarrow> ledger h {#} h' (open_fds (object_fds (object obj))) \<and> same_memory h h'
        \<and> (\<exists>fds. obj = new_publisher flags name addr (epoll_create_answer k) fds)"
proof (cases "guarded EpollCreateFailed (epoll_create_answer k) (connect_and_register k topic segment flags) h")
  case (Pair m h1)
  have "settles h (m, h1) (\<lambda>(broker, space, work, shutdown, exit).
      [epoll_create_answer k, broker, space, work, shutdown, exit])"
    unfolding Pair [symmetric]
    by (rule settles_with_fd, rule connect_and_register_settles) auto
  with assms Pair show ?thesis
    by (cases m) (auto simp: acquire_resources_def fd_settles_def shm_unlink_def fd_ledger_def same_memory_def
        new_publisher_def object_fds_def ac_simps split: if_split_asm)
qed

section \<open>The handshake\<close>

lemma open_fds_object:
  "open_fds (object_fds (p\<lparr>slot_by_event_fd := m, data_available_event_fds := data_available_event_fds p @ [fd],
     event_fd_by_slot := f\<rparr>)) = open_fds (object_fds p) + open_fds [fd]"
  by (simp add: object_fds_def ac_simps)

lemma receive_subscriber_registration_settles:
  assumes "well_formed answer"
  shows "\<exists>r h'. receive_subscriber_registration answer h = Some (r, h') \<and> same_memory h h'
    \<and> (case r of Inl e \<Rightarrow> ledger h {#} h' {#}
        | Inr reg \<Rightarrow> ledger h {#} h' {#reg_event_fd reg#} \<and> 0 \<le> reg_event_fd reg)"
proof (cases answer)
  case (RecvErr errno)
  then show ?thesis
    by (simp add: receive_subscriber_registration_def receive_packet_with_fd_def received_fds_def fd_ledger_def
      kSubscriberEventFdAndSlotMessageSize_def same_memory_def)
next
  case (RecvMsg msg)
  with assms have ok: "control_ok (msg_control msg)" by (simp add: well_formed_def)
  let ?fds = "control_fds (msg_control msg)"
  from receive_packet_with_fd_owned [OF ok] obtain n errno fd dropped where
    r: "receive_packet_with_fd (RecvMsg msg) (-1) = Some (n, errno, fd, dropped)"
    and own: "if 0 < n then n = int (length (msg_bytes msg)) \<and> ?fds = [fd] \<and> dropped = []
       else fd = -1 \<and> dropped = ?fds" by blast
  from ok have pos: "\<forall>fd \<in> set ?fds. 0 \<le> fd"
    by (cases "msg_control msg") (auto simp: control_ok_def control_fds_def)
  show ?thesis
  proof (cases "n = int kSubscriberEventFdAndSlotMessageSize")
    case True
    then have "n = 5" by (simp add: kSubscriberEventFdAndSlotMessageSize_def)
    with own have len: "length (msg_bytes msg) = 5" and fds: "?fds = [fd]" "dropped = []" by simp_all
    from pos fds have fd: "0 \<le> fd" by simp
    from len obtain slot where "field_u32 (msg_bytes msg) 1 = Some slot"
      by (simp add: field_u32_def field_def)
    with True RecvMsg r fds fd show ?thesis
      by (cases "message_type_of (msg_bytes msg ! 0) = Some SubscriberEventFdAndSlot")
        (simp_all add: receive_subscriber_registration_def received_fds_def Let_def fd_ledger_def del: One_nat_def)
  next
    case False
    then have f: "receive_subscriber_registration answer h = Some (Inl InitialSubscriberRegistrationReceiveFailed,
        host_close fd (host_close_all dropped (h\<lparr>opened := opened h @ ?fds\<rparr>)))"
      using RecvMsg r by (simp add: receive_subscriber_registration_def received_fds_def)
    have "open_fds [fd] + open_fds dropped = mset ?fds"
    proof (cases "0 < n")
      case True
      with own pos show ?thesis by simp
    next
      case False
      with own pos show ?thesis by (simp add: open_fds_all)
    qed
    then have "ledger h {#} (host_close fd (host_close_all dropped (h\<lparr>opened := opened h @ ?fds\<rparr>))) {#}"
      by (simp only: fd_ledger_def host_close_simps host_close_all_simps) (simp add: ac_simps)
    with f show ?thesis by simp
  qed
qed

lemma open_fds_closed: "open_fds (map (\<lambda>fd. fst (close_fd_var fd)) fds) = {#}"
  by (induction fds) (auto simp: close_fd_var_def)

lemma close_initial_subscriber_event_fds_ledger:
  assumes "close_initial_subscriber_event_fds p h = (p', h')"
  shows "ledger h (open_fds (object_fds p)) h' (open_fds (object_fds p'))" "same_memory h h'"
proof -
  from assms have p': "p' = p\<lparr>data_available_event_fds := map (\<lambda>fd. fst (close_fd_var fd)) (data_available_event_fds p)\<rparr>"
    and h': "h' = host_close_all (data_available_event_fds p) h"
    by (simp_all add: close_initial_subscriber_event_fds_def)
  have "open_fds (object_fds p) = open_fds (object_fds p') + open_fds (data_available_event_fds p)"
    unfolding p' object_fds_def by (simp add: open_fds_closed)
  then show "ledger h (open_fds (object_fds p)) h' (open_fds (object_fds p'))" "same_memory h h'"
    by (simp_all add: fd_ledger_def h' ac_simps)
qed

text \<open>Every subscriber tracked so far has an empty queue.\<close>

definition quiet :: "publisher \<Rightarrow> shared_data \<Rightarrow> bool" where
  "quiet p sd \<longleftrightarrow> data_inv p sd \<and> (\<forall>s. queue sd s = [])"

text \<open>The members that the handshake leaves alone.\<close>

definition same_object :: "publisher \<Rightarrow> publisher \<Rightarrow> bool" where
  "same_object p p' \<longleftrightarrow>
     p'\<lparr>data_available_event_fds := [], slot_by_event_fd := Map.empty, event_fd_by_slot := (\<lambda>_. 0)\<rparr> =
     p\<lparr>data_available_event_fds := [], slot_by_event_fd := Map.empty, event_fd_by_slot := (\<lambda>_. 0)\<rparr>"

lemma same_object_refl [simp]: "same_object p p"
  by (simp add: same_object_def)

lemma same_object_trans: "same_object p p1 \<Longrightarrow> same_object p1 p' \<Longrightarrow> same_object p p'"
  by (simp add: same_object_def)

lemma same_object_update [simp]:
  "same_object p (p'\<lparr>data_available_event_fds := fds\<rparr>) \<longleftrightarrow> same_object p p'"
  "same_object p (p'\<lparr>slot_by_event_fd := m\<rparr>) \<longleftrightarrow> same_object p p'"
  "same_object p (p'\<lparr>event_fd_by_slot := f\<rparr>) \<longleftrightarrow> same_object p p'"
  by (simp_all add: same_object_def)

lemma track_subscriber_ledger:
  assumes inv: "quiet p (shm (world h))" and fd: "0 \<le> reg_event_fd reg"
  shows "\<exists>e p' w'. track_subscriber reg p (world h) = Some (e, p', w') \<and> same_object p p'
    \<and> ledger h (open_fds (object_fds p) + {#reg_event_fd reg#}) (h\<lparr>world := w'\<rparr>) (open_fds (object_fds p'))
    \<and> quiet p' (shm w')"
proof (cases "kMaxSubscribers \<le> unat (reg_slot_index reg)
    \<or> active (shm (world h)) (unat (reg_slot_index reg)) \<or> slot_by_event_fd p (reg_event_fd reg) \<noteq> None")
  case True
  from track_errors [OF this] obtain e where
    "track_subscriber reg p (world h) = Some (Some e, p, close_fd (reg_event_fd reg) (world h))" by blast
  with inv fd show ?thesis by (simp add: fd_ledger_def close_fd_def)
next
  case False
  have d: "data_inv p (shm (world h))" using inv by (simp add: quiet_def)
  from False have "reg_event_fd reg \<notin> set (data_available_event_fds p)"
    using data_invD(3) [OF d] tables_okD(2) unfolding slots_inv_def by blast
  with False obtain p' w' where t: "track_subscriber reg p (world h) = Some (None, p', w')"
    and p': "p' = p\<lparr>slot_by_event_fd := (slot_by_event_fd p)(reg_event_fd reg \<mapsto> unat (reg_slot_index reg)),
         data_available_event_fds := data_available_event_fds p @ [reg_event_fd reg],
         event_fd_by_slot := (event_fd_by_slot p)(unat (reg_slot_index reg) := reg_event_fd reg)\<rparr>"
    and w': "w' = (world h)\<lparr>shm := shm w'\<rparr>" "data_inv p' (shm w')"
      "queue (shm w') (unat (reg_slot_index reg)) = []"
      "\<forall>t. t \<noteq> unat (reg_slot_index reg) \<longrightarrow> queue (shm w') t = queue (shm (world h)) t"
    using track_correct [OF d] by (metis not_le)
  have "closed w' = closed (world h)" by (subst w'(1)) simp
  moreover have "queue (shm w') s = []" for s
    using w'(3,4) inv by (cases "s = unat (reg_slot_index reg)") (simp_all add: quiet_def)
  then have "quiet p' (shm w')" using w'(2) by (simp add: quiet_def)
  moreover have "open_fds (object_fds p') = open_fds (object_fds p) + {#reg_event_fd reg#}"
    unfolding p' open_fds_object using fd by simp
  moreover have "same_object p p'"
    by (simp add: p')
  ultimately show ?thesis using t by (auto simp: fd_ledger_def)
qed

text \<open>The loop returns as soon as the answers are there; \<open>memory_kept\<close> leaves out the contents of
  the segment.\<close>

definition memory_kept :: "host \<Rightarrow> host \<Rightarrow> bool" where
  "memory_kept h h' \<longleftrightarrow> mapped h' = mapped h \<and> shm_names h' = shm_names h"

lemma memory_kept_refl [simp]: "memory_kept h h"
  by (simp add: memory_kept_def)

lemma memory_kept_trans: "memory_kept h h1 \<Longrightarrow> memory_kept h1 h2 \<Longrightarrow> memory_kept h h2"
  by (simp add: memory_kept_def)

lemma same_memory_kept: "same_memory h h' \<Longrightarrow> memory_kept h h'"
  by (simp add: same_memory_def memory_kept_def)

lemma track_initial_subscribers_ledger:
  assumes "n \<le> length answers" "\<forall>a \<in> set answers. well_formed a" "quiet p (shm (world h))"
  shows "\<exists>e p' h'. track_initial_subscribers n answers p h = Some (e, p', h') \<and> same_object p p'
    \<and> ledger h (open_fds (object_fds p)) h' (open_fds (object_fds p')) \<and> memory_kept h h'
    \<and> (e = None \<longrightarrow> quiet p' (shm (world h')))"
  using assms
proof (induction n answers p h rule: track_initial_subscribers.induct)
  case (3 n answer answers p h)
  from "3.prems"(2) have "well_formed answer" by simp
  from receive_subscriber_registration_settles [OF this, of h] obtain r h1 where
    r: "receive_subscriber_registration answer h = Some (r, h1)" and m: "same_memory h h1"
    and l: "case r of Inl e \<Rightarrow> ledger h {#} h1 {#}
        | Inr reg \<Rightarrow> ledger h {#} h1 {#reg_event_fd reg#} \<and> 0 \<le> reg_event_fd reg" by blast
  have closing: ?case if "same_object p p1" "ledger h (open_fds (object_fds p)) h2 (open_fds (object_fds p1))"
    "memory_kept h h2" "track_initial_subscribers (Suc n) (answer # answers) p h =
      (let (p, h) = close_initial_subscriber_event_fds p1 h2 in Some (Some e, p, h))" for p1 h2 e
  proof -
    obtain p' h' where c: "close_initial_subscriber_event_fds p1 h2 = (p', h')" by fastforce
    note cl = close_initial_subscriber_event_fds_ledger [OF c]
    have "same_object p p'" using c that(1) by (auto simp: close_initial_subscriber_event_fds_def)
    moreover have "memory_kept h h'" using memory_kept_trans [OF that(3) same_memory_kept [OF cl(2)]] .
    ultimately show ?thesis using ledger_trans [OF that(2) cl(1)] that(4) c by simp
  qed
  show ?case
  proof (cases r)
    case (Inl e)
    with l have "ledger h (open_fds (object_fds p)) h1 (open_fds (object_fds p))" by (simp add: fd_ledger_def)
    from closing [OF same_object_refl this same_memory_kept [OF m]] r Inl show ?thesis by simp
  next
    case (Inr reg)
    with l have l1: "ledger h {#} h1 {#reg_event_fd reg#}" and fd: "0 \<le> reg_event_fd reg" by simp_all
    have q1: "quiet p (shm (world h1))" using "3.prems"(3) m by (simp add: same_memory_def)
    from track_subscriber_ledger [OF q1 fd] obtain e p1 w1 where
      t: "track_subscriber reg p (world h1) = Some (e, p1, w1)" and s: "same_object p p1"
      and l2: "ledger h1 (open_fds (object_fds p) + {#reg_event_fd reg#}) (h1\<lparr>world := w1\<rparr>) (open_fds (object_fds p1))"
      and q: "quiet p1 (shm w1)" by blast
    have "ledger h (open_fds (object_fds p)) h1 (open_fds (object_fds p) + {#reg_event_fd reg#})"
      using l1 by (simp add: fd_ledger_def)
    from ledger_trans [OF this l2]
    have l3: "ledger h (open_fds (object_fds p)) (h1\<lparr>world := w1\<rparr>) (open_fds (object_fds p1))" .
    have k: "memory_kept h (h1\<lparr>world := w1\<rparr>)" using m by (simp add: same_memory_def memory_kept_def)
    show ?thesis
    proof (cases e)
      case (Some te)
      from closing [OF s l3 k] r Inr t Some show ?thesis by simp
    next
      case None
      have "\<exists>e p' h'. track_initial_subscribers n answers p1 (h1\<lparr>world := w1\<rparr>) = Some (e, p', h') \<and> same_object p1 p'
        \<and> ledger (h1\<lparr>world := w1\<rparr>) (open_fds (object_fds p1)) h' (open_fds (object_fds p'))
        \<and> memory_kept (h1\<lparr>world := w1\<rparr>) h' \<and> (e = None \<longrightarrow> quiet p' (shm (world h')))"
        using "3.IH" [OF r refl Inr t refl refl refl None] "3.prems"(1,2) q by simp
      then obtain e' p' h' where i: "track_initial_subscribers n answers p1 (h1\<lparr>world := w1\<rparr>) = Some (e', p', h')"
        "same_object p1 p'" "ledger (h1\<lparr>world := w1\<rparr>) (open_fds (object_fds p1)) h' (open_fds (object_fds p'))"
        "memory_kept (h1\<lparr>world := w1\<rparr>) h'" "e' = None \<longrightarrow> quiet p' (shm (world h'))" by blast
      have "track_initial_subscribers (Suc n) (answer # answers) p h = Some (e', p', h')"
        using r Inr t None i(1) by simp
      with same_object_trans [OF s i(2)] ledger_trans [OF l3 i(3)] memory_kept_trans [OF k i(4)] i(5)
      show ?thesis by blast
    qed
  qed
qed simp_all

lemma handshake_ledger:
  assumes "\<forall>n. field_u32 (count_received k) 0 = Some n \<longrightarrow> unat n \<le> length (registrations_received k)"
    "\<forall>a \<in> set (registrations_received k). well_formed a" "quiet p (shm (world h))"
  shows "\<exists>e p' h'. receive_and_track_initial_subscriber_registrations k p h = Some (e, p', h') \<and> same_object p p'
    \<and> ledger h (open_fds (object_fds p)) h' (open_fds (object_fds p')) \<and> memory_kept h h'
    \<and> (e = None \<longrightarrow> quiet p' (shm (world h')))"
proof (cases "length (count_received k) = 4")
  case True
  then obtain n where n: "field_u32 (count_received k) 0 = Some n" by (simp add: field_u32_def field_def)
  with track_initial_subscribers_ledger [OF _ assms(2,3), of "unat n"] assms(1) True show ?thesis
    by (simp add: receive_and_track_initial_subscriber_registrations_def)
qed (simp add: receive_and_track_initial_subscriber_registrations_def)

section \<open>Destruction and transfer\<close>

abbreviation owned :: "publisher_object \<Rightarrow> int multiset" where
  "owned obj \<equiv> open_fds (object_fds (object obj))"

text \<open>An object without resources, as after a destructor or a move.\<close>

definition bare :: "publisher_object \<Rightarrow> bool" where
  "bare obj \<longleftrightarrow> owned obj = {#} \<and> shared_data_ptr obj = None \<and> shm_name obj = '''' \<and> run_thread obj = NotJoinable"

lemma stop_run_thread_joined: "stop_run_thread a intent obj w = Some (b, obj', w') \<Longrightarrow> run_thread obj' = NotJoinable
  \<and> shared_data_ptr obj' = shared_data_ptr obj \<and> shm_name obj' = shm_name obj"
  by (auto simp: stop_run_thread_def bind_eq_Some_conv Let_def split: run_thread.split_asm)

text \<open>The destructor closes what the object owns once the worker has been joined.\<close>

lemma release_resources_correct:
  assumes "stop_run_thread a Destroy obj (world h) = Some (b, joined, w)"
  shows "\<exists>obj' h'. release_resources a obj h = Some (obj', h') \<and> bare obj'
    \<and> ledger (h\<lparr>world := w\<rparr>) (owned joined) h' {#}
    \<and> mapped h' = mapped h - set_option (shared_data_ptr obj)
    \<and> shm_names h' = (if shm_name obj = '''' then shm_names h else shm_names h - {shm_name obj})"
proof -
  note j = stop_run_thread_joined [OF assms]
  have n: "\<not> 0 \<le> fst (close_fd_var fd)" for fd by (simp add: close_fd_var_def)
  show ?thesis
    using assms j
    by (cases "shared_data_ptr obj")
      (simp_all add: release_resources_def Let_def fd_ledger_def shm_unlink_def bare_def object_fds_def n)
qed

lemma release_resources_idle:
  assumes "run_thread obj = NotJoinable"
  shows "\<exists>obj' h'. release_resources a obj h = Some (obj', h') \<and> bare obj' \<and> ledger h (owned obj) h' {#}
    \<and> mapped h' = mapped h - set_option (shared_data_ptr obj)
    \<and> shm_names h' = (if shm_name obj = '''' then shm_names h else shm_names h - {shm_name obj})"
  using release_resources_correct [of a obj h False obj "world h"] assms by (simp add: stop_run_thread_def)

lemma release_resources_bare:
  assumes "bare obj"
  shows "\<exists>obj' h'. release_resources a obj h = Some (obj', h') \<and> ledger h {#} h' {#} \<and> memory_kept h h'
    \<and> shm (world h') = shm (world h) \<and> host_sent h' = host_sent h"
  using assms
  by (auto simp: release_resources_def stop_run_thread_def bare_def Let_def fd_ledger_def memory_kept_def)

lemma new_publisher_simps [simp]:
  "run_thread (new_publisher flags name addr epoll fds) = NotJoinable"
  "shared_data_ptr (new_publisher flags name addr epoll fds) = Some addr"
  "shm_name (new_publisher flags name addr epoll fds) = name"
  "pub_flags (object (new_publisher flags name addr epoll fds)) = flags"
  "fresh_publisher (object (new_publisher flags name addr epoll fds))"
  by (cases fds; simp add: new_publisher_def fresh_publisher_def)+

lemma moved_from_bare: "run_thread obj = NotJoinable \<Longrightarrow> bare (moved_from obj)"
  by (simp add: bare_def moved_from_def object_fds_def)

lemma moved_owns [simp]: "owned (moved this other) = owned other" "shared_data_ptr (moved this other) = shared_data_ptr other"
  "shm_name (moved this other) = shm_name other" "run_thread (moved this other) = run_thread this"
  "data_inv (object (moved this other)) sd \<longleftrightarrow> data_inv (object other) sd"
  "pub_flags (object (moved this other)) = pub_flags (object other)"
proof -
  show "data_inv (object (moved this other)) sd \<longleftrightarrow> data_inv (object other) sd"
    by (rule data_inv_cong) (simp_all add: moved_def)
qed (simp_all add: moved_def object_fds_def)

lemma moved_quiet [simp]: "quiet (object (moved this other)) sd \<longleftrightarrow> quiet (object other) sd"
  by (simp add: quiet_def)

lemma started_simps [simp]:
  "owned (snd (start_run_thread created obj)) = owned obj"
  "shared_data_ptr (snd (start_run_thread created obj)) = shared_data_ptr obj"
  "shm_name (snd (start_run_thread created obj)) = shm_name obj"
  "pub_flags (object (snd (start_run_thread created obj))) = pub_flags (object obj)"
  "run_thread (snd (start_run_thread created obj)) = (if created then Running else run_thread obj)"
  by (simp_all add: start_run_thread_def Let_def object_fds_def)

lemma started_quiet [simp]: "quiet (object (snd (start_run_thread created obj))) sd \<longleftrightarrow> quiet (object obj) sd"
proof -
  have "data_inv (object (snd (start_run_thread created obj))) sd \<longleftrightarrow> data_inv (object obj) sd"
    by (rule data_inv_cong) (simp_all add: start_run_thread_def Let_def)
  then show ?thesis by (simp add: quiet_def)
qed

text \<open>A move without a running worker hands over everything.\<close>

lemma take_resources_from_idle:
  assumes "run_thread other = NotJoinable"
  shows "take_resources_from a created this other h = Some (Transferred, moved this other, moved_from other, h)"
  using assms by (simp add: take_resources_from_def stop_run_thread_def Let_def)

section \<open>Creation\<close>

text \<open>What \<open>create\<close> leaves: nothing after an error, a publisher that owns the rest after success.\<close>

definition created_as :: "string \<Rightarrow> nat set \<Rightarrow> u32 \<Rightarrow> host \<Rightarrow> create_error + publisher_object \<Rightarrow> host \<Rightarrow> bool" where
  "created_as name addrs flags h r h' \<longleftrightarrow> (case r of
     Inl e \<Rightarrow> ledger h {#} h' {#} \<and> mapped h' = mapped h \<and> shm_names h' \<subseteq> shm_names h
       \<and> shm_names h - {name} \<subseteq> shm_names h'
   | Inr obj \<Rightarrow> ledger h {#} h' (owned obj) \<and> mapped h' = mapped h \<union> addrs \<and> shm_names h' = insert name (shm_names h)
       \<and> set_option (shared_data_ptr obj) = addrs \<and> shm_name obj = name \<and> pub_flags (object obj) = flags
       \<and> run_thread obj = (if flags AND ASYNCHRONOUS = 0 then NotJoinable else Running)
       \<and> quiet (object obj) (shm (world h')))"

lemma complete_creation_correct:
  assumes obj: "obj = new_publisher flags name addr epoll fds" and name: "name \<noteq> ''''"
    and h: "addr \<notin> A" "mapped h = insert addr A" "shm_names h = insert name N"
    and q: "quiet (object obj) (shm (world h))"
    and reg: "\<forall>n. field_u32 (count_received k) 0 = Some n \<longrightarrow> unat n \<le> length (registrations_received k)"
      "\<forall>a \<in> set (registrations_received k). well_formed a"
  shows "\<exists>r h'. complete_creation k obj h = Some (r, h') \<and> (case r of
      Inl e \<Rightarrow> ledger h (owned obj) h' {#} \<and> mapped h' = A \<and> shm_names h' = N - {name}
    | Inr obj' \<Rightarrow> ledger h (owned obj) h' (owned obj') \<and> memory_kept h h' \<and> shared_data_ptr obj' = Some addr
       \<and> shm_name obj' = name \<and> pub_flags (object obj') = flags
       \<and> run_thread obj' = (if flags AND ASYNCHRONOUS = 0 then NotJoinable else Running)
       \<and> quiet (object obj') (shm (world h')))"
proof -
  from handshake_ledger [OF reg q] obtain e p1 h1 where
    s: "receive_and_track_initial_subscriber_registrations k (object obj) h = Some (e, p1, h1)"
    and so: "same_object (object obj) p1"
    and l: "ledger h (owned obj) h1 (open_fds (object_fds p1))" and m: "memory_kept h h1"
    and q1: "e = None \<longrightarrow> quiet p1 (shm (world h1))" by blast
  let ?obj = "obj\<lparr>object := p1\<rparr>"
  have o: "run_thread ?obj = NotJoinable" "shared_data_ptr ?obj = Some addr" "shm_name ?obj = name"
    by (simp_all add: obj)
  have fl: "pub_flags p1 = flags"
    using arg_cong [OF so [unfolded same_object_def], of pub_flags] by (simp add: obj)
  have destroy: "\<exists>h2. (do { (_, h) \<leftarrow> release_resources a x y; Some (Inl err :: create_error + publisher_object, h) }) = Some (Inl err, h2)
      \<and> ledger h (owned obj) h2 {#} \<and> mapped h2 = A \<and> shm_names h2 = N - {name}"
    if x: "run_thread x = NotJoinable" "shared_data_ptr x = Some addr" "shm_name x = name"
      "ledger h (owned obj) y (owned x)" "memory_kept h y" for a x y and err :: create_error
  proof -
    from release_resources_idle [OF x(1), of a y] obtain x' h2 where
      r: "release_resources a x y = Some (x', h2)" "ledger y (owned x) h2 {#}"
        "mapped h2 = mapped y - set_option (shared_data_ptr x)"
        "shm_names h2 = (if shm_name x = '''' then shm_names y else shm_names y - {shm_name x})" by blast
    with x name h ledger_trans [OF x(4) r(2)] show ?thesis by (auto simp: memory_kept_def)
  qed
  show ?thesis
  proof (cases e)
    case (Some err)
    from destroy [OF o, of h1 no_worker err] l m obtain h2 where d:
      "(do { (_, h) \<leftarrow> release_resources no_worker ?obj h1; Some (Inl err :: create_error + publisher_object, h) }) = Some (Inl err, h2)"
      "ledger h (owned obj) h2 {#}" "mapped h2 = A" "shm_names h2 = N - {name}" by auto
    then have "complete_creation k obj h = Some (Inl err, h2)"
      using s Some by (simp add: complete_creation_def Let_def)
    with d(2-4) show ?thesis by simp
  next
    case None
    with q1 have q2: "quiet p1 (shm (world h1))" by simp
    show ?thesis
    proof (cases "watch_ok k (pub_broker_fd p1)")
      case False
      from destroy [OF o, of h1 no_worker BrokerEpollAddFailed] l m obtain h2 where d:
        "(do { (_, h) \<leftarrow> release_resources no_worker ?obj h1; Some (Inl BrokerEpollAddFailed :: create_error + publisher_object, h) })
          = Some (Inl BrokerEpollAddFailed, h2)"
        "ledger h (owned obj) h2 {#}" "mapped h2 = A" "shm_names h2 = N - {name}" by auto
      then have "complete_creation k obj h = Some (Inl BrokerEpollAddFailed, h2)"
        using s None False by (simp add: complete_creation_def Let_def)
      with d(2-4) show ?thesis by simp
    next
      case True
      let ?r = "moved empty_publisher ?obj"
      have e: "run_thread empty_publisher = NotJoinable"
        by (simp add: empty_publisher_def moved_from_def)
      have own: "owned ?r = open_fds (object_fds p1)" by simp
      have b: "bare (moved_from ?obj)" by (rule moved_from_bare [OF o(1)])
      note code = s None True take_resources_from_idle [OF o(1), of no_worker True empty_publisher h1] fl
      show ?thesis
      proof (cases "flags AND ASYNCHRONOUS = 0 \<or> thread_created k")
        case True
        let ?s = "if flags AND ASYNCHRONOUS = 0 then ?r else snd (start_run_thread True ?r)"
        from release_resources_bare [OF b, of no_worker h1] obtain x h2 where
          r: "release_resources no_worker (moved_from ?obj) h1 = Some (x, h2)"
            "ledger h1 {#} h2 {#}" "memory_kept h1 h2" "shm (world h2) = shm (world h1)" by blast
        have c: "complete_creation k obj h = Some (Inr ?s, h2)"
          using code True r(1)
          by (cases "flags AND ASYNCHRONOUS = 0") (simp_all add: complete_creation_def Let_def start_run_thread_def)
        have q3: "quiet (object ?s) (shm (world h2))"
          unfolding r(4) using q2 by (cases "flags AND ASYNCHRONOUS = 0") simp_all
        have o3: "owned ?s = open_fds (object_fds p1)" using own by simp
        have "ledger h1 (open_fds (object_fds p1)) h2 (open_fds (object_fds p1))"
          using r(2) by (simp add: fd_ledger_def)
        from ledger_trans [OF l this] have "ledger h (owned obj) h2 (owned ?s)" using o3 by simp
        moreover have "pub_flags (object ?s) = flags" "run_thread ?s = (if flags AND ASYNCHRONOUS = 0 then NotJoinable else Running)"
          "shared_data_ptr ?s = Some addr" "shm_name ?s = name"
          using fl o e by simp_all
        ultimately show ?thesis
          using c q3 memory_kept_trans [OF m r(3)]
          by (intro exI [of _ "Inr ?s"] exI [of _ h2]) (unfold sum.case, intro conjI; assumption)
      next
        case False
        let ?s = "snd (start_run_thread False ?r)"
        have sr: "run_thread ?s = NotJoinable" "shared_data_ptr ?s = Some addr" "shm_name ?s = name"
          "owned ?s = open_fds (object_fds p1)"
          using o e own by simp_all
        from destroy [OF sr(1-3), of h1 no_worker RunThreadCreateFailed] l m sr(4) obtain h2 where
          d: "(do { (_, h) \<leftarrow> release_resources no_worker ?s h1; Some (Inl RunThreadCreateFailed :: create_error + publisher_object, h) })
              = Some (Inl RunThreadCreateFailed, h2)"
            "ledger h (owned obj) h2 {#}" "mapped h2 = A" "shm_names h2 = N - {name}" by auto
        from release_resources_bare [OF b, of no_worker h2] obtain x h3 where
          r: "release_resources no_worker (moved_from ?obj) h2 = Some (x, h3)"
            "ledger h2 {#} h3 {#}" "memory_kept h2 h3" by blast
        have "complete_creation k obj h = Some (Inl RunThreadCreateFailed, h3)"
          using code False r(1) d(1)
          by (auto simp: complete_creation_def Let_def start_run_thread_def bind_eq_Some_conv)
        with d r ledger_trans [OF d(2) r(2)] show ?thesis by (auto simp: memory_kept_def)
      qed
    qed
  qed
qed

lemma create_and_map_shared_data_correct:
  assumes fresh: "\<forall>addr sd. mmap_shared k = Some (addr, sd) \<longrightarrow> addr \<notin> mapped h"
  shows "\<exists>r h'. create_and_map_shared_data k name h = Some (r, h') \<and> (case r of
      Inl e \<Rightarrow> ledger h {#} h' {#} \<and> mapped h' = mapped h \<and> shm_names h' \<subseteq> shm_names h
        \<and> shm_names h - {name} \<subseteq> shm_names h'
    | Inr (fd, addr) \<Rightarrow> ledger h {#} h' {#fd#} \<and> 0 \<le> fd \<and> addr \<notin> mapped h \<and> mapped h' = insert addr (mapped h)
        \<and> mmap_shared k \<noteq> None \<and> addr = fst (the (mmap_shared k)) \<and> shm_names h' = insert name (shm_names h)
        \<and> (\<forall>p. fresh_publisher p \<longrightarrow> quiet p (shm (world h'))))"
proof (cases "(unlink_answer k \<noteq> SysOk \<and> unlink_answer k \<noteq> SysErr ENOENT) \<or> shm_open_answer k < 0
    \<or> \<not> ftruncate_ok k \<or> mmap_shared k = None")
  case True
  then show ?thesis
    by (auto simp: create_and_map_shared_data_def Let_def shm_unlink_def fd_ledger_def not_less split: option.split)
next
  case False
  then obtain addr sd where m: "mmap_shared k = Some (addr, sd)" by auto
  have ex: "\<exists>sd'. create_shared_data sd = Some sd' \<and> (\<forall>p. fresh_publisher p \<longrightarrow> quiet p sd')"
  proof -
    from create_shared_data_inv [OF new_publisher_simps(5) [of 0 "''''" 0 0 "(0, 0, 0, 0, 0)"], of sd] obtain sd' where
      sd': "create_shared_data sd = Some sd'" "\<forall>s. \<not> active sd' s" by blast
    have "quiet p sd'" if "fresh_publisher p" for p
      using create_shared_data_inv [OF that, of sd] sd' by (auto simp: quiet_def queue_def unread_def)
    with sd'(1) show ?thesis by blast
  qed
  then obtain sd' where sd': "create_shared_data sd = Some sd'" "\<forall>p. fresh_publisher p \<longrightarrow> quiet p sd'" by blast
  from False m sd' fresh show ?thesis
    by (auto simp: create_and_map_shared_data_def Let_def shm_unlink_def fd_ledger_def)
qed

lemma create_publisher_correct:
  assumes name: "name \<noteq> ''''"
    and fresh: "\<forall>addr sd. mmap_shared k = Some (addr, sd) \<longrightarrow> addr \<notin> mapped h"
    and reg: "\<forall>n. field_u32 (count_received k) 0 = Some n \<longrightarrow> unat n \<le> length (registrations_received k)"
      "\<forall>a \<in> set (registrations_received k). well_formed a"
  shows "\<exists>r h'. create_publisher k topic name flags h = Some (r, h')
    \<and> created_as name (fst ` set_option (mmap_shared k)) flags h r h'"
proof (cases "flags AND (SYNCHRONOUS OR ASYNCHRONOUS) \<noteq> SYNCHRONOUS
    \<and> flags AND (SYNCHRONOUS OR ASYNCHRONOUS) \<noteq> ASYNCHRONOUS")
  case True
  then show ?thesis by (simp add: create_publisher_def created_as_def)
next
  case modes: False
  from create_and_map_shared_data_correct [OF fresh, of name] obtain r h1 where
    c: "create_and_map_shared_data k name h = Some (r, h1)"
    and s: "case r of
      Inl e \<Rightarrow> ledger h {#} h1 {#} \<and> mapped h1 = mapped h \<and> shm_names h1 \<subseteq> shm_names h
        \<and> shm_names h - {name} \<subseteq> shm_names h1
    | Inr (fd, addr) \<Rightarrow> ledger h {#} h1 {#fd#} \<and> 0 \<le> fd \<and> addr \<notin> mapped h \<and> mapped h1 = insert addr (mapped h)
        \<and> mmap_shared k \<noteq> None \<and> addr = fst (the (mmap_shared k)) \<and> shm_names h1 = insert name (shm_names h)
        \<and> (\<forall>p. fresh_publisher p \<longrightarrow> quiet p (shm (world h1)))" by blast
  show ?thesis
  proof (cases r)
    case (Inl e)
    with modes c s show ?thesis by (auto simp: create_publisher_def created_as_def)
  next
    case (Inr seg)
    obtain fd addr where seg: "seg = (fd, addr)" by (cases seg) auto
    with Inr s have s1: "ledger h {#} h1 {#fd#}" "0 \<le> fd" "addr \<notin> mapped h" "mapped h1 = insert addr (mapped h)"
      "shm_names h1 = insert name (shm_names h)" "\<forall>p. fresh_publisher p \<longrightarrow> quiet p (shm (world h1))"
      and addr: "fst ` set_option (mmap_shared k) = {addr}" by auto
    obtain m h2 where a: "acquire_resources k topic name flags fd addr h1 = (m, h2)" by fastforce
    note acq = acquire_resources_settles [OF a]
    have closing: "ledger h {#} (host_close fd h') X" if "ledger h1 {#} h' X" for h' X
    proof -
      have "ledger h1 {#fd#} h' (X + {#fd#})" using that by (simp add: fd_ledger_def)
      from ledger_trans [OF s1(1) this] show ?thesis using s1(2) by (simp add: fd_ledger_def)
    qed
    show ?thesis
    proof (cases m)
      case (Inl e)
      have "create_publisher k topic name flags h = Some (Inl e, host_close fd h2)"
        using modes c \<open>r = Inr seg\<close> seg a Inl by (auto simp: create_publisher_def)
      moreover have "created_as name {addr} flags h (Inl e) (host_close fd h2)"
        using acq Inl s1 closing [of h2 "{#}"] by (auto simp: created_as_def)
      ultimately show ?thesis unfolding addr by blast
    next
      case obj: (Inr obj)
      with acq obtain fds where o: "obj = new_publisher flags name addr (epoll_create_answer k) fds"
        and l: "ledger h1 {#} h2 (owned obj)" and mem: "same_memory h1 h2" by auto
      have "quiet (object obj) (shm (world h2))"
        using s1(6) mem by (simp add: o same_memory_def)
      from complete_creation_correct [OF o name s1(3) _ _ this reg, where N = "shm_names h"] mem s1(4,5)
      obtain r2 h3 where cc: "complete_creation k obj h2 = Some (r2, h3)"
        and r2: "case r2 of
          Inl e \<Rightarrow> ledger h2 (owned obj) h3 {#} \<and> mapped h3 = mapped h \<and> shm_names h3 = shm_names h - {name}
        | Inr obj' \<Rightarrow> ledger h2 (owned obj) h3 (owned obj') \<and> memory_kept h2 h3 \<and> shared_data_ptr obj' = Some addr
           \<and> shm_name obj' = name \<and> pub_flags (object obj') = flags
           \<and> run_thread obj' = (if flags AND ASYNCHRONOUS = 0 then NotJoinable else Running)
           \<and> quiet (object obj') (shm (world h3))" by (auto simp: same_memory_def)
      have "create_publisher k topic name flags h = Some (r2, host_close fd h3)"
        using modes c Inr seg a obj cc by (auto simp: create_publisher_def)
      moreover have "created_as name {addr} flags h r2 (host_close fd h3)"
      proof (cases r2)
        case (Inl e)
        with r2 have "ledger h1 {#} h3 {#}" using ledger_trans [OF l] by simp
        with Inl r2 closing show ?thesis by (auto simp: created_as_def)
      next
        case (Inr obj')
        with r2 have "ledger h1 {#} h3 (owned obj')" using ledger_trans [OF l] by simp
        with Inr r2 closing mem s1(4,5) show ?thesis
          by (simp add: created_as_def memory_kept_def same_memory_def)
      qed
      ultimately show ?thesis unfolding addr by blast
    qed
  qed
qed

end
