(* ===== verification/Publisher_Teardown.thy ===== *)
theory Publisher_Teardown
  imports Publisher_Resources Publish_Pending
begin

text \<open>
  The end of an asynchronous publisher: whatever the worker still does while it is being stopped,
  the destructor closes every descriptor the object owned and every descriptor that arrived
  meanwhile, each once.
\<close>

section \<open>Publishing neither opens nor closes\<close>

definition keeps_fds :: "publisher \<Rightarrow> io \<Rightarrow> publisher \<Rightarrow> io \<Rightarrow> bool" where
  "keeps_fds p w p' w' \<longleftrightarrow> object_fds p' = object_fds p \<and> pub_broker_fd p' = pub_broker_fd p \<and> closed w' = closed w"

lemma keeps_fds_refl [simp]: "keeps_fds p w p w"
  by (simp add: keeps_fds_def)

lemma keeps_fds_trans: "keeps_fds p w p1 w1 \<Longrightarrow> keeps_fds p1 w1 p' w' \<Longrightarrow> keeps_fds p w p' w'"
  by (simp add: keeps_fds_def)

lemma signal_each_closed [simp]: "closed (snd (signal_each sig fds w)) = closed w"
  by (induction fds arbitrary: w) auto

lemma signal_each_sig: "fst (signal_each sig fds w) \<Longrightarrow> \<forall>fd \<in> set fds. sig fd"
  by (induction fds arbitrary: w) (auto split: if_split_asm)

lemma publish_into_chunk_fds:
  assumes code: "publish_into_chunk sig cls n payload p w = Some (r, p', w')"
  shows "keeps_fds p w p' w'"
proof (cases "chunk_reference_mask (slot_by_event_fd p) (data_available_event_fds p) 0")
  case None
  with code show ?thesis
    by (auto simp: publish_into_chunk_def keeps_fds_def object_fds_def bind_eq_Some_conv Let_def split: if_split_asm)
next
  case (Some m)
  with code show ?thesis
    by (cases m) (auto simp: publish_into_chunk_def keeps_fds_def object_fds_def bind_eq_Some_conv Let_def
      case_prod_beta split: if_split_asm)
qed

lemma try_publish_one_fds: "try_publish_one sig payload p w = Some (r, p', w') \<Longrightarrow> keeps_fds p w p' w'"
  by (auto simp: try_publish_one_def Let_def split: if_split_asm intro: publish_into_chunk_fds)

lemma publish_into_chunk_ok:
  assumes code: "publish_into_chunk sig cls n payload p w = Some (Inr a, p', w')"
  shows "\<forall>fd \<in> set (data_available_event_fds p). sig fd" "seq p \<noteq> 2147483647"
proof -
  from code obtain off sd sd1 sq sd2 where
    m: "write_message (descriptor_write_index (shm w)) off n (seq p) payload sd1 = Some (sq, sd2)"
    by (auto simp: publish_into_chunk_def bind_eq_Some_conv Let_def split: if_split_asm)
  then show "seq p \<noteq> 2147483647"
    by (auto simp: write_message_def int_incr_def bind_eq_Some_conv split: if_split_asm)
  from code obtain refs where
    "chunk_reference_mask (slot_by_event_fd (p\<lparr>seq := sq\<rparr>)) (data_available_event_fds (p\<lparr>seq := sq\<rparr>)) 0 = Some refs"
    by (auto simp: publish_into_chunk_def bind_eq_Some_conv Let_def split: if_split_asm)
  with code have "\<exists>w. fst (signal_each sig (data_available_event_fds p) w)"
    by (cases refs) (auto simp: publish_into_chunk_def bind_eq_Some_conv Let_def case_prod_beta split: if_split_asm)
  then show "\<forall>fd \<in> set (data_available_event_fds p). sig fd" using signal_each_sig by blast
qed

lemma try_publish_one_data_inv:
  assumes inv: "data_inv p (shm w)" and code: "try_publish_one sig payload p w = Some (Inr a, p', w')"
  shows "data_inv p' (shm w')"
proof -
  have len: "length payload \<le> kMaxPayloadSizeBytes"
    using code try_publish_one_too_large [of payload sig p w] by fastforce
  show ?thesis
  proof (cases "held_back payload (shm w)")
    case True
    with try_publish_one_blocked [OF inv len] code inv show ?thesis by simp
  next
    case False
    with code try_publish_one_body [OF len inv] have c: "publish_into_chunk sig
      (find_size_class (of_nat (length payload + 8))) (of_nat (length payload + 8)) payload p w = Some (Inr a, p', w')"
      by simp
    from try_publish_one_ok [OF inv len False publish_into_chunk_ok(2) [OF c] publish_into_chunk_ok(1) [OF c]] code show ?thesis by auto
  qed
qed

lemma take_next_fds: "take_next p = Some (payload, p') \<Longrightarrow> keeps_fds p w p' w"
  by (auto simp: take_next_def keeps_fds_def object_fds_def Let_def split: option.split_asm list.split_asm)

lemma data_inv_in_flight [simp]: "data_inv (p\<lparr>in_flight := m\<rparr>) sd \<longleftrightarrow> data_inv p sd"
  by (rule data_inv_cong) simp_all

lemma finish_publish_fds: "finish_publish a p w = Some (p', w') \<Longrightarrow> keeps_fds p w p' w' \<and> (data_inv p' (shm w') \<longleftrightarrow> data_inv p (shm w))"
  by (auto simp: finish_publish_def keeps_fds_def object_fds_def split: option.split_asm if_split_asm)

section \<open>The ledger of the worker\<close>

text \<open>Closed or owned at the end: what was closed or owned before, and what was received.\<close>

definition balanced :: "int list \<Rightarrow> publisher \<Rightarrow> io \<Rightarrow> publisher \<Rightarrow> io \<Rightarrow> bool" where
  "balanced received p w p' w' \<longleftrightarrow>
     open_fds (object_fds p') + open_fds (closed w') =
     open_fds (object_fds p) + open_fds (closed w) + open_fds received"

text \<open>The state in which the worker goes on.\<close>

definition going :: "publisher \<Rightarrow> io \<Rightarrow> bool" where
  "going p w \<longleftrightarrow> data_inv p (shm w) \<and> 0 \<le> pub_broker_fd p"

lemma balanced_trans:
  "balanced a p w p1 w1 \<Longrightarrow> balanced b p1 w1 p' w' \<Longrightarrow> balanced (a @ b) p w p' w'"
  by (simp add: balanced_def ac_simps)

lemma keeps_fds_balanced: "keeps_fds p w p' w' \<Longrightarrow> balanced [] p w p' w'"
  by (simp add: keeps_fds_def balanced_def)

lemma conserves_balanced:
  assumes "conserves (mset received) p w p' w'" "same_sender p p'"
  shows "balanced received p w p' w'"
proof -
  from assms(1) have "filter_mset (\<lambda>fd. 0 \<le> fd) (owned_fds p' + mset (closed w'))
      = filter_mset (\<lambda>fd. 0 \<le> fd) (owned_fds p + mset (closed w) + mset received)"
    by (simp add: conserves_def)
  then have e: "open_fds (data_available_event_fds p') + open_fds [pub_broker_fd p'] + open_fds (closed w')
      = open_fds (data_available_event_fds p) + open_fds [pub_broker_fd p] + open_fds (closed w) + open_fds received"
    by (simp add: owned_fds_def open_fds_def split: if_split_asm)
  define rest where "rest q = open_fds [publish_work_event_fd q, space_available_event_fd q, pub_shutdown_event_fd q,
    pub_worker_exit_event_fd q, pub_epoll_fd q]" for q :: publisher
  have s: "open_fds (object_fds q) = open_fds (data_available_event_fds q) + open_fds [pub_broker_fd q] + rest q" for q
    by (simp add: object_fds_def rest_def ac_simps)
  have "rest p' = rest p" using assms(2) by (simp add: same_sender_def rest_def)
  then show ?thesis
    unfolding balanced_def s using arg_cong [OF e, of "\<lambda>M. M + rest p"] by (simp only: ac_simps)
qed

lemma publish_pending_going:
  "publish_pending sig budget p w = Some (r, p', w') \<Longrightarrow> data_inv p (shm w) \<Longrightarrow>
   keeps_fds p w p' w' \<and> (case r of Inl e \<Rightarrow> e \<noteq> RunNone | Inr b \<Rightarrow> data_inv p' (shm w'))"
proof (induction sig budget p w rule: publish_pending.induct)
  case (1 sig p w)
  then show ?case by auto
next
  case (2 sig budget p w)
  show ?case
  proof (cases "take_next p")
    case None
    with "2.prems" show ?thesis by auto
  next
    case (Some tp)
    then obtain payload p1 where t: "take_next p = Some (payload, p1)" by (cases tp) auto
    have inv1: "data_inv p1 (shm w)" using "2.prems"(2) take_next_data_inv [OF t] by simp
    from "2.prems"(1) t obtain result p2 w2 where a: "try_publish_one sig payload p1 w = Some (result, p2, w2)"
      by (auto simp: bind_eq_Some_conv)
    have k2: "keeps_fds p w p2 w2" by (rule keeps_fds_trans [OF take_next_fds [OF t] try_publish_one_fds [OF a]])
    show ?thesis
    proof (cases result)
      case (Inl e)
      with "2.prems"(1) t a k2 try_publish_one_error show ?thesis by auto
    next
      case (Inr attempt)
      with "2.prems"(1) t a obtain p3 w3 where f: "finish_publish attempt p2 w2 = Some (p3, w3)"
        by (auto simp: bind_eq_Some_conv)
      have inv3: "data_inv p3 (shm w3)"
        using finish_publish_fds [OF f] try_publish_one_data_inv [OF inv1 a [unfolded Inr]] by simp
      have k3: "keeps_fds p w p3 w3" using keeps_fds_trans [OF k2] finish_publish_fds [OF f] by blast
      show ?thesis
      proof (cases "attempt = Blocked")
        case True
        with "2.prems"(1) t a Inr f k3 inv3 show ?thesis by auto
      next
        case False
        with "2.prems"(1) t a Inr f have "publish_pending sig budget p3 w3 = Some (r, p', w')" by simp
        from "2.IH" [OF t refl a refl refl Inr f refl False this inv3] k3 show ?thesis
          by (blast intro: keeps_fds_trans)
      qed
    qed
  qed
qed

lemma handle_publish_work_event_going:
  assumes code: "handle_publish_work_event sig drain ready p w = Some (reason, ready', p', w')"
    and g: "going p w"
  shows "keeps_fds p w p' w' \<and> (reason = RunNone \<longrightarrow> going p' w')"
proof (cases "\<not> drain (publish_work_event_fd p)
    \<or> \<not> ready \<and> (case in_flight p of None \<Rightarrow> False | Some f \<Rightarrow> in_flight_status f = InFlightBlocked)")
  case True
  with code g show ?thesis
    by (auto simp: handle_publish_work_event_def split: if_split_asm option.split_asm)
next
  case False
  with code obtain r p1 w1 where pp: "publish_pending sig kMaxPublishesPerWorkEvent p w = Some (r, p1, w1)"
    by (auto simp: handle_publish_work_event_def bind_eq_Some_conv split: if_split_asm)
  from g have "data_inv p (shm w)" by (simp add: going_def)
  note pg = publish_pending_going [OF pp this]
  show ?thesis
  proof (cases r)
    case (Inl e)
    with False code pp have "p' = p1" "w' = w1" "reason = e"
      by (auto simp: handle_publish_work_event_def split: if_split_asm)
    with pg Inl show ?thesis by auto
  next
    case (Inr b)
    with False code pp have "p' = p1" "shm w' = shm w1" "closed w' = closed w1"
      by (auto simp: handle_publish_work_event_def split: if_split_asm)
    with pg Inr g show ?thesis by (simp add: keeps_fds_def going_def)
  qed
qed

lemma resume_if_ready_going:
  "resume_if_ready sig e ready p w = (r, ready', p', w') \<Longrightarrow> keeps_fds p w p' w' \<and> (going p' w' \<longleftrightarrow> going p w)"
  by (auto simp: resume_if_ready_def keeps_fds_def going_def split: sum.split_asm if_split_asm)

lemma process_broker_control_messages_broker:
  "process_broker_control_messages answers p w = Some (r, rest, p', w') \<Longrightarrow> r = RunNone \<Longrightarrow>
   data_inv p (shm w) \<Longrightarrow> \<forall>a \<in> set answers. well_formed a \<Longrightarrow> 0 \<le> pub_broker_fd p \<Longrightarrow>
   pub_broker_fd p' = pub_broker_fd p"
proof (induction answers p w rule: process_broker_control_messages.induct)
  case (3 msg answers p w)
  from "3.prems"(1) obtain res cmsg p1 w1 where h: "handle_broker_message msg p w = Some (res, cmsg, p1, w1)"
    and n: "(if res \<noteq> RunNone then Some (res, answers, p1, close_guarded cmsg w1)
      else process_broker_control_messages answers p1 (close_guarded cmsg w1)) = Some (r, rest, p', w')"
    by (auto simp: bind_eq_Some_conv Let_def)
  from n "3.prems"(2) have res: "\<not> res \<noteq> RunNone" by (auto split: if_split_asm)
  have ok: "control_ok (msg_control msg)" using "3.prems"(4) by (simp add: well_formed_def)
  from handle_broker_message_conserves [OF "3.prems"(3) ok "3.prems"(5) h] res
  have b: "pub_broker_fd p1 = pub_broker_fd p" by auto
  have inv: "data_inv p1 (shm (close_guarded cmsg w1))"
    by (rule keepsD [OF close_guarded_keeps [OF handle_broker_message_keeps [OF "3.prems"(3) h]]])
  from n res have "process_broker_control_messages answers p1 (close_guarded cmsg w1) = Some (r, rest, p', w')" by simp
  from "3.IH" [OF h refl refl refl refl res this "3.prems"(2) inv] "3.prems"(4,5) b show ?case by simp
qed (auto split: if_split_asm)

lemma handle_broker_control_event_going:
  assumes code: "handle_broker_control_event sig answers ready p w = Some (reason, rest, ready', p', w')"
    and g: "going p w" and wf: "\<forall>a \<in> set answers. well_formed a"
  shows "\<exists>used. answers = used @ rest \<and> balanced (concat (map received_fds used)) p w p' w'
    \<and> (reason = RunNone \<longrightarrow> going p' w')"
proof -
  from code obtain r p1 w1 where pr: "process_broker_control_messages answers p w = Some (r, rest, p1, w1)"
    and n: "if r \<noteq> RunNone then reason = r \<and> p' = p1 \<and> w' = w1
      else resume_if_ready sig PublishWorkBrokerResumeFailed ready p1 w1 = (reason, ready', p', w')"
    by (auto simp: handle_broker_control_event_def bind_eq_Some_conv split: if_split_asm prod.split_asm)
  from g have inv: "data_inv p (shm w)" and b: "0 \<le> pub_broker_fd p" by (simp_all add: going_def)
  from process_broker_control_messages_conserves [OF pr inv wf b] obtain used where
    u: "answers = used @ rest" "conserves (mset (concat (map received_fds used))) p w p1 w1" by blast
  have k: "keeps p w p1 w1" by (rule process_broker_control_messages_keeps [OF pr inv])
  then have bal: "balanced (concat (map received_fds used)) p w p1 w1"
    by (intro conserves_balanced [OF u(2)]) (simp add: keeps_def)
  show ?thesis
  proof (cases "r = RunNone")
    case False
    with n u bal show ?thesis by auto
  next
    case True
    with n have res: "resume_if_ready sig PublishWorkBrokerResumeFailed ready p1 w1 = (reason, ready', p', w')" by simp
    note rg = resume_if_ready_going [OF res]
    have "balanced (concat (map received_fds used)) p w p' w'"
      using balanced_trans [OF bal keeps_fds_balanced] rg by fastforce
    moreover have "going p1 w1"
      using keepsD [OF k] process_broker_control_messages_broker [OF pr True inv wf b] b by (simp add: going_def)
    ultimately show ?thesis using u rg by blast
  qed
qed

text \<open>A stretch of the worker's life: the answers it used up and the balance of its descriptors.\<close>

definition uses :: "received list \<Rightarrow> publisher \<Rightarrow> io \<Rightarrow> received list \<Rightarrow> publisher \<Rightarrow> io \<Rightarrow> bool" where
  "uses answers p w answers' p' w' \<longleftrightarrow>
     (\<exists>used. answers = used @ answers' \<and> balanced (concat (map received_fds used)) p w p' w')"

lemma uses_none: "keeps_fds p w p' w' \<Longrightarrow> uses answers p w answers p' w'"
  unfolding uses_def by (intro exI [of _ "[]"]) (simp add: keeps_fds_balanced)

lemma uses_refl: "\<exists>rest. uses answers p w rest p w"
  using uses_none [OF keeps_fds_refl] by blast

lemma uses_trans:
  assumes "uses a p w a1 p1 w1" "uses a1 p1 w1 a' p' w'"
  shows "uses a p w a' p' w'"
proof -
  from assms obtain us vs where "a = us @ a1" "balanced (concat (map received_fds us)) p w p1 w1"
    "a1 = vs @ a'" "balanced (concat (map received_fds vs)) p1 w1 p' w'" by (auto simp: uses_def)
  then show ?thesis unfolding uses_def by (intro exI [of _ "us @ vs"]) (auto dest: balanced_trans)
qed

lemma uses_wf: "uses a p w a' p' w' \<Longrightarrow> \<forall>x \<in> set a. well_formed x \<Longrightarrow> \<forall>x \<in> set a'. well_formed x"
  by (auto simp: uses_def)

lemma handle_worker_event_going:
  assumes code: "handle_worker_event sig drain fd answers ready p w = Some (reason, answers', ready', p', w')"
    and g: "going p w" and wf: "\<forall>a \<in> set answers. well_formed a"
  shows "uses answers p w answers' p' w' \<and> (reason = RunNone \<longrightarrow> going p' w')"
proof -
  consider (work) "fd = publish_work_event_fd p"
    | (space) "fd \<noteq> publish_work_event_fd p" "fd = space_available_event_fd p"
    | (broker) "fd \<noteq> publish_work_event_fd p" "fd \<noteq> space_available_event_fd p" "fd = pub_broker_fd p"
    | (other) "fd \<noteq> publish_work_event_fd p" "fd \<noteq> space_available_event_fd p" "fd \<noteq> pub_broker_fd p" by blast
  then show ?thesis
  proof cases
    case work
    with code have h: "handle_publish_work_event sig drain ready p w = Some (reason, ready', p', w')"
      and a: "answers' = answers" by (auto simp: handle_worker_event_def bind_eq_Some_conv)
    from handle_publish_work_event_going [OF h g] a show ?thesis by (blast intro: uses_none)
  next
    case space
    with code have h: "handle_space_available_event sig drain ready p w = (reason, ready', p', w')"
      and a: "answers' = answers" by (auto simp: handle_worker_event_def split: prod.split_asm)
    show ?thesis
    proof (cases "drain (space_available_event_fd p)")
      case True
      with h resume_if_ready_going g a show ?thesis
        by (fastforce simp: handle_space_available_event_def intro: uses_none)
    next
      case False
      with h g a show ?thesis by (auto simp: handle_space_available_event_def intro: uses_none)
    qed
  next
    case broker
    with code have h: "handle_broker_control_event sig answers ready p w = Some (reason, answers', ready', p', w')"
      by (simp add: handle_worker_event_def)
    from handle_broker_control_event_going [OF h g wf] show ?thesis unfolding uses_def by blast
  next
    case other
    with code g show ?thesis by (auto simp: handle_worker_event_def intro: uses_none)
  qed
qed

lemma events_frame: "keeps_fds p w (p\<lparr>pub_events := fds\<rparr>) w" "going (p\<lparr>pub_events := fds\<rparr>) w \<longleftrightarrow> going p w"
  by (simp_all add: keeps_fds_def object_fds_def going_def)

lemma run_events_going:
  "run_events sig drain fds answers ready p w = Some (running, reason, answers', ready', p', w') \<Longrightarrow> going p w \<Longrightarrow>
   \<forall>a \<in> set answers. well_formed a \<Longrightarrow>
   uses answers p w answers' p' w' \<and> (running \<and> reason = RunNone \<longrightarrow> going p' w')"
proof (induction fds arbitrary: answers ready p w)
  case Nil
  then show ?case by (auto simp: events_frame(2) intro: uses_none [OF events_frame(1)])
next
  case (Cons fd fds)
  let ?p = "p\<lparr>pub_events := fds\<rparr>"
  have g: "going ?p w" using Cons.prems(2) by (simp add: events_frame(2))
  show ?case
  proof (cases "fd = pub_shutdown_event_fd p \<and> fd \<noteq> publish_work_event_fd p
      \<and> fd \<noteq> space_available_event_fd p \<and> fd \<noteq> pub_broker_fd p")
    case True
    with Cons.prems(1) show ?thesis by (auto simp: Let_def intro: uses_none [OF events_frame(1)])
  next
    case False
    then have "run_events sig drain (fd # fds) answers ready p w = do {
        (reason, answers, ready, p, w) \<leftarrow> handle_worker_event sig drain fd answers ready ?p w;
        if reason \<noteq> RunNone then Some (True, reason, answers, ready, p, w)
        else run_events sig drain fds answers ready p w }"
      by (auto simp: Let_def)
    note prem = Cons.prems(1) [unfolded this]
    then obtain r2 a2 rd2 p2 w2 where
      h: "handle_worker_event sig drain fd answers ready ?p w = Some (r2, a2, rd2, p2, w2)"
      by (auto simp: bind_eq_Some_conv)
    note hw = handle_worker_event_going [OF h g Cons.prems(3)]
    have u: "uses answers p w a2 p2 w2"
      using uses_trans [OF uses_none [OF events_frame(1)]] hw by blast
    show ?thesis
    proof (cases "r2 = RunNone")
      case True
      with hw have g2: "going p2 w2" by blast
      from True prem h have "run_events sig drain fds a2 rd2 p2 w2 = Some (running, reason, answers', ready', p', w')"
        by simp
      from Cons.IH [OF this g2 uses_wf [OF u Cons.prems(3)]] u show ?thesis by (blast intro: uses_trans)
    next
      case False
      with prem h u show ?thesis by auto
    qed
  qed
qed

lemma run_loop_going:
  "run_loop sig drain waits answers ready p w = Some (reason, p', w') \<Longrightarrow> going p w \<Longrightarrow>
   \<forall>a \<in> set answers. well_formed a \<Longrightarrow> \<exists>rest. uses answers p w rest p' w'"
proof (induction sig drain waits answers ready p w rule: run_loop.induct)
  case (2 sig drain errno waits answers ready p w)
  then show ?case using uses_refl by simp
next
  case (3 sig drain fds waits answers ready p w)
  show ?case
  proof (cases "fds = []")
    case True
    with "3.prems" show ?thesis using uses_refl by simp
  next
    case False
    with "3.prems"(1) obtain running r2 a2 rd2 p2 w2 where
      e: "run_events sig drain fds answers ready p w = Some (running, r2, a2, rd2, p2, w2)"
      by (auto simp: bind_eq_Some_conv)
    note re = run_events_going [OF e "3.prems"(2,3)]
    then have u: "uses answers p w a2 p2 w2" by blast
    show ?thesis
    proof (cases "running \<and> r2 = RunNone")
      case True
      then have "run_loop sig drain waits a2 rd2 p2 w2 = Some (reason, p', w')"
        using "3.prems"(1) False e by simp
      with "3.IH" [OF False e refl refl refl refl refl True this _ uses_wf [OF u "3.prems"(3)]] re True u
      show ?thesis by (blast intro: uses_trans)
    next
      case no: False
      then show ?thesis using "3.prems"(1) False e u by auto
    qed
  qed
qed simp

lemma worker_exit_fds: "worker_exit sig reason p w = (p', w') \<Longrightarrow> keeps_fds p w p' w'"
  by (auto simp: worker_exit_def Let_def keeps_fds_def object_fds_def complete_outstanding_messages_def
      split: if_split_asm)

lemma worker_thread_uses:
  assumes code: "worker_thread sig drain waits answers p w = Some (reason, p', w')"
    and g: "going p w" and wf: "\<forall>a \<in> set answers. well_formed a"
  shows "\<exists>rest. uses answers p w rest p' w'"
proof -
  from code obtain p1 w1 where
    l: "run_loop sig drain (if pub_events p = [] then waits else EpollEvents (pub_events p) # waits)
      answers True p w = Some (reason, p1, w1)"
    and e: "worker_exit sig reason p1 w1 = (p', w')"
    by (auto simp: worker_thread_def run_worker_def bind_eq_Some_conv worker_exit_inactive Let_def
      split: prod.split_asm)
  from run_loop_going [OF l g wf] obtain rest where "uses answers p w rest p1 w1" by blast
  from uses_trans [OF this uses_none [OF worker_exit_fds [OF e]]] show ?thesis by blast
qed

section \<open>The destructor\<close>

lemma stop_run_thread_uses:
  assumes code: "stop_run_thread a intent obj w = Some (b, obj', w')"
    and g: "going (object obj) w" and wf: "\<forall>x \<in> set (worker_received a). well_formed x"
  shows "\<exists>rest. uses (worker_received a) (object obj) w rest (object obj') w'"
proof (cases "run_thread obj")
  case Running
  let ?p = "(object obj)\<lparr>worker_stop_intent := intent\<rparr>"
  let ?w = "if worker_signal a (pub_shutdown_event_fd ?p)
    then w\<lparr>signalled := signalled w @ [pub_shutdown_event_fd ?p]\<rparr> else w"
  from code Running obtain reason p' where
    t: "worker_thread (worker_signal a) (worker_drain a) (worker_waits a) (worker_received a) ?p ?w = Some (reason, p', w')"
    and o: "object obj' = p'"
    by (auto simp: stop_run_thread_def Let_def bind_eq_Some_conv)
  have "data_inv ?p sd \<longleftrightarrow> data_inv (object obj) sd" for sd by (rule data_inv_cong) simp_all
  then have g': "going ?p ?w" using g by (simp add: going_def)
  have "keeps_fds (object obj) w ?p ?w" by (simp add: keeps_fds_def object_fds_def)
  with worker_thread_uses [OF t g' wf] o show ?thesis by (blast intro: uses_trans uses_none)
qed (use code uses_refl in \<open>auto simp: stop_run_thread_def\<close>)

text \<open>What the destructor closes: the descriptors owned, and those received while the worker was
  stopped.\<close>

lemma release_resources_closes:
  assumes code: "release_resources a obj h = Some (obj', h')"
    and g: "going (object obj) (world h)" and wf: "\<forall>x \<in> set (worker_received a). well_formed x"
  shows "\<exists>used rest. worker_received a = used @ rest
    \<and> open_fds (closed (world h')) = open_fds (closed (world h)) + owned obj + open_fds (concat (map received_fds used))
    \<and> bare obj' \<and> mapped h' = mapped h - set_option (shared_data_ptr obj)
    \<and> shm_names h' = (if shm_name obj = '''' then shm_names h else shm_names h - {shm_name obj})"
proof -
  from code obtain b joined w where s: "stop_run_thread a Destroy obj (world h) = Some (b, joined, w)"
    by (auto simp: release_resources_def bind_eq_Some_conv)
  from stop_run_thread_uses [OF s g wf] obtain used rest where
    u: "worker_received a = used @ rest"
      "balanced (concat (map received_fds used)) (object obj) (world h) (object joined) w" by (auto simp: uses_def)
  from release_resources_correct [OF s] code have r: "bare obj'" "ledger (h\<lparr>world := w\<rparr>) (owned joined) h' {#}"
    "mapped h' = mapped h - set_option (shared_data_ptr obj)"
    "shm_names h' = (if shm_name obj = '''' then shm_names h else shm_names h - {shm_name obj})" by auto
  have o: "opened h' = opened h" "closed (world h') = closed w @ close_each (object_fds (object joined))"
    using code s stop_run_thread_joined [OF s]
    by (auto simp: release_resources_def Let_def shm_unlink_def host_close_all_def split: option.splits if_split_asm)
  have c: "open_fds (close_each fds) = open_fds fds" for fds by (simp add: close_each_def open_fds_def)
  have "open_fds (closed (world h')) = open_fds (closed (world h)) + owned obj + open_fds (concat (map received_fds used))"
    using u(2) unfolding balanced_def o by (simp add: c ac_simps)
  with u(1) r show ?thesis by blast
qed

section \<open>The move\<close>

text \<open>Whatever the outcome, the descriptors of the source, and those that arrived while its worker
  was stopped, are owned by the target, still owned by the source, or closed.\<close>

lemma take_resources_from_balance:
  assumes code: "take_resources_from a created this other h = Some (t, this', other', h')"
    and bare: "bare this" and g: "going (object other) (world h)"
    and wf: "\<forall>x \<in> set (worker_received a). well_formed x"
  shows "\<exists>used rest. worker_received a = used @ rest
    \<and> owned this' + owned other' + open_fds (closed (world h'))
      = owned other + open_fds (closed (world h)) + open_fds (concat (map received_fds used))
    \<and> (t = TransferDrainFailed \<longrightarrow> this' = this) \<and> (t \<noteq> TransferDrainFailed \<longrightarrow> bare other')
    \<and> (t = Transferred \<longrightarrow> shared_data_ptr this' = shared_data_ptr other \<and> shm_name this' = shm_name other \<and> memory_kept h h')
    \<and> (t = TransferThreadFailed \<longrightarrow> bare this' \<and> mapped h' = mapped h - set_option (shared_data_ptr other))"
proof -
  from code obtain restart joined w where s: "stop_run_thread a Transfer other (world h) = Some (restart, joined, w)"
    by (auto simp: take_resources_from_def bind_eq_Some_conv)
  from stop_run_thread_uses [OF s g wf] obtain used rest where
    u: "worker_received a = used @ rest"
      "balanced (concat (map received_fds used)) (object other) (world h) (object joined) w" by (auto simp: uses_def)
  note j = stop_run_thread_joined [OF s]
  note b = moved_from_bare [of joined]
  let ?h = "h\<lparr>world := w\<rparr>"
  have own: "owned (moved_from joined) = {#}" "owned this = {#}" using b j bare by (simp_all add: bare_def)
  have bal: "owned joined + open_fds (closed w)
      = owned other + open_fds (closed (world h)) + open_fds (concat (map received_fds used))"
    using u(2) by (simp add: balanced_def)
  consider (drain) "restart" "t = TransferDrainFailed" "this' = this" "other' = joined" "h' = ?h"
    | (moved) "t = Transferred" "other' = moved_from joined" "h' = ?h"
        "this' = moved this joined \<or> this' = snd (start_run_thread True (moved this joined))"
    | (failed) "t = TransferThreadFailed" "other' = moved_from joined"
        "release_resources a (snd (start_run_thread False (moved this joined))) ?h = Some (this', h')"
    using code s
    by (cases restart; cases created)
      (auto simp: take_resources_from_def Let_def start_run_thread_def bind_eq_Some_conv split: if_split_asm)
  then show ?thesis
  proof cases
    case drain
    with bal own u(1) show ?thesis by auto
  next
    case moved
    then have "owned this' = owned joined" "shared_data_ptr this' = shared_data_ptr other" "shm_name this' = shm_name other"
      using j by auto
    with moved bal own u(1) b j show ?thesis by (auto simp: memory_kept_def)
  next
    case failed
    let ?o = "snd (start_run_thread False (moved this joined))"
    have i: "run_thread ?o = NotJoinable" using bare by (simp add: bare_def)
    from release_resources_idle [OF i, of a ?h] failed(3) have r: "bare this'" "ledger ?h (owned ?o) h' {#}"
      "mapped h' = mapped ?h - set_option (shared_data_ptr ?o)" by auto
    have o: "closed (world h') = closed w @ close_each (object_fds (object ?o))"
      using failed(3) i
      by (auto simp: release_resources_def stop_run_thread_def Let_def shm_unlink_def host_close_all_def
        split: option.splits if_split_asm)
    have c: "open_fds (close_each fds) = open_fds fds" for fds by (simp add: close_each_def open_fds_def)
    have "owned this' + owned other' + open_fds (closed (world h')) = owned joined + open_fds (closed w)"
      using own r(1) failed(2) by (simp add: bare_def o c ac_simps)
    with bal failed u(1) b j r show ?thesis by auto
  qed
qed

end
