(* ===== verification/Lifecycle_Properties.thy ===== *)
theory Lifecycle_Properties
  imports Publisher_Teardown
begin

text \<open>
  The properties of creation and destruction, each with its use on a concrete process.
\<close>

section \<open>A publisher that is created and destroyed\<close>

definition demo_host :: host where
  "demo_host = \<lparr>world = demo_io zero_shared_data, opened = [], mapped = {}, shm_names = {}, host_sent = []\<rparr>"

definition demo_answers :: create_answers where
  "demo_answers =
    \<lparr>unlink_answer = SysErr ENOENT, shm_open_answer = 10, ftruncate_ok = True,
     mmap_shared = Some (4096, zero_shared_data), epoll_create_answer = 11, socket_answer = 12,
     connect_ok = (\<lambda>n. n = 1), space_eventfd = 13, work_eventfd = 14, shutdown_eventfd = 15,
     exit_eventfd = 16, watch_ok = all_ok, signal_ok = all_ok, registration_sent = 2,
     count_received = le_bytes 4 (1 :: u32),
     registrations_received = [RecvMsg (send_packet_with_fd (subscriber_event_fd_and_slot_packet 3) 9)],
     thread_created = True\<rparr>"

lemma demo_answers_ok:
  "\<forall>n. field_u32 (count_received demo_answers) 0 = Some n \<longrightarrow> unat n \<le> length (registrations_received demo_answers)"
  "\<forall>a \<in> set (registrations_received demo_answers). well_formed a"
  "\<forall>addr sd. mmap_shared demo_answers = Some (addr, sd) \<longrightarrow> addr \<notin> mapped demo_host"
  using field_u32_le [of 0 "[]" "1 :: u32" "[]"]
  by (simp_all add: demo_answers_def demo_host_def well_formed_def control_ok_def send_packet_with_fd_def host_gain_def)

text \<open>The broker's message is read as it was sent.\<close>

lemma receive_subscriber_registration_sent:
  assumes "0 \<le> fd"
  shows "receive_subscriber_registration (RecvMsg (send_packet_with_fd (subscriber_event_fd_and_slot_packet slot) fd)) h
    = Some (Inr \<lparr>reg_event_fd = fd, reg_slot_index = slot\<rparr>, h\<lparr>opened := opened h @ [fd]\<rparr>)"
proof -
  have b: "msg_bytes (send_packet_with_fd (subscriber_event_fd_and_slot_packet slot) fd) = 4 # le_bytes 4 slot"
    "control_fds (msg_control (send_packet_with_fd (subscriber_event_fd_and_slot_packet slot) fd)) = [fd]"
    by (simp_all add: send_packet_with_fd_def host_gain_def subscriber_event_fd_and_slot_packet_def control_fds_def)
  have r: "receive_packet_with_fd (RecvMsg (send_packet_with_fd (subscriber_event_fd_and_slot_packet slot) fd)) (-1)
      = Some (5, 0, fd, [])"
    by (simp add: receive_packet_with_fd_def host_gain_def b send_packet_with_fd_def host_gain_def close_received_fds_len close_each_def)
       (simp add: subscriber_event_fd_and_slot_packet_def)
  have "field_u32 (4 # le_bytes 4 slot) 1 = Some slot" using field_u32_le [of 1 "[4]" slot "[]"] by simp
  then show ?thesis
    using assms
    by (simp add: receive_subscriber_registration_def r b received_fds_def host_close_all_def close_each_def Let_def
      kSubscriberEventFdAndSlotMessageSize_def message_type_of_def del: One_nat_def)
qed

lemma demo_created:
  "\<exists>obj h'. create_publisher demo_answers kTopicCamera ''/camera'' SYNCHRONOUS demo_host = Some (Inr obj, h')
    \<and> opened h' = [10, 11, 12, 13, 14, 9] \<and> closed (world h') = [10]
    \<and> data_available_event_fds (object obj) = [9] \<and> pub_broker_fd (object obj) = 12 \<and> shm_name obj = ''/camera''
    \<and> shared_data_ptr obj = Some 4096 \<and> mapped h' = {4096} \<and> shm_names h' = {''/camera''}"
proof -
  obtain sd where sd: "create_shared_data zero_shared_data = Some sd" "\<forall>s. \<not> active sd s" using demo_segment by blast
  then have rd: "descriptor_read_indices sd 3 = kInvalidIndex" by (auto simp: active_def kMaxSubscribers_def)
  have n: "field_u32 (le_bytes 4 (1 :: u32)) 0 = Some 1" using field_u32_le [of 0 "[]" "1 :: u32" "[]"] by simp
  show ?thesis
    by (simp add: create_publisher_def create_and_map_shared_data_def demo_answers_def sd shm_unlink_def
      acquire_resources_def with_fd_def host_gain_def connect_and_register_def connect_to_broker_def broker_connected_iff
      register_and_create_eventfds_def send_publisher_topic_registration_def create_work_eventfds_def
      create_worker_eventfds_def Let_def SYNCHRONOUS_def ASYNCHRONOUS_def publisher_topic_registration_packet_def
      demo_host_def)
     (simp add: complete_creation_def receive_and_track_initial_subscriber_registrations_def Let_def n
      receive_subscriber_registration_sent track_subscriber_def array_simps rd kMaxSubscribers_def
      new_publisher_def take_resources_from_idle moved_def moved_from_def release_resources_def stop_run_thread_def
      empty_publisher_def ASYNCHRONOUS_def host_close_all_def close_each_def host_close_def close_fd_def
      demo_io_def object_fds_def)
qed

text \<open>Property C29. Creating a publisher is all or nothing: \<open>create\<close> always returns once the broker
  has answered; whichever step fails, every descriptor obtained or received so far is closed
  exactly once, the segment is unmapped and its name unlinked; on success the object owns every
  descriptor that was not closed, the segment is mapped, and publisher and segment satisfy the
  invariant of the data plane with all queues empty.\<close>

theorem create_publisher_all_or_nothing:
  assumes "name \<noteq> ''''"
    and "\<forall>addr sd. mmap_shared k = Some (addr, sd) \<longrightarrow> addr \<notin> mapped h"
    and "\<forall>n. field_u32 (count_received k) 0 = Some n \<longrightarrow> unat n \<le> length (registrations_received k)"
    and "\<forall>a \<in> set (registrations_received k). well_formed a"
  shows "\<exists>r h'. create_publisher k topic name flags h = Some (r, h') \<and> (case r of
      Inl e \<Rightarrow> ledger h {#} h' {#} \<and> mapped h' = mapped h \<and> shm_names h - {name} \<subseteq> shm_names h'
        \<and> shm_names h' \<subseteq> shm_names h
    | Inr obj \<Rightarrow> ledger h {#} h' (owned obj) \<and> mapped h' = mapped h \<union> fst ` set_option (mmap_shared k)
        \<and> shm_names h' = insert name (shm_names h) \<and> shm_name obj = name
        \<and> data_inv (object obj) (shm (world h')) \<and> (\<forall>s. queue (shm (world h')) s = []))"
proof -
  from create_publisher_correct [OF assms, of topic flags] obtain r h' where
    "create_publisher k topic name flags h = Some (r, h')"
    "created_as name (fst ` set_option (mmap_shared k)) flags h r h'" by blast
  then show ?thesis by (cases r) (auto simp: created_as_def quiet_def)
qed

lemma demo_name: "''/camera'' \<noteq> ''''"
  by simp

theorem create_publisher_all_or_nothing_witness:
  "\<exists>obj h'. create_publisher demo_answers kTopicCamera ''/camera'' SYNCHRONOUS demo_host = Some (Inr obj, h')
    \<and> opened h' = [10, 11, 12, 13, 14, 9] \<and> closed (world h') = [10] \<and> owned obj = {#11, 12, 13, 14, 9#}"
proof -
  obtain obj h' where c: "create_publisher demo_answers kTopicCamera ''/camera'' SYNCHRONOUS demo_host = Some (Inr obj, h')"
    and o: "opened h' = [10, 11, 12, 13, 14, 9]" "closed (world h') = [10]"
    using demo_created by blast
  from create_publisher_all_or_nothing [OF demo_name demo_answers_ok(3,1,2), of kTopicCamera SYNCHRONOUS] c
  have "ledger demo_host {#} h' (owned obj)" by simp
  then have "mset (opened h') = mset (closed (world h')) + owned obj"
    by (simp add: fd_ledger_def demo_host_def demo_io_def)
  with o have "owned obj = {#11, 12, 13, 14, 9#}" by simp
  with c o show ?thesis by blast
qed

text \<open>The publisher of the example satisfies the invariant in which it can be used, moved and destroyed.\<close>

lemma demo_created_going:
  "\<exists>obj (h' :: host). opened h' = [10, 11, 12, 13, 14, 9] \<and> closed (world h') = [10] \<and> owned obj = {#11, 12, 13, 14, 9#}
    \<and> going (object obj) (world h') \<and> run_thread obj = NotJoinable \<and> shm_name obj = ''/camera''
    \<and> shared_data_ptr obj = Some 4096 \<and> mapped h' = {4096} \<and> shm_names h' = {''/camera''}"
proof -
  from demo_created obtain obj h' where
    c: "create_publisher demo_answers kTopicCamera ''/camera'' SYNCHRONOUS demo_host = Some (Inr obj, h')"
    and o: "opened h' = [10, 11, 12, 13, 14, 9]" "closed (world h') = [10]" "pub_broker_fd (object obj) = 12"
      "shm_name obj = ''/camera''" "shared_data_ptr obj = Some 4096" "mapped h' = {4096}" "shm_names h' = {''/camera''}"
    by blast
  from create_publisher_correct [OF demo_name demo_answers_ok(3,1,2), of kTopicCamera SYNCHRONOUS] c have
    l: "ledger demo_host {#} h' (owned obj)" and q: "quiet (object obj) (shm (world h'))"
    and t: "run_thread obj = NotJoinable"
    by (auto simp: created_as_def SYNCHRONOUS_def ASYNCHRONOUS_def)
  from l have "mset (opened h') = mset (closed (world h')) + owned obj"
    by (simp add: fd_ledger_def demo_host_def demo_io_def)
  with o have "owned obj = {#11, 12, 13, 14, 9#}" by simp
  moreover have "going (object obj) (world h')" using q o(3) by (simp add: going_def quiet_def)
  ultimately show ?thesis using o t by blast
qed

text \<open>Property C30. The destructor gives everything back: whatever the worker still does while it is
  being stopped, every descriptor the object owned and every descriptor that arrived meanwhile is
  closed, once; the segment is unmapped, its name unlinked, and the object owns nothing.\<close>

theorem publisher_destructor_closes_all:
  assumes "release_resources a obj h = Some (obj', h')"
    and "data_inv (object obj) (shm (world h))" "0 \<le> pub_broker_fd (object obj)"
    and "\<forall>x \<in> set (worker_received a). well_formed x"
  shows "\<exists>used rest. worker_received a = used @ rest
    \<and> open_fds (closed (world h')) = open_fds (closed (world h)) + owned obj + open_fds (concat (map received_fds used))
    \<and> bare obj' \<and> mapped h' = mapped h - set_option (shared_data_ptr obj)
    \<and> shm_names h' = (if shm_name obj = '''' then shm_names h else shm_names h - {shm_name obj})"
  by (rule release_resources_closes [OF assms(1) _ assms(4)]) (simp add: going_def assms)

theorem publisher_destructor_closes_all_witness:
  "\<exists>obj (h :: host) obj' h'. release_resources no_worker obj h = Some (obj', h') \<and> opened h = [10, 11, 12, 13, 14, 9]
    \<and> mset (closed (world h')) = {#10, 9, 14, 13, 12, 11#} \<and> mapped h' = {} \<and> shm_names h' = {}"
proof -
  from demo_created_going obtain obj and h :: host where
    o: "opened h = [10, 11, 12, 13, 14, 9]" "closed (world h) = [10]" "owned obj = {#11, 12, 13, 14, 9#}"
      "going (object obj) (world h)" "run_thread obj = NotJoinable" "shm_name obj = ''/camera''"
      "shared_data_ptr obj = Some 4096" "mapped h = {4096}" "shm_names h = {''/camera''}" by blast
  from release_resources_idle [OF o(5), of no_worker h] obtain obj' h' where
    r: "release_resources no_worker obj h = Some (obj', h')" "ledger h (owned obj) h' {#}" by blast
  have inv: "data_inv (object obj) (shm (world h))" "0 \<le> pub_broker_fd (object obj)"
    using o(4) by (simp_all add: going_def)
  have w: "\<forall>x \<in> set (worker_received no_worker). well_formed x" by (simp add: no_worker_def)
  from publisher_destructor_closes_all [OF r(1) inv w] o have
    m: "open_fds (closed (world h')) = {#10, 9, 14, 13, 12, 11#}" "mapped h' = {}" "shm_names h' = {}"
    by (auto simp: no_worker_def)
  have "opened h' = opened h"
    using r(1) o(5,6,7)
    by (auto simp: release_resources_def stop_run_thread_def Let_def shm_unlink_def host_close_all_def)
  with r(2) o(2,3) have "mset (closed (world h')) = {#10, 9, 14, 13, 12, 11#}" by (simp add: fd_ledger_def)
  with r(1) o(1) m show ?thesis by blast
qed

text \<open>A move neither loses nor duplicates a descriptor, whatever its outcome: those of the
  source, and those that arrived while its worker was stopped, are afterwards owned by the
  target, still owned by the source, or closed.  Without a running worker it hands over
  everything; when the target's worker cannot be started everything is closed.\<close>

theorem publisher_move_balanced:
  assumes "take_resources_from a created this other h = Some (t, this', other', h')"
    and "bare this" "data_inv (object other) (shm (world h))" "0 \<le> pub_broker_fd (object other)"
    and "\<forall>x \<in> set (worker_received a). well_formed x"
  shows "\<exists>used rest. worker_received a = used @ rest
    \<and> owned this' + owned other' + open_fds (closed (world h'))
      = owned other + open_fds (closed (world h)) + open_fds (concat (map received_fds used))
    \<and> (t = TransferDrainFailed \<longrightarrow> this' = this) \<and> (t \<noteq> TransferDrainFailed \<longrightarrow> bare other')
    \<and> (t = Transferred \<longrightarrow> shared_data_ptr this' = shared_data_ptr other \<and> shm_name this' = shm_name other \<and> memory_kept h h')
    \<and> (t = TransferThreadFailed \<longrightarrow> bare this' \<and> mapped h' = mapped h - set_option (shared_data_ptr other))"
  by (rule take_resources_from_balance [OF assms(1,2) _ assms(5)]) (simp add: going_def assms)

theorem publisher_move_balanced_witness:
  "\<exists>obj (h :: host) this' other'. take_resources_from no_worker True empty_publisher obj h = Some (Transferred, this', other', h)
    \<and> owned obj = {#11, 12, 13, 14, 9#} \<and> owned this' = {#11, 12, 13, 14, 9#} \<and> bare other'"
proof -
  from demo_created_going obtain obj and h :: host where
    o: "owned obj = {#11, 12, 13, 14, 9#}" "going (object obj) (world h)" "run_thread obj = NotJoinable" by blast
  note t = take_resources_from_idle [OF o(3), of no_worker True empty_publisher h]
  have inv: "data_inv (object obj) (shm (world h))" "0 \<le> pub_broker_fd (object obj)"
    using o(2) by (simp_all add: going_def)
  have w: "\<forall>x \<in> set (worker_received no_worker). well_formed x" by (simp add: no_worker_def)
  have b: "bare empty_publisher" unfolding empty_publisher_def by (rule moved_from_bare) simp
  from publisher_move_balanced [OF t b inv w] o(1) have
    "owned (moved empty_publisher obj) = {#11, 12, 13, 14, 9#}" "bare (moved_from obj)"
    by (auto simp: no_worker_def bare_def)
  with t o(1) show ?thesis by blast
qed

end
