(* ===== verification/Subscriber_Lifecycle.thy ===== *)
theory Subscriber_Lifecycle
  imports Subscriber_Control Client_Connection
begin

text \<open>
  The life of a \<open>Subscriber\<close> (\<open>src/subscriber.cpp\<close>): creation and registration, the worker's
  thread, the transfer by a move, and destruction.  As for the publisher, an \<open>FdGuard\<close> is a
  function around the rest of its scope.
\<close>

section \<open>The object and its process\<close>

datatype sub_create_error =
    SubEpollCreateFailed | SubBrokerSocketCreateFailed | SubBrokerConnectFailed
  | SubBrokerEpollRegistrationFailed | SubTopicRegistrationSendFailed | TopicRegistrationCountExceeded
  | SubscriberModeFlagsInvalid | AsyncCallbackMissing | SubShutdownEventFdCreateFailed
  | ShutdownEpollRegistrationFailed | SubWorkerExitEventFdCreateFailed | SubRunThreadCreateFailed
  | TransferEventDrainFailed

text \<open>\<open>worker_exit_future_\<close>: invalid, pending, or ready with the worker's reason.\<close>

record subscriber_object =
  subscriber_of :: subscriber
  callback_set :: bool
  sub_run_thread :: "sub_run_error run_thread"
  sub_run_thread_active :: bool
  worker_exit_future :: "sub_run_error option option"

text \<open>The process: the effects of the operations of the subscriber, the descriptors obtained from
  the kernel, the messages sent to the broker and the writes to the worker's eventfds.\<close>

record sub_host =
  sub_process :: sub_world
  sub_opened :: "int list"
  sub_sent :: "bytes list"
  sub_signalled :: "int list"

text \<open>The kernel's answers during one call of \<open>create\<close>.\<close>

record sub_create_answers =
  sub_epoll_create_answer :: int
  sub_socket_answer :: int
  sub_connect_ok :: "nat \<Rightarrow> bool"
  sub_registration_sent :: int
  sub_watch_ok :: "int \<Rightarrow> bool"
  sub_shutdown_eventfd :: int
  sub_exit_eventfd :: int
  sub_thread_created :: bool

definition sub_host_gain :: "int \<Rightarrow> sub_host \<Rightarrow> sub_host" where
  "sub_host_gain fd h = h\<lparr>sub_opened := sub_opened h @ [fd]\<rparr>"

definition sub_host_close :: "int \<Rightarrow> sub_host \<Rightarrow> sub_host" where
  "sub_host_close fd h = h\<lparr>sub_process := sub_close_fd fd (sub_process h)\<rparr>"

definition sub_host_watch :: "int \<Rightarrow> attachment_id \<Rightarrow> sub_host \<Rightarrow> sub_host" where
  "sub_host_watch fd ident h =
     h\<lparr>sub_process := (sub_process h)\<lparr>sub_watched := sub_watched (sub_process h) @ [(fd, ident)]\<rparr>\<rparr>"

definition sub_host_signal :: "bool \<Rightarrow> int \<Rightarrow> sub_host \<Rightarrow> sub_host" where
  "sub_host_signal ok fd h = (if ok then h\<lparr>sub_signalled := sub_signalled h @ [fd]\<rparr> else h)"

type_synonym 'a sub_creation = "(sub_create_error + 'a) \<times> sub_host"

abbreviation sub_guarded :: "sub_create_error \<Rightarrow> int \<Rightarrow> (sub_host \<Rightarrow> 'a sub_creation) \<Rightarrow> sub_host \<Rightarrow> 'a sub_creation" where
  "sub_guarded \<equiv> with_fd sub_host_gain sub_host_close"

section \<open>Creation up to the constructor\<close>

definition sub_connect_to_broker :: "sub_create_answers \<Rightarrow> sub_host \<Rightarrow> int sub_creation" where
  "sub_connect_to_broker k h =
     sub_guarded SubBrokerSocketCreateFailed (sub_socket_answer k)
       (\<lambda>h. (if broker_connected (sub_connect_ok k) then Inr (sub_socket_answer k) else Inl SubBrokerConnectFailed, h)) h"

definition send_subscriber_topic_registration ::
  "sub_create_answers \<Rightarrow> topic_id list \<Rightarrow> sub_host \<Rightarrow> sub_create_error option \<times> sub_host"
where
  "send_subscriber_topic_registration k topic_ids h =
     (case subscriber_topic_registration_packet topic_ids of
        None \<Rightarrow> (Some TopicRegistrationCountExceeded, h)
      | Some packet \<Rightarrow>
          if sub_registration_sent k \<noteq> int (length packet) then (Some SubTopicRegistrationSendFailed, h)
          else (None, h\<lparr>sub_sent := sub_sent h @ [packet]\<rparr>))"

definition sub_mode :: "u32 \<Rightarrow> u32" where
  "sub_mode flags = flags AND (SUB_SYNCHRONOUS OR SUB_ASYNCHRONOUS)"

text \<open>The two eventfds of the worker, \<open>-1\<close> in the synchronous mode.\<close>

definition sub_create_worker_eventfds :: "sub_create_answers \<Rightarrow> u32 \<Rightarrow> sub_host \<Rightarrow> (int \<times> int) sub_creation" where
  "sub_create_worker_eventfds k flags h =
     (if sub_mode flags \<noteq> SUB_ASYNCHRONOUS then (Inr (-1, -1), h)
      else sub_guarded SubShutdownEventFdCreateFailed (sub_shutdown_eventfd k) (\<lambda>h.
        if \<not> sub_watch_ok k (sub_shutdown_eventfd k) then (Inl ShutdownEpollRegistrationFailed, h)
        else sub_guarded SubWorkerExitEventFdCreateFailed (sub_exit_eventfd k)
          (\<lambda>h. (Inr (sub_shutdown_eventfd k, sub_exit_eventfd k), h))
          (sub_host_watch (sub_shutdown_eventfd k) kShutdownEventId h)) h)"

definition sub_register ::
  "sub_create_answers \<Rightarrow> topic_id list \<Rightarrow> u32 \<Rightarrow> int \<Rightarrow> sub_host \<Rightarrow> (int \<times> int) sub_creation"
where
  "sub_register k topic_ids flags broker_fd h =
     (case send_subscriber_topic_registration k topic_ids h of
        (Some e, h) \<Rightarrow> (Inl e, h)
      | (None, h) \<Rightarrow>
          if \<not> sub_watch_ok k broker_fd then (Inl SubBrokerEpollRegistrationFailed, h)
          else sub_create_worker_eventfds k flags (sub_host_watch broker_fd kBrokerEventId h))"

text \<open>The guard of the socket begins when it has been returned connected.\<close>

definition sub_connect_and_register ::
  "sub_create_answers \<Rightarrow> topic_id list \<Rightarrow> u32 \<Rightarrow> sub_host \<Rightarrow> (int \<times> int \<times> int) sub_creation"
where
  "sub_connect_and_register k topic_ids flags h = (case sub_connect_to_broker k h of
     (Inl e, h) \<Rightarrow> (Inl e, h)
   | (Inr broker_fd, h) \<Rightarrow> (case sub_register k topic_ids flags broker_fd h of
         (Inl e, h) \<Rightarrow> (Inl e, sub_host_close broker_fd h)
       | (Inr fds, h) \<Rightarrow> (Inr (broker_fd, fds), h)))"

text \<open>\<open>InitialResources\<close> and the constructor.\<close>

definition new_subscriber :: "u32 \<Rightarrow> bool \<Rightarrow> int \<Rightarrow> int \<times> int \<times> int \<Rightarrow> subscriber_object" where
  "new_subscriber flags callback epoll_fd = (\<lambda>(broker_fd, shutdown_fd, exit_fd).
     \<lparr>subscriber_of =
        \<lparr>sub_flags = flags, sub_epoll_fd = epoll_fd, sub_broker_fd = broker_fd,
         sub_shutdown_event_fd = shutdown_fd, sub_worker_exit_event_fd = exit_fd, sub_events = [],
         publisher_attachment_by_data_available_event_fd = Map.empty,
         data_available_event_fd_by_attachment_id = Map.empty\<rparr>,
      callback_set = callback, sub_run_thread = NotJoinable, sub_run_thread_active = False,
      worker_exit_future = None\<rparr>)"

definition sub_acquire_resources ::
  "sub_create_answers \<Rightarrow> topic_id list \<Rightarrow> u32 \<Rightarrow> bool \<Rightarrow> sub_host \<Rightarrow> subscriber_object sub_creation"
where
  "sub_acquire_resources k topic_ids flags callback h =
     (case sub_guarded SubEpollCreateFailed (sub_epoll_create_answer k) (sub_connect_and_register k topic_ids flags) h of
        (Inl e, h) \<Rightarrow> (Inl e, h)
      | (Inr fds, h) \<Rightarrow> (Inr (new_subscriber flags callback (sub_epoll_create_answer k) fds), h))"

section \<open>The worker's thread\<close>

text \<open>What the worker meets while it is being stopped, and the order in which the
  \<open>unordered_map\<close> of attachments is traversed.\<close>

record sub_worker_answers =
  sub_worker_signal :: "int \<Rightarrow> bool"
  sub_worker_drain :: "int \<Rightarrow> bool"
  sub_worker_mmap :: mmap_answer
  sub_worker_watch :: "int \<Rightarrow> bool"
  sub_worker_waits :: "u64 epoll_answer list"
  sub_worker_received :: "received list"
  attachment_order :: "(int \<rightharpoonup> publisher_attachment) \<Rightarrow> int list"

definition reset_worker_exit_notification :: "subscriber_object \<Rightarrow> subscriber_object" where
  "reset_worker_exit_notification obj = obj\<lparr>worker_exit_future := Some None\<rparr>"

text \<open>\<open>created\<close>: whether the thread could be created; otherwise the exception leaves the function.\<close>

definition sub_start_run_thread :: "bool \<Rightarrow> subscriber_object \<Rightarrow> bool \<times> subscriber_object" where
  "sub_start_run_thread created obj =
     (let obj = (reset_worker_exit_notification obj)\<lparr>sub_run_thread_active := True\<rparr> in
      if created then (True, obj\<lparr>sub_run_thread := Running\<rparr>)
      else (False, obj\<lparr>sub_run_thread_active := False\<rparr>))"

text \<open>The thread function, without exceptions of the callback.\<close>

definition sub_worker_thread ::
  "sub_worker_answers \<Rightarrow> subscriber_object \<Rightarrow> sub_host \<Rightarrow> (subscriber_object \<times> sub_host) option"
where
  "sub_worker_thread a obj h = do {
     (reason, s, w) \<leftarrow> sub_run (sub_worker_signal a) (sub_worker_drain a) (sub_worker_mmap a) (sub_worker_watch a)
       (sub_worker_waits a) (sub_worker_received a) (subscriber_of obj) (sub_process h);
     let exit_fd = sub_worker_exit_event_fd s;
     Some (obj\<lparr>subscriber_of := s, worker_exit_future := Some (Some reason), sub_run_thread_active := False\<rparr>,
       sub_host_signal (sub_worker_signal a exit_fd) exit_fd (h\<lparr>sub_process := w\<rparr>))
   }"

text \<open>The caller does nothing else until the thread is joined, so what a running worker still does
  is its thread function from the state it is in.\<close>

definition sub_stop_run_thread ::
  "sub_worker_answers \<Rightarrow> subscriber_object \<Rightarrow> sub_host \<Rightarrow> (bool \<times> subscriber_object \<times> sub_host) option"
where
  "sub_stop_run_thread a obj h =
     (if sub_run_thread obj = NotJoinable then Some (False, obj, h)
      else
        let was_active = sub_run_thread_active obj;
            fd = sub_shutdown_event_fd (subscriber_of obj);
            h = sub_host_signal (was_active \<and> sub_worker_signal a fd) fd h in do {
          (obj, h) \<leftarrow> (if sub_run_thread obj = Running then sub_worker_thread a obj h else Some (obj, h));
          let obj = obj\<lparr>sub_run_thread := NotJoinable\<rparr>;
          Some (was_active \<and> worker_exit_future obj = Some (Some SubRunNone), obj, h)
        })"

section \<open>Destruction and transfer\<close>

text \<open>The traversal of the attachments; \<^term>\<open>None\<close> for a key that the map does not have.\<close>

fun release_attachments :: "int list \<Rightarrow> (int \<rightharpoonup> publisher_attachment) \<Rightarrow> sub_world \<Rightarrow> sub_world option" where
  "release_attachments [] atts w = Some w"
| "release_attachments (fd # fds) atts w = do {
     a \<leftarrow> atts fd;
     release_attachments fds atts (snd (release_publisher_attachment a w))
   }"

definition sub_release_resources ::
  "sub_worker_answers \<Rightarrow> subscriber_object \<Rightarrow> sub_host \<Rightarrow> (subscriber_object \<times> sub_host) option"
where
  "sub_release_resources a obj h = do {
     (_, obj, h) \<leftarrow> sub_stop_run_thread a obj h;
     let s = subscriber_of obj;
     let atts = publisher_attachment_by_data_available_event_fd s;
     w \<leftarrow> release_attachments (attachment_order a atts) atts (sub_process h);
     let w = sub_close_fd (sub_shutdown_event_fd s) w;
     let w = sub_close_fd (sub_worker_exit_event_fd s) w;
     let w = sub_close_fd (sub_epoll_fd s) w;
     let w = sub_close_fd (sub_broker_fd s) w;
     Some (obj\<lparr>subscriber_of := s\<lparr>
         publisher_attachment_by_data_available_event_fd := Map.empty,
         data_available_event_fd_by_attachment_id := Map.empty,
         sub_shutdown_event_fd := fst (close_fd_var (sub_shutdown_event_fd s)),
         sub_worker_exit_event_fd := fst (close_fd_var (sub_worker_exit_event_fd s)),
         sub_epoll_fd := fst (close_fd_var (sub_epoll_fd s)),
         sub_broker_fd := fst (close_fd_var (sub_broker_fd s)), sub_events := []\<rparr>\<rparr>,
       h\<lparr>sub_process := w\<rparr>)
   }"

text \<open>The members that a move takes over, and what it leaves behind; libstdc++ leaves the callback
  empty.\<close>

definition sub_moved :: "subscriber_object \<Rightarrow> subscriber_object \<Rightarrow> subscriber_object" where
  "sub_moved this other =
     other\<lparr>sub_run_thread := sub_run_thread this, sub_run_thread_active := sub_run_thread_active this\<rparr>"

definition sub_moved_from :: "subscriber_object \<Rightarrow> subscriber_object" where
  "sub_moved_from other = other\<lparr>subscriber_of := (subscriber_of other)
     \<lparr>sub_flags := SUB_SYNCHRONOUS, sub_epoll_fd := -1, sub_broker_fd := -1, sub_shutdown_event_fd := -1,
      sub_worker_exit_event_fd := -1, sub_events := [],
      publisher_attachment_by_data_available_event_fd := Map.empty,
      data_available_event_fd_by_attachment_id := Map.empty\<rparr>,
     callback_set := False, worker_exit_future := None\<rparr>"

definition sub_take_resources_from ::
  "sub_worker_answers \<Rightarrow> bool \<Rightarrow> subscriber_object \<Rightarrow> subscriber_object \<Rightarrow> sub_host
     \<Rightarrow> (transfer \<times> subscriber_object \<times> subscriber_object \<times> sub_host) option"
where
  "sub_take_resources_from a created this other h = do {
     (restart, other, h) \<leftarrow> sub_stop_run_thread a other h;
     if restart \<and> \<not> (sub_worker_drain a (sub_shutdown_event_fd (subscriber_of other))
          \<and> sub_worker_drain a (sub_worker_exit_event_fd (subscriber_of other)))
     then Some (TransferDrainFailed, this, other, h)
     else
       let this = sub_moved this other; other = sub_moved_from other in
       if \<not> restart then Some (Transferred, this, other, h)
       else (case sub_start_run_thread created this of
           (True, this) \<Rightarrow> Some (Transferred, this, other, h)
         | (False, this) \<Rightarrow> do {
             (this, h) \<leftarrow> sub_release_resources a this h;
             Some (TransferThreadFailed, this, other, h)
           })
   }"

text \<open>The move assignment to another object.\<close>

definition sub_move_assign ::
  "sub_worker_answers \<Rightarrow> sub_worker_answers \<Rightarrow> bool \<Rightarrow> subscriber_object \<Rightarrow> subscriber_object \<Rightarrow> sub_host
     \<Rightarrow> (transfer \<times> subscriber_object \<times> subscriber_object \<times> sub_host) option"
where
  "sub_move_assign a b created this other h = do {
     (this, h) \<leftarrow> sub_release_resources a this h;
     sub_take_resources_from b created this other h
   }"

definition empty_subscriber :: subscriber_object where
  "empty_subscriber = new_subscriber SUB_SYNCHRONOUS False (-1) (-1, -1, -1)"

section \<open>\<open>create\<close>\<close>

text \<open>From the constructor to the return: the move into the result, then the worker.  No thread
  runs before, so the move and the destructors meet no worker.  The return itself is elided.\<close>

definition no_sub_worker :: sub_worker_answers where
  "no_sub_worker = \<lparr>sub_worker_signal = \<lambda>_. False, sub_worker_drain = \<lambda>_. False, sub_worker_mmap = \<lambda>_ _. None,
     sub_worker_watch = \<lambda>_. False, sub_worker_waits = [], sub_worker_received = [], attachment_order = \<lambda>_. []\<rparr>"

definition sub_complete_creation ::
  "sub_create_answers \<Rightarrow> subscriber_object \<Rightarrow> sub_host \<Rightarrow> subscriber_object sub_creation option"
where
  "sub_complete_creation k obj h = do {
     (t, result, obj, h) \<leftarrow> sub_take_resources_from no_sub_worker True empty_subscriber obj h;
     (r, h) \<leftarrow> (case t of
         TransferDrainFailed \<Rightarrow> Some (Inl TransferEventDrainFailed, h)
       | TransferThreadFailed \<Rightarrow> Some (Inl SubRunThreadCreateFailed, h)
       | Transferred \<Rightarrow>
           if sub_mode (sub_flags (subscriber_of result)) \<noteq> SUB_ASYNCHRONOUS then Some (Inr result, h)
           else (case sub_start_run_thread (sub_thread_created k) result of
               (True, result) \<Rightarrow> Some (Inr result, h)
             | (False, result) \<Rightarrow> do {
                 (_, h) \<leftarrow> sub_release_resources no_sub_worker result h;
                 Some (Inl SubRunThreadCreateFailed, h)
               }));
     (_, h) \<leftarrow> sub_release_resources no_sub_worker obj h;
     Some (r, h)
   }"

definition create_subscriber ::
  "sub_create_answers \<Rightarrow> topic_id list \<Rightarrow> u32 \<Rightarrow> bool \<Rightarrow> sub_host \<Rightarrow> subscriber_object sub_creation option"
where
  "create_subscriber k topic_ids flags callback h =
     (if sub_mode flags \<noteq> SUB_SYNCHRONOUS \<and> sub_mode flags \<noteq> SUB_ASYNCHRONOUS
      then Some (Inl SubscriberModeFlagsInvalid, h)
      else if sub_mode flags = SUB_ASYNCHRONOUS \<and> \<not> callback then Some (Inl AsyncCallbackMissing, h)
      else (case sub_acquire_resources k topic_ids flags callback h of
          (Inl e, h) \<Rightarrow> Some (Inl e, h)
        | (Inr obj, h) \<Rightarrow> sub_complete_creation k obj h))"

end
