(* ===== verification/Subscriber_Resources.thy ===== *)
theory Subscriber_Resources
  imports Subscriber_Lifecycle Subscriber_Tables
begin

text \<open>
  The resources of a subscriber: every descriptor obtained while it is created, and every one that
  arrives with an attachment, is closed exactly once or owned by the object, and the destructor
  gives everything back and unmaps every segment.
\<close>

section \<open>The process\<close>

abbreviation sub_host_closed :: "sub_host \<Rightarrow> int list" where
  "sub_host_closed h \<equiv> sub_closed (sub_process h)"

definition same_segments :: "sub_host \<Rightarrow> sub_host \<Rightarrow> bool" where
  "same_segments h h' \<longleftrightarrow> segments (sub_process h') = segments (sub_process h)"

lemma sub_close_fd_mset: "mset (sub_closed (sub_close_fd fd w)) = mset (sub_closed w) + open_fds [fd]"
  by (simp add: sub_close_fd_def)

lemma sub_host_simps [simp]:
  "sub_opened (sub_host_gain fd h) = sub_opened h @ [fd]" "sub_process (sub_host_gain fd h) = sub_process h"
  "sub_sent (sub_host_gain fd h) = sub_sent h" "sub_signalled (sub_host_gain fd h) = sub_signalled h"
  "sub_opened (sub_host_close fd h) = sub_opened h" "sub_sent (sub_host_close fd h) = sub_sent h"
  "mset (sub_host_closed (sub_host_close fd h)) = mset (sub_host_closed h) + open_fds [fd]"
  "segments (sub_process (sub_host_close fd h)) = segments (sub_process h)"
  "sub_opened (sub_host_watch fd ident h) = sub_opened h" "sub_sent (sub_host_watch fd ident h) = sub_sent h"
  "sub_host_closed (sub_host_watch fd ident h) = sub_host_closed h"
  "segments (sub_process (sub_host_watch fd ident h)) = segments (sub_process h)"
  "sub_opened (sub_host_signal ok fd h) = sub_opened h" "sub_sent (sub_host_signal ok fd h) = sub_sent h"
  "sub_process (sub_host_signal ok fd h) = sub_process h"
  by (simp_all add: sub_host_gain_def sub_host_close_def sub_host_watch_def sub_host_signal_def sub_close_fd_mset)

text \<open>The process of a subscriber.\<close>

interpretation sub_fds: fd_process sub_opened sub_host_closed sub_host_gain sub_host_close same_segments
  by unfold_locales (auto simp: same_segments_def)

abbreviation sub_ledger :: "sub_host \<Rightarrow> int multiset \<Rightarrow> sub_host \<Rightarrow> int multiset \<Rightarrow> bool" where
  "sub_ledger \<equiv> fd_ledger sub_opened sub_host_closed"

abbreviation sub_settles :: "sub_host \<Rightarrow> 'a sub_creation \<Rightarrow> ('a \<Rightarrow> int list) \<Rightarrow> bool" where
  "sub_settles \<equiv> fd_settles sub_opened sub_host_closed same_segments"

section \<open>Creation up to the constructor\<close>

lemma sub_connect_to_broker_settles: "sub_settles h (sub_connect_to_broker k h) (\<lambda>fd. [fd])"
  unfolding sub_connect_to_broker_def by (rule sub_fds.settles_connect)

lemma sub_create_worker_eventfds_settles:
  "sub_settles h (sub_create_worker_eventfds k flags h) (\<lambda>(shutdown, exit). [shutdown, exit])"
proof (cases "sub_mode flags = SUB_ASYNCHRONOUS")
  case False
  then show ?thesis by (simp add: sub_create_worker_eventfds_def fd_settles_def)
next
  case True
  let ?inner = "sub_guarded SubWorkerExitEventFdCreateFailed (sub_exit_eventfd k)
      (\<lambda>h. (Inr (sub_shutdown_eventfd k, sub_exit_eventfd k), h))"
  let ?body = "\<lambda>h. if \<not> sub_watch_ok k (sub_shutdown_eventfd k) then (Inl ShutdownEpollRegistrationFailed, h)
      else ?inner (sub_host_watch (sub_shutdown_eventfd k) kShutdownEventId h)"
  have i: "sub_settles h1 (?inner h1) (\<lambda>(shutdown, exit). [exit])" for h1
    by (rule sub_fds.settles_with_fd [where own = "\<lambda>_. []"]) (auto simp: fd_settles_def)
  have body: "sub_settles h1 (?body h1) (\<lambda>(shutdown, exit). [exit])" for h1
    using sub_fds.settles_after [OF _ _ _ i, of "sub_host_watch (sub_shutdown_eventfd k) kShutdownEventId h1" h1]
    by (simp add: same_segments_def)
  have "x = (sub_shutdown_eventfd k, sub_exit_eventfd k)" if "?body h1 = (Inr x, h2)" for x h1 h2
    using that by (auto simp: with_fd_def split: if_split_asm)
  then have "sub_settles h (sub_guarded SubShutdownEventFdCreateFailed (sub_shutdown_eventfd k) ?body h)
      (\<lambda>(shutdown, exit). [shutdown, exit])"
    by (intro sub_fds.settles_with_fd [where own = "\<lambda>(shutdown, exit). [exit]" and body = ?body]) (rule body, fastforce)
  with True show ?thesis by (simp add: sub_create_worker_eventfds_def)
qed

text \<open>The registration is sent at most once, and in full when the creation goes on.\<close>

lemma send_subscriber_topic_registration_frame:
  assumes "send_subscriber_topic_registration k topics h = (r, h')"
  shows "sub_opened h' = sub_opened h \<and> sub_host_closed h' = sub_host_closed h \<and> same_segments h h'"
    "sub_sent h' = (if r = None then sub_sent h @ [the (subscriber_topic_registration_packet topics)] else sub_sent h)"
    "r = None \<Longrightarrow> subscriber_topic_registration_packet topics \<noteq> None"
  using assms
  by (auto simp: send_subscriber_topic_registration_def same_segments_def split: option.split_asm if_split_asm)

lemma sub_register_settles:
  "sub_settles h (sub_register k topics flags broker h) (\<lambda>(shutdown, exit). [shutdown, exit])"
proof -
  obtain r h1 where s: "send_subscriber_topic_registration k topics h = (r, h1)" by fastforce
  note f = send_subscriber_topic_registration_frame(1) [OF s]
  have "sub_settles h (sub_create_worker_eventfds k flags (sub_host_watch broker kBrokerEventId h1))
      (\<lambda>(shutdown, exit). [shutdown, exit])"
    by (rule sub_fds.settles_after [OF _ _ _ sub_create_worker_eventfds_settles]) (use f in \<open>simp_all add: same_segments_def\<close>)
  moreover have "sub_settles h (Inl e, h1) (\<lambda>(shutdown, exit). [shutdown, exit :: int])" for e
    using f by (simp add: fd_settles_def fd_ledger_def)
  ultimately show ?thesis using s by (cases r) (simp_all add: sub_register_def)
qed

lemma sub_connect_and_register_settles:
  "sub_settles h (sub_connect_and_register k topics flags h) (\<lambda>(broker, shutdown, exit). [broker, shutdown, exit])"
proof (cases "sub_connect_to_broker k h")
  case (Pair r h1)
  have c: "sub_settles h (r, h1) (\<lambda>fd. [fd])" using sub_connect_to_broker_settles [of h k] Pair by simp
  show ?thesis
  proof (cases r)
    case (Inl e)
    with Pair c show ?thesis by (simp add: sub_connect_and_register_def fd_settles_def)
  next
    case (Inr fd)
    with c have "sub_settles h (Inr fd, h1) (\<lambda>fd. [fd])" by simp
    from sub_fds.settles_then [where f = "\<lambda>fds. (fd, fds)", OF this sub_register_settles] Pair Inr show ?thesis
      by (simp add: sub_connect_and_register_def case_prod_beta)
  qed
qed

lemma sub_acquire_resources_settles:
  "sub_settles h (sub_acquire_resources k topics flags callback h) (own_fds \<circ> subscriber_of)"
proof (cases "sub_guarded SubEpollCreateFailed (sub_epoll_create_answer k) (sub_connect_and_register k topics flags) h")
  case (Pair m h1)
  have "sub_settles h (m, h1) (\<lambda>(broker, shutdown, exit). [sub_epoll_create_answer k, broker, shutdown, exit])"
    unfolding Pair [symmetric]
    by (rule sub_fds.settles_with_fd, rule sub_connect_and_register_settles) auto
  then have "sub_settles h (case (m, h1) of (Inl e, h) \<Rightarrow> (Inl e, h)
      | (Inr fds, h) \<Rightarrow> (Inr (new_subscriber flags callback (sub_epoll_create_answer k) fds), h)) (own_fds \<circ> subscriber_of)"
    by (rule sub_fds.settles_rename) (auto simp: new_subscriber_def own_fds_def intro!: open_fds_perm)
  with Pair show ?thesis by (simp add: sub_acquire_resources_def)
qed


section \<open>Destruction\<close>

text \<open>What the object owns; an object without resources, as after a destructor or a move.\<close>

definition sub_all_owned :: "subscriber_object \<Rightarrow> int multiset" where
  "sub_all_owned obj = sub_owned (subscriber_of obj) + open_fds (own_fds (subscriber_of obj))"

definition sub_bare :: "subscriber_object \<Rightarrow> bool" where
  "sub_bare obj \<longleftrightarrow> by_fd (subscriber_of obj) = Map.empty \<and> by_id (subscriber_of obj) = Map.empty
     \<and> open_fds (own_fds (subscriber_of obj)) = {#} \<and> sub_run_thread obj = NotJoinable"

text \<open>The traversal visits every attachment once.\<close>

definition visits_attachments :: "((int \<rightharpoonup> publisher_attachment) \<Rightarrow> int list) \<Rightarrow> bool" where
  "visits_attachments order \<longleftrightarrow> (\<forall>atts. finite (dom atts) \<longrightarrow> distinct (order atts) \<and> set (order atts) = dom atts)"

lemma release_attachments_all:
  assumes "\<forall>fd \<in> set fds. \<exists>a addr. atts fd = Some a \<and> 0 \<le> shm_fd a \<and> 0 \<le> att_space_available_event_fd a
      \<and> 0 \<le> att_data_available_event_fd a \<and> shared_data_at a = Some addr"
  shows "\<exists>w'. release_attachments fds atts w = Some w'
    \<and> mset (sub_closed w') = mset (sub_closed w) + (\<Sum>fd \<leftarrow> fds. attachment_fds (the (atts fd)))
    \<and> dom (segments w') = dom (segments w) - {addr. \<exists>fd \<in> set fds. shared_data_at (the (atts fd)) = Some addr}"
  using assms
proof (induction fds arbitrary: w)
  case (Cons fd fds)
  then obtain a addr where a: "atts fd = Some a" "0 \<le> shm_fd a" "0 \<le> att_space_available_event_fd a"
    "0 \<le> att_data_available_event_fd a" "shared_data_at a = Some addr" by auto
  let ?w = "snd (release_publisher_attachment a w)"
  from Cons obtain w' where r: "release_attachments fds atts ?w = Some w'"
    "mset (sub_closed w') = mset (sub_closed ?w) + (\<Sum>fd \<leftarrow> fds. attachment_fds (the (atts fd)))"
    "dom (segments w') = dom (segments ?w) - {addr. \<exists>fd \<in> set fds. shared_data_at (the (atts fd)) = Some addr}"
    by fastforce
  have "mset (sub_closed ?w) = mset (sub_closed w) + attachment_fds a" "dom (segments ?w) = dom (segments w) - {addr}"
    using release_publisher_attachment_effect [OF a(2-4), of w] a(5) by (simp_all add: attachment_fds_def)
  with r a(1,5) show ?case by (auto simp: ac_simps)
qed simp

lemma release_all_attachments:
  assumes inv: "sub_inv s w" and order: "visits_attachments order"
  shows "\<exists>w'. release_attachments (order (by_fd s)) (by_fd s) w = Some w'
    \<and> mset (sub_closed w') = mset (sub_closed w) + sub_owned s
    \<and> dom (segments w') = dom (segments w) - attached_at (by_fd s)"
proof -
  from order tables_inverseD(4) [OF sub_invD(1) [OF inv]] have o: "distinct (order (by_fd s))"
    "set (order (by_fd s)) = dom (by_fd s)" by (simp_all add: visits_attachments_def)
  have "\<forall>fd \<in> set (order (by_fd s)). \<exists>a addr. by_fd s fd = Some a \<and> 0 \<le> shm_fd a
      \<and> 0 \<le> att_space_available_event_fd a \<and> 0 \<le> att_data_available_event_fd a \<and> shared_data_at a = Some addr"
  proof
    fix fd assume "fd \<in> set (order (by_fd s))"
    with o obtain a where a: "by_fd s fd = Some a" by auto
    with sub_invD(3) [OF inv a] show "\<exists>a addr. by_fd s fd = Some a \<and> 0 \<le> shm_fd a
      \<and> 0 \<le> att_space_available_event_fd a \<and> 0 \<le> att_data_available_event_fd a \<and> shared_data_at a = Some addr"
      by (auto simp: attachment_ok_def)
  qed
  from release_attachments_all [OF this, of w] obtain w' where
    "release_attachments (order (by_fd s)) (by_fd s) w = Some w'"
    "mset (sub_closed w') = mset (sub_closed w) + (\<Sum>fd \<leftarrow> order (by_fd s). attachment_fds (the (by_fd s fd)))"
    "dom (segments w') = dom (segments w)
      - {addr. \<exists>fd \<in> set (order (by_fd s)). shared_data_at (the (by_fd s fd)) = Some addr}" by blast
  moreover have "(\<Sum>fd \<leftarrow> order (by_fd s). attachment_fds (the (by_fd s fd))) = sub_owned s"
    using o by (simp add: sub_owned_def sum_entries_def sum_list_distinct_conv_sum_set)
  moreover have "{addr. \<exists>fd \<in> set (order (by_fd s)). shared_data_at (the (by_fd s fd)) = Some addr} = attached_at (by_fd s)"
  proof -
    have "(\<exists>fd \<in> dom (by_fd s). shared_data_at (the (by_fd s fd)) = Some addr)
        \<longleftrightarrow> (\<exists>fd a. by_fd s fd = Some a \<and> shared_data_at a = Some addr)" for addr
      by (force simp: dom_def)
    then show ?thesis unfolding o(2) attached_at_def by simp
  qed
  ultimately show ?thesis by simp
qed

text \<open>Once the worker is joined, the destructor returns and closes everything the object owns.\<close>

lemma sub_release_resources_joined:
  assumes stop: "sub_stop_run_thread a obj h = Some (b, joined, h1)"
    and inv: "sub_inv (subscriber_of joined) (sub_process h1)" and order: "visits_attachments (attachment_order a)"
  shows "\<exists>obj' h'. sub_release_resources a obj h = Some (obj', h') \<and> sub_bare obj'
    \<and> sub_ledger h1 (sub_all_owned joined) h' {#} \<and> sub_opened h' = sub_opened h1
    \<and> dom (segments (sub_process h')) = dom (segments (sub_process h1)) - attached_at (by_fd (subscriber_of joined))
    \<and> sub_sent h' = sub_sent h1"
proof -
  let ?s = "subscriber_of joined"
  from release_all_attachments [OF inv order] obtain w where
    w: "release_attachments (attachment_order a (by_fd ?s)) (by_fd ?s) (sub_process h1) = Some w"
      "mset (sub_closed w) = mset (sub_host_closed h1) + sub_owned ?s"
      "dom (segments w) = dom (segments (sub_process h1)) - attached_at (by_fd ?s)" by blast
  have n: "\<not> 0 \<le> fst (close_fd_var fd)" for fd by (simp add: close_fd_var_def)
  have j: "sub_run_thread joined = NotJoinable"
    using stop by (auto simp: sub_stop_run_thread_def Let_def bind_eq_Some_conv split: if_split_asm)
  have "open_fds (own_fds ?s) = open_fds [sub_shutdown_event_fd ?s] + open_fds [sub_worker_exit_event_fd ?s]
      + open_fds [sub_epoll_fd ?s] + open_fds [sub_broker_fd ?s]"
    by (simp add: own_fds_def ac_simps)
  then show ?thesis
    using w stop j
    by (simp add: sub_release_resources_def Let_def sub_bare_def own_fds_def n fd_ledger_def sub_all_owned_def
        sub_close_fd_mset del: open_fds_simps(2)) (simp add: open_fds_def n ac_simps)
qed


text \<open>The answers that a worker may meet.\<close>

definition sub_worker_ok :: "sub_worker_answers \<Rightarrow> bool" where
  "sub_worker_ok a \<longleftrightarrow> maps_fresh (sub_worker_mmap a) \<and> (\<forall>x \<in> set (sub_worker_received a). answer_ok x)
     \<and> visits_attachments (attachment_order a)"

definition sub_object_inv :: "subscriber_object \<Rightarrow> sub_host \<Rightarrow> bool" where
  "sub_object_inv obj h \<longleftrightarrow> sub_inv (subscriber_of obj) (sub_process h)"

text \<open>Closed or owned at the end: what was closed or owned before and what was received; the
  segments of others stay mapped.\<close>

definition sub_uses ::
  "received list \<Rightarrow> subscriber_object \<Rightarrow> sub_host \<Rightarrow> subscriber_object \<Rightarrow> sub_host \<Rightarrow> bool"
where
  "sub_uses used obj h obj' h' \<longleftrightarrow>
     sub_all_owned obj' + mset (sub_host_closed h')
       = sub_all_owned obj + mset (sub_host_closed h) + mset (concat (map answer_fds used))
     \<and> dom (segments (sub_process h')) - attached_at (by_fd (subscriber_of obj'))
       = dom (segments (sub_process h)) - attached_at (by_fd (subscriber_of obj))
     \<and> sub_opened h' = sub_opened h \<and> sub_sent h' = sub_sent h"

lemma sub_uses_refl [simp]: "sub_uses [] obj h obj h"
  by (simp add: sub_uses_def)

lemma sub_worker_thread_uses:
  assumes code: "sub_worker_thread a obj h = Some (obj', h')"
    and inv: "sub_object_inv obj h" and ok: "sub_worker_ok a"
  shows "\<exists>used rest. sub_worker_received a = used @ rest \<and> sub_uses used obj h obj' h' \<and> sub_object_inv obj' h'"
proof -
  from code obtain reason s w where
    r: "sub_run (sub_worker_signal a) (sub_worker_drain a) (sub_worker_mmap a) (sub_worker_watch a)
       (sub_worker_waits a) (sub_worker_received a) (subscriber_of obj) (sub_process h) = Some (reason, s, w)"
    and o: "subscriber_of obj' = s" "sub_process h' = w" "sub_opened h' = sub_opened h" "sub_sent h' = sub_sent h"
    by (auto simp: sub_worker_thread_def bind_eq_Some_conv Let_def)
  from sub_run_loop_consumes [OF r [unfolded sub_run_def]] inv ok obtain used rest where
    "sub_worker_received a = used @ rest"
    "accounts_for (subscriber_of obj) (sub_process h) (concat (map answer_fds used)) s w"
    by (auto simp: sub_object_inv_def sub_worker_ok_def consumes_def)
  with o show ?thesis
    by (auto simp: accounts_for_def sub_account_def sub_frame_def sub_uses_def sub_object_inv_def sub_all_owned_def ac_simps)
qed

lemma sub_stop_run_thread_uses:
  assumes code: "sub_stop_run_thread a obj h = Some (b, obj', h')"
    and inv: "sub_object_inv obj h" and ok: "sub_worker_ok a"
  shows "\<exists>used rest. sub_worker_received a = used @ rest \<and> sub_uses used obj h obj' h' \<and> sub_object_inv obj' h'
    \<and> sub_run_thread obj' = NotJoinable"
proof -
  let ?h = "sub_host_signal (sub_run_thread_active obj \<and> sub_worker_signal a (sub_shutdown_event_fd (subscriber_of obj)))
    (sub_shutdown_event_fd (subscriber_of obj)) h"
  have none: "\<exists>used rest. sub_worker_received a = used @ rest \<and> sub_uses used obj h obj' h' \<and> sub_object_inv obj' h'
    \<and> sub_run_thread obj' = NotJoinable"
    if "sub_run_thread obj' = NotJoinable" "subscriber_of obj' = subscriber_of obj" "h' = h \<or> h' = ?h"
    using that inv
    by (intro exI [of _ "[]"] exI [of _ "sub_worker_received a"])
      (auto simp: sub_uses_def sub_object_inv_def sub_all_owned_def)
  show ?thesis
  proof (cases "sub_run_thread obj")
    case NotJoinable
    with code show ?thesis by (intro none) (simp_all add: sub_stop_run_thread_def)
  next
    case (Returned reason)
    with code show ?thesis by (intro none) (simp_all add: sub_stop_run_thread_def Let_def, auto)
  next
    case Running
    with code obtain obj1 where t: "sub_worker_thread a obj ?h = Some (obj1, h')"
      and o: "obj' = obj1\<lparr>sub_run_thread := NotJoinable\<rparr>"
      by (auto simp: sub_stop_run_thread_def Let_def bind_eq_Some_conv)
    have "sub_object_inv obj ?h" using inv by (simp add: sub_object_inv_def)
    from sub_worker_thread_uses [OF t this ok] show ?thesis
      by (simp add: sub_uses_def sub_object_inv_def o sub_all_owned_def)
  qed
qed

text \<open>What the destructor closes: everything owned, and what arrived while the worker was stopped.
  It returns whenever the worker does.\<close>

lemma sub_release_resources_closes:
  assumes code: "sub_stop_run_thread a obj h = Some (b, joined, h1)"
    and inv: "sub_object_inv obj h" and ok: "sub_worker_ok a"
  shows "\<exists>obj' h' used rest. sub_release_resources a obj h = Some (obj', h') \<and> sub_worker_received a = used @ rest
    \<and> mset (sub_host_closed h') = mset (sub_host_closed h) + sub_all_owned obj + mset (concat (map answer_fds used))
    \<and> sub_bare obj' \<and> sub_opened h' = sub_opened h
    \<and> dom (segments (sub_process h')) = dom (segments (sub_process h)) - attached_at (by_fd (subscriber_of obj))
    \<and> sub_sent h' = sub_sent h"
proof -
  from sub_stop_run_thread_uses [OF assms] obtain used rest where
    u: "sub_worker_received a = used @ rest" "sub_uses used obj h joined h1" "sub_object_inv joined h1" by blast
  from ok have "visits_attachments (attachment_order a)" by (simp add: sub_worker_ok_def)
  from sub_release_resources_joined [OF code u(3) [unfolded sub_object_inv_def] this] obtain obj' h' where
    r: "sub_release_resources a obj h = Some (obj', h')" "sub_bare obj'"
      "sub_ledger h1 (sub_all_owned joined) h' {#}" "sub_opened h' = sub_opened h1"
      "dom (segments (sub_process h')) = dom (segments (sub_process h1)) - attached_at (by_fd (subscriber_of joined))"
      "sub_sent h' = sub_sent h1"
    by blast
  from r(3,4) have c: "mset (sub_host_closed h') = mset (sub_host_closed h1) + sub_all_owned joined"
    by (simp add: fd_ledger_def)
  have "mset (sub_host_closed h') = mset (sub_host_closed h) + sub_all_owned obj + mset (concat (map answer_fds used))"
    unfolding c using u(2) by (simp add: sub_uses_def ac_simps)
  with r u show ?thesis by (auto simp: sub_uses_def)
qed

text \<open>Without a worker the destructor always returns; with an empty table it needs no traversal.\<close>

lemma sub_release_resources_idle:
  assumes "sub_run_thread obj = NotJoinable" "by_fd (subscriber_of obj) = Map.empty"
    "attachment_order a Map.empty = []"
  shows "\<exists>obj' h'. sub_release_resources a obj h = Some (obj', h') \<and> sub_bare obj'
    \<and> sub_ledger h (open_fds (own_fds (subscriber_of obj))) h' {#} \<and> same_segments h h' \<and> sub_sent h' = sub_sent h"
proof -
  let ?s = "subscriber_of obj"
  have n: "\<not> 0 \<le> fst (close_fd_var fd)" for fd by (simp add: close_fd_var_def)
  have "open_fds (own_fds ?s) = open_fds [sub_shutdown_event_fd ?s] + open_fds [sub_worker_exit_event_fd ?s]
      + open_fds [sub_epoll_fd ?s] + open_fds [sub_broker_fd ?s]"
    by (simp add: own_fds_def ac_simps)
  then show ?thesis
    using assms
    by (simp add: sub_release_resources_def sub_stop_run_thread_def Let_def sub_bare_def own_fds_def n fd_ledger_def
        sub_close_fd_mset same_segments_def del: open_fds_simps(2)) (simp add: open_fds_def n ac_simps)
qed

lemma sub_release_resources_bare:
  assumes "sub_bare obj" "attachment_order a Map.empty = []"
  shows "\<exists>obj' h'. sub_release_resources a obj h = Some (obj', h') \<and> sub_ledger h {#} h' {#}
    \<and> same_segments h h' \<and> sub_sent h' = sub_sent h"
  using sub_release_resources_idle [of obj a h] assms by (auto simp: sub_bare_def)


section \<open>The move\<close>

lemma sub_bare_owns: "sub_bare obj \<Longrightarrow> sub_all_owned obj = {#}" "sub_bare obj \<Longrightarrow> attached_at (by_fd (subscriber_of obj)) = {}"
  by (simp_all add: sub_bare_def sub_all_owned_def sub_owned_def attached_at_def)

lemma sub_bare_inv: "sub_bare obj \<Longrightarrow> sub_object_inv obj h"
  by (simp add: sub_bare_def sub_object_inv_def sub_inv_def tables_inverse_def separately_mapped_def)

lemma sub_moved_from_bare: "sub_run_thread obj = NotJoinable \<Longrightarrow> sub_bare (sub_moved_from obj)"
  by (simp add: sub_bare_def sub_moved_from_def own_fds_def)

lemma empty_subscriber_bare: "sub_bare empty_subscriber"
  by (simp add: sub_bare_def empty_subscriber_def new_subscriber_def own_fds_def)

lemma empty_subscriber_idle [simp]: "sub_run_thread empty_subscriber = NotJoinable"
  using empty_subscriber_bare by (simp add: sub_bare_def)

lemma sub_moved_simps [simp]:
  "subscriber_of (sub_moved this other) = subscriber_of other" "sub_run_thread (sub_moved this other) = sub_run_thread this"
  "callback_set (sub_moved this other) = callback_set other"
  by (simp_all add: sub_moved_def)

lemma sub_started_simps [simp]:
  "subscriber_of (snd (sub_start_run_thread created obj)) = subscriber_of obj"
  "sub_run_thread (snd (sub_start_run_thread created obj)) = (if created then Running else sub_run_thread obj)"
  "callback_set (snd (sub_start_run_thread created obj)) = callback_set obj"
  "fst (sub_start_run_thread created obj) = created"
  by (simp_all add: sub_start_run_thread_def reset_worker_exit_notification_def Let_def)

lemma sub_all_owned_subscriber: "subscriber_of obj' = subscriber_of obj \<Longrightarrow> sub_all_owned obj' = sub_all_owned obj"
  by (simp add: sub_all_owned_def)

text \<open>Whatever the outcome, the descriptors of the source, and those that arrived while its worker
  was stopped, are owned by the target, still owned by the source, or closed.\<close>

lemma sub_take_resources_from_balance:
  assumes stop: "sub_stop_run_thread a other h = Some (restart, joined, h1)"
    and bare: "sub_bare this" and inv: "sub_object_inv other h" and ok: "sub_worker_ok a"
  shows "\<exists>t this' other' h' used rest. sub_take_resources_from a created this other h = Some (t, this', other', h')
    \<and> sub_worker_received a = used @ rest
    \<and> sub_all_owned this' + sub_all_owned other' + mset (sub_host_closed h')
      = sub_all_owned other + mset (sub_host_closed h) + mset (concat (map answer_fds used))
    \<and> sub_object_inv this' h' \<and> sub_object_inv other' h'
    \<and> (t = TransferDrainFailed \<longrightarrow> this' = this) \<and> (t \<noteq> TransferDrainFailed \<longrightarrow> sub_bare other')
    \<and> (t = Transferred \<longrightarrow> subscriber_of this' = subscriber_of joined \<and> sub_run_thread this' = (if restart then Running else NotJoinable))
    \<and> (t = TransferThreadFailed \<longrightarrow> sub_bare this'
        \<and> dom (segments (sub_process h')) = dom (segments (sub_process h)) - attached_at (by_fd (subscriber_of other)))"
proof -
  from sub_stop_run_thread_uses [OF stop inv ok] obtain used rest where
    u: "sub_worker_received a = used @ rest" "sub_uses used other h joined h1" "sub_object_inv joined h1"
      "sub_run_thread joined = NotJoinable" by blast
  note b = sub_moved_from_bare [OF u(4)]
  from bare have idle: "sub_run_thread this = NotJoinable" by (simp add: sub_bare_def)
  have bal: "sub_all_owned joined + mset (sub_host_closed h1)
      = sub_all_owned other + mset (sub_host_closed h) + mset (concat (map answer_fds used))"
    using u(2) by (simp add: sub_uses_def)
  consider (drain) "restart" "\<not> (sub_worker_drain a (sub_shutdown_event_fd (subscriber_of joined))
        \<and> sub_worker_drain a (sub_worker_exit_event_fd (subscriber_of joined)))"
    | (idle) "\<not> restart"
    | (start) "restart" "sub_worker_drain a (sub_shutdown_event_fd (subscriber_of joined))
        \<and> sub_worker_drain a (sub_worker_exit_event_fd (subscriber_of joined))" by blast
  then show ?thesis
  proof cases
    case drain
    with stop have "sub_take_resources_from a created this other h = Some (TransferDrainFailed, this, joined, h1)"
      by (simp add: sub_take_resources_from_def)
    with u bal sub_bare_owns(1) [OF bare] sub_bare_inv [OF bare] show ?thesis
      by (intro exI conjI) (assumption | simp)+
  next
    case idle
    with stop have c: "sub_take_resources_from a created this other h
        = Some (Transferred, sub_moved this joined, sub_moved_from joined, h1)"
      by (simp add: sub_take_resources_from_def Let_def)
    have "sub_all_owned (sub_moved this joined) = sub_all_owned joined" by (rule sub_all_owned_subscriber) simp
    with u bal sub_bare_owns(1) [OF b] sub_bare_inv [OF b] b c idle \<open>sub_run_thread this = NotJoinable\<close> show ?thesis
      by (intro exI conjI) (assumption | simp add: sub_object_inv_def)+
  next
    case start
    let ?o = "snd (sub_start_run_thread created (sub_moved this joined))"
    have o: "subscriber_of ?o = subscriber_of joined" by simp
    have oinv: "sub_object_inv ?o h1" and oown: "sub_all_owned ?o = sub_all_owned joined"
      using u(3) sub_all_owned_subscriber [OF o] by (simp_all add: sub_object_inv_def)
    show ?thesis
    proof (cases created)
      case True
      have c: "sub_take_resources_from a created this other h = Some (Transferred, ?o, sub_moved_from joined, h1)"
        using start stop True by (simp add: sub_take_resources_from_def Let_def case_prod_beta)
      with u bal oinv oown sub_bare_owns(1) [OF b] sub_bare_inv [OF b] b True start(1) show ?thesis
        by (intro exI conjI) (assumption | simp)+
    next
      case False
      have s: "sub_stop_run_thread a ?o h1 = Some (False, ?o, h1)"
        using False idle \<open>sub_run_thread this = NotJoinable\<close> by (simp add: sub_stop_run_thread_def)
      from ok have "visits_attachments (attachment_order a)" by (simp add: sub_worker_ok_def)
      from sub_release_resources_joined [OF s oinv [unfolded sub_object_inv_def] this] obtain this' h' where
        r: "sub_release_resources a ?o h1 = Some (this', h')" "sub_bare this'"
          "sub_ledger h1 (sub_all_owned ?o) h' {#}" "sub_opened h' = sub_opened h1"
          "dom (segments (sub_process h')) = dom (segments (sub_process h1)) - attached_at (by_fd (subscriber_of ?o))"
        by blast
      have c: "sub_take_resources_from a created this other h = Some (TransferThreadFailed, this', sub_moved_from joined, h')"
        using start stop False r(1) by (simp add: sub_take_resources_from_def Let_def case_prod_beta)
      have "mset (sub_host_closed h') = sub_all_owned joined + mset (sub_host_closed h1)"
        using r(3,4) oown by (simp add: fd_ledger_def ac_simps)
      moreover have "dom (segments (sub_process h')) = dom (segments (sub_process h)) - attached_at (by_fd (subscriber_of other))"
        using r(5) u(2) by (simp add: sub_uses_def)
      ultimately show ?thesis using c u(1) bal r(2) b sub_bare_owns(1) [OF b] sub_bare_owns(1) [OF r(2)]
          sub_bare_inv [OF b] sub_bare_inv [OF r(2)]
        by (intro exI conjI) (assumption | simp)+
    qed
  qed
qed

text \<open>A move without a running worker hands over everything.\<close>

lemma sub_take_resources_from_idle:
  assumes "sub_run_thread other = NotJoinable"
  shows "sub_take_resources_from a created this other h
    = Some (Transferred, sub_moved this other, sub_moved_from other, h)"
  using assms by (simp add: sub_take_resources_from_def sub_stop_run_thread_def Let_def)

section \<open>Creation\<close>

text \<open>What \<open>create\<close> leaves: nothing after an error, a subscriber that owns the rest and has no
  attachments after success.\<close>

lemma sub_complete_creation_correct:
  assumes obj: "obj = new_subscriber flags callback epoll fds"
  shows "\<exists>r h'. sub_complete_creation k obj h = Some (r, h') \<and> same_segments h h' \<and> sub_sent h' = sub_sent h \<and> (case r of
      Inl e \<Rightarrow> sub_ledger h (open_fds (own_fds (subscriber_of obj))) h' {#}
        \<and> e = SubRunThreadCreateFailed \<and> sub_mode flags = SUB_ASYNCHRONOUS
    | Inr obj' \<Rightarrow> sub_ledger h (sub_all_owned obj') h' (sub_all_owned obj') \<and> subscriber_of obj' = subscriber_of obj
        \<and> callback_set obj' = callback
        \<and> sub_run_thread obj' = (if sub_mode flags = SUB_ASYNCHRONOUS then Running else NotJoinable))"
proof -
  have new: "sub_run_thread obj = NotJoinable" "by_fd (subscriber_of obj) = Map.empty" "callback_set obj = callback"
    "sub_flags (subscriber_of obj) = flags"
    by (cases fds; simp add: obj new_subscriber_def)+
  let ?m = "sub_moved empty_subscriber obj"
  have t: "sub_take_resources_from no_sub_worker True empty_subscriber obj h
      = Some (Transferred, ?m, sub_moved_from obj, h)" by (rule sub_take_resources_from_idle [OF new(1)])
  note b = sub_moved_from_bare [OF new(1)]
  have order: "attachment_order no_sub_worker Map.empty = []" by (simp add: no_sub_worker_def)
  have success: ?thesis if "sub_complete_creation k obj h = (do {
      (_, h) \<leftarrow> sub_release_resources no_sub_worker (sub_moved_from obj) h; Some (Inr obj', h) })"
    "subscriber_of obj' = subscriber_of obj" "callback_set obj' = callback"
    "sub_run_thread obj' = (if sub_mode flags = SUB_ASYNCHRONOUS then Running else NotJoinable)" for obj'
  proof -
    from sub_release_resources_bare [OF b order, of h] obtain x h' where
      r: "sub_release_resources no_sub_worker (sub_moved_from obj) h = Some (x, h')" "sub_ledger h {#} h' {#}"
        "same_segments h h'" "sub_sent h' = sub_sent h" by blast
    then have "sub_ledger h (sub_all_owned obj') h' (sub_all_owned obj')" by (simp add: fd_ledger_def)
    with that r show ?thesis by simp
  qed
  show ?thesis
  proof (cases "sub_mode flags = SUB_ASYNCHRONOUS")
    case False
    then show ?thesis
      by (intro success [of ?m]) (simp_all add: sub_complete_creation_def t new)
  next
    case async: True
    let ?o = "snd (sub_start_run_thread (sub_thread_created k) ?m)"
    show ?thesis
    proof (cases "sub_thread_created k")
      case True
      then show ?thesis
        using async by (intro success [of ?o]) (simp_all add: sub_complete_creation_def t new case_prod_beta)
    next
      case False
      have o: "sub_run_thread ?o = NotJoinable" "by_fd (subscriber_of ?o) = Map.empty"
        "own_fds (subscriber_of ?o) = own_fds (subscriber_of obj)"
        using new False by simp_all
      from sub_release_resources_idle [OF o(1,2) order, of h] obtain x h1 where
        r: "sub_release_resources no_sub_worker ?o h = Some (x, h1)"
          "sub_ledger h (open_fds (own_fds (subscriber_of obj))) h1 {#}" "same_segments h h1" "sub_sent h1 = sub_sent h"
        unfolding o(3) by blast
      from sub_release_resources_bare [OF b order, of h1] obtain y h' where
        s: "sub_release_resources no_sub_worker (sub_moved_from obj) h1 = Some (y, h')" "sub_ledger h1 {#} h' {#}"
          "same_segments h1 h'" "sub_sent h' = sub_sent h1" by blast
      have "sub_complete_creation k obj h = Some (Inl SubRunThreadCreateFailed, h')"
        using async False r(1) s(1) by (simp add: sub_complete_creation_def t new case_prod_beta)
      with r s async sub_fds.ledger_trans [OF r(2) s(2)] show ?thesis by (simp add: same_segments_def)
    qed
  qed
qed


text \<open>How the success of the straight part comes about.\<close>

lemma sub_worker_eventfds_made:
  assumes "sub_create_worker_eventfds k flags h = (r, h')"
  shows "sub_sent h' = sub_sent h"
    "r = Inr fds \<Longrightarrow> sub_watched (sub_process h') = sub_watched (sub_process h)
      @ (if sub_mode flags = SUB_ASYNCHRONOUS then [(fst fds, kShutdownEventId)] else [])
    \<and> (if sub_mode flags = SUB_ASYNCHRONOUS then 0 \<le> fst fds \<and> 0 \<le> snd fds else fds = (-1, -1))"
  using assms
  by (auto simp: sub_create_worker_eventfds_def with_fd_def sub_host_watch_def sub_host_gain_def sub_host_close_def
      split: if_split_asm)

lemma sub_register_made:
  assumes "sub_register k topics flags broker h = (r, h')"
  shows "\<exists>packets. sub_sent h' = sub_sent h @ packets \<and> length packets \<le> 1"
    "r = Inr fds \<Longrightarrow> \<exists>packet. subscriber_topic_registration_packet topics = Some packet \<and> sub_sent h' = sub_sent h @ [packet]
      \<and> sub_watched (sub_process h') = sub_watched (sub_process h) @ (broker, kBrokerEventId)
          # (if sub_mode flags = SUB_ASYNCHRONOUS then [(fst fds, kShutdownEventId)] else [])
      \<and> (if sub_mode flags = SUB_ASYNCHRONOUS then 0 \<le> fst fds \<and> 0 \<le> snd fds else fds = (-1, -1))"
proof -
  obtain e h1 where s: "send_subscriber_topic_registration k topics h = (e, h1)" by fastforce
  note f = send_subscriber_topic_registration_frame [OF s]
  have w: "sub_watched (sub_process h1) = sub_watched (sub_process h)"
    using s by (auto simp: send_subscriber_topic_registration_def split: option.split_asm if_split_asm)
  have wh: "sub_watched (sub_process (sub_host_watch fd ident h)) = sub_watched (sub_process h) @ [(fd, ident)]" for fd ident h
    by (simp add: sub_host_watch_def)
  obtain r2 h2 where c: "sub_create_worker_eventfds k flags (sub_host_watch broker kBrokerEventId h1) = (r2, h2)"
    by fastforce
  note g = sub_worker_eventfds_made [OF c]
  have m: "r = Inl (the e) \<and> h' = h1 \<and> e \<noteq> None
      \<or> e = None \<and> r = Inl SubBrokerEpollRegistrationFailed \<and> h' = h1 \<or> e = None \<and> r = r2 \<and> h' = h2"
    using assms s c by (cases e) (auto simp: sub_register_def split: if_split_asm)
  show "\<exists>packets. sub_sent h' = sub_sent h @ packets \<and> length packets \<le> 1"
    using m f(2) g(1) by (cases e) auto
  show "\<exists>packet. subscriber_topic_registration_packet topics = Some packet \<and> sub_sent h' = sub_sent h @ [packet]
      \<and> sub_watched (sub_process h') = sub_watched (sub_process h) @ (broker, kBrokerEventId)
          # (if sub_mode flags = SUB_ASYNCHRONOUS then [(fst fds, kShutdownEventId)] else [])
      \<and> (if sub_mode flags = SUB_ASYNCHRONOUS then 0 \<le> fst fds \<and> 0 \<le> snd fds else fds = (-1, -1))" if "r = Inr fds"
  proof -
    from m that have e: "e = None" "r2 = Inr fds" "h' = h2" by auto
    from f(3) [OF e(1)] obtain packet where "subscriber_topic_registration_packet topics = Some packet" by blast
    with e f(2) g(1) g(2) [OF e(2)] w show ?thesis by (simp add: wh)
  qed
qed

lemma sub_acquire_resources_made:
  assumes "sub_acquire_resources k topics flags callback h = (r, h')"
  shows "\<exists>packets. sub_sent h' = sub_sent h @ packets \<and> length packets \<le> 1"
    "r = Inr obj \<Longrightarrow> (\<exists>packet. subscriber_topic_registration_packet topics = Some packet \<and> sub_sent h' = sub_sent h @ [packet])
      \<and> (\<exists>fds. obj = new_subscriber flags callback (sub_epoll_create_answer k) fds)
      \<and> sub_watched (sub_process h') = sub_watched (sub_process h) @ (sub_broker_fd (subscriber_of obj), kBrokerEventId)
          # (if sub_mode flags = SUB_ASYNCHRONOUS then [(sub_shutdown_event_fd (subscriber_of obj), kShutdownEventId)] else [])
      \<and> 0 \<le> sub_epoll_fd (subscriber_of obj) \<and> 0 \<le> sub_broker_fd (subscriber_of obj)
      \<and> (sub_mode flags = SUB_ASYNCHRONOUS \<longrightarrow>
          0 \<le> sub_shutdown_event_fd (subscriber_of obj) \<and> 0 \<le> sub_worker_exit_event_fd (subscriber_of obj))"
proof -
  let ?h = "sub_host_gain (sub_epoll_create_answer k) h"
  obtain c h1 where c: "sub_connect_to_broker k ?h = (c, h1)" by fastforce
  have c1: "sub_sent h1 = sub_sent h" "sub_watched (sub_process h1) = sub_watched (sub_process h)"
    "c = Inr fd \<Longrightarrow> 0 \<le> fd" for fd
    using c by (auto simp: sub_connect_to_broker_def with_fd_def sub_host_close_def sub_close_fd_def split: if_split_asm)
  obtain m h2 where m: "sub_connect_and_register k topics flags ?h = (m, h2)" by fastforce
  have m1: "(\<exists>packets. sub_sent h2 = sub_sent h @ packets \<and> length packets \<le> 1)
    \<and> (\<forall>broker fds. m = Inr (broker, fds) \<longrightarrow> 0 \<le> broker
      \<and> (\<exists>packet. subscriber_topic_registration_packet topics = Some packet \<and> sub_sent h2 = sub_sent h @ [packet])
      \<and> sub_watched (sub_process h2) = sub_watched (sub_process h) @ (broker, kBrokerEventId)
          # (if sub_mode flags = SUB_ASYNCHRONOUS then [(fst fds, kShutdownEventId)] else [])
      \<and> (if sub_mode flags = SUB_ASYNCHRONOUS then 0 \<le> fst fds \<and> 0 \<le> snd fds else fds = (-1, -1)))"
  proof (cases c)
    case (Inl e)
    with m c c1 show ?thesis by (auto simp: sub_connect_and_register_def)
  next
    case (Inr fd)
    obtain x h3 where x: "sub_register k topics flags fd h1 = (x, h3)" by fastforce
    show ?thesis
    proof (cases x)
      case (Inl e)
      with m c Inr x have "m = Inl e" "h2 = sub_host_close fd h3" by (auto simp: sub_connect_and_register_def)
      with sub_register_made(1) [OF x] c1 show ?thesis by simp
    next
      case (Inr fds)
      with m c \<open>c = Inr fd\<close> x have "m = Inr (fd, fds)" "h2 = h3" by (auto simp: sub_connect_and_register_def)
      with sub_register_made(1) [OF x] sub_register_made(2) [OF x Inr] c1 \<open>c = Inr fd\<close> show ?thesis by auto
    qed
  qed
  have r: "r = Inl SubEpollCreateFailed \<and> h' = h \<or> (\<exists>e. m = Inl e \<and> r = Inl e \<and> h' = sub_host_close (sub_epoll_create_answer k) h2)
      \<or> 0 \<le> sub_epoll_create_answer k \<and> (\<exists>fds. m = Inr fds \<and> r = Inr (new_subscriber flags callback (sub_epoll_create_answer k) fds) \<and> h' = h2)"
    using assms m by (cases m) (auto simp: sub_acquire_resources_def with_fd_def split: if_split_asm)
  then show "\<exists>packets. sub_sent h' = sub_sent h @ packets \<and> length packets \<le> 1"
    using m1 by auto
  show "(\<exists>packet. subscriber_topic_registration_packet topics = Some packet \<and> sub_sent h' = sub_sent h @ [packet])
      \<and> (\<exists>fds. obj = new_subscriber flags callback (sub_epoll_create_answer k) fds)
      \<and> sub_watched (sub_process h') = sub_watched (sub_process h) @ (sub_broker_fd (subscriber_of obj), kBrokerEventId)
          # (if sub_mode flags = SUB_ASYNCHRONOUS then [(sub_shutdown_event_fd (subscriber_of obj), kShutdownEventId)] else [])
      \<and> 0 \<le> sub_epoll_fd (subscriber_of obj) \<and> 0 \<le> sub_broker_fd (subscriber_of obj)
      \<and> (sub_mode flags = SUB_ASYNCHRONOUS \<longrightarrow>
          0 \<le> sub_shutdown_event_fd (subscriber_of obj) \<and> 0 \<le> sub_worker_exit_event_fd (subscriber_of obj))"
    if "r = Inr obj"
  proof -
    from r that obtain broker fds where o: "0 \<le> sub_epoll_create_answer k" "m = Inr (broker, fds)" "h' = h2"
      "obj = new_subscriber flags callback (sub_epoll_create_answer k) (broker, fds)" by auto
    with m1 show ?thesis by (cases fds) (auto simp: new_subscriber_def)
  qed
qed

lemma create_subscriber_correct:
  "\<exists>r h'. create_subscriber k topics flags callback h = Some (r, h') \<and> same_segments h h'
    \<and> (\<exists>packets. sub_sent h' = sub_sent h @ packets \<and> length packets \<le> 1) \<and> r \<noteq> Inl TransferEventDrainFailed \<and> (case r of
      Inl e \<Rightarrow> sub_ledger h {#} h' {#}
    | Inr obj \<Rightarrow> sub_ledger h {#} h' (sub_all_owned obj) \<and> sub_object_inv obj h'
        \<and> by_fd (subscriber_of obj) = Map.empty \<and> sub_flags (subscriber_of obj) = flags \<and> callback_set obj = callback
        \<and> sub_run_thread obj = (if sub_mode flags = SUB_ASYNCHRONOUS then Running else NotJoinable)
        \<and> 0 \<le> sub_epoll_fd (subscriber_of obj) \<and> 0 \<le> sub_broker_fd (subscriber_of obj)
        \<and> (sub_mode flags = SUB_ASYNCHRONOUS \<longrightarrow> callback
            \<and> 0 \<le> sub_shutdown_event_fd (subscriber_of obj) \<and> 0 \<le> sub_worker_exit_event_fd (subscriber_of obj))
        \<and> subscriber_topic_registration_packet topics \<noteq> None
        \<and> sub_sent h' = sub_sent h @ [the (subscriber_topic_registration_packet topics)])"
proof (cases "sub_mode flags \<noteq> SUB_SYNCHRONOUS \<and> sub_mode flags \<noteq> SUB_ASYNCHRONOUS
    \<or> sub_mode flags = SUB_ASYNCHRONOUS \<and> \<not> callback")
  case True
  then show ?thesis by (auto simp: create_subscriber_def same_segments_def)
next
  case modes: False
  obtain m h1 where a: "sub_acquire_resources k topics flags callback h = (m, h1)" by fastforce
  have s: "sub_settles h (m, h1) (own_fds \<circ> subscriber_of)"
    using sub_acquire_resources_settles [of h k topics flags callback] a by simp
  note made = sub_acquire_resources_made [OF a]
  show ?thesis
  proof (cases m)
    case (Inl e)
    have "e \<noteq> TransferEventDrainFailed"
      using a Inl
      by (auto simp: sub_acquire_resources_def with_fd_def sub_connect_and_register_def sub_connect_to_broker_def
        sub_register_def send_subscriber_topic_registration_def sub_create_worker_eventfds_def
        split: if_split_asm prod.split_asm sum.split_asm option.split_asm)
    with modes a Inl s made(1) show ?thesis by (auto simp: create_subscriber_def fd_settles_def)
  next
    case (Inr obj)
    note mo = made(2) [OF Inr]
    then obtain fds where o: "obj = new_subscriber flags callback (sub_epoll_create_answer k) fds" by blast
    from sub_complete_creation_correct [OF o, of k h1] obtain r h' where
      c: "sub_complete_creation k obj h1 = Some (r, h')" "same_segments h1 h'" "sub_sent h' = sub_sent h1"
      and cr: "case r of
      Inl e \<Rightarrow> sub_ledger h1 (open_fds (own_fds (subscriber_of obj))) h' {#}
        \<and> e = SubRunThreadCreateFailed \<and> sub_mode flags = SUB_ASYNCHRONOUS
    | Inr obj' \<Rightarrow> sub_ledger h1 (sub_all_owned obj') h' (sub_all_owned obj') \<and> subscriber_of obj' = subscriber_of obj
        \<and> callback_set obj' = callback
        \<and> sub_run_thread obj' = (if sub_mode flags = SUB_ASYNCHRONOUS then Running else NotJoinable)" by blast
    have code: "create_subscriber k topics flags callback h = Some (r, h')"
      using modes a Inr c(1) by (auto simp: create_subscriber_def)
    have seg: "same_segments h h'" using s Inr c(2) by (simp add: fd_settles_def same_segments_def)
    have l: "sub_ledger h {#} h1 (open_fds (own_fds (subscriber_of obj)))" using s Inr by (simp add: fd_settles_def)
    have empty: "by_fd (subscriber_of obj) = Map.empty" "by_id (subscriber_of obj) = Map.empty"
      "sub_flags (subscriber_of obj) = flags"
      by (cases fds; simp add: o new_subscriber_def)+
    show ?thesis
    proof (cases r)
      case (Inl e)
      with cr sub_fds.ledger_trans [OF l] code seg made(1) c(3) show ?thesis by simp
    next
      case (Inr obj')
      with cr have o': "subscriber_of obj' = subscriber_of obj" "callback_set obj' = callback"
        "sub_run_thread obj' = (if sub_mode flags = SUB_ASYNCHRONOUS then Running else NotJoinable)"
        and l2: "sub_ledger h1 (sub_all_owned obj') h' (sub_all_owned obj')" by simp_all
      have own: "sub_all_owned obj' = open_fds (own_fds (subscriber_of obj))"
        using empty o'(1) by (simp add: sub_all_owned_def sub_owned_def)
      have "sub_object_inv obj' h'"
        using empty o'(1) by (simp add: sub_object_inv_def sub_inv_def tables_inverse_def separately_mapped_def)
      with Inr code seg o' empty mo c(3) modes sub_fds.ledger_trans [OF l [folded own] l2] show ?thesis by auto
    qed
  qed
qed

end
