(* ===== verification/Subscriber_Lifecycle_Properties.thy ===== *)
theory Subscriber_Lifecycle_Properties
  imports Subscriber_Resources Subscriber_Properties
begin

text \<open>
  The properties of a subscriber's creation, destruction and transfer, each with its use on a
  concrete process.
\<close>

section \<open>A subscriber that is created and destroyed\<close>

definition demo_sub_host :: sub_host where
  "demo_sub_host = \<lparr>sub_process = demo_sub_world, sub_opened = [], sub_sent = [], sub_signalled = []\<rparr>"

definition demo_sub_answers :: sub_create_answers where
  "demo_sub_answers =
    \<lparr>sub_epoll_create_answer = 3, sub_socket_answer = 4, sub_connect_ok = (\<lambda>n. n = 1), sub_registration_sent = 10,
     sub_watch_ok = all_ok, sub_shutdown_eventfd = 5, sub_exit_eventfd = 6, sub_thread_created = True\<rparr>"

text \<open>A worker that receives one attachment and then sees the shutdown event.\<close>

definition demo_worker :: sub_worker_answers where
  "demo_worker = \<lparr>sub_worker_signal = all_ok, sub_worker_drain = all_ok, sub_worker_mmap = demo_mmap,
     sub_worker_watch = all_ok, sub_worker_waits = [EpollEvents [kBrokerEventId, kShutdownEventId]],
     sub_worker_received = [RecvMsg demo_batch, RecvErr EAGAIN],
     attachment_order = (\<lambda>atts. sorted_list_of_set (dom atts))\<rparr>"

lemma demo_worker_ok: "sub_worker_ok demo_worker"
  by (simp add: sub_worker_ok_def demo_worker_def demo_mmap_fresh answer_ok_def demo_batch_ok visits_attachments_def)

definition demo_async_subscriber :: subscriber_object where
  "demo_async_subscriber = \<lparr>subscriber_of = demo_subscriber
      \<lparr>sub_flags := SUB_ASYNCHRONOUS, sub_shutdown_event_fd := 5, sub_worker_exit_event_fd := 6\<rparr>,
    callback_set = True, sub_run_thread = Running, sub_run_thread_active = True, worker_exit_future = Some None\<rparr>"

definition demo_registration :: bytes where
  "demo_registration = the (subscriber_topic_registration_packet [kTopicCamera])"

lemma demo_registration:
  "subscriber_topic_registration_packet [kTopicCamera] = Some demo_registration" "length demo_registration = 10"
  by (simp_all add: demo_registration_def subscriber_topic_registration_packet_def Let_def kMaxSubscriberTopicCount_def)

lemma demo_sub_created:
  "\<exists>h'. create_subscriber demo_sub_answers [kTopicCamera] SUB_ASYNCHRONOUS True demo_sub_host
    = Some (Inr demo_async_subscriber, h') \<and> sub_opened h' = [3, 4, 5, 6] \<and> sub_process h' = demo_sub_world
        \<lparr>sub_watched := [(4, kBrokerEventId), (5, kShutdownEventId)]\<rparr> \<and> sub_sent h' = [demo_registration]"
  by (simp add: create_subscriber_def sub_mode_def SUB_SYNCHRONOUS_def SUB_ASYNCHRONOUS_def sub_acquire_resources_def
      with_fd_def demo_sub_answers_def sub_connect_and_register_def sub_connect_to_broker_def broker_connected_iff
      sub_register_def send_subscriber_topic_registration_def demo_registration sub_create_worker_eventfds_def
      demo_sub_host_def sub_host_gain_def sub_host_watch_def demo_sub_world_def)
    (simp add: sub_complete_creation_def sub_take_resources_from_idle new_subscriber_def sub_start_run_thread_def
      reset_worker_exit_notification_def sub_moved_def sub_moved_from_def empty_subscriber_def sub_mode_def
      SUB_ASYNCHRONOUS_def SUB_SYNCHRONOUS_def sub_release_resources_def sub_stop_run_thread_def no_sub_worker_def
      sub_close_fd_def demo_async_subscriber_def demo_subscriber_def Let_def)

text \<open>Property C31. Creating a subscriber is all or nothing: \<open>create\<close> always returns; whichever step
  fails, every descriptor obtained so far is closed exactly once and at most one registration was
  sent; on success the object owns every descriptor, exactly the registration of its topics was
  sent, it has no attachments yet, and its worker runs in the asynchronous mode, which is refused
  without a callback.  The error for a failed transfer never occurs.\<close>

theorem create_subscriber_all_or_nothing:
  "\<exists>r h'. create_subscriber k topics flags callback h = Some (r, h')
    \<and> segments (sub_process h') = segments (sub_process h)
    \<and> (\<exists>packets. sub_sent h' = sub_sent h @ packets \<and> length packets \<le> 1) \<and> r \<noteq> Inl TransferEventDrainFailed \<and> (case r of
      Inl e \<Rightarrow> sub_ledger h {#} h' {#}
    | Inr obj \<Rightarrow> sub_ledger h {#} h' (sub_all_owned obj) \<and> sub_inv (subscriber_of obj) (sub_process h')
        \<and> by_fd (subscriber_of obj) = Map.empty \<and> sub_flags (subscriber_of obj) = flags \<and> callback_set obj = callback
        \<and> sub_run_thread obj = (if sub_mode flags = SUB_ASYNCHRONOUS then Running else NotJoinable)
        \<and> 0 \<le> sub_epoll_fd (subscriber_of obj) \<and> 0 \<le> sub_broker_fd (subscriber_of obj)
        \<and> (if sub_mode flags = SUB_ASYNCHRONOUS then callback
            \<and> 0 \<le> sub_shutdown_event_fd (subscriber_of obj) \<and> 0 \<le> sub_worker_exit_event_fd (subscriber_of obj) else True)
        \<and> subscriber_topic_registration_packet topics \<noteq> None
        \<and> sub_sent h' = sub_sent h @ [the (subscriber_topic_registration_packet topics)])"
proof -
  from create_subscriber_correct [of k topics flags callback h] obtain r h' where
    c: "create_subscriber k topics flags callback h = Some (r, h')" "same_segments h h'"
      "\<exists>packets. sub_sent h' = sub_sent h @ packets \<and> length packets \<le> 1" "r \<noteq> Inl TransferEventDrainFailed"
    and r: "case r of
      Inl e \<Rightarrow> sub_ledger h {#} h' {#}
    | Inr obj \<Rightarrow> sub_ledger h {#} h' (sub_all_owned obj) \<and> sub_object_inv obj h'
        \<and> by_fd (subscriber_of obj) = Map.empty \<and> sub_flags (subscriber_of obj) = flags \<and> callback_set obj = callback
        \<and> sub_run_thread obj = (if sub_mode flags = SUB_ASYNCHRONOUS then Running else NotJoinable)
        \<and> 0 \<le> sub_epoll_fd (subscriber_of obj) \<and> 0 \<le> sub_broker_fd (subscriber_of obj)
        \<and> (sub_mode flags = SUB_ASYNCHRONOUS \<longrightarrow> callback
            \<and> 0 \<le> sub_shutdown_event_fd (subscriber_of obj) \<and> 0 \<le> sub_worker_exit_event_fd (subscriber_of obj))
        \<and> subscriber_topic_registration_packet topics \<noteq> None
        \<and> sub_sent h' = sub_sent h @ [the (subscriber_topic_registration_packet topics)]" by blast
  with c show ?thesis
    by (intro exI [of _ r] exI [of _ h']) (cases r, simp_all add: same_segments_def sub_object_inv_def)
qed

theorem create_subscriber_all_or_nothing_witness:
  "\<exists>h'. create_subscriber demo_sub_answers [kTopicCamera] SUB_ASYNCHRONOUS True demo_sub_host
      = Some (Inr demo_async_subscriber, h')
    \<and> sub_ledger demo_sub_host {#} h' (sub_all_owned demo_async_subscriber) \<and> sub_sent h' = [demo_registration]"
proof -
  from demo_sub_created obtain h' where
    c: "create_subscriber demo_sub_answers [kTopicCamera] SUB_ASYNCHRONOUS True demo_sub_host
      = Some (Inr demo_async_subscriber, h')" "sub_sent h' = [demo_registration]" by blast
  with create_subscriber_all_or_nothing [of demo_sub_answers "[kTopicCamera]" SUB_ASYNCHRONOUS True demo_sub_host]
  show ?thesis by simp
qed

section \<open>Destruction\<close>

lemma demo_async_inv:
  "segments (sub_process h) = Map.empty \<Longrightarrow> sub_object_inv demo_async_subscriber h"
  by (simp add: sub_object_inv_def demo_async_subscriber_def demo_subscriber_def sub_inv_def tables_inverse_def
      separately_mapped_def)

lemma demo_async_owned: "sub_all_owned demo_async_subscriber = {#5, 6, 3, 4#}"
  by (simp add: sub_all_owned_def demo_async_subscriber_def demo_subscriber_def own_fds_def sub_owned_def)

text \<open>The worker of the example takes the attachment over before it stops.\<close>

lemma demo_batch_installed:
  "\<exists>cmsg s' w'. sub_handle_broker_message demo_mmap all_ok demo_batch s demo_sub_world = Some (True, cmsg, s', w')
    \<and> sub_events s' = sub_events s \<and> sub_shutdown_event_fd s' = sub_shutdown_event_fd s"
  if "by_fd s = Map.empty" "by_id s = Map.empty" for s
proof -
  have m: "read_attachment_metadata (attachment_batch_packet demo_metadata) 1 = Some (9, kTopicCamera, 2)"
    using read_attachment_batch [of 0 demo_metadata] by (simp add: demo_metadata_def)
  have l: "length (attachment_batch_packet demo_metadata) = 14"
    by (simp add: length_attachment_batch_packet demo_metadata_def)
  have p: "\<exists>xs. attachment_batch_packet demo_metadata = type_byte SubscriberAttachmentBatch # xs"
    by (simp add: attachment_batch_packet_def)
  then obtain xs where p: "attachment_batch_packet demo_metadata = type_byte SubscriberAttachmentBatch # xs" by blast
  have "install_attachments demo_mmap all_ok (attachment_batch_packet demo_metadata) (Suc 0) 1 0 [20, 21, 22] s demo_sub_world
    = Some (True, [-1, -1, -1], s\<lparr>data_available_event_fd_by_attachment_id := [9 \<mapsto> 22],
        publisher_attachment_by_data_available_event_fd := [22 \<mapsto> empty_attachment\<lparr>att_topic_id := kTopicCamera,
          slot_index := 2, shm_fd := 20, att_space_available_event_fd := 21, att_data_available_event_fd := 22,
          shared_data_at := Some 20\<rparr>]\<rparr>, demo_sub_world\<lparr>segments := [20 \<mapsto> zero_shared_data], sub_watched := [(22, 9)]\<rparr>)"
    using that m
    by (simp add: install_attachment_def demo_mmap_def demo_sub_world_def Let_def)
  with l have "\<exists>cmsg s' w'. install_subscriber_attachment_batch demo_mmap all_ok (attachment_batch_packet demo_metadata) 13
      (msg_control demo_batch) s demo_sub_world = Some (True, cmsg, s', w')
    \<and> sub_events s' = sub_events s \<and> sub_shutdown_event_fd s' = sub_shutdown_event_fd s"
    by (simp add: demo_batch_def send_packet_with_fds_def Let_def
      install_subscriber_attachment_batch_def kSubscriberAttachmentMetadataSize_def is_valid_scm_rights_cmsg_def CMSG_LEN_def)
  moreover have "sub_handle_broker_message demo_mmap all_ok demo_batch s demo_sub_world
    = install_subscriber_attachment_batch demo_mmap all_ok (attachment_batch_packet demo_metadata) 13
      (msg_control demo_batch) s demo_sub_world"
  proof -
    have "msg_bytes demo_batch = attachment_batch_packet demo_metadata" "\<not> msg_truncated demo_batch"
      by (simp_all add: demo_batch_def send_packet_with_fds_def)
    moreover have "length xs = 13" using l p by simp
    moreover have "message_type_of 5 = Some SubscriberAttachmentBatch" by (simp add: message_type_of_def)
    ultimately show ?thesis by (simp add: sub_handle_broker_message_def Let_def p)
  qed
  ultimately show ?thesis by simp
qed

lemma demo_worker_stops:
  "\<exists>joined h1. sub_stop_run_thread demo_worker demo_async_subscriber demo_sub_host = Some (True, joined, h1)"
proof -
  let ?s = "(subscriber_of demo_async_subscriber)\<lparr>sub_events := [kShutdownEventId]\<rparr>"
  from demo_batch_installed [of ?s] obtain cmsg s' w' where
    "sub_handle_broker_message demo_mmap all_ok demo_batch ?s demo_sub_world = Some (True, cmsg, s', w')"
    by (auto simp: demo_async_subscriber_def demo_subscriber_def)
  then show ?thesis
    by (simp add: sub_stop_run_thread_def sub_worker_thread_def sub_run_def demo_async_subscriber_def demo_subscriber_def
      demo_worker_def demo_sub_host_def sub_run_event_def kBrokerEventId_def kShutdownEventId_def Let_def)
qed

text \<open>Property C32. The destructor of a subscriber gives everything back: it returns whenever the
  worker does, and whatever the worker still does while it is being stopped, every descriptor the
  object owned and every descriptor that arrived with an attachment meanwhile is closed exactly
  once, exactly the segments of its attachments are unmapped, and the object owns nothing.\<close>

theorem subscriber_destructor_closes_all:
  assumes "sub_stop_run_thread a obj h = Some (b, joined, h1)"
    and "sub_inv (subscriber_of obj) (sub_process h)" "maps_fresh (sub_worker_mmap a)"
    and "\<forall>x \<in> set (sub_worker_received a). answer_ok x" "visits_attachments (attachment_order a)"
  shows "\<exists>obj' h' used rest. sub_release_resources a obj h = Some (obj', h') \<and> sub_worker_received a = used @ rest
    \<and> mset (sub_closed (sub_process h'))
      = mset (sub_closed (sub_process h)) + sub_all_owned obj + mset (concat (map answer_fds used))
    \<and> sub_bare obj' \<and> sub_opened h' = sub_opened h
    \<and> dom (segments (sub_process h')) = dom (segments (sub_process h)) - attached_at (by_fd (subscriber_of obj))"
proof -
  have "sub_object_inv obj h" "sub_worker_ok a" using assms by (simp_all add: sub_object_inv_def sub_worker_ok_def)
  from sub_release_resources_closes [OF assms(1) this] show ?thesis by blast
qed

theorem subscriber_destructor_closes_all_witness:
  "\<exists>obj' h' used rest. sub_release_resources demo_worker demo_async_subscriber demo_sub_host = Some (obj', h')
    \<and> sub_worker_received demo_worker = used @ rest
    \<and> mset (sub_closed (sub_process h')) = {#5, 6, 3, 4#} + mset (concat (map answer_fds used)) \<and> sub_bare obj'"
proof -
  from demo_worker_stops obtain joined h1 where
    s: "sub_stop_run_thread demo_worker demo_async_subscriber demo_sub_host = Some (True, joined, h1)" by blast
  have inv: "sub_inv (subscriber_of demo_async_subscriber) (sub_process demo_sub_host)"
    using demo_async_inv [of demo_sub_host] by (simp add: sub_object_inv_def demo_sub_host_def demo_sub_world_def)
  have ok: "maps_fresh (sub_worker_mmap demo_worker)" "\<forall>x \<in> set (sub_worker_received demo_worker). answer_ok x"
    "visits_attachments (attachment_order demo_worker)"
    using demo_worker_ok by (simp_all add: sub_worker_ok_def)
  from subscriber_destructor_closes_all [OF s inv ok] show ?thesis
    by (simp add: demo_async_owned) (simp add: demo_sub_host_def demo_sub_world_def, blast)
qed

section \<open>The move\<close>

text \<open>A move of a subscriber neither loses nor duplicates a descriptor, whatever its
  outcome: those of the source, and those that arrived while its worker was stopped, are
  afterwards owned by the target, still owned by the source, or closed, and both tables stay
  consistent.  A worker that was stopped by the move runs again in the target; when it cannot be
  started everything is closed and unmapped.\<close>

theorem subscriber_move_balanced:
  assumes "sub_stop_run_thread a other h = Some (restart, joined, h1)" "sub_bare this"
    and "sub_inv (subscriber_of other) (sub_process h)" "maps_fresh (sub_worker_mmap a)"
    and "\<forall>x \<in> set (sub_worker_received a). answer_ok x" "visits_attachments (attachment_order a)"
  shows "\<exists>t this' other' h' used rest. sub_take_resources_from a created this other h = Some (t, this', other', h')
    \<and> sub_worker_received a = used @ rest
    \<and> sub_all_owned this' + sub_all_owned other' + mset (sub_closed (sub_process h'))
      = sub_all_owned other + mset (sub_closed (sub_process h)) + mset (concat (map answer_fds used))
    \<and> sub_inv (subscriber_of this') (sub_process h') \<and> sub_inv (subscriber_of other') (sub_process h')
    \<and> (t = TransferDrainFailed \<longrightarrow> this' = this) \<and> (t \<noteq> TransferDrainFailed \<longrightarrow> sub_bare other')
    \<and> (t = Transferred \<longrightarrow> subscriber_of this' = subscriber_of joined
        \<and> sub_run_thread this' = (if restart then Running else NotJoinable))
    \<and> (t = TransferThreadFailed \<longrightarrow> sub_bare this'
        \<and> dom (segments (sub_process h')) = dom (segments (sub_process h)) - attached_at (by_fd (subscriber_of other)))"
proof -
  have "sub_object_inv other h" "sub_worker_ok a" using assms by (simp_all add: sub_object_inv_def sub_worker_ok_def)
  from sub_take_resources_from_balance [OF assms(1,2) this, of created] show ?thesis
    unfolding sub_object_inv_def .
qed

theorem subscriber_move_balanced_witness:
  "\<exists>t this' other' h' used rest.
    sub_take_resources_from demo_worker True empty_subscriber demo_async_subscriber demo_sub_host = Some (t, this', other', h')
    \<and> sub_worker_received demo_worker = used @ rest
    \<and> sub_all_owned this' + sub_all_owned other' + mset (sub_closed (sub_process h'))
      = {#5, 6, 3, 4#} + mset (concat (map answer_fds used))
    \<and> sub_inv (subscriber_of this') (sub_process h')"
proof -
  from demo_worker_stops obtain joined h1 where
    s: "sub_stop_run_thread demo_worker demo_async_subscriber demo_sub_host = Some (True, joined, h1)" by blast
  have inv: "sub_inv (subscriber_of demo_async_subscriber) (sub_process demo_sub_host)"
    using demo_async_inv [of demo_sub_host] by (simp add: sub_object_inv_def demo_sub_host_def demo_sub_world_def)
  have ok: "maps_fresh (sub_worker_mmap demo_worker)" "\<forall>x \<in> set (sub_worker_received demo_worker). answer_ok x"
    "visits_attachments (attachment_order demo_worker)"
    using demo_worker_ok by (simp_all add: sub_worker_ok_def)
  have closed: "mset (sub_closed (sub_process demo_sub_host)) = {#}" by (simp add: demo_sub_host_def demo_sub_world_def)
  from subscriber_move_balanced [OF s empty_subscriber_bare inv ok, of True] show ?thesis
    unfolding demo_async_owned closed by (elim exE conjE) (intro exI conjI, assumption, assumption, simp, assumption)
qed

end
