(* ===== verification/Broker_Main.thy ===== *)
theory Broker_Main
  imports Broker_System
begin

text \<open>
  \<open>main\<close> of the broker (\<open>src/broker.cpp\<close>): the setup of its descriptors, the event loop with its
  dispatch, and what it closes when a signal ends it.
\<close>

section \<open>Setup\<close>

datatype main_error =
    BrokerSignalMask | BrokerShutdownSignalFdCreate | BrokerSocketUnlink | BrokerListenSocketCreate
  | BrokerBind | BrokerListen | BrokerEpollCreate | BrokerShutdownSignalEpollAdd | BrokerListenEpollAdd
  | BrokerEpollWait | BrokerUnexpectedEpollTimeout | BrokerShutdownSignalRead
  | BrokerExit broker_fault       \<comment> \<open>\<open>exit(1)\<close> in a handler\<close>

record setup_answers =
  sigprocmask_ok :: bool
  signalfd_answer :: int
  socket_unlink_answer :: syscall
  listen_socket_answer :: int
  bind_ok :: bool
  listen_ok :: bool
  main_epoll_answer :: int
  main_watch_ok :: "int \<Rightarrow> bool"

record main_fds =
  shutdown_fd :: int
  listen_fd :: int
  main_epoll_fd :: int

definition broker_setup :: "setup_answers \<Rightarrow> main_error + main_fds" where
  "broker_setup k =
     (if \<not> sigprocmask_ok k then Inl BrokerSignalMask
      else if signalfd_answer k < 0 then Inl BrokerShutdownSignalFdCreate
      else if socket_unlink_answer k \<noteq> SysOk \<and> socket_unlink_answer k \<noteq> SysErr 2 then Inl BrokerSocketUnlink
      else if listen_socket_answer k < 0 then Inl BrokerListenSocketCreate
      else if \<not> bind_ok k then Inl BrokerBind
      else if \<not> listen_ok k then Inl BrokerListen
      else if main_epoll_answer k < 0 then Inl BrokerEpollCreate
      else if \<not> main_watch_ok k (signalfd_answer k) then Inl BrokerShutdownSignalEpollAdd
      else if \<not> main_watch_ok k (listen_socket_answer k) then Inl BrokerListenEpollAdd
      else Inr \<lparr>shutdown_fd = signalfd_answer k, listen_fd = listen_socket_answer k,
        main_epoll_fd = main_epoll_answer k\<rparr>)"

section \<open>The event loop\<close>

text \<open>One event of \<open>epoll_wait\<close>, and what the calls it leads to will answer.\<close>

record main_event =
  event_fd :: int
  event_in :: bool                       \<comment> \<open>\<open>events & EPOLLIN\<close>\<close>
  signal_read :: bool                    \<comment> \<open>\<open>read\<close> returns a whole \<open>signalfd_siginfo\<close>\<close>
  accept_answers :: "accept_answer list"
  recvmsg_answers :: "received list"

text \<open>The boolean is \<open>shutdown_requested\<close>.\<close>

definition exits :: "broker_result \<Rightarrow> main_error + bool \<times> broker \<times> broker_io" where
  "exits r = map_sum BrokerExit (Pair False) r"

definition handle_main_event ::
  "main_fds \<Rightarrow> kernel \<Rightarrow> (broker \<Rightarrow> bytes) \<Rightarrow> main_event \<Rightarrow> broker \<Rightarrow> broker_io
     \<Rightarrow> main_error + bool \<times> broker \<times> broker_io"
where
  "handle_main_event m kern snapshot ev b w =
     (if event_fd ev = shutdown_fd m then
        if signal_read ev then Inr (True, b, w) else Inl BrokerShutdownSignalRead
      else if event_fd ev = listen_fd m then exits (accept_clients (accept_answers ev) b w)
      else if event_in ev then exits (receive_client_messages kern snapshot (event_fd ev) (recvmsg_answers ev) b w)
      else Inr (False, b, w))"

text \<open>The events of one call; the rest is not looked at once the shutdown is requested.\<close>

fun handle_main_events ::
  "main_fds \<Rightarrow> kernel \<Rightarrow> (broker \<Rightarrow> bytes) \<Rightarrow> main_event list \<Rightarrow> broker \<Rightarrow> broker_io
     \<Rightarrow> main_error + bool \<times> broker \<times> broker_io"
where
  "handle_main_events m kern snapshot [] b w = Inr (False, b, w)"
| "handle_main_events m kern snapshot (ev # evs) b w = (case handle_main_event m kern snapshot ev b w of
     Inl e \<Rightarrow> Inl e
   | Inr (True, b, w) \<Rightarrow> Inr (True, b, w)
   | Inr (False, b, w) \<Rightarrow> handle_main_events m kern snapshot evs b w)"

text \<open>\<^term>\<open>None\<close> while \<open>epoll_wait\<close> has not returned.\<close>

fun main_loop ::
  "main_fds \<Rightarrow> kernel \<Rightarrow> (broker \<Rightarrow> bytes) \<Rightarrow> main_event epoll_answer list \<Rightarrow> broker \<Rightarrow> broker_io
     \<Rightarrow> (main_error + broker \<times> broker_io) option"
where
  "main_loop m kern snapshot [] b w = None"
| "main_loop m kern snapshot (EpollErr errno # waits) b w = Some (Inl BrokerEpollWait)"
| "main_loop m kern snapshot (EpollEvents evs # waits) b w =
     (if evs = [] then Some (Inl BrokerUnexpectedEpollTimeout)
      else (case handle_main_events m kern snapshot evs b w of
        Inl e \<Rightarrow> Some (Inl e)
      | Inr (True, b, w) \<Rightarrow> Some (Inr (b, w))
      | Inr (False, b, w) \<Rightarrow> main_loop m kern snapshot waits b w))"

section \<open>The end\<close>

text \<open>The traversals of the two unordered containers.\<close>

record traversals =
  client_order :: "int set \<Rightarrow> int list"
  role_order :: "(int \<rightharpoonup> broker_role) \<Rightarrow> int list"

definition close_all :: "traversals \<Rightarrow> main_fds \<Rightarrow> broker \<Rightarrow> broker_io \<Rightarrow> broker_io" where
  "close_all t m b w = w\<lparr>b_closed := b_closed w @ [listen_fd m, main_epoll_fd m, shutdown_fd m]
     @ client_order t (client_fds b) @ concat (map (close_published b) (role_order t (role_by_fd b)))\<rparr>"

definition broker_main ::
  "setup_answers \<Rightarrow> kernel \<Rightarrow> (broker \<Rightarrow> bytes) \<Rightarrow> traversals \<Rightarrow> main_event epoll_answer list
     \<Rightarrow> (main_error + broker \<times> broker_io) option"
where
  "broker_main k kern snapshot t waits = (case broker_setup k of
     Inl e \<Rightarrow> Some (Inl e)
   | Inr m \<Rightarrow> map_option (map_sum id (\<lambda>(b, w). (b, close_all t m b w)))
       (main_loop m kern snapshot waits initial_broker initial_io))"

section \<open>An orderly environment\<close>

text \<open>What the kernel and conforming clients guarantee of one event: \<open>accept\<close> returns no descriptor
  of a registered client, and only clients become readable.\<close>

definition orderly_event :: "main_fds \<Rightarrow> main_event \<Rightarrow> broker \<Rightarrow> bool" where
  "orderly_event m ev b \<longleftrightarrow>
     (if event_fd ev = shutdown_fd m then True
      else if event_fd ev = listen_fd m
      then \<forall>a \<in> set (accept_answers ev). (case a of AcceptFd fd _ \<Rightarrow> role_by_fd b fd = None | AcceptErr _ \<Rightarrow> True)
      else event_fd ev \<in> client_fds b \<and> conforming (role_by_fd b (event_fd ev)) (recvmsg_answers ev))"

fun orderly_events ::
  "main_fds \<Rightarrow> kernel \<Rightarrow> (broker \<Rightarrow> bytes) \<Rightarrow> main_event list \<Rightarrow> broker \<Rightarrow> broker_io \<Rightarrow> bool"
where
  "orderly_events m kern snapshot [] b w = True"
| "orderly_events m kern snapshot (ev # evs) b w = (orderly_event m ev b \<and>
     (case handle_main_event m kern snapshot ev b w of
        Inr (False, b, w) \<Rightarrow> orderly_events m kern snapshot evs b w
      | _ \<Rightarrow> True))"

fun orderly_run ::
  "main_fds \<Rightarrow> kernel \<Rightarrow> (broker \<Rightarrow> bytes) \<Rightarrow> main_event epoll_answer list \<Rightarrow> broker \<Rightarrow> broker_io \<Rightarrow> bool"
where
  "orderly_run m kern snapshot (EpollEvents evs # waits) b w = (orderly_events m kern snapshot evs b w \<and>
     (case handle_main_events m kern snapshot evs b w of
        Inr (False, b, w) \<Rightarrow> orderly_run m kern snapshot waits b w
      | _ \<Rightarrow> True))"
| "orderly_run m kern snapshot waits b w = True"


section \<open>Why the process may end\<close>

definition main_external :: "kernel \<Rightarrow> main_error \<Rightarrow> bool" where
  "main_external kern e \<longleftrightarrow> (case e of
     BrokerExit f \<Rightarrow> external_fault kern f
   | e \<Rightarrow> e \<in> {BrokerEpollWait, BrokerUnexpectedEpollTimeout, BrokerShutdownSignalRead})"

lemma accept_clients_fault: "accept_clients answers b w = Inl e \<Longrightarrow> e = BrokerAccept"
  by (induction answers b w rule: accept_clients.induct) (auto split: if_split_asm)

lemma exits_simps [simp]:
  "exits r = Inl e \<longleftrightarrow> (\<exists>f. r = Inl f \<and> e = BrokerExit f)" "exits r = Inr (stop, b, w) \<longleftrightarrow> \<not> stop \<and> r = Inr (b, w)"
  by (cases r; auto simp: exits_def)+

lemma handle_main_event_ok:
  assumes reach: "broker_reachable kern snapshot b w" and all: "visits_all kern" and ev: "orderly_event m ev b"
  shows "handle_main_event m kern snapshot ev b w = Inl e \<Longrightarrow> main_external kern e"
    "handle_main_event m kern snapshot ev b w = Inr (stop, b', w') \<Longrightarrow>
      broker_reachable kern snapshot b' w' \<and> (event_fd ev = shutdown_fd m \<longrightarrow> stop)"
proof -
  note inv = broker_reachable_inv [OF reach all]
  consider (signal) "event_fd ev = shutdown_fd m"
    | (accept) "event_fd ev \<noteq> shutdown_fd m" "event_fd ev = listen_fd m"
    | (client) "event_fd ev \<noteq> shutdown_fd m" "event_fd ev \<noteq> listen_fd m" "event_in ev"
    | (none) "event_fd ev \<noteq> shutdown_fd m" "event_fd ev \<noteq> listen_fd m" "\<not> event_in ev" by blast
  then show "handle_main_event m kern snapshot ev b w = Inl e \<Longrightarrow> main_external kern e"
  proof cases
    case accept
    assume "handle_main_event m kern snapshot ev b w = Inl e"
    with accept accept_clients_fault show ?thesis by (auto simp: handle_main_event_def main_external_def fault_defs)
  next
    case client
    assume "handle_main_event m kern snapshot ev b w = Inl e"
    with client obtain f where "receive_client_messages kern snapshot (event_fd ev) (recvmsg_answers ev) b w = Inl f"
      and e: "e = BrokerExit f" by (auto simp: handle_main_event_def)
    with receive_client_messages_ok [OF inv, of "event_fd ev" "recvmsg_answers ev" kern snapshot w] client ev all
    show ?thesis by (simp add: orderly_event_def outcome_def main_external_def)
  qed (simp_all add: handle_main_event_def main_external_def split: if_split_asm)
  assume code: "handle_main_event m kern snapshot ev b w = Inr (stop, b', w')"
  then consider (signal) "event_fd ev = shutdown_fd m" "stop" "b' = b" "w' = w"
    | (accept) "event_fd ev \<noteq> shutdown_fd m" "event_fd ev = listen_fd m" "accept_clients (accept_answers ev) b w = Inr (b', w')"
    | (client) "event_fd ev \<noteq> shutdown_fd m" "event_fd ev \<noteq> listen_fd m"
        "receive_client_messages kern snapshot (event_fd ev) (recvmsg_answers ev) b w = Inr (b', w')"
    | (none) "event_fd ev \<noteq> shutdown_fd m" "b' = b" "w' = w"
    by (auto simp: handle_main_event_def split: if_split_asm)
  then show "broker_reachable kern snapshot b' w' \<and> (event_fd ev = shutdown_fd m \<longrightarrow> stop)"
  proof cases
    case accept
    have "\<forall>fd watched. AcceptFd fd watched \<in> set (accept_answers ev) \<longrightarrow> role_by_fd b fd = None"
      using ev accept by (force simp: orderly_event_def)
    from broker_step.accepts [OF this accept(3)] reach accept(1) show ?thesis by (blast intro: reachable_step)
  next
    case client
    with ev have "event_fd ev \<in> client_fds b" "conforming (role_by_fd b (event_fd ev)) (recvmsg_answers ev)"
      by (simp_all add: orderly_event_def)
    from broker_step.receives [OF this client(3)] reach client(1) show ?thesis by (blast intro: reachable_step)
  qed (use reach in simp_all)
qed

lemma handle_main_events_ok:
  assumes "broker_reachable kern snapshot b w" "visits_all kern" "orderly_events m kern snapshot evs b w"
  shows "case handle_main_events m kern snapshot evs b w of
      Inl e \<Rightarrow> main_external kern e
    | Inr (stop, b', w') \<Rightarrow> broker_reachable kern snapshot b' w'
        \<and> ((\<exists>ev \<in> set evs. event_fd ev = shutdown_fd m) \<longrightarrow> stop)"
  using assms
proof (induction evs arbitrary: b w)
  case Nil
  then show ?case by simp
next
  case (Cons ev evs)
  from Cons.prems(3) have ev: "orderly_event m ev b" by simp
  note ok = handle_main_event_ok [OF Cons.prems(1,2) ev]
  show ?case
  proof (cases "handle_main_event m kern snapshot ev b w")
    case (Inl e)
    with ok(1) show ?thesis by simp
  next
    case (Inr r)
    obtain stop b1 w1 where r: "r = (stop, b1, w1)" by (cases r)
    note r1 = ok(2) [OF Inr [unfolded r]]
    show ?thesis
    proof (cases stop)
      case True
      with Inr r r1 show ?thesis by simp
    next
      case False
      with Inr r Cons.prems(3) have "orderly_events m kern snapshot evs b1 w1" by simp
      from Cons.IH [OF _ Cons.prems(2) this] r1 have "case handle_main_events m kern snapshot evs b1 w1 of
          Inl e \<Rightarrow> main_external kern e
        | Inr (stop, b', w') \<Rightarrow> broker_reachable kern snapshot b' w'
            \<and> ((\<exists>ev \<in> set evs. event_fd ev = shutdown_fd m) \<longrightarrow> stop)" by blast
      moreover have "event_fd ev \<noteq> shutdown_fd m" using r1 False by blast
      ultimately show ?thesis using Inr r False by (cases "handle_main_events m kern snapshot evs b1 w1") auto
    qed
  qed
qed

text \<open>The loop returns once a signal has arrived, in a reachable state, or for an external reason.\<close>

lemma main_loop_ok:
  assumes "broker_reachable kern snapshot b w" "visits_all kern" "orderly_run m kern snapshot waits b w"
  shows "case main_loop m kern snapshot waits b w of
      None \<Rightarrow> \<not> (\<exists>evs ev. EpollEvents evs \<in> set waits \<and> ev \<in> set evs \<and> event_fd ev = shutdown_fd m)
    | Some (Inl e) \<Rightarrow> main_external kern e
    | Some (Inr (b', w')) \<Rightarrow> broker_reachable kern snapshot b' w'"
  using assms
proof (induction m kern snapshot waits b w rule: main_loop.induct)
  case (3 m kern snapshot evs waits b w)
  show ?case
  proof (cases "evs = []")
    case True
    then show ?thesis by (simp add: main_external_def)
  next
    case False
    from "3.prems" have o: "orderly_events m kern snapshot evs b w" by simp
    note ok = handle_main_events_ok [OF "3.prems"(1,2) o]
    show ?thesis
    proof (cases "handle_main_events m kern snapshot evs b w")
      case (Inl e)
      with ok False show ?thesis by simp
    next
      case (Inr r)
      obtain stop b1 w1 where r: "r = (stop, b1, w1)" by (cases r)
      show ?thesis
      proof (cases stop)
        case True
        with Inr r ok False show ?thesis by simp
      next
        case no: False
        have o1: "orderly_run m kern snapshot waits b1 w1" using "3.prems"(3) Inr r no by simp
        have r1: "broker_reachable kern snapshot b1 w1" "\<not> (\<exists>ev \<in> set evs. event_fd ev = shutdown_fd m)"
          using ok Inr r no by simp_all
        have r': "(False, b1, w1) = r" using r no by simp
        from "3.IH" [OF False Inr r' refl refl r1(1) "3.prems"(2) o1]
        have "case main_loop m kern snapshot waits b1 w1 of
            None \<Rightarrow> \<not> (\<exists>evs ev. EpollEvents evs \<in> set waits \<and> ev \<in> set evs \<and> event_fd ev = shutdown_fd m)
          | Some (Inl e) \<Rightarrow> main_external kern e
          | Some (Inr (b', w')) \<Rightarrow> broker_reachable kern snapshot b' w'" .
        with False Inr r no r1(2) show ?thesis by (auto split: option.split sum.split prod.split)
      qed
    qed
  qed
qed (simp_all add: main_external_def)


section \<open>What is closed at the end\<close>

definition traversals_ok :: "traversals \<Rightarrow> bool" where
  "traversals_ok t \<longleftrightarrow> (\<forall>fds. finite fds \<longrightarrow> distinct (client_order t fds) \<and> set (client_order t fds) = fds)
     \<and> (\<forall>roles. finite (dom roles) \<longrightarrow> distinct (role_order t roles) \<and> set (role_order t roles) = dom roles)"

text \<open>Every registered client is either a subscriber with its attachments or a publisher with its
  segment.\<close>

lemma close_published_split:
  assumes "clients_ok b"
  shows "mset (close_published b fd)
    = image_mset sa_data_available_event_fd (mset (list_at (subscriber_attachments_by_subscriber_fd b) fd))
      + (case shm_fd_by_publisher_fd b fd of None \<Rightarrow> {#} | Some shm \<Rightarrow> {#shm#})"
  using clients_okD(1,3) [OF assms, of fd]
  by (cases "role_by_fd b fd"; cases "shm_fd_by_publisher_fd b fd"; cases "subscriber_attachments_by_subscriber_fd b fd")
    (auto simp: close_published_def list_at_def split: broker_role.split)

lemma closed_published:
  assumes inv: "system_inv b" and t: "traversals_ok t"
  shows "mset (concat (map (close_published b) (role_order t (role_by_fd b))))
    = image_mset sa_data_available_event_fd (all_attachments (subscriber_attachments_by_subscriber_fd b))
      + sum_entries (\<lambda>shm. {#shm#}) (shm_fd_by_publisher_fd b)"
proof -
  have c: "clients_ok b" and fin: "finite (dom (role_by_fd b))"
    using inv by (auto simp: system_inv_def broker_inv_def intro: finite_subset)
  let ?m = "subscriber_attachments_by_subscriber_fd b"
  from t fin have o: "distinct (role_order t (role_by_fd b))" "set (role_order t (role_by_fd b)) = dom (role_by_fd b)"
    by (simp_all add: traversals_ok_def)
  have sub: "dom ?m \<subseteq> dom (role_by_fd b)" "dom (shm_fd_by_publisher_fd b) \<subseteq> dom (role_by_fd b)"
    using clients_okD(1,3) [OF c] by (auto simp: domIff) (metis option.distinct(1))+
  have "mset (concat (map (close_published b) (role_order t (role_by_fd b))))
    = (\<Sum>fd \<in> dom (role_by_fd b). mset (close_published b fd))"
    using o by (simp add: mset_concat_map sum_list_distinct_conv_sum_set)
  also have "\<dots> = (\<Sum>fd \<in> dom (role_by_fd b). image_mset sa_data_available_event_fd (mset (list_at ?m fd)))
    + (\<Sum>fd \<in> dom (role_by_fd b). case shm_fd_by_publisher_fd b fd of None \<Rightarrow> {#} | Some shm \<Rightarrow> {#shm#})"
    unfolding close_published_split [OF c] by (rule sum.distrib)
  also have "(\<Sum>fd \<in> dom (role_by_fd b). image_mset sa_data_available_event_fd (mset (list_at ?m fd)))
    = (\<Sum>fd \<in> dom ?m. image_mset sa_data_available_event_fd (mset (the (?m fd))))"
    by (rule sum.mono_neutral_cong_right [OF fin sub(1)]) (auto simp: list_at_None domIff, auto simp: list_at_def)
  also have "\<dots> = image_mset sa_data_available_event_fd (all_attachments ?m)"
    using finite_subset [OF sub(1) fin] by (simp add: all_attachments_def sum_entries_def image_mset_sum)
  also have "(\<Sum>fd \<in> dom (role_by_fd b). case shm_fd_by_publisher_fd b fd of None \<Rightarrow> {#} | Some shm \<Rightarrow> {#shm#})
    = sum_entries (\<lambda>shm. {#shm#}) (shm_fd_by_publisher_fd b)"
    unfolding sum_entries_def by (rule sum.mono_neutral_cong_right [OF fin sub(2)]) (auto simp: domIff)
  finally show ?thesis .
qed

lemma close_all_closes:
  assumes inv: "system_inv b" and t: "traversals_ok t"
  shows "mset (b_closed (close_all t m b w)) = mset (b_closed w) + {#listen_fd m, main_epoll_fd m, shutdown_fd m#}
    + mset_set (client_fds b)
    + image_mset sa_data_available_event_fd (all_attachments (subscriber_attachments_by_subscriber_fd b))
    + sum_entries (\<lambda>shm. {#shm#}) (shm_fd_by_publisher_fd b)"
proof -
  have "finite (client_fds b)" using inv by (simp add: system_inv_def)
  with t have "mset (client_order t (client_fds b)) = mset_set (client_fds b)"
    by (metis traversals_ok_def mset_set_set)
  with closed_published [OF inv t] show ?thesis by (simp add: close_all_def)
qed

end
