(* ===== verification/Broker_Main_Properties.thy ===== *)
theory Broker_Main_Properties
  imports Broker_Main Broker_Scenario
begin

text \<open>
  The properties of the broker as a whole process, each with its use on a concrete run.
\<close>

section \<open>The process\<close>

text \<open>Property C33. \<open>main\<close> of the broker serves until it is signalled: once the shutdown signal has
  arrived it returns, whatever else happens before; it ends early only for an external reason, and
  otherwise in a state that satisfies every invariant of the tables.  On the way out it closes the
  listening socket, the epoll instance and the signal descriptor, every client connection, the
  data eventfd of every attachment and the segment of every publisher, each once.\<close>

theorem broker_main_serves_until_signalled:
  assumes "broker_setup k = Inr m" "visits_all kern" "traversals_ok t"
    and "orderly_run m kern snapshot waits initial_broker initial_io"
    and "EpollEvents evs \<in> set waits" "ev \<in> set evs" "event_fd ev = shutdown_fd m"
  shows "\<exists>r. broker_main k kern snapshot t waits = Some r \<and> (case r of
      Inl e \<Rightarrow> main_external kern e
    | Inr (b, w') \<Rightarrow> \<exists>w. broker_reachable kern snapshot b w \<and> broker_inv b
        \<and> mset (b_closed w') = mset (b_closed w) + {#listen_fd m, main_epoll_fd m, shutdown_fd m#}
          + mset_set (client_fds b)
          + image_mset sa_data_available_event_fd (all_attachments (subscriber_attachments_by_subscriber_fd b))
          + sum_entries (\<lambda>shm. {#shm#}) (shm_fd_by_publisher_fd b))"
proof -
  note ok = main_loop_ok [OF reachable_initial assms(2,4)]
  have "main_loop m kern snapshot waits initial_broker initial_io \<noteq> None"
    using ok assms(5-7) by (cases "main_loop m kern snapshot waits initial_broker initial_io") auto
  then obtain r where l: "main_loop m kern snapshot waits initial_broker initial_io = Some r" by blast
  show ?thesis
  proof (cases r)
    case (Inl e)
    with ok l assms(1) show ?thesis by (simp add: broker_main_def)
  next
    case (Inr st)
    obtain b w where st: "st = (b, w)" by (cases st)
    with ok l Inr have reach: "broker_reachable kern snapshot b w" by simp
    note inv = broker_reachable_inv [OF this assms(2)]
    then have "broker_inv b" by (simp add: system_inv_def)
    with close_all_closes [OF inv assms(3)] reach l Inr st assms(1) show ?thesis
      by (auto simp: broker_main_def)
  qed
qed

definition demo_setup :: setup_answers where
  "demo_setup = \<lparr>sigprocmask_ok = True, signalfd_answer = 3, socket_unlink_answer = SysErr 2, listen_socket_answer = 4,
     bind_ok = True, listen_ok = True, main_epoll_answer = 9, main_watch_ok = (\<lambda>_. True)\<rparr>"

definition demo_traversals :: traversals where
  "demo_traversals = \<lparr>client_order = sorted_list_of_set, role_order = (\<lambda>m. sorted_list_of_set (dom m))\<rparr>"

text \<open>Two clients connect, one of them registers as a publisher, then the signal arrives.\<close>

definition demo_event :: "int \<Rightarrow> accept_answer list \<Rightarrow> received list \<Rightarrow> main_event" where
  "demo_event fd accepts received = \<lparr>event_fd = fd, event_in = True, signal_read = True,
     accept_answers = accepts, recvmsg_answers = received\<rparr>"

definition demo_waits :: "main_event epoll_answer list" where
  "demo_waits = [EpollEvents [demo_event 4 [AcceptFd 5 True, AcceptFd 8 True] []],
     EpollEvents [demo_event 5 [] [RecvMsg demo_publisher_message], demo_event 3 [] []]]"

theorem broker_main_serves_until_signalled_witness:
  "\<exists>r. broker_main demo_setup demo_kernel demo_snapshot demo_traversals demo_waits = Some r"
proof -
  let ?m = "\<lparr>shutdown_fd = 3, listen_fd = 4, main_epoll_fd = 9\<rparr>"
  have s: "broker_setup demo_setup = Inr ?m" by (simp add: broker_setup_def demo_setup_def)
  have t: "traversals_ok demo_traversals" by (simp add: traversals_ok_def demo_traversals_def)
  have c: "conforming None [RecvMsg demo_publisher_message]"
    by (simp add: demo_publisher_message_def send_packet_with_fds_def publisher_topic_registration_packet_def del: type_byte.simps)
  have o: "orderly_run ?m demo_kernel demo_snapshot demo_waits initial_broker initial_io"
    using c
    by (auto simp: demo_waits_def demo_event_def orderly_event_def handle_main_event_def exits_def initial_broker_def
      split: sum.split prod.split bool.split)
  have e: "EpollEvents [demo_event 5 [] [RecvMsg demo_publisher_message], demo_event 3 [] []] \<in> set demo_waits"
    "demo_event 3 [] [] \<in> set [demo_event 5 [] [RecvMsg demo_publisher_message], demo_event 3 [] []]"
    "event_fd (demo_event 3 [] []) = shutdown_fd ?m"
    by (simp_all add: demo_waits_def demo_event_def)
  from broker_main_serves_until_signalled [OF s demo_kernel_ok(3) t o e] show ?thesis by blast
qed

end
