(* ===== verification/Status_Snapshot.thy ===== *)
theory Status_Snapshot
  imports Broker_Handlers "HOL-Library.Product_Lexorder"
begin

text \<open>
  The status report of the broker (\<open>build_status_snapshot_payload\<close> and its helpers in
  \<open>src/broker.cpp\<close>): decimal numbers, columns padded by \<open>setw\<close>, comma-separated lists, and the
  three tables.
\<close>

section \<open>Text\<close>

text \<open>Decimal output of \<open>operator<<\<close> and \<open>to_string\<close>.\<close>

definition digit_char :: "nat \<Rightarrow> char" where
  "digit_char d = ''0123456789'' ! d"

fun show_nat :: "nat \<Rightarrow> string" where
  "show_nat n = (if n < 10 then [digit_char n] else show_nat (n div 10) @ [digit_char (n mod 10)])"

declare show_nat.simps [simp del]

definition show_int :: "int \<Rightarrow> string" where
  "show_int i = (if i < 0 then ''-'' @ show_nat (nat (- i)) else show_nat (nat i))"

text \<open>\<open>left << setw(n)\<close>.\<close>

definition setw :: "nat \<Rightarrow> string \<Rightarrow> string" where
  "setw n s = s @ replicate (n - length s) CHR '' ''"

definition newline :: string where
  "newline = [CHR 0x0A]"

text \<open>The loops that write a comma before every element but the first.\<close>

fun comma_separated :: "string list \<Rightarrow> string" where
  "comma_separated [] = ''''"
| "comma_separated [s] = s"
| "comma_separated (s # ss) = s @ '','' @ comma_separated ss"

definition or_dash :: "string list \<Rightarrow> string" where
  "or_dash ss = (if ss = [] then ''-'' else comma_separated ss)"

section \<open>Names and lists\<close>

definition get_topic_name_from_id :: "topic_id \<Rightarrow> string" where
  "get_topic_name_from_id topic =
     (if topic = kTopicCamera then ''Camera'' else if topic = kTopicLidar then ''Lidar''
      else if topic = kTopicVehicleState then ''VehicleState'' else if topic = kTopicInvalid then ''Invalid''
      else ''Unknown'')"

definition get_broker_role_name :: "broker_role \<Rightarrow> string" where
  "get_broker_role_name role = (case role of RoleSubscriber \<Rightarrow> ''Subscriber'' | RolePublisher \<Rightarrow> ''Publisher'')"

definition kKnownTopicIds :: "topic_id list" where
  "kKnownTopicIds = [kTopicCamera, kTopicLidar, kTopicVehicleState, kTopicInvalid]"

definition format_topic_ids :: "topic_id list \<Rightarrow> string" where
  "format_topic_ids topic_ids = or_dash (map get_topic_name_from_id topic_ids)"

definition format_fd_list :: "int list \<Rightarrow> string" where
  "format_fd_list fds = or_dash (map show_int (sort fds))"

definition find_publisher_topic_ids :: "broker \<Rightarrow> int \<Rightarrow> topic_id list" where
  "find_publisher_topic_ids b fd = filter (\<lambda>topic. case publisher_fds_by_topic_id b topic of
     None \<Rightarrow> False | Some fds \<Rightarrow> fd \<in> set fds) kKnownTopicIds"

text \<open>The heap is a copy, taken apart from the top.\<close>

function heap_drained :: "nat list \<Rightarrow> nat list" where
  "heap_drained h = (if h = [] then [] else heap_top h # heap_drained (heap_pop h))"
  by pat_completeness auto
termination by (relation "measure length") (simp_all add: heap_pop_def)

declare heap_drained.simps [simp del]

definition format_free_slots :: "nat list \<Rightarrow> string" where
  "format_free_slots h = or_dash (map show_nat (heap_drained h))"

text \<open>The pairs of slot and subscriber, collected in the order \<open>fds\<close> of a traversal, then sorted.\<close>

definition occupied_slots_from :: "int list \<Rightarrow> broker \<Rightarrow> topic_id \<Rightarrow> int \<Rightarrow> (nat \<times> int) list" where
  "occupied_slots_from fds b topic publisher = sort (concat (map (\<lambda>fd.
     map (\<lambda>a. (unat (sa_slot_index a), fd)) (filter (\<lambda>a. sa_topic_id a = topic \<and> sa_publisher_fd a = publisher)
       (list_at (subscriber_attachments_by_subscriber_fd b) fd))) fds))"

definition occupied_slots :: "broker \<Rightarrow> topic_id \<Rightarrow> int \<Rightarrow> (nat \<times> int) list" where
  "occupied_slots b = occupied_slots_from (sorted_list_of_set (dom (subscriber_attachments_by_subscriber_fd b))) b"

definition format_occupied_slots :: "broker \<Rightarrow> topic_id \<Rightarrow> int \<Rightarrow> string" where
  "format_occupied_slots b topic publisher =
     or_dash (map (\<lambda>(slot, fd). show_nat slot @ ''->sub='' @ show_int fd) (occupied_slots b topic publisher))"

section \<open>The tables\<close>

definition connection_fds :: "broker \<Rightarrow> int list" where
  "connection_fds b = sorted_list_of_set (dom (role_by_fd b))"

definition connection_row :: "broker \<Rightarrow> int \<Rightarrow> broker_role \<Rightarrow> string" where
  "connection_row b fd role =
     (let (topic_ids, attachment_count) = (case role of
        RoleSubscriber \<Rightarrow> (list_at (topic_ids_by_subscriber_fd b) fd,
          case subscriber_attachments_by_subscriber_fd b fd of None \<Rightarrow> ''0'' | Some as \<Rightarrow> show_nat (length as))
      | RolePublisher \<Rightarrow> (find_publisher_topic_ids b fd, ''-'')) in
      setw 6 (show_int fd) @ setw 12 (get_broker_role_name role) @ setw 13 ''registered''
        @ setw 25 (format_topic_ids topic_ids) @ attachment_count @ newline)"

definition topic_row :: "broker \<Rightarrow> topic_id \<Rightarrow> string" where
  "topic_row b topic =
     setw 15 (get_topic_name_from_id topic)
       @ setw 25 (format_fd_list (list_at (publisher_fds_by_topic_id b) topic))
       @ format_fd_list (list_at (subscriber_fds_by_topic_id b) topic) @ newline"

definition slot_row :: "broker \<Rightarrow> topic_id \<Rightarrow> int \<Rightarrow> nat list \<Rightarrow> string" where
  "slot_row b topic publisher free =
     setw 15 (get_topic_name_from_id topic) @ setw 15 (show_int publisher)
       @ setw 28 (format_occupied_slots b topic publisher) @ format_free_slots free @ newline"

text \<open>The rows of one topic, by descriptor of the publisher.\<close>

definition slot_rows :: "broker \<Rightarrow> topic_id \<Rightarrow> string list" where
  "slot_rows b topic = (case available_subscriber_slots b topic of
     None \<Rightarrow> []
   | Some slots \<Rightarrow> map (\<lambda>fd. slot_row b topic fd (the (slots fd))) (sorted_list_of_set (dom slots)))"

definition build_status_snapshot_payload :: "broker \<Rightarrow> string" where
  "build_status_snapshot_payload b =
     (let rows = concat (map (slot_rows b) kKnownTopicIds) in
      ''BROKER STATUS'' @ newline @ ''connection_state=registered_control_connection'' @ newline
        @ ''connection_count='' @ show_nat (card (dom (role_by_fd b))) @ newline
        @ newline @ ''CONNECTIONS'' @ newline
        @ setw 6 ''FD'' @ setw 12 ''ROLE'' @ setw 13 ''STATE'' @ setw 25 ''TOPICS'' @ ''ATTACHMENTS'' @ newline
        @ concat (map (\<lambda>fd. connection_row b fd (the (role_by_fd b fd))) (connection_fds b))
        @ newline @ ''TOPIC ROUTING'' @ newline
        @ setw 15 ''TOPIC'' @ setw 25 ''PUBLISHERS'' @ ''SUBSCRIBERS'' @ newline
        @ concat (map (topic_row b) kKnownTopicIds)
        @ newline @ ''SLOTS'' @ newline
        @ setw 15 ''TOPIC'' @ setw 15 ''PUBLISHER_FD'' @ setw 28 ''OCCUPIED'' @ ''FREE'' @ newline
        @ (if rows = [] then ''-'' @ newline else concat rows))"

text \<open>The bytes on the wire.\<close>

definition text_bytes :: "string \<Rightarrow> bytes" where
  "text_bytes s = map (\<lambda>c. of_nat (of_char c)) s"

definition status_snapshot :: "broker \<Rightarrow> bytes" where
  "status_snapshot b = text_bytes (build_status_snapshot_payload b)"

section \<open>Reading the lists back\<close>

text \<open>What a reader of a column does: split at the commas and read the decimal numbers.\<close>

definition read_digit :: "char \<Rightarrow> nat" where
  "read_digit c = of_char c - 48"

definition read_nat :: "string \<Rightarrow> nat" where
  "read_nat s = foldl (\<lambda>n c. n * 10 + read_digit c) 0 s"

definition read_int :: "string \<Rightarrow> int" where
  "read_int s = (if hd s = CHR ''-'' then - int (read_nat (tl s)) else int (read_nat s))"

fun split_commas :: "string \<Rightarrow> string list" where
  "split_commas [] = [[]]"
| "split_commas (c # s) = (if c = CHR '','' then [] # split_commas s
     else (case split_commas s of [] \<Rightarrow> [[c]] | w # ws \<Rightarrow> (c # w) # ws))"

definition read_list :: "string \<Rightarrow> string list" where
  "read_list s = (if s = ''-'' then [] else split_commas s)"

section \<open>Decimal numbers\<close>

definition decimal :: "string \<Rightarrow> bool" where
  "decimal s \<longleftrightarrow> s \<noteq> [] \<and> (\<forall>c \<in> set s. c \<in> set ''0123456789'')"

lemma digit_char: "d < 10 \<Longrightarrow> digit_char d \<in> set ''0123456789'' \<and> read_digit (digit_char d) = d"
proof -
  assume "d < 10"
  then have "d = 0 \<or> d = 1 \<or> d = 2 \<or> d = 3 \<or> d = 4 \<or> d = 5 \<or> d = 6 \<or> d = 7 \<or> d = 8 \<or> d = 9" by arith
  then show ?thesis by (elim disjE) (simp_all add: digit_char_def read_digit_def)
qed

lemma show_nat: "decimal (show_nat n) \<and> read_nat (show_nat n) = n"
proof (induction n rule: show_nat.induct)
  case (1 n)
  show ?case
  proof (cases "n < 10")
    case True
    with digit_char [of n] show ?thesis by (simp add: show_nat.simps [of n] decimal_def read_nat_def)
  next
    case False
    with 1 digit_char [of "n mod 10"] show ?thesis
      by (simp add: show_nat.simps [of n] decimal_def read_nat_def)
  qed
qed

text \<open>A number as it is printed: an optional sign and digits.\<close>

definition number :: "string \<Rightarrow> bool" where
  "number s \<longleftrightarrow> decimal s \<or> (\<exists>t. s = CHR ''-'' # t \<and> decimal t)"

lemma decimal_chars: "decimal s \<Longrightarrow> s \<noteq> [] \<and> CHR '','' \<notin> set s \<and> CHR ''-'' \<notin> set s"
proof -
  have "CHR '','' \<notin> set ''0123456789''" "CHR ''-'' \<notin> set ''0123456789''" by simp_all
  then show "decimal s \<Longrightarrow> s \<noteq> [] \<and> CHR '','' \<notin> set s \<and> CHR ''-'' \<notin> set s"
    unfolding decimal_def by blast
qed

lemma show_int: "number (show_int i) \<and> read_int (show_int i) = i"
proof (cases "i < 0")
  case True
  have "number (CHR ''-'' # show_nat (nat (- i)))" using show_nat number_def by blast
  with True show_nat [of "nat (- i)"] show ?thesis by (simp add: show_int_def read_int_def)
next
  case False
  note s = show_nat [of "nat i"]
  then have "hd (show_nat (nat i)) \<noteq> CHR ''-''" using decimal_chars hd_in_set by metis
  with s False show ?thesis by (simp add: show_int_def number_def read_int_def)
qed

lemma number_no_comma:
  assumes "number s"
  shows "CHR '','' \<notin> set s \<and> s \<noteq> [] \<and> s \<noteq> ''-''"
proof -
  from assms consider "decimal s" | t where "s = CHR ''-'' # t" "decimal t" unfolding number_def by blast
  then show ?thesis
  proof cases
    case 1
    from decimal_chars [OF this] show ?thesis by auto
  next
    case 2
    with decimal_chars [OF 2(2)] show ?thesis by simp
  qed
qed

section \<open>The lists\<close>

lemma split_commas_word: "CHR '','' \<notin> set s \<Longrightarrow> split_commas s = [s]"
  by (induction s) auto

lemma split_commas_append: "CHR '','' \<notin> set s \<Longrightarrow> split_commas (s @ CHR '','' # rest) = s # split_commas rest"
  by (induction s) auto

lemma split_comma_separated:
  "ss \<noteq> [] \<Longrightarrow> \<forall>s \<in> set ss. CHR '','' \<notin> set s \<Longrightarrow> split_commas (comma_separated ss) = ss"
proof (induction ss rule: comma_separated.induct)
  case (3 s t ss)
  then show ?case by (simp add: split_commas_append)
qed (simp_all add: split_commas_word)

lemma comma_separated_not_dash:
  assumes "ss \<noteq> []" "\<forall>s \<in> set ss. CHR '','' \<notin> set s \<and> s \<noteq> ''-''"
  shows "comma_separated ss \<noteq> ''-''"
proof
  assume "comma_separated ss = ''-''"
  then have "split_commas (comma_separated ss) = [''-'']" by simp
  with split_comma_separated assms have "ss = [''-'']" by simp
  with assms(2) show False by simp
qed

lemma read_list_or_dash:
  "\<forall>s \<in> set ss. CHR '','' \<notin> set s \<and> s \<noteq> ''-'' \<Longrightarrow> read_list (or_dash ss) = ss"
  using comma_separated_not_dash [of ss] split_comma_separated [of ss]
  by (auto simp: or_dash_def read_list_def)

lemma read_numbers: "\<forall>s \<in> set ss. number s \<Longrightarrow> read_list (or_dash ss) = ss"
  by (rule read_list_or_dash) (use number_no_comma in blast)

lemma format_fd_list_read: "map read_int (read_list (format_fd_list fds)) = sort fds"
proof -
  have "read_list (format_fd_list fds) = map show_int (sort fds)"
    unfolding format_fd_list_def using show_int by (intro read_numbers) auto
  then show ?thesis using show_int by (simp add: map_idI)
qed

lemma heap_drained_all: "heap_drained h = h"
proof (induction h rule: heap_drained.induct)
  case (1 h)
  then show ?case
    by (cases h) (simp_all add: heap_drained.simps [of "[]"] heap_drained.simps [of "_ # _"] heap_top_def heap_pop_def)
qed

lemma format_free_slots_read: "map read_nat (read_list (format_free_slots h)) = h"
proof -
  have "read_list (format_free_slots h) = map show_nat h"
    unfolding format_free_slots_def heap_drained_all using show_nat by (intro read_numbers) (auto simp: number_def)
  then show ?thesis using show_nat by (simp add: map_idI)
qed


text \<open>A pair \<open>slot->sub=fd\<close> is read back at the arrow.\<close>

definition read_occupied :: "string \<Rightarrow> nat \<times> int" where
  "read_occupied s = (let slot = takeWhile (\<lambda>c. c \<noteq> CHR ''-'') s in
     (read_nat slot, read_int (drop (length slot + length ''->sub='') s)))"

lemma read_occupied: "read_occupied (show_nat slot @ ''->sub='' @ show_int fd) = (slot, fd)"
proof -
  have "takeWhile (\<lambda>c. c \<noteq> CHR ''-'') (show_nat slot @ ''->sub='' @ show_int fd) = show_nat slot"
    using decimal_chars show_nat [of slot] by (subst takeWhile_append2) auto
  with show_nat [of slot] show_int [of fd] show ?thesis by (simp add: read_occupied_def)
qed

lemma format_occupied_slots_read:
  "map read_occupied (read_list (format_occupied_slots b topic publisher)) = occupied_slots b topic publisher"
proof -
  let ?pair = "\<lambda>(slot, fd). show_nat slot @ ''->sub='' @ show_int fd"
  have "CHR '','' \<notin> set (?pair x) \<and> ?pair x \<noteq> ''-''" for x
    using decimal_chars show_nat [of "fst x"] number_no_comma show_int [of "snd x"] by (cases x) auto
  then have "read_list (format_occupied_slots b topic publisher) = map ?pair (occupied_slots b topic publisher)"
    unfolding format_occupied_slots_def by (intro read_list_or_dash) auto
  moreover have "read_occupied (?pair x) = x" for x using read_occupied by (cases x) simp
  ultimately show ?thesis by (simp only: map_map comp_def) (rule map_idI, blast)
qed

text \<open>The order in which the attachments are traversed does not show.\<close>

lemma mset_concat_map_perm:
  assumes "mset xs = mset ys"
  shows "mset (concat (map f xs)) = mset (concat (map f ys))"
proof -
  have "mset (concat (map f zs)) = \<Sum>\<^sub># (image_mset (\<lambda>x. mset (f x)) (mset zs))" for zs
    by (induction zs) simp_all
  with assms show ?thesis by simp
qed

lemma sort_perm: "mset xs = mset ys \<Longrightarrow> sort xs = sort ys"
  using properties_for_sort [of "sort ys" xs] by simp

lemma occupied_slots_any_order:
  assumes "distinct fds" "set fds = dom (subscriber_attachments_by_subscriber_fd b)"
  shows "occupied_slots_from fds b topic publisher = occupied_slots b topic publisher"
proof -
  let ?m = "subscriber_attachments_by_subscriber_fd b"
  have fin: "finite (dom ?m)" unfolding assms(2) [symmetric] by simp
  have "mset fds = mset (sorted_list_of_set (dom ?m))"
    using assms fin by (metis mset_set_set distinct_sorted_list_of_set set_sorted_list_of_set)
  then show ?thesis unfolding occupied_slots_def occupied_slots_from_def
    by (rule sort_perm [OF mset_concat_map_perm])
qed

section \<open>A full row\<close>

text \<open>The topics of a subscriber to all three topics fill their column, so the number of its
  attachments follows without a space.\<close>

lemma connection_row_runs_together:
  assumes "topic_ids_by_subscriber_fd b fd = Some [kTopicCamera, kTopicLidar, kTopicVehicleState]"
    "subscriber_attachments_by_subscriber_fd b fd = Some as"
  shows "connection_row b fd RoleSubscriber = setw 6 (show_int fd) @ ''Subscriber  '' @ ''registered   ''
    @ ''Camera,Lidar,VehicleState'' @ show_nat (length as) @ newline"
proof -
  have t: "format_topic_ids [kTopicCamera, kTopicLidar, kTopicVehicleState] = ''Camera,Lidar,VehicleState''"
    by (simp add: format_topic_ids_def or_dash_def get_topic_name_from_id_def kTopicCamera_def kTopicLidar_def
      kTopicVehicleState_def)
  show ?thesis using assms
    by (simp add: connection_row_def list_at_def t get_broker_role_name_def) (simp add: setw_def numeral_eq_Suc)
qed

end
