(* ===== verification/Status_Cli.thy ===== *)
theory Status_Cli
  imports Fd_Helpers Broker_Protocol
begin

text \<open>
  The status client (\<open>broker_status_cli.cpp\<close>): one query, one answer, printed as it is.
\<close>

definition kSunPathSize :: nat where "kSunPathSize = 108"

definition kBrokerSocketPath :: string where "kBrokerSocketPath = ''/tmp/broker.sock''"

datatype cli_error =
    BrokerStatusSocketPathTooLong | BrokerStatusSocketCreate | BrokerStatusConnect
  | BrokerStatusQuerySend | BrokerStatusSnapshotReceive | BrokerStatusBrokerClosed
  | BrokerStatusSnapshotTruncated | BrokerStatusSnapshotTooShort
  | BrokerStatusUnexpectedResponseType | BrokerStatusOutputWrite

record cli_answers =
  cli_socket :: int
  cli_connect_ok :: bool
  cli_sent_size :: int
  cli_received :: received
  cli_written :: "nat \<Rightarrow> nat"            \<comment> \<open>what \<open>fwrite\<close> returns for a size\<close>

text \<open>The answer of the broker as it arrives in the buffer, and \<open>MSG_TRUNC\<close>.\<close>

definition snapshot_packet :: "msghdr \<Rightarrow> bytes" where
  "snapshot_packet msg = take kMaxStatusSnapshotMessageSize (msg_bytes msg)"

definition data_truncated :: "msghdr \<Rightarrow> bool" where
  "data_truncated msg \<longleftrightarrow> kMaxStatusSnapshotMessageSize < length (msg_bytes msg)"

definition print_snapshot :: "cli_answers \<Rightarrow> msghdr \<Rightarrow> cli_error option \<times> bytes" where
  "print_snapshot k msg =
     (let packet = snapshot_packet msg in
      if packet = [] then (Some BrokerStatusBrokerClosed, [])
      else if data_truncated msg then (Some BrokerStatusSnapshotTruncated, [])
      else if length packet < 1 then (Some BrokerStatusSnapshotTooShort, [])
      else if message_type_of (packet ! 0) \<noteq> Some StatusSnapshot then (Some BrokerStatusUnexpectedResponseType, [])
      else
        let payload = drop 1 packet; written = cli_written k (length payload) in
        (if written \<noteq> length payload then Some BrokerStatusOutputWrite else None, take written payload))"

text \<open>The error, what was printed, and the descriptors closed.\<close>

definition status_cli :: "cli_answers \<Rightarrow> cli_error option \<times> bytes \<times> int list" where
  "status_cli k =
     (if length kBrokerSocketPath + 1 > kSunPathSize then (Some BrokerStatusSocketPathTooLong, [], [])
      else if cli_socket k < 0 then (Some BrokerStatusSocketCreate, [], [])
      else if \<not> cli_connect_ok k then (Some BrokerStatusConnect, [], [cli_socket k])
      else if cli_sent_size k \<noteq> int kStatusQuerySize then (Some BrokerStatusQuerySend, [], [cli_socket k])
      else (case cli_received k of
          RecvErr errno \<Rightarrow> (Some BrokerStatusSnapshotReceive, [], [cli_socket k])
        | RecvMsg msg \<Rightarrow> (case print_snapshot k msg of (e, out) \<Rightarrow> (e, out, [cli_socket k]))))"

text \<open>The socket is closed on every path on which it was opened.\<close>

lemma status_cli_closes: "snd (snd (status_cli k)) = (if cli_socket k < 0 then [] else [cli_socket k])"
  by (simp add: status_cli_def kBrokerSocketPath_def kSunPathSize_def split: received.split prod.split)

text \<open>A well-formed answer is printed without its type byte.\<close>

lemma status_cli_prints:
  assumes "0 \<le> cli_socket k" "cli_connect_ok k" "cli_sent_size k = 1" "cli_written k = id"
    "cli_received k = RecvMsg msg" "msg_bytes msg = type_byte StatusSnapshot # payload"
    "length payload \<le> kMaxStatusSnapshotPayloadSize"
  shows "status_cli k = (None, payload, [cli_socket k])"
  using assms
  by (simp add: status_cli_def kBrokerSocketPath_def kSunPathSize_def print_snapshot_def snapshot_packet_def
      data_truncated_def protocol_simps Let_def message_type_of_def)

end
