(* ===== verification/Status_Properties.thy ===== *)
theory Status_Properties
  imports Broker_Main Status_Snapshot Status_Cli Broker_Scenario
begin

text \<open>
  What the status report promises to its reader, each property with its use on a concrete state.
\<close>

section \<open>The slots\<close>






section \<open>The lists\<close>

text \<open>Property C35. Round trip of the columns: splitting a printed list at its commas and reading the
  decimal numbers gives back the sorted descriptors, the free slots in the order of the heap, and
  the sorted pairs of slot and subscriber, whatever the order in which they were collected; an
  empty list is the dash.\<close>

theorem status_columns_round_trip:
  "map read_int (read_list (format_fd_list fds)) = sort fds
    \<and> map read_nat (read_list (format_free_slots free)) = free
    \<and> (distinct order \<and> set order = dom (subscriber_attachments_by_subscriber_fd b) \<longrightarrow>
        map read_occupied (read_list (format_occupied_slots b t p)) = occupied_slots_from order b t p)"
  by (simp add: format_fd_list_read format_free_slots_read format_occupied_slots_read occupied_slots_any_order)

lemma demo_initial_order: "distinct [] \<and> set [] = dom (subscriber_attachments_by_subscriber_fd initial_broker)"
  by (simp add: initial_broker_def)

theorem status_columns_round_trip_witness:
  "map read_int (read_list (format_fd_list [8, -1, 5])) = [-1, 5, 8]
    \<and> map read_occupied (read_list (format_occupied_slots initial_broker kTopicCamera 5))
      = occupied_slots_from [] initial_broker kTopicCamera 5"
proof -
  note r = status_columns_round_trip [of "[8, -1, 5]" "[]" "[]" initial_broker kTopicCamera 5]
  have "sort [8, -1, 5 :: int] = [-1, 5, 8]" by simp
  with r demo_initial_order show ?thesis by simp
qed

section \<open>The answer\<close>

text \<open>Property C36. A status query is answered in full: the broker's answer always fits the client's
  buffer, so the client prints exactly the text the broker built for the state it was in, or the
  notice that it was too large, exits without an error and closes its socket; the broker forgets
  and closes the connection and changes nothing else.\<close>

theorem status_query_answered:
  assumes "handle_status_query kern snapshot fd [type_byte StatusQuery] b w = Inr (b', w')" "sends_all kern"
    and "0 \<le> cli_socket k" "cli_connect_ok k" "cli_sent_size k = 1" "cli_written k = id"
    and "cli_received k = RecvMsg (snd (last (outbox w')))"
  shows "status_cli k = (None, status_payload (snapshot b), [cli_socket k])
    \<and> length (status_payload (snapshot b)) \<le> kMaxStatusSnapshotPayloadSize
    \<and> (status_payload (snapshot b) = snapshot b \<or> kMaxStatusSnapshotPayloadSize < length (snapshot b))
    \<and> b' = b\<lparr>client_fds := client_fds b - {fd}\<rparr> \<and> b_closed w' = b_closed w @ [fd]
    \<and> map fst (outbox w') = map fst (outbox w) @ [fd]"
proof -
  let ?p = "status_payload (snapshot b)"
  have len: "length ?p \<le> kMaxStatusSnapshotPayloadSize" by (simp add: status_payload_def protocol_simps)
  from assms(1,2) have w': "outbox w' = outbox w @ [(fd, plain_message (type_byte StatusSnapshot # ?p))]"
    "b' = b\<lparr>client_fds := client_fds b - {fd}\<rparr>" "b_closed w' = b_closed w @ [fd]"
    by (auto simp: handle_status_query_def transmit_def sends_all_def Let_def b_close_def kStatusQuerySize_def require_def)
  have "msg_bytes (snd (last (outbox w'))) = type_byte StatusSnapshot # ?p" by (simp add: w'(1) plain_message_def)
  from status_cli_prints [OF assms(3-7) this len] len w' show ?thesis
    by (simp add: status_payload_def)
qed

definition demo_cli :: "msghdr \<Rightarrow> cli_answers" where
  "demo_cli msg = \<lparr>cli_socket = 3, cli_connect_ok = True, cli_sent_size = 1, cli_received = RecvMsg msg, cli_written = id\<rparr>"

theorem status_query_answered_witness:
  "\<exists>b' w'. handle_status_query demo_kernel status_snapshot 5 [type_byte StatusQuery] demo_connected initial_io = Inr (b', w')
    \<and> status_cli (demo_cli (snd (last (outbox w')))) = (None, status_payload (status_snapshot demo_connected), [3])"
proof -
  obtain b' w' where q: "handle_status_query demo_kernel status_snapshot 5 [type_byte StatusQuery] demo_connected initial_io
    = Inr (b', w')"
    by (simp add: handle_status_query_def kStatusQuerySize_def transmit_def demo_kernel_def)
  from status_query_answered [OF q demo_kernel_ok(1), of "demo_cli (snd (last (outbox w')))"] q show ?thesis
    by (auto simp: demo_cli_def)
qed

end
