(* ===== verification/Async_Logger.thy ===== *)
theory Async_Logger
  imports Transition_System Status_Snapshot
begin

text \<open>
  The logger (\<open>include/logger.h\<close>, \<open>src/logger.cpp\<close>): messages are formatted into a stack or heap
  buffer, queued in a front buffer under a mutex, and written by a backend thread that swaps the
  two buffers.  The time and the formatted arguments are parameters; the operations under the
  mutex are single steps.
\<close>

section \<open>Levels\<close>

datatype log_level = DEBUG | INFO | WARN | ERROR | FATAL

fun level_number :: "log_level \<Rightarrow> nat" where
  "level_number DEBUG = 0" | "level_number INFO = 1" | "level_number WARN = 2"
| "level_number ERROR = 3" | "level_number FATAL = 4"

instantiation log_level :: linorder
begin

definition less_eq_log_level :: "log_level \<Rightarrow> log_level \<Rightarrow> bool" where
  "less_eq_log_level a b \<longleftrightarrow> level_number a \<le> level_number b"

definition less_log_level :: "log_level \<Rightarrow> log_level \<Rightarrow> bool" where
  "less_log_level a b \<longleftrightarrow> level_number a < level_number b"

instance
proof
  fix a b :: log_level
  show "a \<le> b \<Longrightarrow> b \<le> a \<Longrightarrow> a = b" by (cases a; cases b) (simp_all add: less_eq_log_level_def)
qed (auto simp: less_eq_log_level_def less_log_level_def)

end

definition level_to_string :: "log_level \<Rightarrow> string" where
  "level_to_string level = (case level of
     DEBUG \<Rightarrow> ''DEBUG'' | INFO \<Rightarrow> ''INFO'' | WARN \<Rightarrow> ''WARN'' | ERROR \<Rightarrow> ''ERROR'' | FATAL \<Rightarrow> ''FATAL'')"

section \<open>State\<close>

text \<open>The lines handed to the file, each with the path that was open.\<close>

record logger =
  front_buffer :: "string list"
  back_buffer :: "string list"
  flush_threshold :: nat
  file_path :: string
  file_is_open :: bool
  written :: "(string \<times> string) list"
  min_level :: log_level
  stop_requested :: bool
  backend_running :: bool

definition new_logger :: "string \<Rightarrow> bool \<Rightarrow> nat \<Rightarrow> logger" where
  "new_logger path opened threshold = \<lparr>front_buffer = [], back_buffer = [], flush_threshold = threshold,
     file_path = path, file_is_open = opened, written = [], min_level = INFO, stop_requested = False,
     backend_running = True\<rparr>"

lemma new_logger_simps [simp]:
  "stop_requested (new_logger path opened threshold) = False" "backend_running (new_logger path opened threshold) = True"
  by (simp_all add: new_logger_def)

text \<open>The singleton: the first path given is the one that is opened, and five lines make a flush
  due; \<open>existing\<close> is the function-local static.\<close>

definition logger_instance :: "string \<Rightarrow> bool \<Rightarrow> logger option \<Rightarrow> logger" where
  "logger_instance log_file_path opened existing =
     (case existing of Some s \<Rightarrow> s | None \<Rightarrow> new_logger log_file_path opened 5)"

definition file_contents :: "logger \<Rightarrow> string \<Rightarrow> string" where
  "file_contents s path = concat (map (\<lambda>(p, line). if p = path then line @ newline else []) (written s))"

section \<open>Operations\<close>

text \<open>\<open>local_time\<close> is the local time of the clock as \<open>strftime\<close> prints it, \<^term>\<open>None\<close> when it cannot
  be had; \<open>ms\<close> are the milliseconds within the second.\<close>

definition get_timestamp :: "string option \<Rightarrow> nat \<Rightarrow> string" where
  "get_timestamp local_time ms = (case local_time of
     None \<Rightarrow> ''''
   | Some date \<Rightarrow> date @ ''.'' @ show_nat (ms mod 1000))"

lemma timestamp_not_padded:
  "get_timestamp (Some date) 5 = date @ ''.5''" "get_timestamp (Some date) 50 = date @ ''.50''"
  by (simp_all add: get_timestamp_def digit_char_def show_nat.simps)

definition log_entry :: "string \<Rightarrow> log_level \<Rightarrow> string \<Rightarrow> string" where
  "log_entry timestamp level message =
     (if timestamp = '''' then ''<timestamp-unavailable>'' else timestamp) @ '' '' @ level_to_string level @ '' '' @ message"

text \<open>The boolean: whether the backend is notified.\<close>

definition log_message :: "string \<Rightarrow> log_level \<Rightarrow> string \<Rightarrow> logger \<Rightarrow> bool \<times> logger" where
  "log_message timestamp level message s =
     (if level < min_level s then (False, s)
      else
        let s = s\<lparr>front_buffer := front_buffer s @ [log_entry timestamp level message]\<rparr> in
        (flush_threshold s \<le> length (front_buffer s), s))"

lemma log_message_keeps [simp]:
  "stop_requested (snd (log_message ts level message s)) = stop_requested s"
  "backend_running (snd (log_message ts level message s)) = backend_running s"
  "written (snd (log_message ts level message s)) = written s"
  by (simp_all add: log_message_def Let_def)

definition set_level :: "log_level \<Rightarrow> logger \<Rightarrow> logger" where
  "set_level level s = s\<lparr>min_level := level\<rparr>"

definition set_level_by_name :: "string \<Rightarrow> logger \<Rightarrow> logger" where
  "set_level_by_name name s =
     (if name = ''DEBUG'' then set_level DEBUG s else if name = ''INFO'' then set_level INFO s
      else if name = ''WARN'' then set_level WARN s else if name = ''ERROR'' then set_level ERROR s
      else if name = ''FATAL'' then set_level FATAL s else s)"

definition set_log_file_path :: "string \<Rightarrow> bool \<Rightarrow> logger \<Rightarrow> logger" where
  "set_log_file_path path opened s = s\<lparr>file_path := path, file_is_open := opened\<rparr>"

text \<open>The backend's loop over the back buffer.\<close>

fun write_lines :: "string list \<Rightarrow> logger \<Rightarrow> logger" where
  "write_lines [] s = s\<lparr>back_buffer := []\<rparr>"
| "write_lines (line # ls) s =
     write_lines ls (if file_is_open s then s\<lparr>written := written s @ [(file_path s, line)]\<rparr> else s)"

text \<open>What the backend waits for, and one round of it; a round also starts after three seconds.\<close>

definition flush_due :: "logger \<Rightarrow> bool" where
  "flush_due s \<longleftrightarrow> stop_requested s \<or> flush_threshold s \<le> length (front_buffer s)"

definition backend_round :: "logger \<Rightarrow> logger" where
  "backend_round s =
     (let lines = front_buffer s;
          s = write_lines lines (s\<lparr>front_buffer := back_buffer s, back_buffer := lines\<rparr>)
      in if stop_requested s then s\<lparr>backend_running := False\<rparr> else s)"

definition request_stop :: "logger \<Rightarrow> logger" where
  "request_stop s = s\<lparr>stop_requested := True\<rparr>"

section \<open>Formatting\<close>

definition STACK_BUF_SIZE :: nat where "STACK_BUF_SIZE = 1024"

text \<open>\<open>snprintf\<close> into a buffer of \<open>n\<close> characters keeps room for the terminator; reading \<open>n\<close>
  characters that were not written is undefined, as is the overflow of an \<open>int\<close>.\<close>

definition bounded_print :: "nat \<Rightarrow> string \<Rightarrow> string" where
  "bounded_print n s = take (n - 1) s"

definition string_view :: "string \<Rightarrow> nat \<Rightarrow> string option" where
  "string_view buf n = (if n \<le> length buf then Some (take n buf) else None)"

definition int_sum :: "nat \<Rightarrow> nat \<Rightarrow> nat option" where
  "int_sum a b = (if a + b < 2 ^ 31 then Some (a + b) else None)"

text \<open>\<open>text\<close> and \<open>body\<close> are the results of formatting, \<^term>\<open>None\<close> for an error.  The result is
  what is passed to \<open>log\<close>; \<^term>\<open>Some None\<close> when the message is below the level.\<close>

definition logf ::
  "log_level \<Rightarrow> string option \<Rightarrow> string option \<Rightarrow> logger \<Rightarrow> (log_level \<times> string) option option"
where
  "logf level text body s =
     (if level < min_level s then Some None
      else case text of
        None \<Rightarrow> Some (Some (ERROR, ''snprintf prefix failed''))
      | Some text \<Rightarrow>
          let prefix_len = length text; stack_buf = bounded_print STACK_BUF_SIZE text in
          case body of
            None \<Rightarrow> Some (Some (ERROR, ''vsnprintf body failed''))
          | Some body \<Rightarrow> do {
              total_len \<leftarrow> int_sum prefix_len (length body);
              if prefix_len < STACK_BUF_SIZE then
                let stack_buf = stack_buf @ bounded_print (STACK_BUF_SIZE - prefix_len) body in
                if total_len < STACK_BUF_SIZE
                then do { message \<leftarrow> string_view stack_buf total_len; Some (Some (level, message)) }
                else do {
                  heap \<leftarrow> string_view stack_buf prefix_len;
                  let heap_buf = heap @ bounded_print (length body + 1) body;
                  message \<leftarrow> string_view heap_buf total_len;
                  Some (Some (level, message))
                }
              else do {
                let heap_buf = bounded_print (prefix_len + 1) text @ bounded_print (length body + 1) body;
                message \<leftarrow> string_view heap_buf total_len;
                Some (Some (level, message))
              }
            })"

definition log_prefix :: "string \<Rightarrow> int \<Rightarrow> string \<Rightarrow> string" where
  "log_prefix file line func = file @ '':'' @ show_int line @ '' '' @ func @ '' ''"

text \<open>Whatever the lengths, the whole message is logged and nothing is read beyond what was written.\<close>

lemma logf_whole:
  assumes "min_level s \<le> level" "length text + length body < 2 ^ 31"
  shows "logf level (Some text) (Some body) s = Some (Some (level, text @ body))"
  using assms by (auto simp: logf_def int_sum_def string_view_def bounded_print_def Let_def STACK_BUF_SIZE_def)

section \<open>The logger as a transition system\<close>

datatype logger_event =
    Log string log_level string | SetLevel log_level | SetPath string | BackendRound | RequestStop

inductive logger_step :: "logger \<Rightarrow> logger_event \<Rightarrow> logger \<Rightarrow> bool" where
  log: "logger_step s (Log ts level message) (snd (log_message ts level message s))"
| set_level: "logger_step s (SetLevel level) (set_level level s)"
| set_path: "logger_step s (SetPath path) (set_log_file_path path True s)"
| round: "backend_running s \<Longrightarrow> logger_step s BackendRound (backend_round s)"
| stop: "logger_step s RequestStop (request_stop s)"

inductive_cases logger_stepE: "logger_step s ev s'"

text \<open>The specification: the accepted entries and the level.\<close>

inductive log_spec :: "string list \<times> log_level \<Rightarrow> logger_event \<Rightarrow> string list \<times> log_level \<Rightarrow> bool" where
  spec_log: "log_spec (es, lowest) (Log ts level message) (if level < lowest then es else es @ [log_entry ts level message], lowest)"
| spec_level: "log_spec (es, lowest) (SetLevel level) (es, level)"
| spec_other: "ev \<in> {SetPath path, BackendRound, RequestStop} \<Longrightarrow> log_spec (es, lowest) ev (es, lowest)"

inductive_simps log_spec_simps:
  "log_spec (es, lowest) (Log ts level message) a'" "log_spec (es, lowest) (SetLevel level) a'"
  "log_spec (es, lowest) (SetPath path) a'" "log_spec (es, lowest) BackendRound a'"
  "log_spec (es, lowest) RequestStop a'"

definition log_abs :: "logger \<Rightarrow> string list \<times> log_level" where
  "log_abs s = (map snd (written s) @ front_buffer s, min_level s)"

definition log_inv :: "logger \<Rightarrow> bool" where
  "log_inv s \<longleftrightarrow> back_buffer s = [] \<and> file_is_open s \<and> (\<not> backend_running s \<longrightarrow> stop_requested s)"

lemma write_lines_simps:
  "write_lines ls s = s\<lparr>back_buffer := [], written := written s @ (if file_is_open s then map (Pair (file_path s)) ls else [])\<rparr>"
  by (induction ls arbitrary: s) auto

lemma backend_round_simps:
  "log_inv s \<Longrightarrow> backend_round s = s\<lparr>front_buffer := [], written := written s @ map (Pair (file_path s)) (front_buffer s),
     backend_running := backend_running s \<and> \<not> stop_requested s\<rparr>"
  by (simp add: backend_round_def write_lines_simps Let_def log_inv_def)

definition log_initial :: "logger \<Rightarrow> bool" where
  "log_initial s \<longleftrightarrow> (\<exists>path threshold. s = new_logger path True threshold)"

interpretation logger: refinement log_initial logger_step log_inv log_abs "([], INFO)" log_spec
proof
  fix s s' :: logger and ev
  show "log_initial s \<Longrightarrow> log_inv s" by (auto simp: log_initial_def new_logger_def log_inv_def)
  show "log_initial s \<Longrightarrow> log_abs s = ([], INFO)" by (auto simp: log_initial_def new_logger_def log_abs_def)
  show "log_inv s'" if "log_inv s" "logger_step s ev s'"
    using that(2,1)
    by cases (auto simp: log_message_def set_level_def set_log_file_path_def request_stop_def backend_round_simps Let_def
        , auto simp: log_inv_def)
  show "log_spec (log_abs s) ev (log_abs s')" if "log_inv s" "logger_step s ev s'"
    using that(2,1)
    by cases (auto simp: log_message_def set_level_def set_log_file_path_def request_stop_def backend_round_simps Let_def
        log_abs_def comp_def log_spec_simps)
qed

section \<open>What is written\<close>

text \<open>The entries that a history of calls should log.\<close>

fun accepted :: "log_level \<Rightarrow> logger_event list \<Rightarrow> string list" where
  "accepted lowest [] = []"
| "accepted lowest (Log ts level message # evs) =
     (if level < lowest then [] else [log_entry ts level message]) @ accepted lowest evs"
| "accepted lowest (SetLevel level # evs) = accepted level evs"
| "accepted lowest (ev # evs) = accepted lowest evs"

fun level_after :: "log_level \<Rightarrow> logger_event list \<Rightarrow> log_level" where
  "level_after lowest [] = lowest"
| "level_after lowest (SetLevel level # evs) = level_after level evs"
| "level_after lowest (ev # evs) = level_after lowest evs"

lemma accepted_snoc: "accepted lowest (evs @ [ev]) = accepted lowest evs @ accepted (level_after lowest evs) [ev]"
proof (induction evs arbitrary: lowest)
  case (Cons e evs)
  then show ?case by (cases e) auto
qed simp

lemma level_after_snoc: "level_after lowest (evs @ [ev]) = level_after (level_after lowest evs) [ev]"
proof (induction evs arbitrary: lowest)
  case (Cons e evs)
  then show ?case by (cases e) auto
qed simp

lemma log_spec_accepted: "run log_spec ([], INFO) evs a \<Longrightarrow> a = (accepted INFO evs, level_after INFO evs)"
proof (induction "([] :: string list, INFO)" evs a rule: run.induct)
  case run_nil
  then show ?case by simp
next
  case (run_snoc evs a ev a')
  then show ?case
    by (cases ev) (auto simp: accepted_snoc level_after_snoc log_spec_simps)
qed

lemma logger_accounts:
  assumes "run logger_step (new_logger path True threshold) evs s"
  shows "map snd (written s) @ front_buffer s = accepted INFO evs" "log_inv s"
proof -
  have i: "log_initial (new_logger path True threshold)" by (auto simp: log_initial_def)
  from log_spec_accepted [OF logger.run_refines [OF assms i]]
  show "map snd (written s) @ front_buffer s = accepted INFO evs" by (simp add: log_abs_def)
  from logger.run_inv [OF assms i] show "log_inv s" .
qed

text \<open>The backend has ended only after a stop, and nothing can be buffered any more by then except
  what was logged later.\<close>

lemma backend_ends:
  assumes "run logger_step (new_logger path True threshold) evs s"
  shows "backend_running s \<or> (\<exists>pre post. evs = pre @ BackendRound # post \<and> RequestStop \<in> set pre
    \<and> map snd (written s) = accepted INFO pre)"
  using assms
proof (induction "new_logger path True threshold" evs s rule: run.induct)
  case run_nil
  then show ?case by (simp add: new_logger_def)
next
  case (run_snoc evs s ev s')
  have stop: "stop_requested s \<longleftrightarrow> RequestStop \<in> set evs" if "run logger_step (new_logger path True threshold) evs s" for evs s
    using that
  proof (induction "new_logger path True threshold" evs s rule: run.induct)
    case run_nil
    then show ?case by (simp add: new_logger_def)
  next
    case (run_snoc evs s ev s')
    then have "log_inv s" using logger_accounts(2) by blast
    with run_snoc show ?case
      by (auto elim!: logger_stepE simp: set_level_def set_log_file_path_def request_stop_def
        backend_round_simps Let_def)
  qed
  note inv = logger_accounts [OF run_snoc(1)]
  show ?case
  proof (cases "backend_running s")
    case False
    with run_snoc(2) obtain pre post where p: "evs = pre @ BackendRound # post" "RequestStop \<in> set pre"
      "map snd (written s) = accepted INFO pre" by blast
    have "written s' = written s"
      using run_snoc(3) False
      by (auto elim!: logger_stepE simp: set_level_def set_log_file_path_def request_stop_def Let_def)
    with p show ?thesis by (intro disjI2 exI [of _ pre] exI [of _ "post @ [ev]"]) simp
  next
    case True
    show ?thesis
    proof (cases "ev = BackendRound \<and> stop_requested s")
      case yes: True
      with run_snoc(3) have "s' = backend_round s" by (auto elim!: logger_stepE)
      with backend_round_simps [OF inv(2)] have "map snd (written s') = accepted INFO evs"
        using inv(1) by (simp add: comp_def)
      with yes stop [OF run_snoc(1)] show ?thesis by (intro disjI2 exI [of _ evs] exI [of _ "[]"]) simp
    next
      case no: False
      with run_snoc(3) True have "backend_running s'"
        by (auto elim!: logger_stepE simp: set_level_def set_log_file_path_def request_stop_def
          backend_round_simps [OF inv(2)] Let_def)
      then show ?thesis by simp
    qed
  qed
qed

end
