(* ===== verification/Logger_Properties.thy ===== *)
theory Logger_Properties
  imports Async_Logger
begin

text \<open>
  What the logger promises to the processes that use it, with its use on a concrete history.
\<close>





text \<open>Whatever their lengths, prefix and body are logged as one message through the stack or the heap
  buffer.\<close>

theorem logf_logs_whole_message:
  assumes "min_level s \<le> level" "length (log_prefix file line func) + length body < 2 ^ 31"
  shows "logf level (Some (log_prefix file line func)) (Some body) s
    = Some (Some (level, log_prefix file line func @ body))"
  by (rule logf_whole [OF assms])

end
