(* ===== verification/Sync_Publish.thy ===== *)
theory Sync_Publish
  imports Publisher_Teardown
begin

text \<open>
  The synchronous \<open>publish\<close> as a whole: it accounts for every descriptor that arrives while it
  waits, and it returns once the kernel has given enough answers, with how many are enough.
\<close>

section \<open>Descriptors\<close>

lemma process_broker_control_messages_uses:
  assumes code: "process_broker_control_messages answers p w = Some (r, rest, p', w')"
    and g: "going p w" and wf: "\<forall>a \<in> set answers. well_formed a"
  shows "uses answers p w rest p' w' \<and> (r = RunNone \<longrightarrow> going p' w')"
proof -
  from g have inv: "data_inv p (shm w)" and b: "0 \<le> pub_broker_fd p" by (simp_all add: going_def)
  from process_broker_control_messages_conserves [OF code inv wf b] obtain used where
    u: "answers = used @ rest" "conserves (mset (concat (map received_fds used))) p w p' w'" by blast
  have k: "keeps p w p' w'" by (rule process_broker_control_messages_keeps [OF code inv])
  then have "balanced (concat (map received_fds used)) p w p' w'"
    by (intro conserves_balanced [OF u(2)]) (simp add: keeps_def)
  moreover have "r = RunNone \<longrightarrow> going p' w'"
    using keepsD [OF k] process_broker_control_messages_broker [OF code _ inv wf b] b by (simp add: going_def)
  ultimately show ?thesis using u(1) unfolding uses_def by blast
qed

lemma uses_events: "uses a (p\<lparr>pub_events := fds\<rparr>) w a' p' w' \<longleftrightarrow> uses a p w a' p' w'"
  by (simp add: uses_def balanced_def object_fds_def)

lemma handle_sync_events_uses:
  "handle_sync_events drain deadline fds env p w = Some (r, env', p', w') \<Longrightarrow> going p w \<Longrightarrow>
   \<forall>a \<in> set (broker_answers env). well_formed a \<Longrightarrow>
   uses (broker_answers env) p w (broker_answers env') p' w' \<and> (r = None \<longrightarrow> going p' w')"
proof (induction fds arbitrary: env p w)
  case Nil
  then show ?case by (auto simp: events_frame(2) intro: uses_none [OF events_frame(1)])
next
  case (Cons fd fds)
  let ?p = "p\<lparr>pub_events := fd # fds\<rparr>"
  have g: "going ?p w" using Cons.prems(2) by (simp add: events_frame(2))
  from Cons.prems(1) obtain now env1 where clk: "read_clock env = Some (now, env1)"
    by (auto simp: bind_eq_Some_conv)
  then have a1: "broker_answers env1 = broker_answers env" by (auto simp: read_clock_def split: list.split_asm)
  have stay: "uses (broker_answers env) p w (broker_answers env1) ?p w"
    unfolding a1 by (rule uses_none [OF events_frame(1)])
  note IH = Cons.IH [of env1 ?p w, OF _ g, unfolded a1, OF _ Cons.prems(3), unfolded uses_events]
  show ?case
  proof (cases "deadline \<le> now \<or> fd = space_available_event_fd ?p \<or> fd \<noteq> pub_broker_fd ?p")
    case True
    with Cons.prems(1) clk stay IH show ?thesis by (auto simp: Let_def split: if_split_asm)
  next
    case False
    with Cons.prems(1) clk obtain res rest p1 w1 where
      pr: "process_broker_control_messages (broker_answers env1) ?p w = Some (res, rest, p1, w1)"
      and n: "(if res \<noteq> RunNone then do {
           e \<leftarrow> map_sync_run_error_to_publish_error res;
           Some (Some e, env1\<lparr>broker_answers := rest\<rparr>, p1, w1)
         } else handle_sync_events drain deadline fds (env1\<lparr>broker_answers := rest\<rparr>) p1 w1) = Some (r, env', p', w')"
      by (auto simp: bind_eq_Some_conv Let_def split: if_splits)
    have u: "uses (broker_answers env) p w rest p1 w1" and g1: "res = RunNone \<longrightarrow> going p1 w1"
      using process_broker_control_messages_uses [OF pr g] Cons.prems(3) a1 by (simp_all add: uses_events)
    show ?thesis
    proof (cases "res = RunNone")
      case True
      from Cons.IH [of "env1\<lparr>broker_answers := rest\<rparr>" p1 w1] n True g1 uses_wf [OF u Cons.prems(3)] u
      show ?thesis by (auto intro: uses_trans)
    next
      case False
      with n u show ?thesis by (auto simp: bind_eq_Some_conv)
    qed
  qed
qed

lemma read_clock_answers: "read_clock env = Some (now, env') \<Longrightarrow> broker_answers env' = broker_answers env"
  by (auto simp: read_clock_def split: list.split_asm)

text \<open>How far a round gets.\<close>

lemma publish_sync_round_cases:
  assumes code: "publish_sync_round sig drain payload deadline env p w = Some (r, env', p', w')"
  obtains (events) e where
      "handle_sync_events drain deadline (pub_events p) env p w = Some (Some e, env', p', w')" "r = Inl e"
  | (late) env1 now where
      "handle_sync_events drain deadline (pub_events p) env p w = Some (None, env1, p', w')"
      "read_clock env1 = Some (now, env')" "r = Inl Timeout"
  | (attempt) env1 now env2 p1 w1 result where
      "handle_sync_events drain deadline (pub_events p) env p w = Some (None, env1, p1, w1)"
      "read_clock env1 = Some (now, env2)" "try_publish_one sig payload p1 w1 = Some (result, p', w')"
      "broker_answers env' = broker_answers env2" "r = Inr None \<Longrightarrow> \<exists>attempt. result = Inr attempt"
proof -
  from code obtain failed env1 p1 w1 where
    ev: "handle_sync_events drain deadline (pub_events p) env p w = Some (failed, env1, p1, w1)"
    by (auto simp: publish_sync_round_def bind_eq_Some_conv)
  show thesis
  proof (cases failed)
    case (Some e)
    with code ev events show thesis by (auto simp: publish_sync_round_def)
  next
    case None
    with code ev obtain now env2 where now: "read_clock env1 = Some (now, env2)"
      by (auto simp: publish_sync_round_def bind_eq_Some_conv)
    show thesis
    proof (cases "deadline \<le> now")
      case True
      with code ev None now late show thesis by (auto simp: publish_sync_round_def)
    next
      case False
      with code ev None now obtain result p2 w2 where
        t: "try_publish_one sig payload p1 w1 = Some (result, p2, w2)"
        by (auto simp: publish_sync_round_def bind_eq_Some_conv)
      with code ev None now False have "p' = p2 \<and> w' = w2 \<and> broker_answers env' = broker_answers env2
          \<and> (r = Inr None \<longrightarrow> (\<exists>attempt. result = Inr attempt))"
        by (cases result) (auto simp: publish_sync_round_def bind_eq_Some_conv dest: read_clock_answers split: if_split_asm)
      with ev None now t show thesis by (intro attempt) auto
    qed
  qed
qed

lemma publish_sync_round_uses:
  assumes code: "publish_sync_round sig drain payload deadline env p w = Some (r, env', p', w')"
    and g: "going p w" and wf: "\<forall>a \<in> set (broker_answers env). well_formed a"
  shows "uses (broker_answers env) p w (broker_answers env') p' w' \<and> (r = Inr None \<longrightarrow> going p' w')"
  using code
proof (cases rule: publish_sync_round_cases)
  case (events e)
  with handle_sync_events_uses [OF events(1) g wf] show ?thesis by simp
next
  case (late env1 now)
  with handle_sync_events_uses [OF late(1) g wf] read_clock_answers [OF late(2)] show ?thesis by simp
next
  case (attempt env1 now env2 p1 w1 result)
  note e = handle_sync_events_uses [OF attempt(1) g wf]
  have k: "keeps_fds p1 w1 p' w'" by (rule try_publish_one_fds [OF attempt(3)])
  have "uses (broker_answers env) p w (broker_answers env') p' w'"
    using uses_trans [OF _ uses_none [OF k]] e attempt(4) read_clock_answers [OF attempt(2)] by simp
  moreover have "r = Inr None \<Longrightarrow> going p' w'"
    using attempt(3,5) try_publish_one_data_inv [of p1 w1] e k by (auto simp: going_def keeps_fds_def)
  ultimately show ?thesis by blast
qed

lemma publish_sync_loop_uses:
  "publish_sync_loop sig drain payload deadline answers env p w = Some (r, p', w') \<Longrightarrow> going p w \<Longrightarrow>
   \<forall>a \<in> set (broker_answers env). well_formed a \<Longrightarrow> \<exists>rest. uses (broker_answers env) p w rest p' w'"
proof (induction answers arbitrary: env p w)
  case Nil
  then obtain res env1 p1 w1 where
    rd: "publish_sync_round sig drain payload deadline env p w = Some (res, env1, p1, w1)"
    by (auto simp: publish_sync_loop.simps [of _ _ _ _ "[]"] bind_eq_Some_conv)
  with Nil.prems(1) have "p1 = p' \<and> w1 = w'"
    by (auto simp: publish_sync_loop.simps [of _ _ _ _ "[]"] split: sum.split_asm option.split_asm)
  with publish_sync_round_uses [OF rd Nil.prems(2,3)] show ?case by blast
next
  case (Cons a answers)
  then obtain res env1 p1 w1 where
    rd: "publish_sync_round sig drain payload deadline env p w = Some (res, env1, p1, w1)"
    by (auto simp: publish_sync_loop.simps [of _ _ _ _ "a # answers"] bind_eq_Some_conv)
  have u: "uses (broker_answers env) p w (broker_answers env1) p1 w1" and g: "res = Inr None \<longrightarrow> going p1 w1"
    using publish_sync_round_uses [OF rd Cons.prems(2,3)] by blast+
  note wf = uses_wf [OF u Cons.prems(3)]
  consider (ended) "p' = p1" "w' = w1"
    | (again) es where "res = Inr None"
        "publish_sync_loop sig drain payload deadline answers env1 (p1\<lparr>pub_events := es\<rparr>) w1 = Some (r, p', w')"
    | (interrupted) "res = Inr None" "publish_sync_loop sig drain payload deadline answers env1 p1 w1 = Some (r, p', w')"
    using Cons.prems(1) rd
    by (auto simp: publish_sync_loop.simps [of _ _ _ _ "a # answers"] split: sum.split_asm option.split_asm
        epoll_answer.split_asm if_split_asm)
  then show ?case
  proof cases
    case again
    from Cons.IH [OF again(2) _ wf] g again(1) have "\<exists>rest. uses (broker_answers env1) p1 w1 rest p' w'"
      by (simp add: events_frame(2) uses_events)
    with u show ?thesis by (blast intro: uses_trans)
  next
    case interrupted
    from Cons.IH [OF interrupted(2) _ wf] g interrupted(1) u show ?thesis by (blast intro: uses_trans)
  qed (use u in blast)
qed

lemma publish_sync_uses:
  assumes "publish_sync sig drain payload timeout answers env p w = Some (r, p', w')" "going p w"
    "\<forall>a \<in> set (broker_answers env). well_formed a"
  shows "\<exists>rest. uses (broker_answers env) p w rest p' w'"
proof (cases "p' = p \<and> w' = w")
  case True
  then show ?thesis using uses_refl by simp
next
  case False
  with assms(1) obtain now env1 where "read_clock env = Some (now, env1)"
    "publish_sync_loop sig drain payload (now + timeout) answers env1 p w = Some (r, p', w')"
    by (auto simp: publish_sync_def bind_eq_Some_conv split: if_split_asm)
  moreover from this(1) have "broker_answers env1 = broker_answers env"
    by (auto simp: read_clock_def split: list.split_asm)
  ultimately show ?thesis using publish_sync_loop_uses [of sig drain payload "now + timeout" answers env1 p w] assms(2,3)
    by simp
qed

section \<open>Enough answers\<close>

text \<open>A message of the broker is always handled.\<close>

lemma track_subscriber_returns:
  assumes inv: "data_inv p (shm w)"
  shows "\<exists>e p' w'. track_subscriber reg p w = Some (e, p', w')"
proof (cases "kMaxSubscribers \<le> unat (reg_slot_index reg) \<or> active (shm w) (unat (reg_slot_index reg))
    \<or> slot_by_event_fd p (reg_event_fd reg) \<noteq> None")
  case True
  with track_errors [of reg w p] show ?thesis by blast
next
  case False
  then have "reg_event_fd reg \<notin> set (data_available_event_fds p)"
    using data_invD(3) [OF inv] tables_okD(2) unfolding slots_inv_def by blast
  with track_correct [OF inv] False show ?thesis by (meson not_le)
qed

lemma handle_broker_message_returns:
  assumes inv: "data_inv p (shm w)" and ok: "control_ok (msg_control msg)"
  shows "\<exists>r cmsg p' w'. handle_broker_message msg p w = Some (r, cmsg, p', w')"
proof (cases "msg_bytes msg")
  case Nil
  then show ?thesis by (simp add: handle_broker_message_def Let_def)
next
  case (Cons b bs)
  have slot: "length bs = 4 \<Longrightarrow> \<exists>slot. field_u32 (b # bs) 1 = Some slot" by (simp add: field_u32_def field_def)
  have dis: "\<exists>r p' w'. handle_subscriber_disconnected_message (b # bs) (length bs) p w = Some (r, p', w')"
    using reap_keeps [OF inv] slot by (fastforce simp: handle_subscriber_disconnected_message_def)
  have reg: "\<exists>r cmsg p' w'. handle_subscriber_registered_message (b # bs) (length bs) (msg_control msg) p w
      = Some (r, cmsg, p', w')"
  proof (cases "length bs = 4 \<and> (\<exists>c. msg_control msg = Some c \<and> cmsg_len c = CMSG_LEN 4)")
    case False
    then show ?thesis by (auto simp: handle_subscriber_registered_message_def split: option.split)
  next
    case True
    then obtain c where c: "msg_control msg = Some c" "cmsg_len c = CMSG_LEN 4" by blast
    with ok have "length (cmsg_fds c) = 1" by (simp add: control_ok_def CMSG_LEN_def)
    then obtain fd where fd: "cmsg_fds c = [fd]" by (auto simp: length_Suc_conv)
    obtain s where s: "field_u32 (b # bs) 1 = Some s" using slot True by blast
    obtain e p' w' where "track_subscriber \<lparr>reg_event_fd = fd, reg_slot_index = s\<rparr> p w = Some (e, p', w')"
      using track_subscriber_returns [OF inv] by blast
    with c fd s True show ?thesis by (simp add: handle_subscriber_registered_message_def)
  qed
  from dis reg Cons show ?thesis
    by (auto simp: handle_broker_message_def Let_def split: option.split broker_message_type.split)
qed

text \<open>Each run of the receive loop ends at an answer that is not a message.\<close>

definition pauses :: "received list \<Rightarrow> nat" where
  "pauses answers = length (filter (\<lambda>a. case a of RecvErr _ \<Rightarrow> True | RecvMsg _ \<Rightarrow> False) answers)"

lemma process_broker_control_messages_returns:
  "going p w \<Longrightarrow> \<forall>a \<in> set answers. well_formed a \<Longrightarrow> 0 < pauses answers \<Longrightarrow>
   \<exists>r rest p' w'. process_broker_control_messages answers p w = Some (r, rest, p', w')
     \<and> (r = RunNone \<longrightarrow> pauses answers = Suc (pauses rest))"
proof (induction answers p w rule: process_broker_control_messages.induct)
  case (1 p w)
  then show ?case by (simp add: pauses_def)
next
  case (2 errno answers p w)
  then show ?case by (simp add: pauses_def)
next
  case (3 msg answers p w)
  have ok: "control_ok (msg_control msg)" using "3.prems"(2) by (simp add: well_formed_def)
  have inv: "data_inv p (shm w)" and b: "0 \<le> pub_broker_fd p" using "3.prems"(1) by (simp_all add: going_def)
  obtain res cmsg p1 w1 where h: "handle_broker_message msg p w = Some (res, cmsg, p1, w1)"
    using handle_broker_message_returns [OF inv ok] by blast
  show ?case
  proof (cases "res = RunNone")
    case False
    with h show ?thesis by (simp add: Let_def)
  next
    case True
    have "data_inv p1 (shm (close_guarded cmsg w1))"
      by (rule keepsD [OF close_guarded_keeps [OF handle_broker_message_keeps [OF inv h]]])
    moreover have "pub_broker_fd p1 = pub_broker_fd p"
      using handle_broker_message_conserves [OF inv ok b h] True by simp
    ultimately have g: "going p1 (close_guarded cmsg w1)" using b by (simp add: going_def)
    have no: "\<not> res \<noteq> RunNone" using True by simp
    have "pauses (RecvMsg msg # answers) = pauses answers" by (simp add: pauses_def)
    with "3.IH" [OF h refl refl refl refl no g] "3.prems"(2,3) h True show ?thesis by (auto simp: Let_def)
  qed
qed

lemma handle_sync_events_returns:
  "going p w \<Longrightarrow> \<forall>a \<in> set (broker_answers env). well_formed a \<Longrightarrow>
   length fds \<le> length (clock env) \<Longrightarrow> length fds \<le> pauses (broker_answers env) \<Longrightarrow>
   \<exists>r env' p' w'. handle_sync_events drain deadline fds env p w = Some (r, env', p', w')
     \<and> (r = None \<longrightarrow> length (clock env) \<le> length fds + length (clock env')
       \<and> pauses (broker_answers env) \<le> length fds + pauses (broker_answers env'))"
proof (induction fds arbitrary: env p w)
  case Nil
  then show ?case by simp
next
  case (Cons fd fds)
  let ?p = "p\<lparr>pub_events := fd # fds\<rparr>"
  have g: "going ?p w" using Cons.prems(1) by (simp add: events_frame(2))
  from Cons.prems(3) obtain now env1 where clk: "read_clock env = Some (now, env1)"
    and c: "length (clock env) = Suc (length (clock env1))" "broker_answers env1 = broker_answers env"
    by (cases "clock env") (auto simp: read_clock_def)
  have step: ?case if "handle_sync_events drain deadline (fd # fds) env p w = handle_sync_events drain deadline fds env2 p2 w2"
    "going p2 w2" "\<forall>a \<in> set (broker_answers env2). well_formed a" "clock env2 = clock env1"
    "pauses (broker_answers env) \<le> Suc (pauses (broker_answers env2))" for env2 p2 w2
    using Cons.IH [OF that(2,3)] Cons.prems(3,4) c that(1,4,5) by fastforce
  show ?case
  proof (cases "deadline \<le> now \<or> fd = space_available_event_fd ?p \<and> \<not> drain fd")
    case True
    with clk show ?thesis by (auto simp: Let_def)
  next
    case now: False
    show ?thesis
    proof (cases "fd \<noteq> space_available_event_fd ?p \<and> fd = pub_broker_fd ?p")
      case False
      with now clk have "handle_sync_events drain deadline (fd # fds) env p w = handle_sync_events drain deadline fds env1 ?p w"
        by (auto simp: Let_def)
      from step [OF this g] Cons.prems(2) c show ?thesis by simp
    next
      case True
      have "0 < pauses (broker_answers env1)" using Cons.prems(4) c by simp
      with process_broker_control_messages_returns [OF g, of "broker_answers env1"] Cons.prems(2) c obtain res rest p1 w1 where
        pr: "process_broker_control_messages (broker_answers env1) ?p w = Some (res, rest, p1, w1)"
        and n: "res = RunNone \<longrightarrow> pauses (broker_answers env) = Suc (pauses rest)" by auto
      note u = process_broker_control_messages_uses [OF pr g]
      show ?thesis
      proof (cases "res = RunNone")
        case res: True
        with now True clk pr have "handle_sync_events drain deadline (fd # fds) env p w
            = handle_sync_events drain deadline fds (env1\<lparr>broker_answers := rest\<rparr>) p1 w1"
          by (auto simp: Let_def)
        from step [OF this] u n res Cons.prems(2) c show ?thesis by (auto dest: uses_wf)
      next
        case False
        then obtain e where "map_sync_run_error_to_publish_error res = Some e"
          using map_sync_defined by (cases "map_sync_run_error_to_publish_error res") auto
        with now True clk pr False show ?thesis by (auto simp: Let_def)
      qed
    qed
  qed
qed

text \<open>An attempt is made only when no buffered event is left, and publishing buffers none.\<close>

lemma handle_sync_events_none_left:
  "handle_sync_events drain deadline fds env p w = Some (None, env', p', w') \<Longrightarrow> pub_events p' = []"
proof (induction fds arbitrary: env p w)
  case (Cons fd fds)
  from Cons.prems obtain now env1 where "read_clock env = Some (now, env1)" by (auto simp: bind_eq_Some_conv)
  with Cons.prems show ?case by (auto simp: Let_def bind_eq_Some_conv split: if_split_asm intro: Cons.IH)
qed auto

lemma publish_sync_round_returns:
  assumes g: "going p w" and wf: "\<forall>a \<in> set (broker_answers env). well_formed a"
    and n: "seq p \<noteq> 2147483647" and len: "length payload \<le> kMaxPayloadSizeBytes"
    and enough: "length (pub_events p) + 2 \<le> length (clock env)" "length (pub_events p) \<le> pauses (broker_answers env)"
  shows "\<exists>r env' p' w'. publish_sync_round all_ok drain payload deadline env p w = Some (r, env', p', w')
    \<and> (r = Inr None \<longrightarrow> pub_events p' = [] \<and> length (clock env) \<le> length (pub_events p) + 2 + length (clock env')
       \<and> pauses (broker_answers env) \<le> length (pub_events p) + pauses (broker_answers env'))"
proof -
  from g have inv: "data_inv p (shm w)" by (simp add: going_def)
  obtain failed env1 p1 w1 where
    ev: "handle_sync_events drain deadline (pub_events p) env p w = Some (failed, env1, p1, w1)"
    and e: "failed = None \<longrightarrow> length (clock env) \<le> length (pub_events p) + length (clock env1)
       \<and> pauses (broker_answers env) \<le> length (pub_events p) + pauses (broker_answers env1)"
    using handle_sync_events_returns [OF g wf, of "pub_events p"] enough by fastforce
  have k: "keeps_sender p w p1 w1" by (rule handle_sync_events_keeps [OF ev inv])
  then have inv1: "data_inv p1 (shm w1)" and n1: "seq p1 \<noteq> 2147483647" using n by (simp_all add: keeps_sender_def)
  show ?thesis
  proof (cases failed)
    case (Some err)
    with ev show ?thesis by (simp add: publish_sync_round_def)
  next
    case None
    with e enough have "2 \<le> length (clock env1)" by simp
    then obtain t1 t2 ts where ts: "clock env1 = t1 # t2 # ts"
      by (cases "clock env1" rule: remdups_adj.cases) auto
    show ?thesis
    proof (cases "held_back payload (shm w1)")
      case True
      with None ev ts e try_publish_one_blocked [OF inv1 len True, of all_ok] handle_sync_events_none_left show ?thesis
        by (simp add: publish_sync_round_def read_clock_def)
    next
      case False
      have "\<forall>fd \<in> set (data_available_event_fds p1). all_ok fd" by simp
      from try_publish_one_ok [OF inv1 len False n1 this] obtain p2 w2 where
        "try_publish_one all_ok payload p1 w1 = Some (Inr Succeeded, p2, w2)" by blast
      with None ev ts show ?thesis by (simp add: publish_sync_round_def read_clock_def)
    qed
  qed
qed

text \<open>The events that the waits report.\<close>

definition reported :: "int epoll_answer list \<Rightarrow> nat" where
  "reported answers = sum_list (map (\<lambda>a. case a of EpollEvents fds \<Rightarrow> length fds | EpollErr _ \<Rightarrow> 0) answers)"

lemma publish_sync_loop_returns:
  "going p w \<Longrightarrow> \<forall>a \<in> set (broker_answers env). well_formed a \<Longrightarrow> seq p \<noteq> 2147483647 \<Longrightarrow>
   length payload \<le> kMaxPayloadSizeBytes \<Longrightarrow> EpollEvents [] \<in> set answers \<Longrightarrow>
   length (pub_events p) + reported answers + 2 * length answers \<le> length (clock env) \<Longrightarrow>
   length (pub_events p) + reported answers \<le> pauses (broker_answers env) \<Longrightarrow>
   \<exists>r p' w'. publish_sync_loop all_ok drain payload deadline answers env p w = Some (r, p', w')"
proof (induction answers arbitrary: env p w)
  case (Cons a answers)
  have enough: "length (pub_events p) + 2 \<le> length (clock env)" "length (pub_events p) \<le> pauses (broker_answers env)"
    using Cons.prems(6,7) by simp_all
  obtain r env1 p1 w1 where
    rd: "publish_sync_round all_ok drain payload deadline env p w = Some (r, env1, p1, w1)"
    and left: "r = Inr None \<longrightarrow> pub_events p1 = [] \<and> length (clock env) \<le> length (pub_events p) + 2 + length (clock env1)
       \<and> pauses (broker_answers env) \<le> length (pub_events p) + pauses (broker_answers env1)"
    using publish_sync_round_returns [OF Cons.prems(1-4) enough, of drain deadline] by auto
  note u = publish_sync_round_uses [OF rd Cons.prems(1,2)]
  have inv: "data_inv p (shm w)" using Cons.prems(1) by (simp add: going_def)
  note once = publish_sync_round_once [OF rd inv Cons.prems(3,4)]
  show ?case
  proof (cases "r = Inr None")
    case False
    with rd show ?thesis
      by (auto simp: publish_sync_loop.simps [of _ _ _ _ "a # answers"] split: sum.split option.split)
  next
    case True
    have wf: "\<forall>a \<in> set (broker_answers env1). well_formed a" using u uses_wf Cons.prems(2) by blast
    have sq: "seq p1 \<noteq> 2147483647" using once True Cons.prems(3) by (simp add: keeps_sender_def)
    have g: "going p1 w1" using u True by blast
    have again: "\<exists>r p' w'. publish_sync_loop all_ok drain payload deadline answers env1 (p1\<lparr>pub_events := es\<rparr>) w1 = Some (r, p', w')"
      if "EpollEvents [] \<in> set answers" "length es + reported answers \<le> reported (a # answers)" for es
      using Cons.IH [of "p1\<lparr>pub_events := es\<rparr>" w1 env1] g wf sq that Cons.prems(4,6,7) left True
      by (simp add: events_frame(2))
    show ?thesis
    proof (cases a)
      case (EpollErr errno)
      show ?thesis
      proof (cases "errno = EINTR")
        case True
        have "p1\<lparr>pub_events := []\<rparr> = p1" using left \<open>r = Inr None\<close> by simp
        with again [of "[]"] EpollErr Cons.prems(5) True rd \<open>r = Inr None\<close> show ?thesis
          by (simp add: publish_sync_loop.simps [of _ _ _ _ "_ # answers"] reported_def)
      next
        case False
        with EpollErr rd \<open>r = Inr None\<close> show ?thesis by (simp add: publish_sync_loop.simps [of _ _ _ _ "_ # answers"])
      qed
    next
      case (EpollEvents fds)
      show ?thesis
      proof (cases "fds = []")
        case True
        with EpollEvents rd \<open>r = Inr None\<close> show ?thesis by (simp add: publish_sync_loop.simps [of _ _ _ _ "_ # answers"])
      next
        case False
        with again [of fds] EpollEvents Cons.prems(5) rd \<open>r = Inr None\<close> show ?thesis
          by (simp add: publish_sync_loop.simps [of _ _ _ _ "_ # answers"] reported_def)
      qed
    qed
  qed
qed simp

lemma publish_sync_returns:
  assumes g: "going p w" and wf: "\<forall>a \<in> set (broker_answers env). well_formed a" and n: "seq p \<noteq> 2147483647"
    and timeout: "EpollEvents [] \<in> set answers"
    and enough: "Suc (length (pub_events p) + reported answers + 2 * length answers) \<le> length (clock env)"
      "length (pub_events p) + reported answers \<le> pauses (broker_answers env)"
  shows "\<exists>r p' w'. publish_sync all_ok drain payload timeout answers env p w = Some (r, p', w')"
proof (cases "pub_flags p AND SYNCHRONOUS = 0 \<or> length payload > kMaxPayloadSizeBytes")
  case True
  then show ?thesis by (auto simp: publish_sync_def)
next
  case False
  from enough(1) obtain now ts where "clock env = now # ts" by (cases "clock env") auto
  then have clk: "read_clock env = Some (now, env\<lparr>clock := ts\<rparr>)" and ts: "length (clock env) = Suc (length ts)"
    by (simp_all add: read_clock_def)
  from publish_sync_loop_returns [OF g, of "env\<lparr>clock := ts\<rparr>" payload answers drain "now + timeout"] wf n timeout enough False ts clk
  show ?thesis by (simp add: publish_sync_def)
qed

end
