(* ===== verification/Pub_Node.thy ===== *)
theory Pub_Node
  imports Sync_Publish Status_Snapshot
begin

text \<open>
  The publishing node (\<open>pub_node.cpp\<close>): create a synchronous publisher, publish one message within
  a second, destroy the publisher.  The whole process is the composition of \<open>create\<close>,
  \<open>publish\<close> and the destructor.
\<close>

section \<open>The process\<close>

definition kSharedMemoryName :: string where "kSharedMemoryName = ''/drivebus_pub_node_camera''"

definition kPayload :: bytes where "kPayload = text_bytes ''pub_node publish payload''"

record pub_node_answers =
  node_create :: create_answers
  node_drain :: "int \<Rightarrow> bool"
  node_waits :: "int epoll_answer list"
  node_environment :: environment

text \<open>The exit code; a second is a million microseconds.  The result goes out of scope at the end, so
  the destructor runs on both returns after the creation.\<close>

definition pub_node :: "(int \<Rightarrow> bool) \<Rightarrow> pub_node_answers \<Rightarrow> host \<Rightarrow> (int \<times> host) option" where
  "pub_node sig k h = do {
     (created, h) \<leftarrow> create_publisher (node_create k) kTopicCamera kSharedMemoryName SYNCHRONOUS h;
     case created of
       Inl e \<Rightarrow> Some (1, h)
     | Inr obj \<Rightarrow> do {
         (published, p, w) \<leftarrow> publish_sync sig (node_drain k) kPayload 1000000 (node_waits k)
           (node_environment k) (object obj) (world h);
         (_, h) \<leftarrow> release_resources no_worker (obj\<lparr>object := p\<rparr>) (h\<lparr>world := w\<rparr>);
         Some (case published of Inl e \<Rightarrow> 2 | Inr disposition \<Rightarrow> 0, h)
       }
   }"

section \<open>A publisher that has not been used\<close>

definition unused :: "publisher \<Rightarrow> bool" where
  "unused p \<longleftrightarrow> 0 \<le> pub_broker_fd p \<and> pub_events p = [] \<and> seq p = 0"

lemma unused_same:
  assumes "same_object p p'" "unused p"
  shows "unused p'"
  using assms(2) arg_cong [OF assms(1) [unfolded same_object_def], of pub_broker_fd]
    arg_cong [OF assms(1) [unfolded same_object_def], of pub_events]
    arg_cong [OF assms(1) [unfolded same_object_def], of seq]
  by (simp add: unused_def)

lemma track_subscriber_same: "track_subscriber reg p w = Some (None, p', w') \<Longrightarrow> same_object p p'"
  by (auto simp: track_subscriber_def Let_def bind_eq_Some_conv split: if_split_asm)

lemma track_initial_subscribers_same:
  "track_initial_subscribers n answers p h = Some (None, p', h') \<Longrightarrow> same_object p p'"
proof (induction n answers p h rule: track_initial_subscribers.induct)
  case (3 n answer answers p h)
  from "3.prems" obtain r h1 where r: "receive_subscriber_registration answer h = Some (r, h1)"
    by (auto simp: bind_eq_Some_conv)
  show ?case
  proof (cases r)
    case (Inl e)
    with "3.prems" r show ?thesis by (auto simp: case_prod_beta)
  next
    case (Inr reg)
    with "3.prems" r obtain e p1 w1 where t: "track_subscriber reg p (world h1) = Some (e, p1, w1)"
      by (auto simp: bind_eq_Some_conv)
    show ?thesis
    proof (cases e)
      case (Some te)
      with "3.prems" r Inr t show ?thesis by (auto simp: case_prod_beta)
    next
      case None
      with "3.prems" r Inr t have "track_initial_subscribers n answers p1 (h1\<lparr>world := w1\<rparr>) = Some (None, p', h')"
        by simp
      from "3.IH" [OF r refl Inr t refl refl refl None this] t None track_subscriber_same show ?thesis
        by (blast intro: same_object_trans)
    qed
  qed
qed simp_all

lemma acquire_resources_unused:
  assumes "acquire_resources k topic name flags segment_fd addr h = (Inr obj, h')"
  shows "unused (object obj) \<and> run_thread obj = NotJoinable"
  using assms
  by (auto simp: acquire_resources_def with_fd_def connect_and_register_def connect_to_broker_def unused_def
      new_publisher_def split: sum.split_asm prod.split_asm if_split_asm)

lemma complete_creation_unused:
  assumes code: "complete_creation k obj h = Some (Inr obj', h')" and o: "unused (object obj)" "run_thread obj = NotJoinable"
  shows "unused (object obj')"
proof -
  from code obtain e p1 h1 where
    r: "receive_and_track_initial_subscriber_registrations k (object obj) h = Some (e, p1, h1)"
    by (cases "receive_and_track_initial_subscriber_registrations k (object obj) h") (auto simp: complete_creation_def)
  with code have "e = None"
    by (cases e) (auto simp: complete_creation_def bind_eq_Some_conv)
  with r have r: "receive_and_track_initial_subscriber_registrations k (object obj) h = Some (None, p1, h1)" by simp
  then have "same_object (object obj) p1"
    by (auto simp: receive_and_track_initial_subscriber_registrations_def bind_eq_Some_conv
      intro: track_initial_subscribers_same split: if_split_asm)
  with o(1) have u: "unused p1" by (rule unused_same [rotated])
  let ?obj = "obj\<lparr>object := p1\<rparr>"
  have idle: "run_thread ?obj = NotJoinable" using o(2) by simp
  from code r have "object obj' = object (moved empty_publisher ?obj)
      \<or> obj' = snd (start_run_thread True (moved empty_publisher ?obj))"
    by (cases "thread_created k") (auto simp: complete_creation_def Let_def take_resources_from_idle [OF idle]
      bind_eq_Some_conv start_run_thread_def split: if_split_asm)
  with u show ?thesis by (auto simp: unused_def moved_def start_run_thread_def)
qed

lemma create_publisher_unused:
  assumes "create_publisher k topic name flags h = Some (Inr obj, h')"
  shows "unused (object obj)"
proof -
  from assms obtain s h1 where m: "create_and_map_shared_data k name h = Some (s, h1)"
    by (cases "create_and_map_shared_data k name h") (auto simp: create_publisher_def Let_def split: if_split_asm)
  with assms obtain fd addr where s: "s = Inr (fd, addr)"
    by (cases s) (auto simp: create_publisher_def Let_def split: if_split_asm)
  obtain r h2 where a: "acquire_resources k topic name flags fd addr h1 = (r, h2)" by fastforce
  with assms m s obtain obj1 h3 where "r = Inr obj1" "complete_creation k obj1 h2 = Some (Inr obj, h3)"
    by (cases r) (auto simp: create_publisher_def Let_def bind_eq_Some_conv split: if_split_asm)
  with a have "acquire_resources k topic name flags fd addr h1 = (Inr obj1, h2)"
    "complete_creation k obj1 h2 = Some (Inr obj, h3)" by simp_all
  with acquire_resources_unused complete_creation_unused show ?thesis by blast
qed

section \<open>What the node leaves\<close>

text \<open>A slot has at most as many unread messages as were published.\<close>

lemma queue_at_most_published:
  assumes "data_inv p sd"
  shows "length (queue sd s) \<le> unat (seq p)"
proof (cases "active sd s \<and> rdx sd s \<noteq> wrx sd")
  case False
  then show ?thesis by (auto simp: queue_def unread_def)
next
  case True
  from data_invD(1) [OF assms] True have w: "wrx sd < 16" "rdx sd s < 16" by (auto simp: ring_ok_def)
  with True have "rdx sd s \<in> set (unread sd s)" "length (unread sd s) = back_dist (wrx sd) (rdx sd s)"
    by (auto simp: unread_def ring_span_def back_dist_eq)
  with data_invD(4) [OF assms] show ?thesis by (auto simp: headers_inv_def queue_def)
qed

lemma queues_unused: "data_inv p sd \<Longrightarrow> seq p = 0 \<Longrightarrow> queue sd s = []"
  using queue_at_most_published [of p sd s] by simp

lemma queues_published_once:
  assumes "published_once payload p p' w'" "seq p = 0" "active (shm w') s"
  shows "queue (shm w') s = [payload]"
proof -
  from assms obtain ms where ms: "queue (shm w') s = ms @ [payload]" and p': "data_inv p' (shm w')" "seq p' = 1"
    by (auto simp: published_once_def)
  with queue_at_most_published [OF p'(1), of s] show ?thesis by simp
qed

text \<open>What the subscribers find in the segment when the publisher is gone, by exit code.\<close>

definition node_published :: "int \<Rightarrow> shared_data \<Rightarrow> bool" where
  "node_published code sd \<longleftrightarrow>
     (if code = 0 then (\<exists>s. active sd s) \<and> (\<forall>s. active sd s \<longrightarrow> queue sd s = [kPayload])
      else code = 2 \<and> (\<forall>s. queue sd s = []))"

lemma publish_sync_leaves:
  assumes "publish_sync all_ok drain kPayload timeout answers env p w = Some (published, p', w')"
    and inv: "data_inv p (shm w)" and n: "seq p = 0"
  shows "node_published (case published of Inl e \<Rightarrow> 2 | Inr disposition \<Rightarrow> 0) (shm w')"
proof -
  have "seq p \<noteq> 2147483647" using n by simp
  note once = publish_sync_once [OF assms(1) inv this]
  show ?thesis
  proof (cases published)
    case (Inl e)
    with once n have "data_inv p' (shm w')" "seq p' = 0" by (simp_all add: keeps_sender_def)
    with Inl show ?thesis by (simp add: node_published_def queues_unused)
  next
    case (Inr d)
    with once have o: "published_once kPayload p p' w'" by simp
    then have "\<exists>s. active (shm w') s" by (simp add: published_once_def)
    with Inr queues_published_once [OF o n] show ?thesis by (simp add: node_published_def)
  qed
qed

lemma release_resources_shm:
  assumes "release_resources a obj h = Some (obj', h')" "run_thread obj = NotJoinable"
  shows "shm (world h') = shm (world h)"
  using assms
  by (auto simp: release_resources_def stop_run_thread_def Let_def shm_unlink_def host_close_all_def split: option.splits)

lemma open_fds_ledger:
  assumes "ledger h X h' Y"
  shows "open_fds (opened h') + open_fds (closed (world h)) + filter_mset (\<lambda>fd. 0 \<le> fd) X
    = open_fds (opened h) + open_fds (closed (world h')) + filter_mset (\<lambda>fd. 0 \<le> fd) Y"
  using arg_cong [OF assms [unfolded fd_ledger_def], of "filter_mset (\<lambda>fd. 0 \<le> fd)"] by (simp add: open_fds_def)

lemma open_fds_nonneg: "filter_mset (\<lambda>fd. 0 \<le> fd) (open_fds fds) = open_fds fds"
  by (simp add: open_fds_def filter_filter_mset)

lemma pub_node_settles:
  assumes fresh: "\<forall>addr sd. mmap_shared (node_create k) = Some (addr, sd) \<longrightarrow> addr \<notin> mapped h"
    and reg: "\<forall>n. field_u32 (count_received (node_create k)) 0 = Some n
        \<longrightarrow> unat n \<le> length (registrations_received (node_create k))"
      "\<forall>a \<in> set (registrations_received (node_create k)). well_formed a"
    and wf: "\<forall>a \<in> set (broker_answers (node_environment k)). well_formed a"
    and timeout: "EpollEvents [] \<in> set (node_waits k)"
    and enough: "Suc (reported (node_waits k) + 2 * length (node_waits k)) \<le> length (clock (node_environment k))"
      "reported (node_waits k) \<le> pauses (broker_answers (node_environment k))"
  shows "\<exists>code h' used rest. pub_node all_ok k h = Some (code, h') \<and> broker_answers (node_environment k) = used @ rest
    \<and> open_fds (opened h') + open_fds (concat (map received_fds used)) + open_fds (closed (world h))
      = open_fds (opened h) + open_fds (closed (world h'))
    \<and> mapped h' = mapped h \<and> shm_names h - {kSharedMemoryName} \<subseteq> shm_names h' \<and> shm_names h' \<subseteq> shm_names h
    \<and> (code = 1 \<or> node_published code (shm (world h')))"
proof -
  have name: "kSharedMemoryName \<noteq> ''''" by (simp add: kSharedMemoryName_def)
  from create_publisher_correct [OF name fresh reg, of kTopicCamera SYNCHRONOUS] obtain r h1 where
    c: "create_publisher (node_create k) kTopicCamera kSharedMemoryName SYNCHRONOUS h = Some (r, h1)"
    and as: "created_as kSharedMemoryName (fst ` set_option (mmap_shared (node_create k))) SYNCHRONOUS h r h1" by blast
  show ?thesis
  proof (cases r)
    case (Inl e)
    with as have "ledger h {#} h1 {#}" "mapped h1 = mapped h" "shm_names h1 \<subseteq> shm_names h"
      "shm_names h - {kSharedMemoryName} \<subseteq> shm_names h1" by (simp_all add: created_as_def)
    with open_fds_ledger [of h "{#}" h1 "{#}"] c Inl show ?thesis
      by (intro exI [of _ 1] exI [of _ h1] exI [of _ "[]"] exI [of _ "broker_answers (node_environment k)"])
        (simp add: pub_node_def)
  next
    case (Inr obj)
    with as have l: "ledger h {#} h1 (owned obj)" and m: "mapped h1 = mapped h \<union> set_option (shared_data_ptr obj)"
      "set_option (shared_data_ptr obj) = fst ` set_option (mmap_shared (node_create k))"
      "shm_names h1 = insert kSharedMemoryName (shm_names h)" "shm_name obj = kSharedMemoryName"
      and t: "run_thread obj = NotJoinable" and q: "quiet (object obj) (shm (world h1))"
      by (simp_all add: created_as_def SYNCHRONOUS_def ASYNCHRONOUS_def)
    have u: "0 \<le> pub_broker_fd (object obj)" "pub_events (object obj) = []" "seq (object obj) = 0"
      using create_publisher_unused [of "node_create k"] c Inr by (simp_all add: unused_def)
    with q have g: "going (object obj) (world h1)" and inv: "data_inv (object obj) (shm (world h1))"
      by (simp_all add: going_def quiet_def)
    have n: "seq (object obj) \<noteq> 2147483647" using u by simp
    from publish_sync_returns [OF g wf n timeout] enough u(2) obtain published p w where
      p: "publish_sync all_ok (node_drain k) kPayload 1000000 (node_waits k) (node_environment k) (object obj) (world h1)
        = Some (published, p, w)" by fastforce
    from publish_sync_uses [OF p g wf] obtain used rest where
      us: "broker_answers (node_environment k) = used @ rest"
        "balanced (concat (map received_fds used)) (object obj) (world h1) p w" by (auto simp: uses_def)
    let ?obj = "obj\<lparr>object := p\<rparr>" and ?h = "h1\<lparr>world := w\<rparr>"
    have t': "run_thread ?obj = NotJoinable" using t by simp
    from release_resources_idle [OF t', of no_worker ?h] obtain obj' h' where
      r: "release_resources no_worker ?obj ?h = Some (obj', h')" and l': "ledger ?h (owned ?obj) h' {#}"
      and m': "mapped h' = mapped ?h - set_option (shared_data_ptr ?obj)"
        "shm_names h' = (if shm_name ?obj = '''' then shm_names ?h else shm_names ?h - {shm_name ?obj})" by blast
    let ?code = "(case published of Inl e \<Rightarrow> 2 | Inr disposition \<Rightarrow> 0) :: int"
    have code: "pub_node all_ok k h = Some (?code, h')"
      using c Inr p r by (simp add: pub_node_def)
    have "open_fds (opened h') + open_fds (concat (map received_fds used)) + open_fds (closed (world h))
      = open_fds (opened h) + open_fds (closed (world h'))"
      using open_fds_ledger [OF l] open_fds_ledger [OF l'] us(2)
      unfolding balanced_def open_fds_nonneg by (simp add: multiset_eq_iff) (smt (verit) add.commute add.left_commute add_left_cancel)
    moreover have "mapped h' = mapped h" using m m' fresh by auto
    moreover have "shm_names h' = shm_names h - {kSharedMemoryName}" using m m' name by simp
    moreover have "node_published ?code (shm (world h'))"
      unfolding release_resources_shm [OF r t']
      using publish_sync_leaves [OF p inv u(3)] by simp
    ultimately show ?thesis using code us(1) by blast
  qed
qed

end
