(* ===== verification/Sub_Node.thy ===== *)
theory Sub_Node
  imports Subscriber_Resources
begin

text \<open>
  The subscribing node (\<open>sub_node.cpp\<close>): create a synchronous subscriber of one topic and print what
  arrives until \<open>subscribe\<close> fails.  Between two calls the publishers go on writing to the segments.
\<close>

section \<open>The process\<close>

text \<open>What one call of \<open>subscribe\<close> meets; \<open>call_segments\<close> is what the publishers did to the mapped
  segments since the last one.\<close>

record sub_call =
  call_segments :: "nat \<Rightarrow> shared_data \<Rightarrow> shared_data"
  call_signal :: "int \<Rightarrow> bool"
  call_drain :: "int \<Rightarrow> bool"
  call_mmap :: mmap_answer
  call_watch :: "int \<Rightarrow> bool"
  call_clock :: "int list"
  call_waits :: "u64 epoll_answer list"
  call_received :: "received list"

definition publishers_act :: "(nat \<Rightarrow> shared_data \<Rightarrow> shared_data) \<Rightarrow> sub_world \<Rightarrow> sub_world" where
  "publishers_act f w = w\<lparr>segments := (\<lambda>addr. map_option (f addr) (segments w addr))\<rparr>"

text \<open>Every message is followed by a line feed.\<close>

definition print_batch :: "message_batch \<Rightarrow> bytes" where
  "print_batch messages = concat (map (\<lambda>message. message @ [10]) messages)"

text \<open>The loop with what it has printed; \<^term>\<open>None\<close> while it is still running.\<close>

fun sub_node_loop :: "sub_call list \<Rightarrow> subscriber \<Rightarrow> sub_world \<Rightarrow> bytes \<Rightarrow> (subscribe_error \<times> bytes \<times> subscriber \<times> sub_world) option" where
  "sub_node_loop [] s w out = None"
| "sub_node_loop (c # calls) s w out = do {
     (result, s, w) \<leftarrow> subscribe (call_signal c) (call_drain c) (call_mmap c) (call_watch c) 1000000
       (call_clock c) (call_waits c) (call_received c) s (publishers_act (call_segments c) w);
     case result of
       Inl e \<Rightarrow> if e = SubTimeout then sub_node_loop calls s w out else Some (e, out, s, w)
     | Inr messages \<Rightarrow> sub_node_loop calls s w (out @ print_batch messages)
   }"

definition sub_node ::
  "sub_create_answers \<Rightarrow> sub_call list \<Rightarrow> ((int \<rightharpoonup> publisher_attachment) \<Rightarrow> int list) \<Rightarrow> sub_host
     \<Rightarrow> (int \<times> bytes \<times> sub_host) option"
where
  "sub_node k calls order h = do {
     (created, h) \<leftarrow> create_subscriber k [kTopicCamera] SUB_SYNCHRONOUS False h;
     case created of
       Inl e \<Rightarrow> Some (1, [], h)
     | Inr obj \<Rightarrow> do {
         (e, out, s, w) \<leftarrow> sub_node_loop calls (subscriber_of obj) (sub_process h) [];
         (_, h) \<leftarrow> sub_release_resources (no_sub_worker\<lparr>attachment_order := order\<rparr>) (obj\<lparr>subscriber_of := s\<rparr>)
           (h\<lparr>sub_process := w\<rparr>);
         Some (2, out, h)
       }
   }"

section \<open>What the loop keeps\<close>

lemma publishers_act_keeps:
  "sub_inv s (publishers_act f w) \<longleftrightarrow> sub_inv s w" "sub_account s (publishers_act f w) = sub_account s w"
  "sub_frame s (publishers_act f w) = sub_frame s w"
proof -
  have d: "dom (segments (publishers_act f w)) = dom (segments w)" by (auto simp: publishers_act_def)
  then have "segments (publishers_act f w) addr = None \<longleftrightarrow> segments w addr = None" for addr by (auto simp: publishers_act_def)
  then show "sub_inv s (publishers_act f w) \<longleftrightarrow> sub_inv s w"
    by (auto simp: sub_inv_def attachment_ok_def)
  show "sub_account s (publishers_act f w) = sub_account s w" by (simp add: sub_account_def publishers_act_def)
  show "sub_frame s (publishers_act f w) = sub_frame s w" using d by (simp add: sub_frame_def)
qed

definition call_ok :: "sub_call \<Rightarrow> bool" where
  "call_ok c \<longleftrightarrow> maps_fresh (call_mmap c) \<and> (\<forall>a \<in> set (call_received c). answer_ok a)"

text \<open>The answers that the calls used up, call by call.\<close>

definition used_by :: "sub_call list \<Rightarrow> received list list \<Rightarrow> bool" where
  "used_by calls used \<longleftrightarrow> length used \<le> length calls
     \<and> (\<forall>i < length used. \<exists>rest. call_received (calls ! i) = used ! i @ rest)"

lemma used_by_Cons: "call_received c = us @ rest \<Longrightarrow> used_by calls used \<Longrightarrow> used_by (c # calls) (us # used)"
  by (auto simp: used_by_def nth_Cons split: nat.split)

lemma sub_node_loop_accounts:
  "sub_node_loop calls s w out = Some (e, out', s', w') \<Longrightarrow> sub_inv s w \<Longrightarrow> \<forall>c \<in> set calls. call_ok c \<Longrightarrow>
   e \<noteq> SubTimeout \<and> (\<exists>used. used_by calls used \<and> accounts_for s w (concat (map answer_fds (concat used))) s' w')"
proof (induction calls s w out rule: sub_node_loop.induct)
  case (2 c calls s w out)
  let ?w = "publishers_act (call_segments c) w"
  from "2.prems"(1) obtain r s1 w1 where
    sb: "subscribe (call_signal c) (call_drain c) (call_mmap c) (call_watch c) 1000000 (call_clock c) (call_waits c)
      (call_received c) s ?w = Some (r, s1, w1)" by (auto simp: bind_eq_Some_conv)
  have inv: "sub_inv s ?w" using "2.prems"(2) publishers_act_keeps(1) by blast
  have ok: "maps_fresh (call_mmap c)" "\<forall>a \<in> set (call_received c). answer_ok a"
    using "2.prems"(3) by (simp_all add: call_ok_def)
  from subscribe_consumes [OF sb inv ok] obtain us rest where
    us: "call_received c = us @ rest" "accounts_for s w (concat (map answer_fds us)) s1 w1"
    by (auto simp: consumes_def accounts_for_def publishers_act_keeps)
  then have inv1: "sub_inv s1 w1" by (simp add: accounts_for_def)
  have again: ?case if "sub_node_loop calls s1 w1 out1 = Some (e, out', s', w')"
    "e \<noteq> SubTimeout \<and> (\<exists>used. used_by calls used \<and> accounts_for s1 w1 (concat (map answer_fds (concat used))) s' w')" for out1
  proof -
    from that(2) obtain used where "e \<noteq> SubTimeout" "used_by calls used"
      "accounts_for s1 w1 (concat (map answer_fds (concat used))) s' w'" by blast
    with us show ?thesis
      by (intro conjI exI [of _ "us # used"]) (auto intro: used_by_Cons simp: accounts_for_def ac_simps)
  qed
  show ?case
  proof (cases r)
    case (Inr messages)
    with "2.prems"(1) sb have l: "sub_node_loop calls s1 w1 (out @ print_batch messages) = Some (e, out', s', w')" by simp
    from again [OF this "2.IH"(2) [OF sb refl refl Inr this inv1]] "2.prems"(3) show ?thesis by simp
  next
    case (Inl err)
    show ?thesis
    proof (cases "err = SubTimeout")
      case True
      with "2.prems"(1) sb Inl have l: "sub_node_loop calls s1 w1 out = Some (e, out', s', w')" by simp
      from again [OF this "2.IH"(1) [OF sb refl refl Inl True this inv1]] "2.prems"(3) show ?thesis by simp
    next
      case False
      with "2.prems"(1) sb Inl us show ?thesis
        by (intro conjI exI [of _ "[us]"]) (auto simp: used_by_def)
    qed
  qed
qed simp

section \<open>What the node leaves\<close>

lemma create_synchronous:
  assumes "create_subscriber k topics SUB_SYNCHRONOUS callback h = Some (Inr obj, h')"
  shows "sub_run_thread obj = NotJoinable" "sub_object_inv obj h'" "by_fd (subscriber_of obj) = Map.empty"
    "sub_ledger h {#} h' (sub_all_owned obj)" "same_segments h h'"
  using create_subscriber_correct [of k topics SUB_SYNCHRONOUS callback h] assms
  by (auto simp: sub_mode_def SUB_SYNCHRONOUS_def SUB_ASYNCHRONOUS_def)

lemma sub_node_settles:
  assumes calls: "\<forall>c \<in> set calls. call_ok c" and order: "visits_attachments order"
  shows "case sub_node k calls order h of
      None \<Rightarrow> \<exists>obj h1. create_subscriber k [kTopicCamera] SUB_SYNCHRONOUS False h = Some (Inr obj, h1)
        \<and> sub_node_loop calls (subscriber_of obj) (sub_process h1) [] = None
    | Some (code, out, h') \<Rightarrow> (code = 1 \<and> out = [] \<or> code = 2) \<and> (\<exists>used. used_by calls used
        \<and> mset (sub_opened h') + mset (concat (map answer_fds (concat used))) + mset (sub_closed (sub_process h))
          = mset (sub_opened h) + mset (sub_closed (sub_process h'))
        \<and> dom (segments (sub_process h')) = dom (segments (sub_process h)))"
proof -
  from create_subscriber_correct [of k "[kTopicCamera]" SUB_SYNCHRONOUS False h] obtain r h1 where
    c: "create_subscriber k [kTopicCamera] SUB_SYNCHRONOUS False h = Some (r, h1)" "same_segments h h1"
    and e: "r = Inl e \<Longrightarrow> sub_ledger h {#} h1 {#}" for e by force
  show ?thesis
  proof (cases r)
    case (Inl err)
    with c e [OF Inl] show ?thesis
      by (auto simp: sub_node_def fd_ledger_def same_segments_def used_by_def intro!: exI [of _ "[]"])
  next
    case (Inr obj)
    note o = create_synchronous [OF c(1) [unfolded Inr]]
    show ?thesis
    proof (cases "sub_node_loop calls (subscriber_of obj) (sub_process h1) []")
      case None
      with c Inr show ?thesis by (simp add: sub_node_def)
    next
      case (Some res)
      obtain e1 out s w where res: "res = (e1, out, s, w)" by (cases res)
      from sub_node_loop_accounts [OF Some [unfolded res] _ calls] o(2) obtain used where
        u: "used_by calls used" "accounts_for (subscriber_of obj) (sub_process h1) (concat (map answer_fds (concat used))) s w"
        by (auto simp: sub_object_inv_def)
      let ?obj = "obj\<lparr>subscriber_of := s\<rparr>" and ?h = "h1\<lparr>sub_process := w\<rparr>" and ?a = "no_sub_worker\<lparr>attachment_order := order\<rparr>"
      have stop: "sub_stop_run_thread ?a ?obj ?h = Some (False, ?obj, ?h)"
        using o(1) by (simp add: sub_stop_run_thread_def)
      have inv: "sub_inv (subscriber_of ?obj) (sub_process ?h)" using u(2) by (simp add: accounts_for_def)
      have vis: "visits_attachments (attachment_order ?a)" using order by simp
      from sub_release_resources_joined [OF stop inv vis] obtain obj' h' where
        r: "sub_release_resources ?a ?obj ?h = Some (obj', h')" "sub_ledger ?h (sub_all_owned ?obj) h' {#}"
          "sub_opened h' = sub_opened ?h"
          "dom (segments (sub_process h')) = dom (segments w) - attached_at (by_fd s)" by auto
      have code: "sub_node k calls order h = Some (2, out, h')"
        using c Inr Some res r(1) by (simp add: sub_node_def)
      from u(2) have acc: "sub_owned s + mset (sub_closed w) = sub_owned (subscriber_of obj)
          + mset (sub_closed (sub_process h1)) + mset (concat (map answer_fds (concat used)))"
        and fr: "own_fds s = own_fds (subscriber_of obj)"
          "dom (segments w) - attached_at (by_fd s) = dom (segments (sub_process h1)) - attached_at (by_fd (subscriber_of obj))"
        by (simp_all add: accounts_for_def sub_account_def sub_frame_def)
      have "mset (sub_opened h') + mset (concat (map answer_fds (concat used))) + mset (sub_closed (sub_process h))
          = mset (sub_opened h) + mset (sub_closed (sub_process h'))"
      proof -
        have 1: "mset (sub_opened h1) + mset (sub_closed (sub_process h))
            = mset (sub_opened h) + mset (sub_closed (sub_process h1)) + sub_all_owned obj"
          using o(4) by (simp add: fd_ledger_def)
        have 2: "mset (sub_closed (sub_process h')) = mset (sub_closed w) + sub_owned s + open_fds (own_fds (subscriber_of obj))"
          using r(2,3) fr(1) by (simp add: fd_ledger_def sub_all_owned_def ac_simps)
        have "mset (sub_opened h) + mset (sub_closed (sub_process h'))
            = mset (sub_opened h) + (sub_owned s + mset (sub_closed w)) + open_fds (own_fds (subscriber_of obj))"
          unfolding 2 by (simp add: ac_simps)
        also have "\<dots> = (mset (sub_opened h) + mset (sub_closed (sub_process h1)) + sub_all_owned obj)
            + mset (concat (map answer_fds (concat used)))"
          unfolding acc by (simp add: sub_all_owned_def ac_simps)
        also have "\<dots> = mset (sub_opened h') + mset (concat (map answer_fds (concat used))) + mset (sub_closed (sub_process h))"
          unfolding 1 [symmetric] using r(3) by (simp add: ac_simps)
        finally show ?thesis ..
      qed
      moreover have "dom (segments (sub_process h')) = dom (segments (sub_process h))"
        using r(4) fr(2) o(3,5) by (simp add: attached_at_def same_segments_def)
      ultimately show ?thesis using code u(1) by auto
    qed
  qed
qed

end
