(* ===== verification/Node_Properties.thy ===== *)
theory Node_Properties
  imports Pub_Node Sub_Node Lifecycle_Properties Subscriber_Lifecycle_Properties
begin

text \<open>
  The properties of whole client processes, each with its use on a concrete process.
\<close>

section \<open>The synchronous publish\<close>

text \<open>Property C38. A synchronous \<open>publish\<close> returns, once its waits have ended in a timeout and whatever
  else they reported: it reads the clock at most once per reported event and twice per wait, and
  the receive loop ends at the latest answer that is not a message.  Every descriptor that arrived
  meanwhile is owned or closed, once.\<close>

theorem publish_sync_settles:
  assumes "data_inv p (shm w)" "0 \<le> pub_broker_fd p" "seq p \<noteq> 2147483647"
    and "\<forall>a \<in> set (broker_answers env). well_formed a" "EpollEvents [] \<in> set answers"
    and "Suc (length (pub_events p) + reported answers + 2 * length answers) \<le> length (clock env)"
    and "length (pub_events p) + reported answers \<le> pauses (broker_answers env)"
  shows "\<exists>r p' w' used rest. publish_sync all_ok drain payload timeout answers env p w = Some (r, p', w')
    \<and> broker_answers env = used @ rest
    \<and> open_fds (object_fds p') + open_fds (closed w')
      = open_fds (object_fds p) + open_fds (closed w) + open_fds (concat (map received_fds used))"
proof -
  have g: "going p w" using assms by (simp add: going_def)
  from publish_sync_returns [OF g assms(4,3,5-7)] obtain r p' w' where
    r: "publish_sync all_ok drain payload timeout answers env p w = Some (r, p', w')" by blast
  from publish_sync_uses [OF r g assms(4)] r show ?thesis unfolding uses_def balanced_def by blast
qed

text \<open>The publisher of the example waits once, is told of its broker, and then times out.\<close>

definition demo_environment :: environment where
  "demo_environment = \<lparr>clock = [0, 1, 2, 3, 4, 5], broker_answers = [RecvErr EAGAIN]\<rparr>"

definition demo_waits :: "int epoll_answer list" where
  "demo_waits = [EpollEvents [12], EpollEvents []]"

lemma demo_enough:
  "\<forall>a \<in> set (broker_answers demo_environment). well_formed a" "EpollEvents [] \<in> set demo_waits"
  "Suc (reported demo_waits + 2 * length demo_waits) \<le> length (clock demo_environment)"
  "reported demo_waits \<le> pauses (broker_answers demo_environment)"
  by (simp_all add: demo_environment_def demo_waits_def reported_def pauses_def well_formed_def)

theorem publish_sync_settles_witness:
  "\<exists>p w r p' w'. pub_broker_fd p = 12
    \<and> publish_sync all_ok all_ok demo_payload 10 demo_waits demo_environment p w = Some (r, p', w')
    \<and> open_fds (object_fds p') + open_fds (closed w') = open_fds (object_fds p) + open_fds (closed w)"
proof -
  from demo_created obtain obj h' where
    c: "create_publisher demo_answers kTopicCamera ''/camera'' SYNCHRONOUS demo_host = Some (Inr obj, h')"
    and b: "pub_broker_fd (object obj) = 12" by blast
  from create_publisher_correct [OF demo_name demo_answers_ok(3,1,2), of kTopicCamera SYNCHRONOUS] c
  have inv: "data_inv (object obj) (shm (world h'))" by (simp add: created_as_def quiet_def)
  from create_publisher_unused [OF c] have u: "pub_events (object obj) = []" "seq (object obj) = 0"
    by (simp_all add: unused_def)
  have b0: "0 \<le> pub_broker_fd (object obj)" and n: "seq (object obj) \<noteq> 2147483647" using b u(2) by simp_all
  have e: "Suc (length (pub_events (object obj)) + reported demo_waits + 2 * length demo_waits) \<le> length (clock demo_environment)"
    "length (pub_events (object obj)) + reported demo_waits \<le> pauses (broker_answers demo_environment)"
    unfolding u(1) using demo_enough(3,4) by simp_all
  from publish_sync_settles [OF inv b0 n demo_enough(1,2) e, of all_ok demo_payload 10] obtain r p' w1 used rest where
    p: "publish_sync all_ok all_ok demo_payload 10 demo_waits demo_environment (object obj) (world h') = Some (r, p', w1)"
    "broker_answers demo_environment = used @ rest"
    "open_fds (object_fds p') + open_fds (closed w1) = open_fds (object_fds (object obj)) + open_fds (closed (world h'))
      + open_fds (concat (map received_fds used))" by blast
  from p(2) have "concat (map received_fds used) = []"
    by (cases used) (auto simp: demo_environment_def received_fds_def)
  with p(3) have "open_fds (object_fds p') + open_fds (closed w1) = open_fds (object_fds (object obj)) + open_fds (closed (world h'))"
    by simp
  with b p(1) show ?thesis by blast
qed

section \<open>The publishing node\<close>




section \<open>The subscribing node\<close>









end
