(* ===== verification/Broker_Actions.thy ===== *)
theory Broker_Actions
  imports Broker_System
begin

text \<open>
  The history of the broker in terms of what its handlers establish: each event of \<open>main\<close> is a
  sequence of registrations, departures and status answers.  Facts about tables and messages
  together are then inductions over these actions.
\<close>

text \<open>What the broker does for a client \<open>c\<close>.\<close>

inductive client_action :: "kernel \<Rightarrow> int \<Rightarrow> broker \<times> broker_io \<Rightarrow> broker \<times> broker_io \<Rightarrow> bool" for kern c where
  subscriber_registers: "broker_inv b \<Longrightarrow> role_by_fd b c = None \<Longrightarrow> subscriber_registered kern c topics (b, w) (b', w') \<Longrightarrow>
    broker_inv b' \<Longrightarrow> client_action kern c (b, w) (b', w')"
| publisher_registers: "broker_inv b \<Longrightarrow> role_by_fd b c = None \<Longrightarrow> publisher_registered kern c t shm space (b, w) (b', w') \<Longrightarrow>
    broker_inv b' \<Longrightarrow> client_action kern c (b, w) (b', w')"
| subscriber_leaves: "broker_inv b \<Longrightarrow> role_by_fd b c = Some RoleSubscriber \<Longrightarrow> subscriber_left c (b, w) (b', w') \<Longrightarrow>
    broker_inv b' \<Longrightarrow> client_action kern c (b, w) (b', w')"
| publisher_leaves: "broker_inv b \<Longrightarrow> c \<in> set (publishers_of b t) \<Longrightarrow> publisher_left c t (b, w) (b', w') \<Longrightarrow>
    broker_inv b' \<Longrightarrow> client_action kern c (b, w) (b', w')"
| connections: "client_action kern c (b, w) (b\<lparr>client_fds := fds\<rparr>, w\<lparr>b_closed := closed, b_unwatched := unwatched\<rparr>)"
| answered: "role_by_fd b c = None \<Longrightarrow> client_action kern c (b, w) (b, sent [(c, msg)] w)"

abbreviation client_actions :: "kernel \<Rightarrow> int \<Rightarrow> broker \<times> broker_io \<Rightarrow> broker \<times> broker_io \<Rightarrow> bool" where
  "client_actions kern c \<equiv> (client_action kern c)\<^sup>*\<^sup>*"

abbreviation broker_actions :: "kernel \<Rightarrow> broker \<times> broker_io \<Rightarrow> broker \<times> broker_io \<Rightarrow> bool" where
  "broker_actions kern \<equiv> (\<lambda>st st'. \<exists>c. client_action kern c st st')\<^sup>*\<^sup>*"

lemma client_actions_broker: "client_actions kern c st st' \<Longrightarrow> broker_actions kern st st'"
  by (erule mono_rtranclp [rule_format, rotated]) blast

lemma connections_same_io: "client_action kern c (b, w) (b\<lparr>client_fds := fds\<rparr>, w)"
  using connections [where w = w and closed = "b_closed w" and unwatched = "b_unwatched w"] by simp

lemma accept_clients_actions:
  "accept_clients answers b w = Inr st' \<Longrightarrow> client_actions kern c (b, w) st'"
proof (induction answers b w rule: accept_clients.induct)
  case (3 fd watched answers b w)
  show ?case
  proof (cases watched)
    case True
    from converse_rtranclp_into_rtranclp [OF connections_same_io "3.IH"(1) [OF True]] "3.prems" True show ?thesis by simp
  next
    case False
    have "b_close fd w = w\<lparr>b_closed := b_closed w @ [fd]\<rparr>" by (simp add: b_close_def)
    with connections [of kern c b w "client_fds b - {fd}", where closed = "b_closed w @ [fd]" and unwatched = "b_unwatched w"]
    have "client_action kern c (b, w) (b\<lparr>client_fds := client_fds b - {fd}\<rparr>, b_close fd w)" by simp
    from converse_rtranclp_into_rtranclp [OF this "3.IH"(2) [OF False]] "3.prems" False show ?thesis by simp
  qed
qed (auto split: if_split_asm)

lemma peer_gone_action:
  assumes inv: "broker_inv b" and role: "role_by_fd b fd = Some role" and all: "visits_all kern"
    and code: "peer_gone kern fd role b w = Inr (b', w')"
  shows "client_action kern fd (b, w) (b', w')"
proof (cases role)
  case RoleSubscriber
  with role have r: "role_by_fd b fd = Some RoleSubscriber" by simp
  from code RoleSubscriber have "handle_subscriber_disconnect kern fd b w = Inr (b', w')" by (simp add: peer_gone_def)
  from outcome_Inr [OF handle_subscriber_disconnect_ok [OF inv r] this] show ?thesis
    using subscriber_leaves [OF inv r] by simp
next
  case RolePublisher
  with role clients_okD(3) [OF broker_invD(1) [OF inv], of fd] publishers_okD(3) [OF broker_invD(3) [OF inv], of fd]
  obtain t where t: "fd \<in> set (publishers_of b t)" by auto
  from code RolePublisher have "handle_publisher_disconnect kern fd b w = Inr (b', w')" by (simp add: peer_gone_def)
  from outcome_Inr [OF handle_publisher_disconnect_ok [OF inv t all] this] show ?thesis
    using publisher_leaves [OF inv t] by simp
qed

lemma status_query_actions:
  assumes new: "role_by_fd b fd = None" and code: "handle_status_query kern snapshot fd packet b w = Inr (b', w')"
  shows "client_actions kern fd (b, w) (b', w')"
proof -
  let ?m = "plain_message (type_byte StatusSnapshot # status_payload (snapshot b))"
  from code obtain w1 where w1: "w1 = w \<or> w1 = sent [(fd, ?m)] w"
    and b': "b' = b\<lparr>client_fds := client_fds b - {fd}\<rparr>"
    and w': "w' = w1\<lparr>b_closed := b_closed w1 @ [fd], b_unwatched := b_unwatched w1 @ [fd]\<rparr>"
    using that [of w] that [of "sent [(fd, ?m)] w"]
    by (auto simp: handle_status_query_def transmit_def sent_def b_close_def Let_def require_def split: if_split_asm)
  from w1 have "client_actions kern fd (b, w) (b, w1)" using answered [OF new, of kern w ?m] by auto
  moreover have "client_action kern fd (b, w1) (b', w')" unfolding b' w' by (rule connections)
  ultimately show ?thesis by (rule rtranclp.rtrancl_into_rtrancl)
qed

lemma handle_client_message_actions:
  assumes inv: "system_inv b" and fd: "fd \<in> client_fds b" and conf: "conforming (role_by_fd b fd) (RecvMsg msg # answers)"
    and ne: "msg_bytes msg \<noteq> []"
    and code: "handle_client_message kern snapshot fd msg truncated b w = Inr (gone, b', w')"
  shows "client_actions kern fd (b, w) (b', w')
    \<and> (gone \<or> system_inv b' \<and> fd \<in> client_fds b' \<and> conforming (role_by_fd b' fd) answers)"
proof -
  have binv: "broker_inv b" using inv by (simp add: system_inv_def)
  let ?type = "message_type_of (hd (msg_bytes msg))"
  consider (query) "?type = Some StatusQuery" | (sub) "?type = Some SubscriberTopicRegistration"
    | (pub) "?type = Some PublisherTopicRegistration"
    | (other) "?type \<notin> {Some StatusQuery, Some SubscriberTopicRegistration, Some PublisherTopicRegistration}" by blast
  then show ?thesis
  proof cases
    case query
    with conf ne have new: "role_by_fd b fd = None" by simp
    from code query have "gone" "handle_status_query kern snapshot fd (msg_bytes msg) b w = Inr (b', w')"
      by (auto simp: handle_client_message_def require_def and_then_def split: if_split_asm sum.split_asm)
    with status_query_actions [OF new] show ?thesis by blast
  next
    case sub
    with conf ne have new: "role_by_fd b fd = None" and c: "conforming (Some RoleSubscriber) answers" by simp_all
    from code sub have h: "\<not> gone" "handle_subscriber_topic_registration kern fd (msg_bytes msg) b w = Inr (b', w')"
      by (auto simp: handle_client_message_def require_def and_then_def split: if_split_asm sum.split_asm)
    from outcome_Inr [OF handle_subscriber_topic_registration_ok [OF binv new] h(2)] obtain topics where
      r: "broker_inv b'" "subscriber_registered kern fd topics (b, w) (b', w')" by auto
    from outcome_Inr [OF subscriber_registration_step [OF inv fd new] h(2)] c fd
    have "system_inv b' \<and> fd \<in> client_fds b' \<and> conforming (role_by_fd b' fd) answers" by simp
    with subscriber_registers [OF binv new r(2,1)] show ?thesis by blast
  next
    case pub
    with conf ne have new: "role_by_fd b fd = None" and c: "conforming (Some RolePublisher) answers" by simp_all
    from code pub have h: "\<not> gone" "handle_publisher_topic_registration kern fd (msg_bytes msg) (msg_control msg) b w = Inr (b', w')"
      by (auto simp: handle_client_message_def require_def and_then_def split: if_split_asm sum.split_asm)
    from outcome_Inr [OF handle_publisher_topic_registration_ok [OF binv new] h(2)] obtain t shm space where
      r: "broker_inv b'" "publisher_registered kern fd t shm space (b, w) (b', w')" by auto
    from outcome_Inr [OF publisher_registration_step [OF inv fd new] h(2)] c fd
    have "system_inv b' \<and> fd \<in> client_fds b' \<and> conforming (role_by_fd b' fd) answers" by simp
    with publisher_registers [OF binv new r(2,1)] show ?thesis by blast
  next
    case other
    with code have "\<not> gone" "b' = b" "w' = w"
      by (auto simp: handle_client_message_def require_def split: if_split_asm option.split_asm broker_message_type.split_asm)
    with other inv fd conf ne show ?thesis
      by (auto split: option.split_asm broker_message_type.split_asm)
  qed
qed

lemma receive_client_messages_actions:
  "receive_client_messages kern snapshot fd answers b w = Inr (b', w') \<Longrightarrow> system_inv b \<Longrightarrow> fd \<in> client_fds b \<Longrightarrow>
   conforming (role_by_fd b fd) answers \<Longrightarrow> visits_all kern \<Longrightarrow> client_actions kern fd (b, w) (b', w')"
proof (induction kern snapshot fd answers b w rule: receive_client_messages.induct)
  case (2 kern snapshot fd errno answers b w)
  show ?case
  proof (cases "errno = EAGAIN")
    case False
    let ?b = "b\<lparr>client_fds := client_fds b - {fd}\<rparr>"
    from False "2.prems"(1) obtain role where r: "role_by_fd ?b fd = Some role" "peer_gone kern fd role ?b w = Inr (b', w')"
      by (auto simp: peer_failed_def found_def require_def split: option.split_asm if_split_asm)
    have "broker_inv ?b" using "2.prems"(2) by (simp add: system_inv_def)
    from peer_gone_action [OF this r(1) "2.prems"(5) r(2)] have "client_actions kern fd (?b, w) (b', w')"
      by (rule r_into_rtranclp)
    with connections_same_io show ?thesis by (rule converse_rtranclp_into_rtranclp)
  qed (use "2.prems" in simp)
next
  case (3 kern snapshot fd msg answers b w)
  show ?case
  proof (cases "msg_bytes msg = []")
    case True
    with "3.prems"(1) obtain role where r: "role_by_fd b fd = Some role" "peer_gone kern fd role b w = Inr (b', w')"
      by (auto simp: peer_closed_def found_def split: option.split_asm)
    have "broker_inv b" using "3.prems"(2) by (simp add: system_inv_def)
    from peer_gone_action [OF this r(1) "3.prems"(5) r(2)] show ?thesis by (rule r_into_rtranclp)
  next
    case False
    with "3.prems"(1) obtain gone b1 w1 where
      h: "handle_client_message kern snapshot fd msg (msg_truncated msg) b w = Inr (gone, b1, w1)"
      and n: "if gone then (b', w') = (b1, w1) else receive_client_messages kern snapshot fd answers b1 w1 = Inr (b', w')"
      by (cases "handle_client_message kern snapshot fd msg (msg_truncated msg) b w") (auto split: if_split_asm)
    note a = handle_client_message_actions [OF "3.prems"(2-4) False h]
    show ?thesis
    proof (cases gone)
      case True
      with n a show ?thesis by simp
    next
      case no: False
      with "3.IH" [OF False no] n a "3.prems"(5) have "client_actions kern fd (b1, w1) (b', w')" by simp
      with a show ?thesis by (blast intro: rtranclp_trans)
    qed
  qed
qed simp

lemma broker_step_actions:
  assumes "broker_step kern snapshot st ev st'" "system_inv (fst st)" "visits_all kern"
  shows "broker_actions kern st st'"
  using assms(1)
proof cases
  case (accepts answers b w)
  with accept_clients_actions [of answers b w st' kern 0] client_actions_broker show ?thesis by auto
next
  case (receives fd b answers w)
  obtain b' w' where "st' = (b', w')" by (cases st')
  with receives receive_client_messages_actions [of kern snapshot fd answers b w b' w'] assms(2,3) client_actions_broker
  show ?thesis by auto
qed

lemma broker_reachable_actions:
  assumes "broker_reachable kern snapshot b w" "visits_all kern"
  shows "broker_actions kern (initial_broker, initial_io) (b, w)"
proof -
  from assms(1) obtain events where "run (broker_step kern snapshot) (initial_broker, initial_io) events (b, w)"
    by (auto simp: broker_reachable_def)
  then show ?thesis
  proof (induction "(initial_broker, initial_io)" events "(b, w)" arbitrary: b w rule: run.induct)
    case (run_snoc evs st ev b w)
    obtain b1 w1 where st: "st = (b1, w1)" by (cases st)
    from run_snoc(1) st have "broker_reachable kern snapshot b1 w1" by (auto simp: broker_reachable_def)
    from broker_step_actions [OF run_snoc(3) _ assms(2)] broker_reachable_inv [OF this assms(2)] run_snoc(2) st
    show ?case by (auto intro: rtranclp_trans)
  qed simp
qed

end
