(* ===== verification/Broker_Notes.thy ===== *)
theory Broker_Notes
  imports Broker_Actions
begin

text \<open>
  What the broker tells a publisher: the packets sent to it since it registered, read one after
  the other, amount to the slots that the broker's tables have in use.
\<close>

section \<open>A listener\<close>

definition told :: "int \<Rightarrow> broker_io \<Rightarrow> bytes list" where
  "told p w = map (msg_bytes \<circ> snd) (filter (\<lambda>m. fst m = p) (outbox w))"

text \<open>The slots a publisher knows after one more packet: a count starts afresh, and a packet that a
  publisher cannot accept leaves nothing known.\<close>

definition hear :: "nat set option \<Rightarrow> bytes \<Rightarrow> nat set option" where
  "hear known packet =
     (if length packet = 4 then Some {}
      else if length packet \<noteq> 5 then None
      else do {
        S \<leftarrow> known;
        slot \<leftarrow> field_u32 packet 1;
        case message_type_of (hd packet) of
          Some SubscriberEventFdAndSlot \<Rightarrow>
            if unat slot < 16 \<and> unat slot \<notin> S then Some (insert (unat slot) S) else None
        | Some SubscriberDisconnected \<Rightarrow>
            if unat slot \<in> S then Some (S - {unat slot}) else None
        | _ \<Rightarrow> None
      })"

definition slots_told :: "int \<Rightarrow> broker_io \<Rightarrow> nat set option" where
  "slots_told p w = foldl hear None (told p w)"

lemma hear_packets:
  "hear (Some S) (subscriber_event_fd_and_slot_packet slot)
     = (if unat slot < 16 \<and> unat slot \<notin> S then Some (insert (unat slot) S) else None)"
  "hear (Some S) (subscriber_disconnected_packet slot) = (if unat slot \<in> S then Some (S - {unat slot}) else None)"
  "hear known (le_bytes 4 (n :: u32)) = Some {}"
proof -
  have f: "field_u32 (b # le_bytes 4 slot) 1 = Some slot" for b using field_u32_le [of 1 "[b]" slot "[]"] by simp
  show "hear (Some S) (subscriber_event_fd_and_slot_packet slot)
     = (if unat slot < 16 \<and> unat slot \<notin> S then Some (insert (unat slot) S) else None)"
    "hear (Some S) (subscriber_disconnected_packet slot) = (if unat slot \<in> S then Some (S - {unat slot}) else None)"
    using f by (simp_all add: hear_def subscriber_event_fd_and_slot_packet_def subscriber_disconnected_packet_def
      message_type_of_def del: One_nat_def)
  show "hear known (le_bytes 4 (n :: u32)) = Some {}" by (simp add: hear_def)
qed

lemma hear_registrations:
  "distinct (map unat slots) \<Longrightarrow> unat ` set slots \<subseteq> {..<16} - S \<Longrightarrow>
   foldl hear (Some S) (map subscriber_event_fd_and_slot_packet slots) = Some (S \<union> unat ` set slots)"
proof (induction slots arbitrary: S)
  case (Cons s slots)
  have "unat ` set slots \<subseteq> {..<16} - insert (unat s) S" using Cons.prems by (simp, blast)
  with Cons.IH [of "insert (unat s) S"] Cons.prems show ?case by (simp add: hear_packets)
qed simp

lemma hear_departures:
  "distinct (map unat slots) \<Longrightarrow> unat ` set slots \<subseteq> S \<Longrightarrow>
   foldl hear (Some S) (map subscriber_disconnected_packet slots) = Some (S - unat ` set slots)"
proof (induction slots arbitrary: S)
  case (Cons s slots)
  have "unat ` set slots \<subseteq> S - {unat s}" using Cons.prems by (simp, blast)
  with Cons.IH [of "S - {unat s}"] Cons.prems show ?case by (simp add: hear_packets) blast
qed simp

lemma told_sent: "told p (sent ms w) = told p w @ map (msg_bytes \<circ> snd) (filter (\<lambda>m. fst m = p) ms)"
  by (simp add: told_def)

lemma told_other [simp]:
  "told p (w\<lparr>b_closed := c\<rparr>) = told p w" "told p (w\<lparr>b_unwatched := u\<rparr>) = told p w"
  "told p (w\<lparr>eventfd_calls := n\<rparr>) = told p w" "told p (closing fds w) = told p w"
  by (simp_all add: told_def closing_def)

lemma registered_notes_to:
  "map (msg_bytes \<circ> snd) (filter (\<lambda>m. fst m = p) (map registered_note as))
     = map subscriber_event_fd_and_slot_packet (map sa_slot_index (filter (\<lambda>a. sa_publisher_fd a = p) as))"
  by (induction as) (simp_all add: registered_note_def send_packet_with_fd_def)

lemma gone_notes_to:
  "map (msg_bytes \<circ> snd) (filter (\<lambda>m. fst m = p) (map subscriber_gone_note as))
     = map subscriber_disconnected_packet (map sa_slot_index (filter (\<lambda>a. sa_publisher_fd a = p) as))"
  by (induction as) (simp_all add: subscriber_gone_note_def plain_message_def)

section \<open>Slots in use\<close>

abbreviation in_use :: "broker \<Rightarrow> int \<Rightarrow> nat multiset" where
  "in_use b p \<equiv> slots_in_use (all_attachments (subscriber_attachments_by_subscriber_fd b)) p"

lemma in_use_bounded:
  assumes "broker_inv b" "p \<in> set (publishers_of b t)"
  shows "in_use b p \<subseteq># mset [0..<16]"
proof -
  obtain h where h: "free_slots b t p = Some h"
    using assms publishers_okD(4) [OF broker_invD(3) [OF assms(1)], of t p] by blast
  have "slots_ok (available_subscriber_slots b) (all_attachments (subscriber_attachments_by_subscriber_fd b))"
    using broker_invD(6) [OF assms(1)] by (simp add: ledger_ok_def)
  from slots_okD(2) [OF this h] show ?thesis by (metis all_slots_def mset_subset_eq_add_right)
qed

text \<open>Slots that are added to or taken from those in use.\<close>

lemma slots_distinct:
  assumes "X + mset (map unat slots) \<subseteq># mset [0..<16]"
  shows "distinct (map unat slots)" "unat ` set slots \<subseteq> {..<16} - set_mset X"
proof -
  from assms obtain Z where "mset [0..<16] = X + mset (map unat slots) + Z" by (metis mset_subset_eq_exists_conv)
  moreover obtain xs zs where x: "X = mset xs" and "Z = mset zs" by (metis ex_mset)
  ultimately have m: "mset [0..<16] = mset (xs @ map unat slots @ zs)" by (simp add: ac_simps)
  have "distinct [0..<16 :: nat]" by simp
  with m have d: "distinct (xs @ map unat slots @ zs)" by (metis mset_eq_imp_distinct_iff)
  from m have "set (xs @ map unat slots @ zs) = {..<16}" by (metis atLeast_upt mset_eq_setD)
  then have "unat ` set slots \<subseteq> {..<16}" by auto
  moreover have "set xs \<inter> unat ` set slots = {}" using d by auto
  ultimately show "unat ` set slots \<subseteq> {..<16} - set_mset X" unfolding x by auto
  show "distinct (map unat slots)" using d by simp
qed


lemma in_use_plus:
  "slots_in_use (A + mset as) p = slots_in_use A p
     + mset (map unat (map sa_slot_index (filter (\<lambda>a. sa_publisher_fd a = p) as)))"
  by (induction as) auto

section \<open>Publishers are informed\<close>

definition informed :: "broker \<Rightarrow> broker_io \<Rightarrow> bool" where
  "informed b w \<longleftrightarrow> (\<forall>t. \<forall>p \<in> set (publishers_of b t). slots_told p w = Some (set_mset (in_use b p)))"

lemma slots_told_sent:
  "slots_told p (sent ms w) = foldl hear (slots_told p w) (map (msg_bytes \<circ> snd) (filter (\<lambda>m. fst m = p) ms))"
  by (simp add: slots_told_def told_sent)

lemma slots_told_other [simp]:
  "slots_told p (w\<lparr>b_closed := c\<rparr>) = slots_told p w" "slots_told p (w\<lparr>b_unwatched := u\<rparr>) = slots_told p w"
  "slots_told p (w\<lparr>eventfd_calls := n\<rparr>) = slots_told p w" "slots_told p (closing fds w) = slots_told p w"
  by (simp_all add: slots_told_def)

lemma publisher_role:
  assumes "broker_inv b" "p \<in> set (publishers_of b t)"
  shows "role_by_fd b p = Some RolePublisher"
  using clients_okD(3) [OF broker_invD(1) [OF assms(1)], of p] publishers_okD(3) [OF broker_invD(3) [OF assms(1)], of p] assms(2)
  by blast

text \<open>Attachments that are announced to their publishers.\<close>

lemma hear_new:
  assumes told: "slots_told p w = Some (set_mset (slots_in_use A p))"
    and bound: "slots_in_use (A + mset as) p \<subseteq># mset [0..<16]"
  shows "slots_told p (sent (map registered_note as) w) = Some (set_mset (slots_in_use (A + mset as) p))"
proof -
  let ?slots = "map sa_slot_index (filter (\<lambda>a. sa_publisher_fd a = p) as)"
  from bound have "slots_in_use A p + mset (map unat ?slots) \<subseteq># mset [0..<16]" by (simp only: in_use_plus)
  note d = slots_distinct [OF this]
  show ?thesis
    unfolding slots_told_sent registered_notes_to told in_use_plus hear_registrations [OF d] by (simp add: image_image)
qed

text \<open>Attachments whose end is announced.\<close>

lemma hear_gone:
  assumes told: "slots_told p w = Some (set_mset (slots_in_use (A + mset as) p))"
    and bound: "slots_in_use (A + mset as) p \<subseteq># mset [0..<16]"
  shows "slots_told p (sent (map subscriber_gone_note as) w) = Some (set_mset (slots_in_use A p))"
proof -
  let ?slots = "map sa_slot_index (filter (\<lambda>a. sa_publisher_fd a = p) as)"
  from bound have "slots_in_use A p + mset (map unat ?slots) \<subseteq># mset [0..<16]" by (simp only: in_use_plus)
  note d = slots_distinct [OF this]
  have "unat ` set ?slots \<subseteq> set_mset (slots_in_use (A + mset as) p)" by (simp only: in_use_plus) auto
  from hear_departures [OF d(1) this]
  have "slots_told p (sent (map subscriber_gone_note as) w)
      = Some (set_mset (slots_in_use (A + mset as) p) - unat ` set ?slots)"
    unfolding slots_told_sent gone_notes_to told .
  moreover have "set_mset (slots_in_use (A + mset as) p) - unat ` set ?slots = set_mset (slots_in_use A p)"
    using d(2) by (simp only: in_use_plus) auto
  ultimately show ?thesis by simp
qed

lemma slots_told_elsewhere: "p \<notin> fst ` set ms \<Longrightarrow> slots_told p (sent ms w) = slots_told p w"
proof -
  assume "p \<notin> fst ` set ms"
  then have "filter (\<lambda>m. fst m = p) ms = []" by (auto simp: filter_empty_conv)
  then show ?thesis by (simp add: slots_told_sent)
qed

lemma sent_append: "sent (ms @ ns) w = sent ns (sent ms w)"
  by (simp add: sent_def)

section \<open>Every action keeps them informed\<close>

text \<open>The count a new publisher gets and the links it makes.\<close>

lemma linked_notes_to:
  "p \<notin> fst ` set rs \<Longrightarrow> filter (\<lambda>m. fst m = p) (linked_notes shm rs) = filter (\<lambda>m. fst m = p) (map registered_note (map snd rs))"
  by (induction rs) (auto simp: linked_notes_def batch_note_def)

lemma linked_notes_elsewhere:
  "p \<notin> fst ` set rs \<Longrightarrow> \<forall>a \<in> snd ` set rs. sa_publisher_fd a = fd \<Longrightarrow> p \<noteq> fd \<Longrightarrow> p \<notin> fst ` set (linked_notes shm rs)"
  by (induction rs) (auto simp: linked_notes_def registered_note_def batch_note_def)

lemma registers_subscriber_informs:
  assumes inv: "broker_inv b" "broker_inv b'" and new: "role_by_fd b fd = None"
    and r: "subscriber_registered kern fd topics (b, w) (b', w')" and i: "informed b w"
  shows "informed b' w'"
  unfolding informed_def
proof (intro allI ballI)
  fix t p assume p': "p \<in> set (publishers_of b' t)"
  from r obtain as shms where as: "subscriber_attachments_by_subscriber_fd b' = (subscriber_attachments_by_subscriber_fd b)(fd \<mapsto> as)"
    and w': "w' = sent (map registered_note as @ [batch_note fd as shms]) (w\<lparr>eventfd_calls := eventfd_calls w + length as\<rparr>)"
    and pubs: "publisher_fds_by_topic_id b' = publisher_fds_by_topic_id b"
    unfolding subscriber_registered_def by auto
  from p' pubs have p: "p \<in> set (publishers_of b t)" by simp
  with publisher_role [OF inv(1) p] new have ne: "p \<noteq> fd" by auto
  let ?m = "subscriber_attachments_by_subscriber_fd b"
  have "?m fd = None" using clients_okD(1) [OF broker_invD(1) [OF inv(1)], of fd] new by simp
  then have all: "all_attachments (subscriber_attachments_by_subscriber_fd b') = all_attachments ?m + mset as"
    unfolding as using all_attachments_insert [of ?m fd as] clients_okD(5) [OF broker_invD(1) [OF inv(1)]] by (simp add: add.commute)
  have "slots_told p (w\<lparr>eventfd_calls := eventfd_calls w + length as\<rparr>) = Some (set_mset (in_use b p))"
    using i p unfolding informed_def by simp
  from hear_new [OF this] in_use_bounded [OF inv(2) p'] all
  have "slots_told p (sent (map registered_note as) (w\<lparr>eventfd_calls := eventfd_calls w + length as\<rparr>))
      = Some (set_mset (in_use b' p))"
    by simp
  then show "slots_told p w' = Some (set_mset (in_use b' p))"
    unfolding w' sent_append by (subst slots_told_elsewhere) (use ne in \<open>simp_all add: batch_note_def\<close>)
qed

lemma registers_publisher_informs:
  assumes inv: "broker_inv b" "broker_inv b'" and new: "role_by_fd b fd = None"
    and r: "publisher_registered kern fd t shm space (b, w) (b', w')" and i: "informed b w"
  shows "informed b' w'"
  unfolding informed_def
proof (intro allI ballI)
  fix u p assume p': "p \<in> set (publishers_of b' u)"
  from r obtain rs where rs: "map fst rs = subscribers_of b t" "\<forall>a \<in> snd ` set rs. sa_publisher_fd a = fd"
    and all: "all_attachments (subscriber_attachments_by_subscriber_fd b')
      = all_attachments (subscriber_attachments_by_subscriber_fd b) + mset (map snd rs)"
    and w': "w' = sent ((fd, plain_message (le_bytes 4 (of_nat (length rs) :: u32))) # linked_notes shm rs)
        (w\<lparr>eventfd_calls := eventfd_calls w + length rs\<rparr>)"
    and pubs: "publisher_fds_by_topic_id b' = (publisher_fds_by_topic_id b)(t \<mapsto> publishers_of b t @ [fd])"
    and roles: "role_by_fd b' = (role_by_fd b)(fd \<mapsto> RolePublisher)"
    and doms: "dom (subscriber_attachments_by_subscriber_fd b') = dom (subscriber_attachments_by_subscriber_fd b)"
    unfolding publisher_registered_def by auto
  from subscribers_registered [OF inv(1)] rs(1)
  have subs: "\<forall>s \<in> fst ` set rs. subscriber_attachments_by_subscriber_fd b s \<noteq> None"
    by (metis (no_types, lifting) domIff image_set subsetD)
  have notsub: "p \<notin> fst ` set rs"
  proof
    assume "p \<in> fst ` set rs"
    with subs have "subscriber_attachments_by_subscriber_fd b p \<noteq> None" by blast
    with doms have "subscriber_attachments_by_subscriber_fd b' p \<noteq> None" by blast
    with clients_okD(1) [OF broker_invD(1) [OF inv(2)], of p] publisher_role [OF inv(2) p'] show False by simp
  qed
  let ?count = "(fd, plain_message (le_bytes 4 (of_nat (length rs) :: u32)))"
  let ?w = "w\<lparr>eventfd_calls := eventfd_calls w + length rs\<rparr>"
  show "slots_told p w' = Some (set_mset (in_use b' p))"
  proof (cases "p = fd")
    case True
    have "slots_told p (sent [?count] ?w) = Some {}"
      using True by (simp add: slots_told_sent hear_packets plain_message_def)
    moreover have "in_use b p = {#}" using unknown_publisher(3) [OF inv(1) new] True by simp
    ultimately have "slots_told p (sent [?count] ?w) = Some (set_mset (in_use b p))" by simp
    from hear_new [OF this, of "map snd rs"] in_use_bounded [OF inv(2) p'] all
    have "slots_told p (sent (map registered_note (map snd rs)) (sent [?count] ?w)) = Some (set_mset (in_use b' p))" by simp
    then show ?thesis
      using linked_notes_to [OF notsub, of shm] sent_append [of "[?count]" "linked_notes shm rs" ?w] True unfolding w'
      by (simp add: slots_told_sent)
  next
    case False
    with p' pubs have p: "p \<in> set (publishers_of b u)" by (auto split: if_split_asm)
    have "slots_told p w' = slots_told p w"
      unfolding w' using slots_told_elsewhere [of p] linked_notes_elsewhere [OF notsub rs(2) False, of shm] False by simp
    moreover have "in_use b' p = in_use b p"
    proof -
      have "filter (\<lambda>a. sa_publisher_fd a = p) (map snd rs) = []" using rs(2) False by (auto simp: filter_empty_conv)
      then show ?thesis by (simp only: all in_use_plus) simp
    qed
    ultimately show ?thesis using i p unfolding informed_def by simp
  qed
qed

lemma subscriber_leaves_informs:
  assumes inv: "broker_inv b" and role: "role_by_fd b fd = Some RoleSubscriber"
    and r: "subscriber_left fd (b, w) (b', w')" and i: "informed b w"
  shows "informed b' w'"
  unfolding informed_def
proof (intro allI ballI)
  fix t p assume p': "p \<in> set (publishers_of b' t)"
  let ?m = "subscriber_attachments_by_subscriber_fd b"
  let ?as = "attachments_of b fd"
  from r have pubs: "publisher_fds_by_topic_id b' = publisher_fds_by_topic_id b"
    and m: "subscriber_attachments_by_subscriber_fd b' = ?m(fd := None)"
    and w': "w' = closing (map sa_data_available_event_fd ?as @ [fd]) (sent (map subscriber_gone_note ?as) w)"
    unfolding subscriber_left_def by auto
  from p' pubs have p: "p \<in> set (publishers_of b t)" by simp
  have c: "finite (dom ?m)" "?m fd = Some ?as"
    using clients_okD(1) [OF broker_invD(1) [OF inv], of fd] clients_okD(5) [OF broker_invD(1) [OF inv]] role by (auto simp: list_at_def)
  from all_attachments_remove [OF c(1) c(2)]
  have all: "all_attachments ?m = all_attachments (subscriber_attachments_by_subscriber_fd b') + mset ?as"
    unfolding m by (simp add: add.commute)
  have "slots_told p w = Some (set_mset (in_use b p))" using i p unfolding informed_def by simp
  with all hear_gone [where p = p and w = w and as = ?as] in_use_bounded [OF inv p]
  show "slots_told p w' = Some (set_mset (in_use b' p))" unfolding w' by simp
qed

lemma publisher_leaves_informs:
  assumes inv: "broker_inv b" "broker_inv b'" and r: "publisher_left fd t (b, w) (b', w')" and i: "informed b w"
  shows "informed b' w'"
  unfolding informed_def
proof (intro allI ballI)
  fix u p assume p': "p \<in> set (publishers_of b' u)"
  from r obtain rs where rs: "map fst rs = subscribers_of b t"
      "\<forall>s. given_to s rs = filter (\<lambda>a. sa_publisher_fd a = fd) (attachments_of b s)"
    and all: "all_attachments (subscriber_attachments_by_subscriber_fd b)
      = all_attachments (subscriber_attachments_by_subscriber_fd b') + mset (map snd rs)"
    and w': "w' = closing (map (sa_data_available_event_fd \<circ> snd) rs
        @ [the (shm_fd_by_publisher_fd b fd), the (space_event_fd_by_publisher_fd b fd), fd])
      (sent (map publisher_gone_note rs) w)"
    and pubs: "\<forall>u. publishers_of b' u = filter (\<lambda>p. p \<noteq> fd) (publishers_of b u)"
    unfolding publisher_left_def by auto
  from p' pubs have p: "p \<in> set (publishers_of b u)" "p \<noteq> fd" by auto
  have "sa_publisher_fd a = fd" if "(s, a) \<in> set rs" for s a
  proof -
    from that have "a \<in> set (given_to s rs)" by (force simp: given_to_def)
    then show ?thesis using rs(2) by simp
  qed
  then have "filter (\<lambda>a. sa_publisher_fd a = p) (map snd rs) = []" using p(2) by (auto simp: filter_empty_conv)
  then have same: "in_use b p = in_use b' p" by (simp only: all in_use_plus) simp
  have "p \<notin> fst ` set rs"
  proof
    assume "p \<in> fst ` set rs"
    with rs(1) have "p \<in> set (subscribers_of b t)" by (metis image_set)
    with subscribers_registered [OF inv(1), of t] have "subscriber_attachments_by_subscriber_fd b p \<noteq> None" by blast
    with clients_okD(1) [OF broker_invD(1) [OF inv(1)], of p] publisher_role [OF inv(1) p(1)] show False by simp
  qed
  then have "p \<notin> fst ` set (map publisher_gone_note rs)" by (force simp: publisher_gone_note_def)
  from slots_told_elsewhere [OF this, of w] i p(1) same
  show "slots_told p w' = Some (set_mset (in_use b' p))" unfolding w' informed_def by simp
qed

lemma client_action_informs:
  assumes "client_action kern c st st'" "informed (fst st) (snd st)" "broker_inv (fst st)"
  shows "informed (fst st') (snd st') \<and> broker_inv (fst st')"
  using assms
proof cases
  case subscriber_registers
  with registers_subscriber_informs assms(2) show ?thesis by simp
next
  case publisher_registers
  with registers_publisher_informs assms(2) show ?thesis by simp
next
  case subscriber_leaves
  with subscriber_leaves_informs assms(2) show ?thesis by simp
next
  case publisher_leaves
  with publisher_leaves_informs assms(2) show ?thesis by simp
next
  case connections
  with assms(2,3) show ?thesis by (simp add: informed_def)
next
  case (answered b w msg)
  have "p \<noteq> c" if "p \<in> set (publishers_of b t)" for p t
    using publisher_role [OF _ that] assms(3) answered by auto
  then have "slots_told p (sent [(c, msg)] w) = slots_told p w" if "p \<in> set (publishers_of b t)" for p t
    using that by (intro slots_told_elsewhere) auto
  with assms(2,3) answered show ?thesis by (simp add: informed_def)
qed

lemma broker_actions_inform:
  assumes "broker_actions kern st st'" "informed (fst st) (snd st)" "broker_inv (fst st)"
  shows "informed (fst st') (snd st') \<and> broker_inv (fst st')"
  using assms by (induction rule: rtranclp_induct) (use client_action_informs in blast)+

lemma reachable_informed:
  assumes "broker_reachable kern snapshot b w" "visits_all kern"
  shows "informed b w"
proof -
  have "informed initial_broker initial_io" by (simp add: informed_def initial_broker_def list_at_def)
  with broker_actions_inform [OF broker_reachable_actions [OF assms]] initial_broker_inv show ?thesis by simp
qed

text \<open>The packets since the last count, which is the first one of the last registration on the
  connection.\<close>

definition since_registration :: "int \<Rightarrow> broker_io \<Rightarrow> bytes list" where
  "since_registration p w = rev (takeWhile (\<lambda>m. length m \<noteq> 4) (rev (told p w)))"

lemma since_registration_no_count: "4 \<notin> length ` set (since_registration p w)"
  by (auto simp: since_registration_def dest: set_takeWhileD)

lemma hear_since:
  "foldl hear None packets = Some S \<Longrightarrow> foldl hear (Some {}) (rev (takeWhile (\<lambda>m. length m \<noteq> 4) (rev packets))) = Some S"
proof (induction packets arbitrary: S rule: rev_induct)
  case (snoc packet packets)
  show ?case
  proof (cases "length packet = 4")
    case True
    with snoc.prems show ?thesis by (simp add: hear_def)
  next
    case False
    then have "hear None packet = None" by (simp add: hear_def)
    with snoc.prems obtain S' where "foldl hear None packets = Some S'"
      by (cases "foldl hear None packets") simp_all
    from snoc.IH [OF this] snoc.prems this False show ?thesis by simp
  qed
qed simp

lemma reachable_since_registration:
  assumes "broker_reachable kern snapshot b w" "visits_all kern" "p \<in> set (publishers_of b t)"
  shows "foldl hear (Some {}) (since_registration p w) = Some (set_mset (in_use b p))"
  using reachable_informed [OF assms(1,2)] assms(3) hear_since
  unfolding informed_def slots_told_def since_registration_def by blast

text \<open>What a new publisher is told when it registers.\<close>

lemma registers_publisher_told:
  assumes inv: "broker_inv b" "broker_inv b'" and new: "role_by_fd b fd = None"
    and r: "publisher_registered kern fd t shm space (b, w) (b', w')"
  obtains n :: u32 and slots where "told fd w' = told fd w @ le_bytes 4 n # map subscriber_event_fd_and_slot_packet slots"
    "length slots = unat n" "distinct (map unat slots)" "\<forall>s \<in> set slots. unat s < 16"
    "set_mset (in_use b' fd) = unat ` set slots" "fd \<in> set (publishers_of b' t)"
proof -
  from r obtain rs where rs: "map fst rs = subscribers_of b t" "\<forall>a \<in> snd ` set rs. sa_publisher_fd a = fd"
    and all: "all_attachments (subscriber_attachments_by_subscriber_fd b')
      = all_attachments (subscriber_attachments_by_subscriber_fd b) + mset (map snd rs)"
    and w': "w' = sent ((fd, plain_message (le_bytes 4 (of_nat (length rs) :: u32))) # linked_notes shm rs)
        (w\<lparr>eventfd_calls := eventfd_calls w + length rs\<rparr>)"
    and pubs: "publisher_fds_by_topic_id b' = (publisher_fds_by_topic_id b)(t \<mapsto> publishers_of b t @ [fd])"
    unfolding publisher_registered_def by auto
  have pub: "fd \<in> set (publishers_of b' t)" by (simp add: pubs)
  let ?as = "map snd rs" and ?slots = "map sa_slot_index (map snd rs)"
  have f: "filter (\<lambda>a. sa_publisher_fd a = fd) ?as = ?as" using rs(2) by (auto simp: filter_id_conv)
  have "fd \<notin> fst ` set rs"
  proof
    assume "fd \<in> fst ` set rs"
    with rs(1) have "fd \<in> set (subscribers_of b t)" by (metis image_set)
    with subscribers_registered [OF inv(1), of t] have "subscriber_attachments_by_subscriber_fd b fd \<noteq> None" by blast
    with clients_okD(1) [OF broker_invD(1) [OF inv(1)], of fd] new show False by simp
  qed
  note to_fd = linked_notes_to [OF this, of shm]
  have in_use: "in_use b' fd = mset (map unat ?slots)"
    using unknown_publisher(3) [OF inv(1) new] by (simp only: all in_use_plus f) simp
  with in_use_bounded [OF inv(2) pub] have "{#} + mset (map unat ?slots) \<subseteq># mset [0..<16]" by simp
  note d = slots_distinct [OF this]
  have "length rs \<le> 16" using size_mset_mono [OF in_use_bounded [OF inv(2) pub]] by (simp add: in_use)
  then have n: "length ?slots = unat (of_nat (length rs) :: u32)" by (simp add: unat_of_nat_small)
  have "told fd w' = told fd w @ le_bytes 4 (of_nat (length rs) :: u32) # map subscriber_event_fd_and_slot_packet ?slots"
    unfolding w' told_sent
    using to_fd registered_notes_to [of fd ?as] by (simp add: f plain_message_def del: map_map) 
  from that [OF this n d(1)] d(2) in_use pub show thesis by auto
qed

end
