(* ===== verification/Publisher_Follows.thy ===== *)
theory Publisher_Follows
  imports Broker_Notes Publisher_Lifecycle
begin

text \<open>
  The publisher's side of what the broker tells it: the packets arrive in order, each descriptor
  under a number that is new in the publisher's process, and the publisher's active slots become
  those that the packets amount to.
\<close>

section \<open>One packet\<close>

text \<open>A packet arrives whole; one that registers a subscriber carries a descriptor that the
  publisher does not hold yet.\<close>

definition arrives :: "bytes \<Rightarrow> publisher \<Rightarrow> msghdr \<Rightarrow> bool" where
  "arrives packet p msg \<longleftrightarrow> msg_bytes msg = packet \<and> \<not> msg_truncated msg
     \<and> (if message_type_of (hd packet) = Some SubscriberEventFdAndSlot then
          (case msg_control msg of None \<Rightarrow> False
           | Some c \<Rightarrow> cmsg_level c = SOL_SOCKET \<and> cmsg_type c = SCM_RIGHTS \<and> cmsg_len c = CMSG_LEN 4
               \<and> length (cmsg_fds c) = 1 \<and> 0 \<le> hd (cmsg_fds c)
               \<and> hd (cmsg_fds c) \<notin> set (data_available_event_fds p))
        else msg_control msg = None)"

abbreviation active_slots :: "io \<Rightarrow> nat set" where
  "active_slots w \<equiv> {s. active (shm w) s}"

lemma hear_packet_cases:
  assumes "hear (Some S) packet = Some S'" "length packet \<noteq> 4"
  obtains (registered) slot where "field_u32 packet 1 = Some slot" "length packet = 5"
      "message_type_of (hd packet) = Some SubscriberEventFdAndSlot" "unat slot < 16" "unat slot \<notin> S" "S' = insert (unat slot) S"
  | (gone) slot where "field_u32 packet 1 = Some slot" "length packet = 5"
      "message_type_of (hd packet) = Some SubscriberDisconnected" "unat slot \<in> S" "S' = S - {unat slot}"
proof -
  from assms have five: "length packet = 5" by (auto simp: hear_def split: if_splits)
  then obtain slot where s: "field_u32 packet 1 = Some slot" by (auto simp: field_u32_def field_def)
  from assms five s show thesis
    using that [OF s five] by (auto simp: hear_def split: option.splits broker_message_type.splits if_splits)
qed

text \<open>The publisher handles a packet it is told.\<close>

lemma handle_broker_message_follows:
  assumes inv: "data_inv p (shm w)" and arr: "arrives packet p msg" and five: "length packet \<noteq> 4"
    and hear: "hear (Some (active_slots w)) packet = Some S"
  shows "\<exists>cmsg p' w'. handle_broker_message msg p w = Some (RunNone, cmsg, p', w')
    \<and> data_inv p' (shm w') \<and> active_slots w' = S"
  using hear five
proof (cases rule: hear_packet_cases)
  case (registered slot)
  then obtain b bs where packet: "packet = b # bs" "length bs = 4" by (cases packet) auto
  from arr registered obtain c fd where c: "msg_control msg = Some c" "cmsg_level c = SOL_SOCKET" "cmsg_type c = SCM_RIGHTS"
      "cmsg_len c = CMSG_LEN 4" "cmsg_fds c = [fd]" and fd: "fd \<notin> set (data_available_event_fds p)"
    and m: "msg_bytes msg = packet" "\<not> msg_truncated msg"
    by (auto simp: arrives_def length_Suc_conv split: option.splits)
  let ?reg = "\<lparr>reg_event_fd = fd, reg_slot_index = slot\<rparr>"
  have "unat (reg_slot_index ?reg) < kMaxSubscribers" "\<not> active (shm w) (unat (reg_slot_index ?reg))"
    "reg_event_fd ?reg \<notin> set (data_available_event_fds p)"
    using registered fd by (simp_all add: layout_simps)
  from track_correct [OF inv this] obtain p' w' where t: "track_subscriber ?reg p w = Some (None, p', w')"
    "data_inv p' (shm w')" "active (shm w') (unat slot)" "\<forall>s. s \<noteq> unat slot \<longrightarrow> active (shm w') s = active (shm w) s"
    by auto
  have "handle_subscriber_registered_message packet 4 (Some c) p w = Some (RunNone, Some (c\<lparr>cmsg_fds := [-1]\<rparr>), p', w')"
    using c t(1) registered(1) by (simp add: handle_subscriber_registered_message_def)
  then have "handle_broker_message msg p w = Some (RunNone, Some (c\<lparr>cmsg_fds := [-1]\<rparr>), p', w')"
    using m packet registered(3) c(1) by (simp add: handle_broker_message_def)
  moreover have "active_slots w' = S"
    unfolding registered(6) using t(3,4) by (auto, metis)
  ultimately show ?thesis using t(2) by blast
next
  case (gone slot)
  then obtain b bs where packet: "packet = b # bs" "length bs = 4" by (cases packet) auto
  have "active (shm w) (unat slot)" using gone by simp
  from reap_correct [OF inv this] obtain p' w' where r: "reap_dead_subscribers slot p w = Some (RunNone, p', w')"
    "data_inv p' (shm w')" "\<not> active (shm w') (unat slot)" "\<forall>s. s \<noteq> unat slot \<longrightarrow> active (shm w') s = active (shm w) s"
    by blast
  have "handle_subscriber_disconnected_message packet 4 p w = Some (RunNone, p', w')"
    using r(1) gone(1) by (simp add: handle_subscriber_disconnected_message_def)
  then have "handle_broker_message msg p w = Some (RunNone, msg_control msg, p', w')"
    using arr packet gone(3) by (simp add: handle_broker_message_def arrives_def)
  moreover have "active_slots w' = S"
    unfolding gone(5) using r(3,4) by (auto, metis)
  ultimately show ?thesis using r(2) by blast
qed

section \<open>A run of packets\<close>

text \<open>The packets arrive one after the other, and then there is nothing to read; a descriptor is new
  when its packet arrives.\<close>

fun arrive :: "bytes list \<Rightarrow> received list \<Rightarrow> publisher \<Rightarrow> io \<Rightarrow> bool" where
  "arrive [] answers p w = (answers = [RecvErr EAGAIN])"
| "arrive (packet # packets) (RecvMsg msg # answers) p w = (arrives packet p msg
     \<and> (case handle_broker_message msg p w of
          None \<Rightarrow> True
        | Some (r, cmsg, p', w') \<Rightarrow> arrive packets answers p' (close_guarded cmsg w')))"
| "arrive (packet # packets) answers p w = False"

lemma hear_None: "4 \<notin> length ` set packets \<Longrightarrow> foldl hear None packets = None"
  by (induction packets) (auto simp: hear_def)

lemma process_broker_control_messages_follow:
  assumes "data_inv p (shm w)" "arrive packets answers p w" "4 \<notin> length ` set packets"
    "foldl hear (Some (active_slots w)) packets = Some S"
  shows "\<exists>p' w'. process_broker_control_messages answers p w = Some (RunNone, [], p', w')
    \<and> data_inv p' (shm w') \<and> active_slots w' = S"
  using assms
proof (induction packets answers p w rule: arrive.induct)
  case (1 answers p w)
  then show ?case by simp
next
  case (2 packet packets msg answers p w)
  obtain S1 where S1: "hear (Some (active_slots w)) packet = Some S1"
    using "2.prems"(3,4) hear_None [of packets] by (cases "hear (Some (active_slots w)) packet") auto
  have "arrives packet p msg" "length packet \<noteq> 4" using "2.prems" by auto
  from handle_broker_message_follows [OF "2.prems"(1) this S1] obtain cmsg p1 w1 where
    h: "handle_broker_message msg p w = Some (RunNone, cmsg, p1, w1)" "data_inv p1 (shm w1)" "active_slots w1 = S1" by blast
  have g: "shm (close_guarded cmsg w1) = shm w1" by (simp add: close_guarded_def)
  with h "2.prems" S1 have "data_inv p1 (shm (close_guarded cmsg w1))" "arrive packets answers p1 (close_guarded cmsg w1)"
    "4 \<notin> length ` set packets" "foldl hear (Some (active_slots (close_guarded cmsg w1))) packets = Some S"
    by simp_all
  from "2.IH" [OF h(1) refl refl refl this] h(1) show ?case by simp
qed simp_all

section \<open>The registrations of the handshake\<close>

text \<open>The registrations that follow the count arrive with distinct descriptors.\<close>

fun arrive_first :: "u32 list \<Rightarrow> received list \<Rightarrow> publisher \<Rightarrow> bool" where
  "arrive_first [] answers p = (answers = [])"
| "arrive_first (slot # slots) (RecvMsg msg # answers) p = (arrives (subscriber_event_fd_and_slot_packet slot) p msg
     \<and> arrive_first slots answers (p\<lparr>data_available_event_fds := data_available_event_fds p @ control_fds (msg_control msg)\<rparr>))"
| "arrive_first (slot # slots) answers p = False"

lemma arrive_first_cong:
  "data_available_event_fds p' = data_available_event_fds p \<Longrightarrow> arrive_first slots answers p' = arrive_first slots answers p"
proof (induction slots answers p arbitrary: p' rule: arrive_first.induct)
  case (2 slot slots msg answers p)
  let ?q = "\<lambda>p. p\<lparr>data_available_event_fds := data_available_event_fds p @ control_fds (msg_control msg)\<rparr>"
  have "data_available_event_fds (?q p') = data_available_event_fds (?q p)" using "2.prems" by simp
  from "2.IH" [OF this] "2.prems" show ?case by (simp only: arrive_first.simps arrives_def)
qed simp_all

lemma receive_subscriber_registration_arrived:
  assumes "arrives (subscriber_event_fd_and_slot_packet slot) p msg"
  obtains fd h' where "receive_subscriber_registration (RecvMsg msg) h = Some (Inr \<lparr>reg_event_fd = fd, reg_slot_index = slot\<rparr>, h')"
    "world h' = world h" "control_fds (msg_control msg) = [fd]" "fd \<notin> set (data_available_event_fds p)"
proof -
  let ?packet = "subscriber_event_fd_and_slot_packet slot"
  have t: "message_type_of (hd ?packet) = Some SubscriberEventFdAndSlot" "message_type_of (?packet ! 0) = Some SubscriberEventFdAndSlot"
    "length ?packet = 5" "?packet \<noteq> []"
    by (simp_all add: subscriber_event_fd_and_slot_packet_def message_type_of_def)
  have f: "field_u32 ?packet 1 = Some slot"
    using field_u32_le [of 1 "[type_byte SubscriberEventFdAndSlot]" slot "[]"] by (simp add: subscriber_event_fd_and_slot_packet_def)
  from assms t obtain c fd where c: "msg_control msg = Some c" "cmsg_level c = SOL_SOCKET" "cmsg_type c = SCM_RIGHTS"
      "cmsg_len c = CMSG_LEN 4" "cmsg_fds c = [fd]" "0 \<le> fd" and fd: "fd \<notin> set (data_available_event_fds p)"
    and m: "msg_bytes msg = ?packet" "\<not> msg_truncated msg"
    by (auto simp: arrives_def length_Suc_conv split: option.splits)
  have "control_ok (msg_control msg)" using c by (simp add: control_ok_def)
  have "close_received_fds (Some (c\<lparr>cmsg_fds := [-1]\<rparr>)) = []"
    using c by (subst close_received_fds_len) (simp_all add: close_each_def)
  then have "receive_packet_with_fd (RecvMsg msg) (-1) = Some (5, 0, fd, [])"
    using c m t by (simp add: receive_packet_with_fd_def)
  then have "receive_subscriber_registration (RecvMsg msg) h = Some (Inr \<lparr>reg_event_fd = fd, reg_slot_index = slot\<rparr>,
      host_close_all [] (h\<lparr>opened := opened h @ received_fds (RecvMsg msg)\<rparr>))"
    using m t f c(6) by (simp add: receive_subscriber_registration_def protocol_simps)
  then show thesis by (rule that) (use c fd in \<open>simp_all add: host_close_all_def close_each_def control_fds_def\<close>)
qed

lemma track_initial_subscribers_follow:
  assumes "data_inv p (shm (world h))" "arrive_first slots answers p"
    "foldl hear (Some (active_slots (world h))) (map subscriber_event_fd_and_slot_packet slots) = Some S"
  shows "\<exists>p' h'. track_initial_subscribers (length slots) answers p h = Some (None, p', h')
    \<and> data_inv p' (shm (world h')) \<and> active_slots (world h') = S \<and> seq p' = seq p
    \<and> ((\<forall>s. queue (shm (world h)) s = []) \<longrightarrow> (\<forall>s. queue (shm (world h')) s = []))"
  using assms
proof (induction slots arbitrary: answers p h)
  case (Cons slot slots)
  from Cons.prems(2) obtain msg rest where a: "answers = RecvMsg msg # rest"
    by (cases "(slot # slots, answers, p)" rule: arrive_first.cases) auto
  have "4 \<notin> length ` set (map subscriber_event_fd_and_slot_packet slots)"
    by (auto simp: subscriber_event_fd_and_slot_packet_def)
  from hear_None [OF this] Cons.prems(3) have slot: "unat slot < 16" "\<not> active (shm (world h)) (unat slot)"
    and S: "foldl hear (Some (insert (unat slot) (active_slots (world h)))) (map subscriber_event_fd_and_slot_packet slots) = Some S"
    by (auto simp: hear_packets split: if_splits)
  from Cons.prems(2) a have arr: "arrives (subscriber_event_fd_and_slot_packet slot) p msg" by simp
  obtain fd h1 where r: "receive_subscriber_registration (RecvMsg msg) h = Some (Inr \<lparr>reg_event_fd = fd, reg_slot_index = slot\<rparr>, h1)"
    "world h1 = world h" "control_fds (msg_control msg) = [fd]" "fd \<notin> set (data_available_event_fds p)"
    using receive_subscriber_registration_arrived [OF arr] by blast
  let ?reg = "\<lparr>reg_event_fd = fd, reg_slot_index = slot\<rparr>"
  have "unat (reg_slot_index ?reg) < kMaxSubscribers" "\<not> active (shm (world h)) (unat (reg_slot_index ?reg))"
    "reg_event_fd ?reg \<notin> set (data_available_event_fds p)"
    using slot r(4) by (simp_all add: layout_simps)
  from track_correct [OF Cons.prems(1) this] obtain p1 w1 where t: "track_subscriber ?reg p (world h) = Some (None, p1, w1)"
    "data_inv p1 (shm w1)" "active (shm w1) (unat slot)" "\<forall>s. s \<noteq> unat slot \<longrightarrow> active (shm w1) s = active (shm (world h)) s"
    "data_available_event_fds p1 = data_available_event_fds p @ [fd]" "seq p1 = seq p"
    "queue (shm w1) (unat slot) = []" "\<forall>s. s \<noteq> unat slot \<longrightarrow> queue (shm w1) s = queue (shm (world h)) s"
    by auto
  have "active_slots w1 = insert (unat slot) (active_slots (world h))" using t(3,4) by (auto, metis)
  with S have S1: "foldl hear (Some (active_slots (world (h1\<lparr>world := w1\<rparr>)))) (map subscriber_event_fd_and_slot_packet slots) = Some S"
    by simp
  let ?q = "p\<lparr>data_available_event_fds := data_available_event_fds p @ control_fds (msg_control msg)\<rparr>"
  have "data_available_event_fds p1 = data_available_event_fds ?q" using t(5) r(3) by simp
  from Cons.prems(2) arrive_first_cong [OF this, of slots rest] a have "arrive_first slots rest p1" by simp
  have "data_inv p1 (shm (world (h1\<lparr>world := w1\<rparr>)))" using t(2) by simp
  from Cons.IH [OF this \<open>arrive_first slots rest p1\<close> S1] obtain p' h' where
    i: "track_initial_subscribers (length slots) rest p1 (h1\<lparr>world := w1\<rparr>) = Some (None, p', h')" "data_inv p' (shm (world h'))"
      "active_slots (world h') = S" "seq p' = seq p1"
      "(\<forall>s. queue (shm w1) s = []) \<longrightarrow> (\<forall>s. queue (shm (world h')) s = [])" by auto
  have "(\<forall>s. queue (shm (world h)) s = []) \<longrightarrow> (\<forall>s. queue (shm w1) s = [])" using t(7,8) by metis
  with i r(1,2) t(1,6) show ?case by (simp add: a)
qed simp

lemma handshake_follows:
  assumes "data_inv p (shm (world h))" "active_slots (world h) = {}"
    and "count_received k = le_bytes 4 (n :: u32)" "length slots = unat n"
    and "arrive_first slots (registrations_received k) p"
    and "distinct (map unat slots)" "\<forall>slot \<in> set slots. unat slot < 16"
  shows "\<exists>p' h'. receive_and_track_initial_subscriber_registrations k p h = Some (None, p', h')
    \<and> data_inv p' (shm (world h')) \<and> active_slots (world h') = unat ` set slots \<and> seq p' = seq p
    \<and> (\<forall>s. queue (shm (world h')) s = [])"
proof -
  have f: "field_u32 (count_received k) 0 = Some n" using field_u32_le [of 0 "[]" n "[]"] assms(3) by simp
  have "foldl hear (Some {}) (map subscriber_event_fd_and_slot_packet slots) = Some ({} \<union> unat ` set slots)"
    by (rule hear_registrations) (use assms(6,7) in auto)
  with assms(2) have "foldl hear (Some (active_slots (world h))) (map subscriber_event_fd_and_slot_packet slots)
      = Some (unat ` set slots)" by simp
  moreover have "\<forall>s. queue (shm (world h)) s = []" using assms(2) by (simp add: queue_def unread_inactive)
  ultimately show ?thesis
    using track_initial_subscribers_follow [OF assms(1,5)] f assms(3,4)
    by (simp add: receive_and_track_initial_subscriber_registrations_def)
qed

end
