(* ===== verification/Subscriber_Notes.thy ===== *)
theory Subscriber_Notes
  imports Broker_Notes
begin

text \<open>
  What the broker tells a subscriber: the packets sent to it while it is registered, read one after
  the other, amount to the attachments that the broker's tables have for it.
\<close>

section \<open>A listener\<close>

definition read_attachment_batch_packet :: "bytes \<Rightarrow> (attachment_id \<times> topic_id \<times> u32) list option" where
  "read_attachment_batch_packet packet =
     (if (length packet - 1) mod kSubscriberAttachmentMetadataSize \<noteq> 0 then None
      else those (map (\<lambda>k. read_attachment_metadata packet (1 + 13 * k))
        [0..<(length packet - 1) div kSubscriberAttachmentMetadataSize]))"

text \<open>The attachments a subscriber knows after one more packet, by their ids; a packet that a
  subscriber cannot accept leaves nothing known.\<close>

definition learn :: "(attachment_id \<rightharpoonup> topic_id \<times> u32) option \<Rightarrow> bytes \<Rightarrow> (attachment_id \<rightharpoonup> topic_id \<times> u32) option" where
  "learn known packet = do {
     m \<leftarrow> known;
     if packet = [] then None
     else case message_type_of (hd packet) of
       Some SubscriberAttachmentBatch \<Rightarrow> do {
         ms \<leftarrow> read_attachment_batch_packet packet;
         if distinct (map fst ms) \<and> (\<forall>x \<in> set ms. m (fst x) = None) then Some (m ++ map_of ms) else None
       }
     | Some PublisherDisconnected \<Rightarrow>
         if length packet \<noteq> 9 then None
         else do {
           ident \<leftarrow> field_u64 packet 1;
           if m ident = None then None else Some (m(ident := None))
         }
     | _ \<Rightarrow> None
   }"

lemma read_attachment_batch_packet_inverse: "read_attachment_batch_packet (attachment_batch_packet ms) = Some ms"
proof -
  have "those (map (\<lambda>k. read_attachment_metadata (attachment_batch_packet ms) (1 + 13 * k)) [0..<length ms])
      = Some (map ((!) ms) [0..<length ms])"
    by (rule those_Some) (use read_attachment_batch in auto)
  then show ?thesis
    by (simp add: read_attachment_batch_packet_def length_attachment_batch_packet kSubscriberAttachmentMetadataSize_def map_nth)
qed

lemma learn_batch:
  "learn (Some m) (attachment_batch_packet ms)
     = (if distinct (map fst ms) \<and> (\<forall>x \<in> set ms. m (fst x) = None) then Some (m ++ map_of ms) else None)"
proof -
  have "attachment_batch_packet ms \<noteq> []" "message_type_of (hd (attachment_batch_packet ms)) = Some SubscriberAttachmentBatch"
    by (simp_all add: attachment_batch_packet_def del: type_byte.simps)
  then show ?thesis by (simp add: learn_def read_attachment_batch_packet_inverse)
qed

lemma learn_gone:
  "learn (Some m) (publisher_disconnected_packet ident) = (if m ident = None then None else Some (m(ident := None)))"
proof -
  have "field_u64 (publisher_disconnected_packet ident) 1 = Some ident"
    using field_u64_le [of 1 "[type_byte PublisherDisconnected]" ident "[]"]
    by (simp add: publisher_disconnected_packet_def del: type_byte.simps)
  then show ?thesis
    by (simp add: learn_def publisher_disconnected_packet_def del: type_byte.simps One_nat_def)
qed

section \<open>The broker's record\<close>

definition given :: "subscriber_attachment list \<Rightarrow> attachment_id \<rightharpoonup> topic_id \<times> u32" where
  "given as = map_of (map attachment_entry as)"

lemma given_simps [simp]:
  "given [] = Map.empty" "given (a # as) = (given as)(sa_attachment_id a \<mapsto> (sa_topic_id a, sa_slot_index a))"
  by (simp_all add: given_def attachment_entry_def)

lemma given_append: "given (as @ as') = given as' ++ given as"
  by (simp add: given_def)

lemma given_None: "given as i = None \<longleftrightarrow> i \<notin> sa_attachment_id ` set as"
  by (induction as) auto

lemma given_Some:
  "distinct (map sa_attachment_id as) \<Longrightarrow> a \<in> set as \<Longrightarrow> given as (sa_attachment_id a) = Some (sa_topic_id a, sa_slot_index a)"
proof (induction as)
  case (Cons x as)
  then show ?case by (cases "a = x") (auto simp: image_iff)
qed simp

lemma dom_given: "dom (given as) = sa_attachment_id ` set as"
  by (simp add: given_def dom_map_of_conv_image_fst attachment_entry_def image_image)

lemma fst_entries [simp]: "map (fst \<circ> attachment_entry) as = map sa_attachment_id as"
  by (simp add: attachment_entry_def)

text \<open>New attachments, one message each.\<close>

lemma learn_linked:
  "distinct (map sa_attachment_id (old @ as)) \<Longrightarrow>
   foldl learn (Some (given old)) (map (\<lambda>a. attachment_batch_packet [attachment_entry a]) as) = Some (given (old @ as))"
proof (induction as arbitrary: old)
  case (Cons a as)
  have "given old (sa_attachment_id a) = None" using Cons.prems by (auto simp: given_None)
  then have "learn (Some (given old)) (attachment_batch_packet [attachment_entry a])
      = Some ((given old)(sa_attachment_id a \<mapsto> (sa_topic_id a, sa_slot_index a)))"
    by (simp add: learn_batch attachment_entry_def)
  moreover have "(given old)(sa_attachment_id a \<mapsto> (sa_topic_id a, sa_slot_index a)) = given (old @ [a])"
    using \<open>given old (sa_attachment_id a) = None\<close> by (auto simp: given_append map_add_def fun_eq_iff split: option.split)
  ultimately show ?case using Cons.IH [of "old @ [a]"] Cons.prems by simp
qed simp

text \<open>All attachments of one publisher end, one message each.\<close>

lemma learn_left:
  "distinct (map sa_attachment_id as) \<Longrightarrow> \<forall>a \<in> set as. m (sa_attachment_id a) \<noteq> None \<Longrightarrow>
   foldl learn (Some m) (map (\<lambda>a. publisher_disconnected_packet (sa_attachment_id a)) as)
     = Some (m |` (- sa_attachment_id ` set as))"
proof (induction as arbitrary: m)
  case (Cons a as)
  let ?m = "m(sa_attachment_id a := None)"
  have "\<forall>x \<in> set as. ?m (sa_attachment_id x) \<noteq> None"
    using Cons.prems by (metis distinct.simps(2) fun_upd_apply imageI list.set_intros(2) list.set_map list.simps(9))
  with Cons.prems(1) have "foldl learn (Some ?m) (map (\<lambda>a. publisher_disconnected_packet (sa_attachment_id a)) as)
      = Some (?m |` (- sa_attachment_id ` set as))" by (intro Cons.IH) auto
  moreover have "?m |` (- sa_attachment_id ` set as) = m |` (- sa_attachment_id ` set (a # as))"
    by (auto simp: restrict_map_def fun_eq_iff)
  moreover have "learn (Some m) (publisher_disconnected_packet (sa_attachment_id a)) = Some ?m"
    using Cons.prems(2) by (simp add: learn_gone)
  ultimately show ?case by simp
qed (simp add: restrict_map_def)

lemma given_filter:
  "distinct (map sa_attachment_id as) \<Longrightarrow>
   given as |` (- sa_attachment_id ` set (filter P as)) = given (filter (\<lambda>a. \<not> P a) as)"
proof (induction as)
  case (Cons a as)
  have "given (filter (\<lambda>a. \<not> P a) as) (sa_attachment_id a) = None"
    using Cons.prems by (auto simp: given_None)
  moreover have "sa_attachment_id a \<notin> sa_attachment_id ` set (filter P as)" using Cons.prems by auto
  ultimately show ?case
    using Cons.IH [symmetric] Cons.prems by (auto simp: restrict_map_def fun_eq_iff)
qed (simp add: restrict_map_def)

lemma attachment_ids_distinct:
  assumes "broker_inv b"
  shows "distinct (map sa_attachment_id (attachments_of b fd))"
proof (cases "subscriber_attachments_by_subscriber_fd b fd")
  case None
  then show ?thesis by (simp add: list_at_def)
next
  case (Some as)
  let ?A = "all_attachments (subscriber_attachments_by_subscriber_fd b)"
  from all_attachments_remove [OF clients_okD(5) [OF broker_invD(1) [OF assms]] Some] have "mset as \<subseteq># ?A"
    by (metis mset_subset_eq_add_left)
  then have "image_mset sa_attachment_id (mset as) \<subseteq># image_mset sa_attachment_id ?A" by (rule image_mset_subseteq_mono)
  moreover have "\<forall>i. count (image_mset sa_attachment_id ?A) i \<le> 1"
    using broker_invD(6) [OF assms] by (simp add: ledger_ok_def ids_ok_def)
  ultimately have c: "count (mset (map sa_attachment_id as)) i \<le> 1" for i
    by (metis mset_map mset_subset_eq_count order_trans)
  have "count (mset (map sa_attachment_id as)) i = (if i \<in> set (map sa_attachment_id as) then 1 else 0)" for i
  proof (cases "i \<in> set (map sa_attachment_id as)")
    case True
    then have "0 < count (mset (map sa_attachment_id as)) i" by (simp only: count_greater_zero_iff set_mset_mset)
    with c [of i] True show ?thesis by (metis One_nat_def Suc_leI le_antisym)
  qed (metis count_mset_0_iff)
  then have "distinct (map sa_attachment_id as)" by (simp only: distinct_count_atmost_1 simp_thms)
  then show ?thesis using Some by (simp add: list_at_def)
qed

section \<open>Subscribers are informed\<close>

text \<open>After the packets \<open>base\<close> the subscriber \<open>c\<close> was told its attachments.\<close>

definition taught :: "bytes list \<Rightarrow> int \<Rightarrow> broker \<Rightarrow> broker_io \<Rightarrow> bool" where
  "taught base c b w \<longleftrightarrow> (\<exists>new. told c w = base @ new \<and> foldl learn (Some Map.empty) new = Some (given (attachments_of b c)))"

lemma taught_same: "taught base c b w \<Longrightarrow> told c w' = told c w \<Longrightarrow> attachments_of b' c = attachments_of b c \<Longrightarrow> taught base c b' w'"
  by (simp add: taught_def)

lemma taught_more:
  assumes "taught base c b w" "told c w' = told c w @ notes_to_c"
    "foldl learn (Some (given (attachments_of b c))) notes_to_c = Some (given (attachments_of b' c))"
  shows "taught base c b' w'"
proof -
  from assms(1) obtain new where new: "told c w = base @ new" "foldl learn (Some Map.empty) new = Some (given (attachments_of b c))"
    by (auto simp: taught_def)
  from new assms(2,3) have "told c w' = base @ (new @ notes_to_c)"
    "foldl learn (Some Map.empty) (new @ notes_to_c) = Some (given (attachments_of b' c))" by simp_all
  then show ?thesis unfolding taught_def by blast
qed

lemma told_elsewhere: "c \<notin> fst ` set ms \<Longrightarrow> told c (sent ms w) = told c w"
  by (force simp: told_sent filter_empty_conv)

text \<open>A subscriber is no publisher.\<close>

lemma subscriber_no_publisher:
  assumes "broker_inv b" "role_by_fd b c = Some RoleSubscriber"
  shows "c \<notin> set (publishers_of b t)"
  using publisher_role [OF assms(1), of c t] assms(2) by auto

lemma attachment_publisher:
  assumes "broker_inv b" "a \<in> set (attachments_of b fd)" "role_by_fd b c = Some RoleSubscriber"
  shows "sa_publisher_fd a \<noteq> c"
  using broker_invD(5) [OF assms(1)] assms(2) subscriber_no_publisher [OF assms(1,3)] unfolding attachments_ok_def by blast

text \<open>The registration itself: one batch with all attachments.\<close>

lemma subscriber_registers_taught:
  assumes inv: "broker_inv b" "broker_inv b'" and r: "subscriber_registered kern c topics (b, w) (b', w')"
  shows "taught (told c w) c b' w'"
proof -
  from r obtain as shms where as: "subscriber_attachments_by_subscriber_fd b' = (subscriber_attachments_by_subscriber_fd b)(c \<mapsto> as)"
    and w': "w' = sent (map registered_note as @ [batch_note c as shms]) (w\<lparr>eventfd_calls := eventfd_calls w + length as\<rparr>)"
    and role: "role_by_fd b' c = Some RoleSubscriber"
    unfolding subscriber_registered_def by auto
  have at: "attachments_of b' c = as" by (simp add: as)
  have "\<forall>a \<in> set as. sa_publisher_fd a \<noteq> c"
    using attachment_publisher [OF inv(2) _ role, of _ c] at by simp
  then have "c \<notin> fst ` set (map registered_note as)" by (auto simp: registered_note_def)
  then have "told c w' = told c w @ [attachment_batch_packet (map attachment_entry as)]"
    unfolding w' sent_append told_sent [of c "[batch_note c as shms]"]
    by (simp add: told_elsewhere batch_note_def attachment_batch_message_def send_packet_with_fds_def)
  moreover have "learn (Some Map.empty) (attachment_batch_packet (map attachment_entry as)) = Some (given as)"
    using attachment_ids_distinct [OF inv(2), of c] unfolding at by (simp add: learn_batch given_def)
  ultimately show ?thesis unfolding taught_def at by (intro exI [of _ "[attachment_batch_packet (map attachment_entry as)]"]) simp
qed

lemma linked_notes_to_subscriber:
  "\<forall>a \<in> snd ` set rs. sa_publisher_fd a \<noteq> c \<Longrightarrow>
   map (msg_bytes \<circ> snd) (filter (\<lambda>m. fst m = c) (linked_notes shm rs))
     = map (\<lambda>a. attachment_batch_packet [attachment_entry a]) (given_to c rs)"
  by (induction rs) (auto simp: linked_notes_def given_to_def registered_note_def batch_note_def
    attachment_batch_message_def send_packet_with_fds_def)

lemma gone_notes_to_subscriber:
  "map (msg_bytes \<circ> snd) (filter (\<lambda>m. fst m = c) (map publisher_gone_note rs))
     = map (\<lambda>a. publisher_disconnected_packet (sa_attachment_id a)) (given_to c rs)"
  by (induction rs) (auto simp: given_to_def publisher_gone_note_def plain_message_def)

text \<open>What the broker does for the others.\<close>

lemma client_action_teaches:
  assumes act: "client_action kern d st st'" and ne: "d \<noteq> c" and role: "role_by_fd (fst st) c = Some RoleSubscriber"
    and t: "taught base c (fst st) (snd st)" and inv0: "broker_inv (fst st)"
  shows "taught base c (fst st') (snd st') \<and> role_by_fd (fst st') c = Some RoleSubscriber \<and> broker_inv (fst st')"
  using act
proof cases
  case (subscriber_registers b topics w b' w')
  from subscriber_registers(5) obtain as shms where
    as: "subscriber_attachments_by_subscriber_fd b' = (subscriber_attachments_by_subscriber_fd b)(d \<mapsto> as)"
    and w': "w' = sent (map registered_note as @ [batch_note d as shms]) (w\<lparr>eventfd_calls := eventfd_calls w + length as\<rparr>)"
    and r: "role_by_fd b' = (role_by_fd b)(d \<mapsto> RoleSubscriber)"
    unfolding subscriber_registered_def by auto
  have role': "role_by_fd b' c = Some RoleSubscriber" using role ne subscriber_registers(1) r by simp
  have "\<forall>a \<in> set as. sa_publisher_fd a \<noteq> c"
    using attachment_publisher [OF subscriber_registers(6) _ role', of _ d] by (simp add: as)
  then have "told c w' = told c w"
    unfolding w' using ne by (subst told_elsewhere) (auto simp: registered_note_def batch_note_def)
  with taught_same [OF t] subscriber_registers(1,2,6) ne role' show ?thesis by (simp add: as)
next
  case (publisher_registers b u shm space w b' w')
  from publisher_registers(5) obtain rs where "map fst rs = subscribers_of b u"
    and rs: "\<forall>a \<in> snd ` set rs. sa_publisher_fd a = d" "\<forall>s. attachments_of b' s = attachments_of b s @ given_to s rs"
    and w': "w' = sent ((d, plain_message (le_bytes 4 (of_nat (length rs) :: u32))) # linked_notes shm rs)
        (w\<lparr>eventfd_calls := eventfd_calls w + length rs\<rparr>)"
    and r: "role_by_fd b' = (role_by_fd b)(d \<mapsto> RolePublisher)"
    unfolding publisher_registered_def by auto
  have "\<forall>a \<in> snd ` set rs. sa_publisher_fd a \<noteq> c" using rs(1) ne by simp
  from linked_notes_to_subscriber [OF this, of shm] ne
  have "told c w' = told c w @ map (\<lambda>a. attachment_batch_packet [attachment_entry a]) (given_to c rs)"
    unfolding w' told_sent by simp
  moreover have "distinct (map sa_attachment_id (attachments_of b c @ given_to c rs))"
    using attachment_ids_distinct [OF publisher_registers(6), of c] rs(2) by simp
  ultimately have "taught base c b' w'"
    using taught_more [where b = b and w = w and b' = b' and w' = w', OF _ _ ] t publisher_registers(1) learn_linked rs(2) by simp
  with publisher_registers(1,2,6) role ne r show ?thesis by simp
next
  case (subscriber_leaves b w b' w')
  from subscriber_leaves(5) have
    m: "subscriber_attachments_by_subscriber_fd b' = (subscriber_attachments_by_subscriber_fd b)(d := None)"
    and w': "w' = closing (map sa_data_available_event_fd (attachments_of b d) @ [d]) (sent (map subscriber_gone_note (attachments_of b d)) w)"
    and r: "role_by_fd b' = (role_by_fd b)(d := None)"
    unfolding subscriber_left_def by auto
  have "\<forall>a \<in> set (attachments_of b d). sa_publisher_fd a \<noteq> c"
    using attachment_publisher [OF subscriber_leaves(3), of _ d c] role subscriber_leaves(1) by simp
  then have "c \<notin> fst ` set (map subscriber_gone_note (attachments_of b d))" by (auto simp: subscriber_gone_note_def)
  then have "told c w' = told c w" unfolding w' by (simp add: told_elsewhere)
  with taught_same [OF t] subscriber_leaves(1,2,6) ne role r m show ?thesis by simp
next
  case (publisher_leaves b u w b' w')
  from publisher_leaves(5) obtain rs where
    rs: "\<forall>s. given_to s rs = filter (\<lambda>a. sa_publisher_fd a = d) (attachments_of b s)"
      "\<forall>s. attachments_of b' s = filter (\<lambda>a. sa_publisher_fd a \<noteq> d) (attachments_of b s)"
    and w': "w' = closing (map (sa_data_available_event_fd \<circ> snd) rs
        @ [the (shm_fd_by_publisher_fd b d), the (space_event_fd_by_publisher_fd b d), d])
      (sent (map publisher_gone_note rs) w)"
    and r: "role_by_fd b' = (role_by_fd b)(d := None)"
    unfolding publisher_left_def by auto
  let ?as = "attachments_of b c"
  have told: "told c w' = told c w @ map (\<lambda>a. publisher_disconnected_packet (sa_attachment_id a)) (given_to c rs)"
    unfolding w' by (simp add: told_sent gone_notes_to_subscriber)
  have d: "distinct (map sa_attachment_id ?as)" by (rule attachment_ids_distinct [OF publisher_leaves(3)])
  then have df: "distinct (map sa_attachment_id (filter (\<lambda>a. sa_publisher_fd a = d) ?as))" by (rule distinct_map_filter)
  have "foldl learn (Some (given ?as)) (map (\<lambda>a. publisher_disconnected_packet (sa_attachment_id a))
      (filter (\<lambda>a. sa_publisher_fd a = d) ?as))
    = Some (given ?as |` (- sa_attachment_id ` set (filter (\<lambda>a. sa_publisher_fd a = d) ?as)))"
    by (rule learn_left [OF df]) (auto simp: given_None)
  with given_filter [OF d, of "\<lambda>a. sa_publisher_fd a = d"] rs
  have "foldl learn (Some (given ?as)) (map (\<lambda>a. publisher_disconnected_packet (sa_attachment_id a)) (given_to c rs))
      = Some (given (attachments_of b' c))" by simp
  from taught_more [OF _ told this] t publisher_leaves(1,2,6) role ne r show ?thesis by simp
next
  case (connections b w fds closed unwatched)
  with t role inv0 taught_same [OF t] show ?thesis by simp
next
  case (answered b w msg)
  have "told c (sent [(d, msg)] w) = told c w" using ne by (intro told_elsewhere) simp
  with answered taught_same [OF t] role inv0 show ?thesis by simp
qed

lemma client_actions_teach:
  assumes "client_actions kern d st st'" "d \<noteq> c" "role_by_fd (fst st) c = Some RoleSubscriber"
    "taught base c (fst st) (snd st)" "broker_inv (fst st)"
  shows "taught base c (fst st') (snd st') \<and> role_by_fd (fst st') c = Some RoleSubscriber \<and> broker_inv (fst st')"
  using assms by (induction rule: rtranclp_induct) (use client_action_teaches in blast)+

section \<open>Events of the broker\<close>

text \<open>The messages of a registered subscriber change nothing until it goes away.\<close>

lemma receive_registered:
  "receive_client_messages kern snapshot c answers b w = Inr (b', w') \<Longrightarrow> role_by_fd b c = Some RoleSubscriber \<Longrightarrow>
   conforming (Some RoleSubscriber) answers \<Longrightarrow> broker_inv b \<Longrightarrow> (b', w') = (b, w) \<or> role_by_fd b' c = None"
proof (induction kern snapshot c answers b w rule: receive_client_messages.induct)
  case (2 kern snapshot fd errno answers b w)
  have gone: "role_by_fd b' fd = None" if "peer_gone kern fd RoleSubscriber b1 w = Inr (b', w')" "broker_inv b1"
    "role_by_fd b1 fd = Some RoleSubscriber" for b1
  proof -
    from that(1) have "handle_subscriber_disconnect kern fd b1 w = Inr (b', w')" by (simp add: peer_gone_def)
    from outcome_Inr [OF handle_subscriber_disconnect_ok [OF that(2,3)] this] show ?thesis by (simp add: subscriber_left_def)
  qed
  show ?case
  proof (cases "errno = EAGAIN")
    case False
    let ?b = "b\<lparr>client_fds := client_fds b - {fd}\<rparr>"
    from False "2.prems"(1,2) have "peer_gone kern fd RoleSubscriber ?b w = Inr (b', w')"
      by (auto simp: peer_failed_def found_def require_def split: if_split_asm)
    from gone [OF this] "2.prems" show ?thesis by simp
  qed (use "2.prems" in simp)
next
  case (3 kern snapshot fd msg answers b w)
  show ?case
  proof (cases "msg_bytes msg = []")
    case True
    with "3.prems"(1,2) have "handle_subscriber_disconnect kern fd b w = Inr (b', w')"
      by (auto simp: peer_closed_def found_def peer_gone_def)
    from outcome_Inr [OF handle_subscriber_disconnect_ok [OF "3.prems"(4,2)] this] show ?thesis by (simp add: subscriber_left_def)
  next
    case ne: False
    let ?type = "message_type_of (hd (msg_bytes msg))"
    from ne "3.prems"(3) have other: "?type \<notin> {Some StatusQuery, Some SubscriberTopicRegistration, Some PublisherTopicRegistration}"
      and c: "conforming (Some RoleSubscriber) answers"
      by (auto split: option.split_asm broker_message_type.split_asm)
    from ne "3.prems"(1) obtain gone b1 w1 where
      h: "handle_client_message kern snapshot fd msg (msg_truncated msg) b w = Inr (gone, b1, w1)"
      and n: "if gone then (b', w') = (b1, w1) else receive_client_messages kern snapshot fd answers b1 w1 = Inr (b', w')"
      by (cases "handle_client_message kern snapshot fd msg (msg_truncated msg) b w") (auto split: if_split_asm)
    from h other have "\<not> gone" "b1 = b" "w1 = w"
      by (auto simp: handle_client_message_def require_def split: if_split_asm option.split_asm broker_message_type.split_asm)
    with "3.IH" [OF ne] n "3.prems"(2,4) c show ?thesis by simp
  qed
qed simp

text \<open>Events during which \<open>c\<close> stays a subscriber.\<close>

definition while_subscribed ::
  "kernel \<Rightarrow> (broker \<Rightarrow> bytes) \<Rightarrow> int \<Rightarrow> broker \<times> broker_io \<Rightarrow> broker \<times> broker_io \<Rightarrow> bool"
where
  "while_subscribed kern snapshot c = (\<lambda>st st'. \<exists>evs. run (\<lambda>st ev st'. broker_step kern snapshot st ev st'
     \<and> role_by_fd (fst st') c = Some RoleSubscriber) st evs st')"

lemma broker_step_teaches:
  assumes step: "broker_step kern snapshot st ev st'" and role: "role_by_fd (fst st) c = Some RoleSubscriber"
      "role_by_fd (fst st') c = Some RoleSubscriber"
    and t: "taught base c (fst st) (snd st)" and inv: "system_inv (fst st)" and all: "visits_all kern"
  shows "taught base c (fst st') (snd st')"
  using step
proof cases
  case (accepts answers b w)
  from accept_clients_actions [OF accepts(4), of kern "c + 1"] accepts(1) client_actions_teach [of kern "c + 1" "(b, w)" st' c base]
    role t inv show ?thesis by (simp add: system_inv_def)
next
  case (receives fd b answers w)
  obtain b' w' where st': "st' = (b', w')" by (cases st')
  show ?thesis
  proof (cases "fd = c")
    case True
    with receive_registered [of kern snapshot c answers b w b' w'] receives st' role t inv show ?thesis
      by (auto simp: system_inv_def)
  next
    case False
    with receive_client_messages_actions [of kern snapshot fd answers b w b' w'] receives st' inv all
    have "client_actions kern fd (b, w) (b', w')" by simp
    from client_actions_teach [OF this False, of base] receives(1) st' role t inv show ?thesis by (simp add: system_inv_def)
  qed
qed

lemma while_subscribed_teaches:
  assumes w: "while_subscribed kern snapshot c st st'" and role: "role_by_fd (fst st) c = Some RoleSubscriber"
    and t: "taught base c (fst st) (snd st)" and inv: "system_inv (fst st)" and all: "visits_all kern"
  shows "taught base c (fst st') (snd st') \<and> role_by_fd (fst st') c = Some RoleSubscriber \<and> system_inv (fst st')"
proof -
  from w obtain evs where "run (\<lambda>st ev st'. broker_step kern snapshot st ev st'
     \<and> role_by_fd (fst st') c = Some RoleSubscriber) st evs st'" by (auto simp: while_subscribed_def)
  then show ?thesis
  proof (rule run_induct_history)
    show "taught base c (fst st) (snd st) \<and> role_by_fd (fst st) c = Some RoleSubscriber \<and> system_inv (fst st)"
      using role t inv by simp
    fix st1 ev st2
    assume ih: "taught base c (fst st1) (snd st1) \<and> role_by_fd (fst st1) c = Some RoleSubscriber \<and> system_inv (fst st1)"
      and s: "broker_step kern snapshot st1 ev st2 \<and> role_by_fd (fst st2) c = Some RoleSubscriber"
    from ih s all broker_step_teaches [of kern snapshot st1 ev st2 c base] broker.step_inv [of kern st1 snapshot ev st2]
    show "taught base c (fst st2) (snd st2) \<and> role_by_fd (fst st2) c = Some RoleSubscriber \<and> system_inv (fst st2)" by simp
  qed
qed

text \<open>From its registration on, a subscriber is told its attachments.\<close>

lemma subscriber_taught:
  assumes inv: "system_inv b" and fd: "c \<in> client_fds b" and new: "role_by_fd b c = None" and all: "visits_all kern"
    and code: "handle_subscriber_topic_registration kern c packet b w = Inr (b1, w1)"
    and w: "while_subscribed kern snapshot c (b1, w1) (b', w')"
  shows "taught (told c w) c b' w' \<and> broker_inv b'"
proof -
  have binv: "broker_inv b" using inv by (simp add: system_inv_def)
  from outcome_Inr [OF handle_subscriber_topic_registration_ok [OF binv new] code] obtain topics where
    "broker_inv b1" "subscriber_registered kern c topics (b, w) (b1, w1)" by auto
  from subscriber_registers_taught [OF binv this] have t: "taught (told c w) c b1 w1" .
  from outcome_Inr [OF subscriber_registration_step [OF inv fd new] code]
  have "role_by_fd b1 c = Some RoleSubscriber" "system_inv b1" by simp_all
  with while_subscribed_teaches [OF w _ _ _ all, of "told c w"] t show ?thesis by (simp add: system_inv_def)
qed

end
