(* ===== verification/Subscriber_Follows.thy ===== *)
theory Subscriber_Follows
  imports Subscriber_Notes Attachment_Batch
begin

text \<open>
  The subscriber's side of what the broker tells it: the packets arrive in order, the descriptors
  under numbers that are new in the subscriber's process, and the subscriber's two tables of
  attachments become those that the packets amount to.
\<close>

text \<open>The attachments in the tables, by their ids.\<close>

definition attachments_known :: "subscriber \<Rightarrow> attachment_id \<rightharpoonup> topic_id \<times> u32" where
  "attachments_known s i = (case by_id s i of None \<Rightarrow> None
     | Some fd \<Rightarrow> map_option (\<lambda>a. (att_topic_id a, slot_index a)) (by_fd s fd))"

lemma attachments_known_dom:
  assumes "sub_inv s w"
  shows "attachments_known s i = None \<longleftrightarrow> by_id s i = None"
  using tables_inverseD(1) [OF sub_invD(1) [OF assms], of i] by (auto simp: attachments_known_def split: option.split)

section \<open>One packet\<close>

fun triples_of :: "int list \<Rightarrow> (int \<times> int \<times> int) list" where
  "triples_of (a # b # c # fds) = (a, b, c) # triples_of fds"
| "triples_of _ = []"

lemma triples_of_all:
  "length fds = 3 * n \<Longrightarrow> fds = concat (map (\<lambda>(shm, space, data). [shm, space, data]) (triples_of fds)) \<and> length (triples_of fds) = n"
proof (induction fds arbitrary: n rule: triples_of.induct)
  case (1 a b c fds)
  then obtain m where "n = Suc m" by (cases n) auto
  with 1 show ?case by auto
qed (simp_all, presburger+)

text \<open>A packet arrives as it was sent, with three new descriptors for each attachment of a batch.\<close>

definition batch_entries :: "bytes \<Rightarrow> nat" where
  "batch_entries packet = (if message_type_of (hd packet) = Some SubscriberAttachmentBatch
     then (length packet - 1) div kSubscriberAttachmentMetadataSize else 0)"

definition sub_arrives :: "bytes \<Rightarrow> subscriber \<Rightarrow> msghdr \<Rightarrow> bool" where
  "sub_arrives packet s msg \<longleftrightarrow> (let fds = control_fds (msg_control msg) in
     msg = send_packet_with_fds packet fds \<and> length fds = 3 * batch_entries packet \<and> (\<forall>fd \<in> set fds. 0 \<le> fd)
     \<and> distinct (map data_fd (triples_of fds)) \<and> (\<forall>t \<in> set (triples_of fds). by_fd s (data_fd t) = None))"

lemma sub_arrives_control:
  assumes "sub_arrives packet s msg"
  shows "control_ok (msg_control msg)"
proof -
  let ?fds = "control_fds (msg_control msg)"
  have nn: "\<forall>fd \<in> set ?fds. 0 \<le> fd" and m: "msg = send_packet_with_fds packet ?fds"
    using assms by (simp_all add: sub_arrives_def Let_def)
  have "control_ok (msg_control (send_packet_with_fds packet ?fds))"
    using nn by (simp add: send_packet_with_fds_def control_ok_def)
  then show ?thesis using m by simp
qed

lemma those_nth: "those xs = Some ys \<Longrightarrow> length ys = length xs \<and> (\<forall>j < length xs. xs ! j = Some (ys ! j))"
proof (induction xs arbitrary: ys)
  case (Cons x xs)
  then obtain y zs where x: "x = Some y" "those xs = Some zs" "ys = y # zs" by (auto split: option.splits)
  have "(x # xs) ! j = Some (ys ! j)" if "j < length (x # xs)" for j
    using Cons.IH [OF x(2)] x that by (cases j) auto
  with Cons.IH [OF x(2)] x(3) show ?case by simp
qed simp

lemma read_batch_entries:
  assumes "read_attachment_batch_packet packet = Some ms" "packet \<noteq> []"
  shows "length packet = 1 + 13 * length ms"
    "j < length ms \<Longrightarrow> read_attachment_metadata packet (1 + 13 * j) = Some (ms ! j)"
proof -
  let ?n = "(length packet - 1) div 13"
  from assms(1) have m: "(length packet - 1) mod 13 = 0"
    and t: "those (map (\<lambda>k. read_attachment_metadata packet (1 + 13 * k)) [0..<?n]) = Some ms"
    by (auto simp: read_attachment_batch_packet_def kSubscriberAttachmentMetadataSize_def split: if_splits)
  have n: "length ms = ?n" using those_nth [OF t] by simp
  have "length packet - 1 = 13 * ?n" using m by auto
  with assms(2) n show "length packet = 1 + 13 * length ms" by (cases packet) auto
  show "j < length ms \<Longrightarrow> read_attachment_metadata packet (1 + 13 * j) = Some (ms ! j)"
    using those_nth [OF t] n by auto
qed

text \<open>The tables after a batch.\<close>

lemma attachments_known_installed:
  assumes inv: "sub_inv s w" and len: "length ts = length ms" and d: "distinct (map fst ms)"
    and new: "\<forall>t \<in> set ts. by_fd s (data_fd t) = None"
    and at: "\<forall>j < length ms. attached s' (ms ! j) (ts ! j)"
    and same: "same_elsewhere (fst ` set ms) (data_fd ` set ts) s s'"
  shows "attachments_known s' = attachments_known s ++ map_of ms"
proof
  fix i
  show "attachments_known s' i = (attachments_known s ++ map_of ms) i"
  proof (cases "i \<in> fst ` set ms")
    case True
    then obtain j where j: "j < length ms" "i = fst (ms ! j)" by (metis imageE in_set_conv_nth)
    with at have "attachments_known s' i = Some (snd (ms ! j))"
      by (cases "ms ! j"; cases "ts ! j") (force simp: attached_def attachments_known_def)
    moreover have "map_of ms i = Some (snd (ms ! j))"
      using d j by (metis map_of_is_SomeI nth_mem prod.collapse)
    ultimately show ?thesis by (simp add: map_add_Some_iff)
  next
    case False
    then have "map_of ms i = None" by (simp add: map_of_eq_None_iff)
    then have r: "(attachments_known s ++ map_of ms) i = attachments_known s i" by (simp add: map_add_def)
    from False same have id: "by_id s' i = by_id s i" by (simp add: same_elsewhere_def)
    have "by_fd s' fd = by_fd s fd" if "by_id s i = Some fd" for fd
    proof -
      have "by_fd s fd \<noteq> None" using tables_inverseD(1) [OF sub_invD(1) [OF inv] that] .
      with new have "fd \<notin> data_fd ` set ts" by auto
      with same show ?thesis by (simp add: same_elsewhere_def)
    qed
    with id r show ?thesis by (simp add: attachments_known_def split: option.split)
  qed
qed

lemma sub_handle_broker_message_follows:
  assumes inv: "sub_inv s w" and arr: "sub_arrives packet s msg"
    and learn: "learn (Some (attachments_known s)) packet = Some m"
    and ok: "maps_while (finite \<circ> dom) mmap" "maps_fresh mmap" "\<forall>fd. watch fd" and fin: "finite (dom (segments w))"
  shows "\<exists>cmsg s' w'. sub_handle_broker_message mmap watch msg s w = Some (True, cmsg, s', w')
    \<and> sub_inv s' (sub_close_guarded cmsg w') \<and> attachments_known s' = m \<and> finite (dom (segments w'))"
proof -
  let ?fds = "control_fds (msg_control msg)"
  from arr have msg: "msg = send_packet_with_fds packet ?fds" and l: "length ?fds = 3 * batch_entries packet"
    and dist: "distinct (map data_fd (triples_of ?fds))" and fresh: "\<forall>t \<in> set (triples_of ?fds). by_fd s (data_fd t) = None"
    by (simp_all add: sub_arrives_def Let_def)
  have ne: "packet \<noteq> []" using learn by (auto simp: learn_def)
  from sub_handle_broker_message_ok [OF inv ok(2) sub_arrives_control [OF arr], of watch] obtain b cmsg s1 w1 where
    r: "sub_handle_broker_message mmap watch msg s w = Some (b, cmsg, s1, w1)" "sub_inv s1 (sub_close_guarded cmsg w1)"
    by (auto simp: accounts_for_def)
  have "b \<and> attachments_known s1 = m \<and> finite (dom (segments w1))"
  proof (cases "message_type_of (hd packet) = Some SubscriberAttachmentBatch")
    case True
    with learn ne obtain ms where rd: "read_attachment_batch_packet packet = Some ms"
      and c: "(if distinct (map fst ms) \<and> (\<forall>x \<in> set ms. attachments_known s (fst x) = None)
        then Some (attachments_known s ++ map_of ms) else None) = Some m"
      by (auto simp: learn_def bind_eq_Some_conv simp del: not_None_eq not_Some_eq)
    from c have ms: "distinct (map fst ms)" "\<forall>x \<in> set ms. attachments_known s (fst x) = None" "m = attachments_known s ++ map_of ms"
      by (metis option.discI option.inject)+
    note ms = rd ms
    note e = read_batch_entries [OF ms(1) ne]
    have n: "batch_entries packet = length ms" using True e(1) by (simp add: batch_entries_def kSubscriberAttachmentMetadataSize_def)
    note t = triples_of_all [OF l [unfolded n]]
    show ?thesis
    proof (cases "ms = []")
      case True
      with n l have "?fds = []" by simp
      with msg have "msg = send_packet_with_fds packet []" by simp
      moreover obtain x where "packet = [x]" using e(1) True by (auto simp: length_Suc_conv)
      ultimately show ?thesis
        using r(1) \<open>message_type_of (hd packet) = Some SubscriberAttachmentBatch\<close> True ms(4) fin
        by (auto simp: sub_handle_broker_message_def send_packet_with_fds_def install_subscriber_attachment_batch_def)
    next
      case False
      have "new_to s (ms ! j) (triples_of ?fds ! j)" if "j < length ms" for j
        using ms(3) fresh t that attachments_known_dom [OF inv] by (simp add: new_to_def)
      from install_packet [OF e(2) e(1) True conjunct1 [OF t] conjunct2 [OF t] False ms(2) dist this ok(1), where w = w and watch = watch] ok(3) fin
      obtain cm s' w' where h: "sub_handle_broker_message mmap watch (send_packet_with_fds packet ?fds) s w = Some (True, cm, s', w')"
        "\<forall>j < length ms. attached s' (ms ! j) (triples_of ?fds ! j)"
        "same_elsewhere (fst ` set ms) (data_fd ` set (triples_of ?fds)) s s'" "finite (dom (segments w'))" by auto
      from attachments_known_installed [OF inv conjunct2 [OF t] ms(2) fresh h(2,3)] h(1,4) r(1) msg ms(4) show ?thesis
        by auto
    qed
  next
    case False
    with learn ne obtain i where i: "message_type_of (hd packet) = Some PublisherDisconnected" "length packet = 9"
      "field_u64 packet 1 = Some i" "attachments_known s i \<noteq> None" "m = (attachments_known s)(i := None)"
      by (auto simp: learn_def bind_eq_Some_conv split: option.splits broker_message_type.splits if_splits)
    from i(4) obtain fd a where a: "by_id s i = Some fd" "by_fd s fd = Some a"
      by (auto simp: attachments_known_def split: option.splits)
    let ?s = "s\<lparr>data_available_event_fd_by_attachment_id := (by_id s)(i := None),
      publisher_attachment_by_data_available_event_fd := (by_fd s)(fd := None)\<rparr>"
    from i(2) obtain x xs where x: "packet = x # xs" by (cases packet) auto
    have "handle_publisher_disconnected packet 8 s w = Some (SubRunNone, ?s, snd (release_publisher_attachment a w))"
      using a i(3) by (simp add: handle_publisher_disconnected_def)
    moreover have "msg_bytes msg = packet" "\<not> msg_truncated msg"
      by (subst msg, simp add: send_packet_with_fds_def)+
    ultimately have b: "b" "s1 = ?s" and "w1 = snd (release_publisher_attachment a w)"
      using r(1) x i(1,2) by (auto simp: sub_handle_broker_message_def)
    then have "finite (dom (segments w1))"
      using fin by (auto simp: release_publisher_attachment_def sub_close_fd_def Let_def split: option.split)
    note b this
    moreover have "attachments_known ?s = m"
    proof
      fix k
      have "fd' \<noteq> fd" if "by_id s k = Some fd'" "k \<noteq> i" for fd'
        using tables_inverseD(3) [OF sub_invD(1) [OF inv]] that a(1) by blast
      then show "attachments_known ?s k = m k"
        unfolding i(5) by (auto simp: attachments_known_def split: option.split)
    qed
    ultimately show ?thesis by simp
  qed
  with r show ?thesis by simp
qed

section \<open>A run of packets\<close>

text \<open>The packets arrive one after the other, and then there is nothing to read; a descriptor is new
  when its packet arrives.\<close>

fun sub_arrive :: "mmap_answer \<Rightarrow> (int \<Rightarrow> bool) \<Rightarrow> bytes list \<Rightarrow> received list \<Rightarrow> subscriber \<Rightarrow> sub_world \<Rightarrow> bool" where
  "sub_arrive mmap watch [] answers s w = (answers = [RecvErr EAGAIN])"
| "sub_arrive mmap watch (packet # packets) (RecvMsg msg # answers) s w = (sub_arrives packet s msg
     \<and> (case sub_handle_broker_message mmap watch msg s w of
          None \<Rightarrow> True
        | Some (ok, cmsg, s', w') \<Rightarrow> sub_arrive mmap watch packets answers s' (sub_close_guarded cmsg w')))"
| "sub_arrive mmap watch (packet # packets) answers s w = False"

lemma learn_None: "foldl learn None packets = None"
  by (induction packets) (simp_all add: learn_def)

lemma sub_process_broker_control_messages_follow:
  assumes "sub_inv s w" "sub_arrive mmap watch packets answers s w"
    "foldl learn (Some (attachments_known s)) packets = Some m"
    "maps_while (finite \<circ> dom) mmap" "maps_fresh mmap" "\<forall>fd. watch fd" "finite (dom (segments w))"
  shows "\<exists>s' w'. sub_process_broker_control_messages mmap watch answers s w = Some (True, [], s', w')
    \<and> sub_inv s' w' \<and> attachments_known s' = m"
  using assms
proof (induction mmap watch packets answers s w rule: sub_arrive.induct)
  case (1 mmap watch answers s w)
  then show ?case by simp
next
  case (2 mmap watch packet packets msg answers s w)
  obtain m1 where m1: "learn (Some (attachments_known s)) packet = Some m1"
    using "2.prems"(3) learn_None [of packets] by (cases "learn (Some (attachments_known s)) packet") auto
  have "sub_arrives packet s msg" using "2.prems"(2) by simp
  from sub_handle_broker_message_follows [OF "2.prems"(1) this m1 "2.prems"(4-7)] obtain cmsg s1 w1 where
    h: "sub_handle_broker_message mmap watch msg s w = Some (True, cmsg, s1, w1)" "sub_inv s1 (sub_close_guarded cmsg w1)"
      "attachments_known s1 = m1" "finite (dom (segments w1))" by blast
  have fin: "finite (dom (segments (sub_close_guarded cmsg w1)))" using h(4) by (simp add: sub_close_guarded_def)
  have "sub_arrive mmap watch packets answers s1 (sub_close_guarded cmsg w1)" using "2.prems"(2) h(1) by simp
  moreover have "foldl learn (Some (attachments_known s1)) packets = Some m" using "2.prems"(3) m1 h(3) by simp
  ultimately obtain s' w' where
    "sub_process_broker_control_messages mmap watch answers s1 (sub_close_guarded cmsg w1) = Some (True, [], s', w')"
    "sub_inv s' w'" "attachments_known s' = m"
    using "2.IH" [OF h(1) refl refl refl h(2) _ _ "2.prems"(4-6) fin] by blast
  then show ?case by (simp add: h(1))
qed simp_all

end
