(* ===== verification/First_Messages.thy ===== *)
theory First_Messages
  imports Publisher_Follows Subscriber_Follows
begin

text \<open>
  From the introduction to the first messages: what a publisher writes once it has been created is
  what a subscriber reads once it has installed its attachment.
\<close>

section \<open>Publishing\<close>

text \<open>Attempts that all succeed.\<close>

fun publish_each :: "bytes list \<Rightarrow> publisher \<Rightarrow> io \<Rightarrow> (publisher \<times> io) option" where
  "publish_each [] p w = Some (p, w)"
| "publish_each (payload # payloads) p w = (case try_publish_one all_ok payload p w of
     Some (Inr Succeeded, p', w') \<Rightarrow> publish_each payloads p' w'
   | _ \<Rightarrow> None)"

lemma try_publish_one_succeeded:
  assumes inv: "data_inv p (shm w)" and n: "seq p \<noteq> 2147483647"
    and code: "try_publish_one all_ok payload p w = Some (Inr Succeeded, p', w')"
  shows "data_inv p' (shm w')" "active (shm w') s \<longleftrightarrow> active (shm w) s" "seq p' = seq p + 1"
    "active (shm w) s \<Longrightarrow> queue (shm w') s = queue (shm w) s @ [payload]"
proof -
  have len: "length payload \<le> kMaxPayloadSizeBytes"
    using try_publish_one_too_large [of payload all_ok p w] code by (cases "kMaxPayloadSizeBytes < length payload") simp_all
  have go: "\<not> held_back payload (shm w)"
    using try_publish_one_blocked [OF inv len, of all_ok] code by (cases "held_back payload (shm w)") simp_all
  from try_publish_one_ok [OF inv len go n, of all_ok] obtain sd' where
    "try_publish_one all_ok payload p w = Some (Inr Succeeded, p\<lparr>seq := seq p + 1\<rparr>,
      w\<lparr>shm := sd', signalled := signalled w @ data_available_event_fds p\<rparr>)"
    "data_inv (p\<lparr>seq := seq p + 1\<rparr>) sd'" "\<forall>s. active sd' s \<longleftrightarrow> active (shm w) s"
    "\<forall>s. queue sd' s = (if active (shm w) s then queue (shm w) s @ [payload] else [])" by auto
  with code show "data_inv p' (shm w')" "active (shm w') s \<longleftrightarrow> active (shm w) s" "seq p' = seq p + 1"
    "active (shm w) s \<Longrightarrow> queue (shm w') s = queue (shm w) s @ [payload]" by auto
qed

lemma publish_each_queues:
  "publish_each payloads p w = Some (p', w') \<Longrightarrow> data_inv p (shm w) \<Longrightarrow> unat (seq p) + length payloads < 2 ^ 31 \<Longrightarrow>
   data_inv p' (shm w') \<and> (\<forall>s. active (shm w') s \<longleftrightarrow> active (shm w) s)
     \<and> (\<forall>s. active (shm w) s \<longrightarrow> queue (shm w') s = queue (shm w) s @ payloads)"
proof (induction payloads arbitrary: p w)
  case (Cons payload payloads)
  from Cons.prems(1) obtain p1 w1 where t: "try_publish_one all_ok payload p w = Some (Inr Succeeded, p1, w1)"
    and more: "publish_each payloads p1 w1 = Some (p', w')"
    by (auto split: option.splits prod.splits sum.splits publish_attempt.splits)
  have n: "seq p \<noteq> 2147483647" using Cons.prems(3) by auto
  note d = try_publish_one_succeeded [OF Cons.prems(2) n t]
  have "unat (seq p1) = unat (seq p) + 1"
    unfolding d(3) using Cons.prems(3) by (intro trans [OF unat_add_lem [THEN iffD1]]) auto
  then have "unat (seq p1) + length payloads < 2 ^ 31" using Cons.prems(3) by simp
  from Cons.IH [OF more d(1) this] d(2,4) show ?case by simp
qed simp

text \<open>Up to fifteen short messages never have to wait in empty queues.\<close>

lemma publish_each_short:
  "data_inv p (shm w) \<Longrightarrow> active (shm w) t \<Longrightarrow> \<forall>s. active (shm w) s \<longrightarrow> length (queue (shm w) s) + length payloads \<le> 15 \<Longrightarrow>
   \<forall>payload \<in> set payloads. length payload \<le> 120 \<Longrightarrow> unat (seq p) + length payloads < 2 ^ 31 \<Longrightarrow>
   \<exists>p' w'. publish_each payloads p w = Some (p', w')"
proof (induction payloads arbitrary: p w)
  case (Cons payload payloads)
  have "length payload \<le> 120" using Cons.prems(4) by simp
  moreover from this have "length payload \<le> kMaxPayloadSizeBytes"
    by (simp add: kMaxPayloadSizeBytes_def kMessageHeaderSizeBytes_def)
  moreover have n: "seq p \<noteq> 2147483647" using Cons.prems(5) by auto
  moreover have "\<forall>s. active (shm w) s \<longrightarrow> length (queue (shm w) s) < 15" using Cons.prems(3) by force
  ultimately obtain p1 w1 where t: "try_publish_one all_ok payload p w = Some (Inr Succeeded, p1, w1)"
    using small_message_held_back_iff [OF Cons.prems(1)] try_publish_one_ok [OF Cons.prems(1), of payload all_ok] Cons.prems(2)
    by fastforce
  note d = try_publish_one_succeeded [OF Cons.prems(1) n t]
  have "unat (seq p1) = unat (seq p) + 1"
    unfolding d(3) using Cons.prems(5) by (intro trans [OF unat_add_lem [THEN iffD1]]) auto
  then have "unat (seq p1) + length payloads < 2 ^ 31" using Cons.prems(5) by simp
  then have "\<exists>p' w'. publish_each payloads p1 w1 = Some (p', w')"
    by (intro Cons.IH [OF d(1)]) (use Cons.prems(2-4) d(2,4) in auto)
  then show ?case by (simp add: t)
qed simp

text \<open>A publisher that has been created and has not published yet, with the given slots in use.\<close>

definition introduced :: "nat set \<Rightarrow> s32 \<Rightarrow> publisher \<Rightarrow> io \<Rightarrow> bool" where
  "introduced S n p w \<longleftrightarrow> data_inv p (shm w) \<and> seq p = n \<and> active_slots w = S \<and> (\<forall>s. queue (shm w) s = [])"

lemma introduced_publishes:
  assumes "introduced S n p w" "publish_each msgs p w = Some (p', w')" "unat n + length msgs < 2 ^ 31"
  shows "data_inv p' (shm w')" "s \<in> S \<Longrightarrow> active (shm w') s" "s \<in> S \<Longrightarrow> queue (shm w') s = msgs"
  using publish_each_queues [OF assms(2)] assms(1,3) unfolding introduced_def by auto

lemma introduced_can_publish:
  assumes "introduced S n p w" "S \<noteq> {}" "length msgs \<le> 15" "\<forall>msg \<in> set msgs. length msg \<le> 120" "unat n + 15 < 2 ^ 31"
  shows "\<exists>p' w'. publish_each msgs p w = Some (p', w')"
proof -
  obtain t where "active (shm w) t" using assms(1,2) unfolding introduced_def by blast
  with publish_each_short [of p w t msgs] assms(1,3-5) show ?thesis unfolding introduced_def by simp
qed

section \<open>A batch with one entry\<close>

lemma install_single:
  assumes new: "by_id s (fst m) = None" "by_fd s z = None" and map: "mmap (segments w) x = Some (addr, sd)" and watch: "watch z"
  shows "\<exists>cmsg s' w' a. sub_handle_broker_message mmap watch (send_packet_with_fds (attachment_batch_packet [m]) [x, y, z]) s w
      = Some (True, cmsg, s', w')
    \<and> by_fd s' z = Some a \<and> shared_data_at a = Some addr \<and> segments w' addr = Some sd \<and> slot_index a = snd (snd m)
    \<and> subscriber_read_index a = kInvalidIndex \<and> expected_seq a = -1 \<and> att_space_available_event_fd a = y
    \<and> sub_flags s' = sub_flags s \<and> consumer w' = consumer w"
proof -
  obtain ident topic slot where m: "m = (ident, topic, slot)" by (cases m) auto
  let ?packet = "attachment_batch_packet [m]"
  have rd: "read_attachment_metadata ?packet 1 = Some m" using read_attachment_batch [of 0 "[m]"] by simp
  have len: "length ?packet - 1 = 13" by (simp add: length_attachment_batch_packet)
  let ?c = "\<lparr>cmsg_level = SOL_SOCKET, cmsg_type = SCM_RIGHTS, cmsg_len = CMSG_LEN 12, cmsg_fds = [x, y, z]\<rparr>"
  let ?a = "empty_attachment\<lparr>att_topic_id := topic, slot_index := slot, shm_fd := x,
           att_space_available_event_fd := y, att_data_available_event_fd := z, shared_data_at := Some addr\<rparr>"
  let ?s = "s\<lparr>data_available_event_fd_by_attachment_id := (by_id s)(ident \<mapsto> z),
           publisher_attachment_by_data_available_event_fd := (by_fd s)(z \<mapsto> ?a)\<rparr>"
  let ?w = "w\<lparr>segments := (segments w)(addr \<mapsto> sd), sub_watched := sub_watched w @ [(z, ident)]\<rparr>"
  have "install_attachment mmap watch m (x, y, z) s w = (True, ?s, ?w)"
    using new map watch m by (simp add: install_attachment_def)
  then have "install_attachments mmap watch ?packet (Suc 0) 1 0 [x, y, z] s w = Some (True, [-1, -1, -1], ?s, ?w)"
    using rd by (simp add: numeral_2_eq_2)
  then have "install_subscriber_attachment_batch mmap watch ?packet 13 (Some ?c) s w = Some (True, Some (?c\<lparr>cmsg_fds := [-1, -1, -1]\<rparr>), ?s, ?w)"
    by (simp add: install_subscriber_attachment_batch_def kSubscriberAttachmentMetadataSize_def is_valid_scm_rights_cmsg_def CMSG_LEN_def)
  then have "sub_handle_broker_message mmap watch (send_packet_with_fds ?packet [x, y, z]) s w
      = Some (True, Some (?c\<lparr>cmsg_fds := [-1, -1, -1]\<rparr>), ?s, ?w)"
    using len by (simp add: sub_handle_broker_message_def send_packet_with_fds_def attachment_batch_packet_def del: type_byte.simps)
  then show ?thesis using m by (intro exI [of _ ?a] exI [of _ ?s] exI [of _ ?w] exI) (simp add: empty_attachment_def)
qed

section \<open>A registration with one subscriber's attachment\<close>

text \<open>What a new publisher's registration brings to a subscriber that named its topic once.\<close>

lemma registers_publisher_links:
  assumes inv: "broker_inv b" "broker_inv b'" and new: "role_by_fd b pf = None"
    and r: "publisher_registered kern pf t seg space (b, w) (b', w')" and once: "count_list (topics_of b c) t = 1"
  obtains a where "attachments_of b' c = attachments_of b c @ [a]" "sa_publisher_fd a = pf" "sa_topic_id a = t"
    "told c w' = told c w @ [attachment_batch_packet [attachment_entry a]]"
    "given (attachments_of b c) (sa_attachment_id a) = None" "unat (sa_slot_index a) \<in># in_use b' pf"
proof -
  from r obtain rs where rs: "map fst rs = subscribers_of b t" "\<forall>a \<in> snd ` set rs. sa_topic_id a = t \<and> sa_publisher_fd a = pf"
      "\<forall>s. attachments_of b' s = attachments_of b s @ given_to s rs"
    and all: "all_attachments (subscriber_attachments_by_subscriber_fd b')
      = all_attachments (subscriber_attachments_by_subscriber_fd b) + mset (map snd rs)"
    and w': "w' = Broker_Outcome.sent ((pf, plain_message (le_bytes 4 (of_nat (length rs) :: u32))) # linked_notes seg rs)
        (w\<lparr>eventfd_calls := eventfd_calls w + length rs\<rparr>)"
    unfolding publisher_registered_def by auto
  have "topics_of b pf = []"
    using clients_okD(2) [OF broker_invD(1) [OF inv(1)], of pf] new by (auto simp: list_at_def split: option.split)
  with once have ne: "pf \<noteq> c" by auto
  have "count_list (subscribers_of b t) c = 1" using broker_invD(2) [OF inv(1)] once by (simp add: subscribers_ok_def)
  with rs(1) have "length (given_to c rs) = 1" by (simp add: length_given_to)
  then obtain a where a: "given_to c rs = [a]" by (auto simp: length_Suc_conv)
  then have "a \<in> set (given_to c rs)" by simp
  then have mem: "a \<in> snd ` set rs" by (auto simp: given_to_def)
  have to: "\<forall>a \<in> snd ` set rs. sa_publisher_fd a \<noteq> c" using rs(2) ne by simp
  have "told c w' = told c w @ [attachment_batch_packet [attachment_entry a]]"
    unfolding w' told_sent using ne linked_notes_to_subscriber [OF to, of seg] a by simp
  moreover have "distinct (map sa_attachment_id (attachments_of b c @ [a]))"
    using attachment_ids_distinct [OF inv(2), of c] rs(3) a by simp
  then have "given (attachments_of b c) (sa_attachment_id a) = None" by (simp add: given_None)
  moreover have "unat (sa_slot_index a) \<in># in_use b' pf" using mem rs(2) by (force simp: all slots_in_use_def)
  ultimately show thesis using that [of a] rs(2,3) a mem by simp
qed

section \<open>The first read\<close>

text \<open>The subscriber installs the attachment of a batch with one entry and handles its data event.\<close>

lemma first_read:
  assumes arr: "sub_arrives (attachment_batch_packet [m]) s msg" and fds: "control_fds (msg_control msg) = [x, y, z]"
    and new: "by_id s (fst m) = None" and map: "mmap (segments w) x = Some (addr, sd)" and ok: "watch z" "drain z" "sig y"
    and inv: "data_inv p sd" and act: "active sd (unat (snd (snd m)))"
  shows "\<exists>cmsg s' w' s'' w''. sub_handle_broker_message mmap watch msg s w = Some (True, cmsg, s', w')
    \<and> handle_data_available_event sig drain z s' (sub_close_guarded cmsg w')
        = Some (Inr (delivered (sub_flags s) (queue sd (unat (snd (snd m))))), s'', w'')
    \<and> called_back (sub_flags s) (queue sd (unat (snd (snd m)))) (consumer w) (consumer w'')"
proof -
  have msg: "msg = send_packet_with_fds (attachment_batch_packet [m]) [x, y, z]" and "by_fd s z = None"
    using arr fds by (simp_all add: sub_arrives_def data_fd_def)
  from install_single [of s m z, OF new this(2), where mmap = mmap and watch = watch and w = w, OF map ok(1)] obtain cmsg s' w' a where
    h: "sub_handle_broker_message mmap watch msg s w = Some (True, cmsg, s', w')"
      "by_fd s' z = Some a" "shared_data_at a = Some addr" "segments w' addr = Some sd" "slot_index a = snd (snd m)"
      "subscriber_read_index a = kInvalidIndex" "expected_seq a = -1" "att_space_available_event_fd a = y"
      "sub_flags s' = sub_flags s" "consumer w' = consumer w"
    unfolding msg by blast
  have "att_start (seq p) a sd" using act h(5-7) by (simp add: att_start_def)
  from handle_data_available_event_ok [where w = "sub_close_guarded cmsg w'" and drain = drain and sig = sig, OF h(2,3) _ inv this ok(2)]
    h(4,5,8-10) ok(3) obtain s'' w'' where
    "handle_data_available_event sig drain z s' (sub_close_guarded cmsg w')
        = Some (Inr (delivered (sub_flags s) (queue sd (unat (snd (snd m))))), s'', w'')"
    "called_back (sub_flags s) (queue sd (unat (snd (snd m)))) (consumer w) (consumer w'')"
    by (fastforce simp: sub_close_guarded_def)
  with h(1) show ?thesis by blast
qed

text \<open>What a publisher in this state publishes next is what a subscriber reads that is sent this packet:
  the descriptors that arrive with it are mapped to the publisher's segment and watched, and then
  the data event is handled.\<close>

definition first_messages_reach :: "publisher \<Rightarrow> io \<Rightarrow> bytes \<Rightarrow> subscriber \<Rightarrow> sub_world \<Rightarrow> bool" where
  "first_messages_reach p w packet s sw \<longleftrightarrow> (\<forall>msgs p' w' msg x y z addr mmap watch drain sig.
     unat (seq p) + length msgs < 2 ^ 31 \<longrightarrow> publish_each msgs p w = Some (p', w')
     \<longrightarrow> sub_arrives packet s msg \<longrightarrow> control_fds (msg_control msg) = [x, y, z]
     \<longrightarrow> mmap (segments sw) x = Some (addr, shm w') \<longrightarrow> watch z \<longrightarrow> drain z \<longrightarrow> sig y \<longrightarrow>
     (\<exists>cmsg s' sw' s'' sw''. sub_handle_broker_message mmap watch msg s sw = Some (True, cmsg, s', sw')
       \<and> handle_data_available_event sig drain z s' (sub_close_guarded cmsg sw')
           = Some (Inr (delivered (sub_flags s) msgs), s'', sw'')
       \<and> called_back (sub_flags s) msgs (consumer sw) (consumer sw'')))"

lemma introduced_reaches:
  assumes i: "introduced S n p w" and new: "by_id s (fst m) = None" and slot: "unat (snd (snd m)) \<in> S"
  shows "first_messages_reach p w (attachment_batch_packet [m]) s sw"
  unfolding first_messages_reach_def
proof (intro allI impI)
  fix msgs p' w' msg x y z addr and mmap :: mmap_answer and watch drain sig :: "int \<Rightarrow> bool"
  assume few: "unat (seq p) + length msgs < 2 ^ 31" and pub: "publish_each msgs p w = Some (p', w')"
    and arr: "sub_arrives (attachment_batch_packet [m]) s msg" "control_fds (msg_control msg) = [x, y, z]"
    and ok: "mmap (segments sw) x = Some (addr, shm w')" "watch z" "drain z" "sig y"
  have "seq p = n" using i by (simp add: introduced_def)
  with few have "unat n + length msgs < 2 ^ 31" by simp
  note r = introduced_publishes [OF i pub this]
  from first_read [OF arr new, where mmap = mmap and w = sw and watch = watch and drain = drain and sig = sig,
      OF ok r(1) r(2) [OF slot]] r(3) [OF slot]
  show "\<exists>cmsg s' sw' s'' sw''. sub_handle_broker_message mmap watch msg s sw = Some (True, cmsg, s', sw')
       \<and> handle_data_available_event sig drain z s' (sub_close_guarded cmsg sw')
           = Some (Inr (delivered (sub_flags s) msgs), s'', sw'')
       \<and> called_back (sub_flags s) msgs (consumer sw) (consumer sw'')" by simp
qed

end
