(* ===== verification/Introduction_Properties.thy ===== *)
theory Introduction_Properties
  imports First_Messages Broker_Scenario Lifecycle_Properties Subscriber_Properties
begin

text \<open>
  How broker, publisher and subscriber introduce each other: whatever the broker's history, a
  publisher that has read what it was sent has exactly the slots active that the broker has in use
  for it, and a subscriber exactly the attachments of the broker's tables.
\<close>

section \<open>A subscriber meets a publisher\<close>

text \<open>The publisher on descriptor 5 has registered; the subscriber on descriptor 8 registers.\<close>

lemma demo_introduction:
  "\<exists>b w b' w' a. broker_reachable demo_kernel demo_snapshot b w \<and> broker_reachable demo_kernel demo_snapshot b' w'
    \<and> 8 \<in> client_fds b \<and> role_by_fd b 8 = None \<and> in_use b 5 = {#} \<and> 5 \<in> set (publishers_of b kTopicCamera)
    \<and> handle_subscriber_topic_registration demo_kernel 8 demo_subscriber_packet b w = Inr (b', w')
    \<and> 5 \<in> set (publishers_of b' kTopicCamera) \<and> attachments_of b' 8 = [a] \<and> sa_publisher_fd a = 5
    \<and> all_attachments (subscriber_attachments_by_subscriber_fd b') = {#a#}
    \<and> told 5 w' = told 5 w @ [subscriber_event_fd_and_slot_packet (sa_slot_index a)]
    \<and> told 8 w' = told 8 w @ [attachment_batch_packet [attachment_entry a]]"
proof -
  obtain b w where b: "broker_reachable demo_kernel demo_snapshot b w" "client_fds b = {5, 8}"
    "\<forall>t. publishers_of b t = (if t = kTopicCamera then [5] else [])" "role_by_fd b = [5 \<mapsto> RolePublisher]"
    "\<forall>t. subscribers_of b t = []" "next_attachment_id b = 1"
    using demo_publisher_registered by blast
  have inv: "broker_inv b" using broker_reachable_inv [OF b(1) demo_kernel_ok(3)] by (simp add: system_inv_def)
  have none: "subscriber_attachments_by_subscriber_fd b = Map.empty"
  proof
    show "subscriber_attachments_by_subscriber_fd b c = None" for c
      using clients_okD(1) [OF broker_invD(1) [OF inv], of c] b(4) by (auto split: if_split_asm)
  qed
  then have use: "in_use b 5 = {#}" by (simp add: all_attachments_def)
  have plan: "attach_plan b [kTopicCamera] = [(kTopicCamera, 5)]" using b(3) by (simp add: attach_plan_def)
  have "fits b [kTopicCamera]" using b(3,5,6) by (simp add: fits_def plan protocol_simps ids_left_def)
  moreover have new: "role_by_fd b 8 = None" using b(4) by simp
  ultimately obtain b' w' where
    code: "register_subscriber demo_kernel 8 [kTopicCamera] b w = Inr (b', w')"
    and reg: "subscriber_registered demo_kernel 8 [kTopicCamera] (b, w) (b', w')"
    using register_subscriber_total [OF inv _ _ demo_kernel_ok(1,2)] by blast
  have h: "handle_subscriber_topic_registration demo_kernel 8 demo_subscriber_packet b w = Inr (b', w')"
    using subscriber_registration_read [OF _ _ demo_subscriber_packet_eq] code by (simp add: protocol_simps)
  then have "receive_client_messages demo_kernel demo_snapshot 8 [RecvMsg (plain_message demo_subscriber_packet)] b w = Inr (b', w')"
    by (simp add: handle_client_message_def plain_message_def demo_subscriber_packet_def message_type_of_def)
  moreover have "conforming (role_by_fd b 8) [RecvMsg (plain_message demo_subscriber_packet)]"
    by (simp add: plain_message_def demo_subscriber_packet_def message_type_of_def b(4))
  ultimately have "broker_step demo_kernel demo_snapshot (b, w)
      (Receives 8 [RecvMsg (plain_message demo_subscriber_packet)]) (b', w')"
    using b(2) by (intro receives) simp_all
  note reach = reachable_step [OF b(1) this]
  from reg obtain as :: "subscriber_attachment list" and shms where
    as: "subscriber_attachments_by_subscriber_fd b' = [8 \<mapsto> as]" "map (\<lambda>a. (sa_topic_id a, sa_publisher_fd a)) as = [(kTopicCamera, 5)]"
    and w': "w' = Broker_Outcome.sent (map registered_note as @ [batch_note 8 as shms]) (w\<lparr>eventfd_calls := eventfd_calls w + length as\<rparr>)"
    and pubs: "publisher_fds_by_topic_id b' = publisher_fds_by_topic_id b"
    unfolding subscriber_registered_def prod.case plan none by (elim conjE exE) (rule that)
  from as(2) obtain a where a: "as = [a]" "sa_publisher_fd a = 5" by (cases as) auto
  have "told 5 w' = told 5 w @ [subscriber_event_fd_and_slot_packet (sa_slot_index a)]"
    "told 8 w' = told 8 w @ [attachment_batch_packet [attachment_entry a]]"
    unfolding w' a told_sent
    by (simp_all add: registered_note_def batch_note_def attachment_batch_message_def send_packet_with_fds_def
      send_packet_with_fd_def a(2))
  moreover have "all_attachments (subscriber_attachments_by_subscriber_fd b') = {#a#}"
    using all_attachments_insert [of Map.empty 8 "[a]"] unfolding as(1) a(1) by (simp add: all_attachments_def)
  moreover have "attachments_of b' 8 = [a]" by (simp add: as(1) a(1))
  moreover have "5 \<in> set (publishers_of b kTopicCamera)" "5 \<in> set (publishers_of b' kTopicCamera)" using b(3) pubs by simp_all
  ultimately show ?thesis using b(1,2) reach new use h a(2) by blast
qed

text \<open>The registrations can always arrive.\<close>

lemma arrive_first_possible: "\<exists>answers. arrive_first slots answers p"
proof (induction slots arbitrary: p)
  case (Cons slot slots)
  let ?fd = "Max (insert 0 (set (data_available_event_fds p))) + 1"
  have le: "x \<le> Max (insert 0 (set (data_available_event_fds p)))" if "x \<in> insert 0 (set (data_available_event_fds p))" for x
    using that by (intro Max_ge) simp_all
  have fd: "0 \<le> ?fd" "?fd \<notin> set (data_available_event_fds p)"
    using le [of 0] le [of ?fd] by auto
  let ?msg = "send_packet_with_fd (subscriber_event_fd_and_slot_packet slot) ?fd"
  have "arrives (subscriber_event_fd_and_slot_packet slot) p ?msg"
    using fd by (simp add: arrives_def send_packet_with_fd_def subscriber_event_fd_and_slot_packet_def message_type_of_def)
  moreover obtain answers where
    "arrive_first slots answers (p\<lparr>data_available_event_fds := data_available_event_fds p @ control_fds (msg_control ?msg)\<rparr>)"
    using Cons.IH by blast
  ultimately have "arrive_first (slot # slots) (RecvMsg ?msg # answers) p" by simp
  then show ?case by blast
qed simp

text \<open>A kernel that maps every segment, at a fresh address.\<close>

definition demo_fresh_mmap :: mmap_answer where
  "demo_fresh_mmap segs fd = (if finite (dom segs) then Some (Suc (Max (insert 0 (dom segs))), zero_shared_data) else None)"

lemma demo_fresh_mmap_ok: "maps_while (finite \<circ> dom) demo_fresh_mmap" "maps_fresh demo_fresh_mmap"
proof -
  show "maps_while (finite \<circ> dom) demo_fresh_mmap" by (simp add: maps_while_def demo_fresh_mmap_def)
  have "segs (Suc (Max (insert 0 (dom segs)))) = None" if "finite (dom segs)" for segs :: "nat \<rightharpoonup> shared_data"
  proof (rule ccontr)
    assume "segs (Suc (Max (insert 0 (dom segs)))) \<noteq> None"
    then have "Suc (Max (insert 0 (dom segs))) \<in> insert 0 (dom segs)" by blast
    from Max_ge [OF _ this] that show False by simp
  qed
  then show "maps_fresh demo_fresh_mmap" by (auto simp: maps_fresh_def demo_fresh_mmap_def split: if_split_asm)
qed

text \<open>A publisher that has just mapped its segment, with the broker's answers.\<close>

lemma demo_awaits_handshake:
  "\<exists>(k :: create_answers) p (h :: host). data_inv p (shm (world h)) \<and> active_slots (world h) = {}
    \<and> count_received k = le_bytes 4 (n :: u32)
    \<and> arrive_first slots (registrations_received k) p \<and> seq p = 0"
proof -
  obtain sd where sd: "data_inv demo_publisher sd" "\<forall>s. \<not> active sd s" using demo_segment by blast
  obtain answers where a: "arrive_first slots answers demo_publisher" using arrive_first_possible by blast
  let ?k = "demo_answers\<lparr>count_received := le_bytes 4 n, registrations_received := answers\<rparr>"
  let ?h = "demo_host\<lparr>world := demo_io sd\<rparr>"
  have "data_inv demo_publisher (shm (world ?h))" "active_slots (world ?h) = {}" "count_received ?k = le_bytes 4 n"
    "arrive_first slots (registrations_received ?k) demo_publisher" "seq demo_publisher = 0"
    using sd a by (simp_all add: demo_io_def demo_publisher_def)
  then show ?thesis by blast
qed

text \<open>A batch with one entry, with descriptors 20, 21 and 22.\<close>

lemma demo_packet_arrives:
  "sub_arrives (attachment_batch_packet [m]) demo_subscriber (send_packet_with_fds (attachment_batch_packet [m]) [20, 21, 22])"
  "control_fds (msg_control (send_packet_with_fds packet [20, 21, 22])) = [20, 21, 22]"
proof -
  have "message_type_of (hd (attachment_batch_packet [m])) = Some SubscriberAttachmentBatch" "length (attachment_batch_packet [m]) = 14"
    by (simp_all add: attachment_batch_packet_def del: type_byte.simps)
  then show "sub_arrives (attachment_batch_packet [m]) demo_subscriber (send_packet_with_fds (attachment_batch_packet [m]) [20, 21, 22])"
    by (simp add: sub_arrives_def batch_entries_def send_packet_with_fds_def control_fds_def data_fd_def demo_subscriber_def
      kSubscriberAttachmentMetadataSize_def)
  show "control_fds (msg_control (send_packet_with_fds packet [20, 21, 22])) = [20, 21, 22]"
    by (simp add: send_packet_with_fds_def control_fds_def)
qed

section \<open>The publisher's side\<close>

text \<open>The handshake introduces the present subscribers: a publisher that registers is
  sent a count and then as many registrations, for different slots; when they arrive in its
  process, \<open>create\<close> accepts them all, and the publisher's active slots are the slots that the
  broker now has in use for it.\<close>

theorem handshake_introduces_subscribers:
  assumes "broker_reachable kern snapshot b w" "visits_all kern" "role_by_fd b fd = None"
    and "register_publisher kern fd t seg space b w = Inr (b', w')"
  shows "\<exists>(n :: u32) slots. told fd w' = told fd w @ le_bytes 4 n # map subscriber_event_fd_and_slot_packet slots
    \<and> length slots = unat n \<and> distinct slots
    \<and> (\<forall>k p h. data_inv p (shm (world h)) \<longrightarrow> active_slots (world h) = {} \<longrightarrow> count_received k = le_bytes 4 n
        \<longrightarrow> arrive_first slots (registrations_received k) p \<longrightarrow>
        (\<exists>p' h'. receive_and_track_initial_subscriber_registrations k p h = Some (None, p', h')
          \<and> data_inv p' (shm (world h')) \<and> active_slots (world h') = set_mset (in_use b' fd)))"
proof -
  have inv: "broker_inv b" using broker_reachable_inv [OF assms(1,2)] by (simp add: system_inv_def)
  from outcome_Inr [OF register_publisher_ok [OF inv assms(3)] assms(4)]
  have r: "broker_inv b'" "publisher_registered kern fd t seg space (b, w) (b', w')" by simp_all
  obtain n :: u32 and slots where
    s: "told fd w' = told fd w @ le_bytes 4 n # map subscriber_event_fd_and_slot_packet slots" "length slots = unat n"
      "distinct (map unat slots)" "\<forall>s \<in> set slots. unat s < 16" "set_mset (in_use b' fd) = unat ` set slots"
    using registers_publisher_told [OF inv r(1) assms(3) r(2)] by metis
  have "distinct slots" using s(3) by (simp add: distinct_map)
  moreover have "\<exists>p' h'. receive_and_track_initial_subscriber_registrations k p h = Some (None, p', h')
      \<and> data_inv p' (shm (world h')) \<and> active_slots (world h') = set_mset (in_use b' fd)"
    if "data_inv p (shm (world h))" "active_slots (world h) = {}" "count_received k = le_bytes 4 n"
      "arrive_first slots (registrations_received k) p" for k p h
    using handshake_follows [OF that(1-3) s(2) that(4) s(3,4)] s(5) by auto
  ultimately show ?thesis using s(1,2) by (intro exI [of _ n] exI [of _ slots] conjI allI impI)
qed

theorem handshake_introduces_subscribers_witness:
  "\<exists>b w b' w' k p h p' h'. broker_reachable demo_kernel demo_snapshot b w
    \<and> register_publisher demo_kernel 9 kTopicCamera 10 11 b w = Inr (b', w') \<and> in_use b' 9 \<noteq> {#}
    \<and> receive_and_track_initial_subscriber_registrations k p h = Some (None, p', h')
    \<and> active_slots (world h') = set_mset (in_use b' 9)"
proof -
  obtain b w where b: "broker_reachable demo_kernel demo_snapshot b w" "role_by_fd b = [5 \<mapsto> RolePublisher, 8 \<mapsto> RoleSubscriber]"
    "topics_of b 8 = [kTopicCamera]" "next_attachment_id b = 2"
    using demo_subscriber_registered by blast
  have inv: "broker_inv b" using broker_reachable_inv [OF b(1) demo_kernel_ok(3)] by (simp add: system_inv_def)
  have subs: "subscribers_of b kTopicCamera = [8]"
  proof -
    have c: "count_list (subscribers_of b kTopicCamera) fd = count_list (topics_of b fd) kTopicCamera" for fd
      using broker_invD(2) [OF inv] by (simp add: subscribers_ok_def)
    have "topics_of b fd = []" if "fd \<noteq> 8" for fd
      using clients_okD(2) [OF broker_invD(1) [OF inv], of fd] b(2) that by (auto simp: list_at_def split: if_split_asm)
    with c have "count_list (subscribers_of b kTopicCamera) fd = (if fd = 8 then 1 else 0)" for fd using b(3) by simp
    then have "mset (subscribers_of b kTopicCamera) = {#8#}" by (intro multiset_eqI) (simp add: count_mset)
    then show ?thesis by simp
  qed
  have new: "role_by_fd b 9 = None" using b(2) by simp
  obtain b' w' where code: "register_publisher demo_kernel 9 kTopicCamera 10 11 b w = Inr (b', w')"
    and reg: "publisher_registered demo_kernel 9 kTopicCamera 10 11 (b, w) (b', w')"
    using register_publisher_total [OF inv new _ _ demo_kernel_ok(1,2), of kTopicCamera 10 11 w] subs b(4)
    by (auto simp: ids_left_def)
  from handshake_introduces_subscribers [OF b(1) demo_kernel_ok(3) new code] obtain n :: u32 and slots where
    f: "\<forall>k p h. data_inv p (shm (world h)) \<longrightarrow> active_slots (world h) = {} \<longrightarrow> count_received k = le_bytes 4 n
        \<longrightarrow> arrive_first slots (registrations_received k) p \<longrightarrow>
        (\<exists>p' h'. receive_and_track_initial_subscriber_registrations k p h = Some (None, p', h')
          \<and> data_inv p' (shm (world h')) \<and> active_slots (world h') = set_mset (in_use b' 9))" by blast
  obtain k :: create_answers and p and h :: host where "data_inv p (shm (world h))" "active_slots (world h) = {}" "count_received k = le_bytes 4 n"
    "arrive_first slots (registrations_received k) p"
    using demo_awaits_handshake [of n slots] by blast
  with f obtain p' h' where
    r: "receive_and_track_initial_subscriber_registrations k p h = Some (None, p', h')"
      "active_slots (world h') = set_mset (in_use b' 9)" by blast
  from reg obtain rs :: "(int \<times> subscriber_attachment) list" where rs: "map fst rs = [8]" "\<forall>x \<in> snd ` set rs. sa_topic_id x = kTopicCamera \<and> sa_publisher_fd x = 9 \<and> sa_space_available_event_fd x = 11"
    and all: "all_attachments (subscriber_attachments_by_subscriber_fd b')
      = all_attachments (subscriber_attachments_by_subscriber_fd b) + mset (map snd rs)"
    unfolding publisher_registered_def prod.case subs by (elim conjE exE) (rule that)
  from rs obtain x where "rs = [(8, x)]" "sa_publisher_fd x = 9" by (cases rs) auto
  then have "in_use b' 9 \<noteq> {#}" unfolding all by simp
  with b(1) code r show ?thesis by blast
qed

text \<open>Property C3. The publisher follows the broker: in every reachable state of the broker, let a
  publisher have handled what it was told first since it registered, so that its active slots are
  those; then its receive loop accepts all further packets, and afterwards a slot is active exactly
  if the broker has an attachment to this publisher in that slot.\<close>

theorem publisher_follows_broker:
  assumes "broker_reachable kern snapshot b w" "visits_all kern" "fd \<in> set (publishers_of b t)"
    and "since_registration fd w = heard @ packets" "foldl hear (Some {}) heard = Some (active_slots pw)"
    and "data_inv p (shm pw)" "arrive packets answers p pw"
  shows "\<exists>p' pw'. process_broker_control_messages answers p pw = Some (RunNone, [], p', pw') \<and> data_inv p' (shm pw')
    \<and> (\<forall>s. active (shm pw') s \<longleftrightarrow>
        (\<exists>a \<in># all_attachments (subscriber_attachments_by_subscriber_fd b). sa_publisher_fd a = fd \<and> unat (sa_slot_index a) = s))"
proof -
  have "foldl hear (Some (active_slots pw)) packets = Some (set_mset (in_use b fd))"
    using reachable_since_registration [OF assms(1-3)] assms(4,5) by simp
  moreover have "4 \<notin> length ` set packets" using since_registration_no_count [of fd w] assms(4) by auto
  ultimately obtain p' pw' where
    r: "process_broker_control_messages answers p pw = Some (RunNone, [], p', pw')" "data_inv p' (shm pw')"
      "active_slots pw' = set_mset (in_use b fd)"
    using process_broker_control_messages_follow [OF assms(6,7)] by blast
  from r(3) have "active (shm pw') s \<longleftrightarrow> s \<in># in_use b fd" for s by blast
  with r(1,2) show ?thesis by (intro exI [of _ p'] exI [of _ pw']) (auto simp: slots_in_use_def)
qed

theorem publisher_follows_broker_witness:
  "\<exists>b w p pw answers p' pw' a. broker_reachable demo_kernel demo_snapshot b w \<and> active_slots pw = {}
    \<and> process_broker_control_messages answers p pw = Some (RunNone, [], p', pw')
    \<and> all_attachments (subscriber_attachments_by_subscriber_fd b) = {#a#}
    \<and> (\<forall>s. active (shm pw') s \<longleftrightarrow> unat (sa_slot_index a) = s)"
proof -
  obtain b w b' w' a where d: "broker_reachable demo_kernel demo_snapshot b w" "broker_reachable demo_kernel demo_snapshot b' w'"
    "in_use b 5 = {#}" "5 \<in> set (publishers_of b kTopicCamera)" "5 \<in> set (publishers_of b' kTopicCamera)"
    "sa_publisher_fd a = 5" "all_attachments (subscriber_attachments_by_subscriber_fd b') = {#a#}"
    "told 5 w' = told 5 w @ [subscriber_event_fd_and_slot_packet (sa_slot_index a)]"
    using demo_introduction by blast
  let ?packet = "subscriber_event_fd_and_slot_packet (sa_slot_index a)"
  have since: "since_registration 5 w' = since_registration 5 w @ [?packet]"
    by (simp add: since_registration_def d(8)) (simp add: subscriber_event_fd_and_slot_packet_def)
  obtain sd where sd: "data_inv demo_publisher sd" "\<forall>s. \<not> active sd s" using demo_segment by blast
  have heard: "foldl hear (Some {}) (since_registration 5 w) = Some (active_slots (demo_io sd))"
    using reachable_since_registration [OF d(1) demo_kernel_ok(3) d(4)] d(3) sd(2) by (simp add: demo_io_def)
  let ?answers = "[RecvMsg (send_packet_with_fd ?packet 9), RecvErr EAGAIN]"
  have "arrives ?packet demo_publisher (send_packet_with_fd ?packet 9)"
    by (simp add: arrives_def send_packet_with_fd_def subscriber_event_fd_and_slot_packet_def message_type_of_def demo_publisher_def)
  then have arr: "arrive [?packet] ?answers demo_publisher (demo_io sd)" by (simp split: option.split)
  have inv: "data_inv demo_publisher (shm (demo_io sd))" using sd(1) by (simp add: demo_io_def)
  from publisher_follows_broker [OF d(2) demo_kernel_ok(3) d(5) since heard inv arr] d(6,7) obtain p' pw' where
    "process_broker_control_messages ?answers demo_publisher (demo_io sd) = Some (RunNone, [], p', pw')"
    "\<forall>s. active (shm pw') s \<longleftrightarrow> unat (sa_slot_index a) = s" by auto
  moreover have "active_slots (demo_io sd) = {}" using sd(2) by (simp add: demo_io_def)
  ultimately show ?thesis using d(2,7) by blast
qed

section \<open>The subscriber's side\<close>

text \<open>Property C4. The subscriber follows the broker: from its registration on, while it stays
  registered, whoever else comes and goes, a subscriber that has handled what it was sent first
  accepts all further messages, and its tables then hold exactly the attachments the broker has
  for it, each with its id, topic and slot.\<close>

theorem subscriber_follows_broker:
  assumes "broker_reachable kern snapshot b w" "visits_all kern" "c \<in> client_fds b" "role_by_fd b c = None"
    and "handle_subscriber_topic_registration kern c packet b w = Inr (b1, w1)"
    and "while_subscribed kern snapshot c (b1, w1) (b', w')"
    and "told c w' = told c w @ heard @ packets" "foldl learn (Some Map.empty) heard = Some (attachments_known s)"
    and "sub_inv s sw" "sub_arrive mmap watch packets answers s sw"
    and "maps_while (finite \<circ> dom) mmap" "maps_fresh mmap" "\<forall>fd. watch fd" "finite (dom (segments sw))"
  shows "\<exists>s' sw'. sub_process_broker_control_messages mmap watch answers s sw = Some (True, [], s', sw') \<and> sub_inv s' sw'
    \<and> (\<forall>a \<in> set (attachments_of b' c). attachments_known s' (sa_attachment_id a) = Some (sa_topic_id a, sa_slot_index a))
    \<and> dom (attachments_known s') = sa_attachment_id ` set (attachments_of b' c)"
proof -
  have inv: "system_inv b" using broker_reachable_inv [OF assms(1,2)] .
  note t = subscriber_taught [OF inv assms(3,4,2,5,6)]
  then have d: "distinct (map sa_attachment_id (attachments_of b' c))" using attachment_ids_distinct by blast
  from t assms(7) have "foldl learn (Some Map.empty) (heard @ packets) = Some (given (attachments_of b' c))" by (auto simp: taught_def)
  with assms(8) have "foldl learn (Some (attachments_known s)) packets = Some (given (attachments_of b' c))" by simp
  from sub_process_broker_control_messages_follow [OF assms(9,10) this assms(11-14)] obtain s' sw' where
    r: "sub_process_broker_control_messages mmap watch answers s sw = Some (True, [], s', sw')" "sub_inv s' sw'"
      "attachments_known s' = given (attachments_of b' c)" by blast
  with given_Some [OF d] dom_given show ?thesis by (intro exI [of _ s'] exI [of _ sw']) simp
qed

theorem subscriber_follows_broker_witness:
  "\<exists>b w a answers s' sw'. broker_reachable demo_kernel demo_snapshot b w \<and> attachments_of b 8 = [a]
    \<and> sub_process_broker_control_messages demo_fresh_mmap all_ok answers demo_subscriber demo_sub_world = Some (True, [], s', sw')
    \<and> attachments_known s' (sa_attachment_id a) = Some (sa_topic_id a, sa_slot_index a)"
proof -
  obtain b w b' w' a where d: "broker_reachable demo_kernel demo_snapshot b w" "broker_reachable demo_kernel demo_snapshot b' w'"
    "8 \<in> client_fds b" "role_by_fd b 8 = None" "attachments_of b' 8 = [a]"
    "handle_subscriber_topic_registration demo_kernel 8 demo_subscriber_packet b w = Inr (b', w')"
    "told 8 w' = told 8 w @ [attachment_batch_packet [attachment_entry a]]"
    using demo_introduction by blast
  let ?packet = "attachment_batch_packet [attachment_entry a]"
  let ?answers = "[RecvMsg (send_packet_with_fds ?packet [20, 21, 22]), RecvErr EAGAIN]"
  have w: "while_subscribed demo_kernel demo_snapshot 8 (b', w') (b', w')"
    unfolding while_subscribed_def by (rule exI [of _ "[]"], rule run.run_nil)
  have told: "told 8 w' = told 8 w @ [] @ [?packet]" using d(7) by simp
  have none: "foldl learn (Some Map.empty) [] = Some (attachments_known demo_subscriber)"
    by (simp add: attachments_known_def demo_subscriber_def fun_eq_iff)
  have "sub_arrives ?packet demo_subscriber (send_packet_with_fds ?packet [20, 21, 22])" by (rule demo_packet_arrives)
  then have arr: "sub_arrive demo_fresh_mmap all_ok [?packet] ?answers demo_subscriber demo_sub_world" by (simp split: option.split)
  have fin: "finite (dom (segments demo_sub_world))" by (simp add: demo_sub_world_def)
  from subscriber_follows_broker [OF d(1) demo_kernel_ok(3) d(3,4,6) w told none demo_sub_inv arr demo_fresh_mmap_ok _ fin] d(5)
  obtain s' sw' where
    "sub_process_broker_control_messages demo_fresh_mmap all_ok ?answers demo_subscriber demo_sub_world = Some (True, [], s', sw')"
    "attachments_known s' (sa_attachment_id a) = Some (sa_topic_id a, sa_slot_index a)" by auto
  with d(2,5) show ?thesis by blast
qed

section \<open>Both sides\<close>

text \<open>Property C5. A new publisher reaches a waiting subscriber: in every reachable state of the
  broker, when a publisher registers, it is told a count and registrations, and a subscriber that
  named its topic once is told one packet; the handshake of \<open>create\<close> succeeds on what the publisher
  was told, and whatever it then publishes is delivered, completely and in order, when the
  subscriber has mapped its segment from that packet and handles the data event.\<close>

theorem new_publisher_reaches_subscriber:
  assumes "broker_reachable kern snapshot b w" "visits_all kern" "role_by_fd b pf = None" "count_list (topics_of b c) t = 1"
    and "register_publisher kern pf t seg space b w = Inr (b', w')"
    and "sub_inv s sw" "attachments_known s = given (attachments_of b c)"
  shows "\<exists>(n :: u32) slots packet. told pf w' = told pf w @ le_bytes 4 n # map subscriber_event_fd_and_slot_packet slots
    \<and> told c w' = told c w @ [packet]
    \<and> (\<forall>k p h. data_inv p (shm (world h)) \<longrightarrow> active_slots (world h) = {} \<longrightarrow> count_received k = le_bytes 4 n
        \<longrightarrow> arrive_first slots (registrations_received k) p \<longrightarrow>
        (\<exists>p' h'. receive_and_track_initial_subscriber_registrations k p h = Some (None, p', h')
          \<and> introduced (set_mset (in_use b' pf)) (seq p) p' (world h')
          \<and> first_messages_reach p' (world h') packet s sw))"
proof -
  have inv: "broker_inv b" using broker_reachable_inv [OF assms(1,2)] by (simp add: system_inv_def)
  from outcome_Inr [OF register_publisher_ok [OF inv assms(3)] assms(5)]
  have inv': "broker_inv b'" and r: "publisher_registered kern pf t seg space (b, w) (b', w')" by simp_all
  obtain n :: u32 and slots where
    told: "told pf w' = told pf w @ le_bytes 4 n # map subscriber_event_fd_and_slot_packet slots" "length slots = unat n"
      "distinct (map unat slots)" "\<forall>s \<in> set slots. unat s < 16" "set_mset (in_use b' pf) = unat ` set slots"
    using registers_publisher_told [OF inv inv' assms(3) r] by metis
  obtain a where a: "told c w' = told c w @ [attachment_batch_packet [attachment_entry a]]"
    "given (attachments_of b c) (sa_attachment_id a) = None" "unat (sa_slot_index a) \<in># in_use b' pf"
    by (rule registers_publisher_links [OF inv inv' assms(3) r assms(4)])
  let ?m = "attachment_entry a"
  have new: "by_id s (fst ?m) = None" and slot: "unat (snd (snd ?m)) \<in> set_mset (in_use b' pf)"
    using a(2,3) attachments_known_dom [OF assms(6)] assms(7) by (simp_all add: attachment_entry_def)
  have "\<exists>p' h'. receive_and_track_initial_subscriber_registrations k p h = Some (None, p', h')
      \<and> introduced (set_mset (in_use b' pf)) (seq p) p' (world h')
      \<and> first_messages_reach p' (world h') (attachment_batch_packet [?m]) s sw"
    if h: "data_inv p (shm (world h))" "active_slots (world h) = {}" "count_received k = le_bytes 4 n"
      "arrive_first slots (registrations_received k) p" for k p h
  proof -
    from handshake_follows [OF h(1-3) told(2) h(4) told(3,4)] obtain p' h' where
      c: "receive_and_track_initial_subscriber_registrations k p h = Some (None, p', h')"
      and i: "introduced (set_mset (in_use b' pf)) (seq p) p' (world h')"
      unfolding introduced_def told(5) by blast
    from c i introduced_reaches [OF i new slot] show ?thesis by blast
  qed
  with told(1) a(1) show ?thesis
    by (intro exI [of _ n] exI [of _ slots] exI [of _ "attachment_batch_packet [?m]"] conjI allI impI)
qed

text \<open>The subscriber on descriptor 8 registers before any publisher has; then the one on 5 does.\<close>

lemma demo_early_subscriber:
  "\<exists>b w. broker_reachable demo_kernel demo_snapshot b w \<and> role_by_fd b 5 = None \<and> topics_of b 8 = [kTopicCamera]
    \<and> subscribers_of b kTopicCamera = [8] \<and> attachments_of b 8 = [] \<and> next_attachment_id b = 1"
proof -
  let ?b = demo_connected and ?w = initial_io
  have plan: "attach_plan ?b [kTopicCamera] = []" by (simp add: attach_plan_def demo_connected_simps)
  have fits: "fits ?b [kTopicCamera]" by (simp add: fits_def plan protocol_simps ids_left_def demo_connected_simps)
  have new: "role_by_fd ?b 8 = None" by (simp add: demo_connected_simps)
  from register_subscriber_total [OF demo_connected_inv new fits demo_kernel_ok(1,2)] obtain b w where
    code: "register_subscriber demo_kernel 8 [kTopicCamera] ?b ?w = Inr (b, w)"
    and reg: "subscriber_registered demo_kernel 8 [kTopicCamera] (?b, ?w) (b, w)" by blast
  have "handle_subscriber_topic_registration demo_kernel 8 demo_subscriber_packet ?b ?w = Inr (b, w)"
    using subscriber_registration_read [OF _ _ demo_subscriber_packet_eq] code by (simp add: protocol_simps)
  then have "receive_client_messages demo_kernel demo_snapshot 8 [RecvMsg (plain_message demo_subscriber_packet)] ?b ?w = Inr (b, w)"
    by (simp add: handle_client_message_def plain_message_def demo_subscriber_packet_def message_type_of_def)
  moreover have "conforming (role_by_fd ?b 8) [RecvMsg (plain_message demo_subscriber_packet)]"
    by (simp add: plain_message_def demo_subscriber_packet_def message_type_of_def new)
  ultimately have "broker_step demo_kernel demo_snapshot (?b, ?w)
      (Receives 8 [RecvMsg (plain_message demo_subscriber_packet)]) (b, w)"
    by (intro receives) (simp_all add: demo_connected_simps)
  note reach = reachable_step [OF demo_connected_reachable this]
  from reg obtain as :: "subscriber_attachment list" where
    as: "subscriber_attachments_by_subscriber_fd b = (subscriber_attachments_by_subscriber_fd ?b)(8 \<mapsto> as)"
    "map (\<lambda>a. (sa_topic_id a, sa_publisher_fd a)) as = []" "next_attachment_id b = next_attachment_id ?b + of_nat (length as)"
    unfolding subscriber_registered_def prod.case plan by (elim conjE exE) (rule that)
  then have "attachments_of b 8 = []" "next_attachment_id b = 1" by (simp_all add: demo_connected_simps)
  moreover from reg have "role_by_fd b 5 = None" "topics_of b 8 = [kTopicCamera]" "subscribers_of b kTopicCamera = [8]"
    by (simp_all add: subscriber_registered_def demo_connected_simps)
  ultimately show ?thesis using reach by blast
qed

theorem new_publisher_reaches_subscriber_witness:
  "\<exists>b w b' w' k p h p' h' p'' pw mmap msg cmsg s' sw' s'' sw''. broker_reachable demo_kernel demo_snapshot b w
    \<and> register_publisher demo_kernel 5 kTopicCamera 6 7 b w = Inr (b', w')
    \<and> receive_and_track_initial_subscriber_registrations k p h = Some (None, p', h')
    \<and> publish_each [demo_payload, []] p' (world h') = Some (p'', pw) \<and> told 8 w' = told 8 w @ [msg_bytes msg]
    \<and> sub_handle_broker_message mmap all_ok msg demo_subscriber demo_sub_world = Some (True, cmsg, s', sw')
    \<and> handle_data_available_event all_ok all_ok 22 s' (sub_close_guarded cmsg sw') = Some (Inr [demo_payload, []], s'', sw'')"
proof -
  obtain b w where b: "broker_reachable demo_kernel demo_snapshot b w" "role_by_fd b 5 = None" "topics_of b 8 = [kTopicCamera]"
    "subscribers_of b kTopicCamera = [8]" "attachments_of b 8 = []" "next_attachment_id b = 1"
    using demo_early_subscriber by blast
  have inv: "broker_inv b" using broker_reachable_inv [OF b(1) demo_kernel_ok(3)] by (simp add: system_inv_def)
  obtain b' w' where code: "register_publisher demo_kernel 5 kTopicCamera 6 7 b w = Inr (b', w')" and inv': "broker_inv b'"
    and reg: "publisher_registered demo_kernel 5 kTopicCamera 6 7 (b, w) (b', w')"
    using register_publisher_total [OF inv b(2) _ _ demo_kernel_ok(1,2), of kTopicCamera 6 7 w] b(4,6)
    by (auto simp: ids_left_def)
  have once: "count_list (topics_of b 8) kTopicCamera = 1" using b(3) by simp
  have none: "attachments_known demo_subscriber = given (attachments_of b 8)"
    using b(5) by (simp add: attachments_known_def demo_subscriber_def fun_eq_iff)
  obtain a where a: "told 8 w' = told 8 w @ [attachment_batch_packet [attachment_entry a]]" "unat (sa_slot_index a) \<in># in_use b' 5"
    by (rule registers_publisher_links [OF inv inv' b(2) reg once])
  let ?packet = "attachment_batch_packet [attachment_entry a]"
  from new_publisher_reaches_subscriber [OF b(1) demo_kernel_ok(3) b(2) once code demo_sub_inv none] a(1)
  obtain n :: u32 and slots where
    f: "\<forall>k p h. data_inv p (shm (world h)) \<longrightarrow> active_slots (world h) = {} \<longrightarrow> count_received k = le_bytes 4 n
        \<longrightarrow> arrive_first slots (registrations_received k) p \<longrightarrow>
        (\<exists>p' h'. receive_and_track_initial_subscriber_registrations k p h = Some (None, p', h')
          \<and> introduced (set_mset (in_use b' 5)) (seq p) p' (world h')
          \<and> first_messages_reach p' (world h') ?packet demo_subscriber demo_sub_world)" by auto
  obtain k :: create_answers and p and h :: host where "data_inv p (shm (world h))" "active_slots (world h) = {}" "count_received k = le_bytes 4 n"
    "arrive_first slots (registrations_received k) p" "seq p = 0"
    using demo_awaits_handshake [of n slots] by blast
  with f obtain p' h' where c: "receive_and_track_initial_subscriber_registrations k p h = Some (None, p', h')"
    and i: "introduced (set_mset (in_use b' 5)) 0 p' (world h')"
    and r: "first_messages_reach p' (world h') ?packet demo_subscriber demo_sub_world" by metis
  have "set_mset (in_use b' 5) \<noteq> {}" using a(2) by auto
  then obtain p'' pw where pub: "publish_each [demo_payload, []] p' (world h') = Some (p'', pw)"
    using introduced_can_publish [OF i, of "[demo_payload, []]"] by (auto simp: demo_payload_def)
  let ?msg = "send_packet_with_fds ?packet [20, 21, 22]" and ?mmap = "\<lambda>segs fd. Some (0 :: nat, shm pw)"
  have "unat (seq p') + length [demo_payload, []] < 2 ^ 31" using i by (simp add: introduced_def)
  with r [unfolded first_messages_reach_def, rule_format, OF _ pub demo_packet_arrives(1,2), of ?mmap 0 all_ok all_ok all_ok]
  obtain cmsg s' sw' s'' sw'' where "sub_handle_broker_message ?mmap all_ok ?msg demo_subscriber demo_sub_world = Some (True, cmsg, s', sw')"
    "handle_data_available_event all_ok all_ok 22 s' (sub_close_guarded cmsg sw')
       = Some (Inr (delivered (sub_flags demo_subscriber) [demo_payload, []]), s'', sw'')" by blast
  moreover have "delivered (sub_flags demo_subscriber) [demo_payload, []] = [demo_payload, []]"
    by (simp add: delivered_def is_synchronous_def demo_subscriber_def SUB_SYNCHRONOUS_def)
  moreover have "told 8 w' = told 8 w @ [msg_bytes ?msg]" using a(1) by (simp add: send_packet_with_fds_def)
  ultimately show ?thesis using b(1) code c pub
    by (intro exI conjI) (assumption | simp only:)+
qed

end
