(* ===== verification/Debug_Checks.thy ===== *)
theory Debug_Checks
  imports Data_Plane Subscriber_Tables
begin

text \<open>
  The last debug check of a subscriber: \<open>Subscriber::log_chunks_in_use\<close> of \<open>subscriber.cpp\<close> warns of
  every chunk that the usage tracker of an attached segment still has in use.  What it reports is
  compared with the messages that are still to be read.
\<close>

section \<open>The check\<close>

text \<open>The two loops over the tracker of one segment; each chunk found is one warning.\<close>

definition chunks_in_use :: "shared_data \<Rightarrow> (nat \<times> nat) list option" where
  "chunks_in_use sd = map_option concat (those (map (\<lambda>(i, j). map_option (\<lambda>used. if used then [(i, j)] else []) (tracker_get i j sd))
     (List.product [0..<kClassCount] [0..<kMaxChunkCountPerSizeClass])))"

text \<open>The loop over the attachments, in the order \<open>fds\<close> in which the table is traversed; a warning
  names the descriptor, the class and the index.\<close>

fun log_chunks_in_use :: "int list \<Rightarrow> subscriber \<Rightarrow> sub_world \<Rightarrow> (int \<times> nat \<times> nat) list option" where
  "log_chunks_in_use [] s w = Some []"
| "log_chunks_in_use (fd # fds) s w = do {
     a \<leftarrow> publisher_attachment_by_data_available_event_fd s fd;
     addr \<leftarrow> shared_data_at a;
     sd \<leftarrow> segments w addr;
     chunks \<leftarrow> chunks_in_use sd;
     warnings \<leftarrow> log_chunks_in_use fds s w;
     Some (map (Pair fd) chunks @ warnings)
   }"

section \<open>What it reports\<close>

lemma chunks_in_use_eq:
  "chunks_in_use sd = Some (filter (\<lambda>(i, j). is_in_use sd i j) (List.product [0..<5] [0..<64]))"
proof -
  let ?g = "\<lambda>(i, j). if is_in_use sd i j then [(i, j)] else []"
  have "those (map (\<lambda>(i, j). map_option (\<lambda>used. if used then [(i, j)] else []) (tracker_get i j sd)) (List.product [0..<5] [0..<64]))
      = Some (map ?g (List.product [0..<5] [0..<64]))"
    by (rule those_Some) (auto simp: tracker_get_def array_simps layout_simps)
  moreover have "concat (map ?g xs) = filter (\<lambda>(i, j). is_in_use sd i j) xs" for xs by (induction xs) auto
  ultimately show ?thesis by (simp add: chunks_in_use_def layout_simps)
qed

text \<open>In the tracker of a consistent segment a chunk is in use exactly if it holds a message that
  some subscriber, not necessarily this one, has not read.\<close>

lemma in_use_iff_unread:
  assumes "data_inv p sd" "chunk_ok (c, i)"
  shows "is_in_use sd c i \<longleftrightarrow> (\<exists>s. \<exists>q \<in> set (unread sd s). chunk_at sd q = (c, i))"
proof -
  note core = data_invD(2) [OF assms(1)]
  have "refmask sd (c, i) \<noteq> 0 \<longleftrightarrow> (\<exists>s. bit (refmask sd (c, i)) s)" by (metis bit_0_eq bit_eqI bot_apply bot_bool_def)
  with core_invD(7) [OF core assms(2)] core_invD(5) [OF core assms(2)] show ?thesis by auto
qed

lemma chunks_in_use_unread:
  assumes "data_inv p sd" "chunks_in_use sd = Some chunks" "chunk_ok ch"
  shows "ch \<in> set chunks \<longleftrightarrow> (\<exists>s. \<exists>q \<in> set (unread sd s). chunk_at sd q = ch)"
proof -
  obtain c i where ch: "ch = (c, i)" by (cases ch)
  from assms(3) ch have c: "c < 5" "i < class_count c" by (simp_all add: chunk_ok_def)
  then have "c = 0 \<or> c = 1 \<or> c = 2 \<or> c = 3 \<or> c = 4" by arith
  with c(2) have "i < 64" by (auto simp: class_count_def layout_simps)
  with assms(2) c(1) have "(c, i) \<in> set chunks \<longleftrightarrow> is_in_use sd c i" by (auto simp: chunks_in_use_eq)
  with in_use_iff_unread [OF assms(1)] assms(3) show ?thesis unfolding ch by blast
qed

lemma log_chunks_in_use_fds: "log_chunks_in_use fds s w = Some warnings \<Longrightarrow> x \<in> set warnings \<Longrightarrow> fst x \<in> set fds"
  by (induction fds arbitrary: warnings) (fastforce simp: bind_eq_Some_conv)+

lemma log_chunks_in_use_total:
  "sub_inv s w \<Longrightarrow> set fds \<subseteq> dom (by_fd s) \<Longrightarrow> \<exists>warnings. log_chunks_in_use fds s w = Some warnings
    \<and> (\<forall>fd a sd ch. fd \<in> set fds \<longrightarrow> by_fd s fd = Some a \<longrightarrow> segments w (the (shared_data_at a)) = Some sd \<longrightarrow>
        ((fd, ch) \<in> set warnings \<longleftrightarrow> ch \<in> set (the (chunks_in_use sd))))"
proof (induction fds)
  case (Cons fd fds)
  from Cons.prems(2) obtain a where a: "by_fd s fd = Some a" by auto
  from sub_invD(3) [OF Cons.prems(1) a] obtain addr sd where m: "shared_data_at a = Some addr" "segments w addr = Some sd"
    by (auto simp: attachment_ok_def)
  obtain chunks where c: "chunks_in_use sd = Some chunks" by (simp add: chunks_in_use_eq)
  from Cons obtain warnings where w: "log_chunks_in_use fds s w = Some warnings"
    "\<forall>fd a sd ch. fd \<in> set fds \<longrightarrow> by_fd s fd = Some a \<longrightarrow> segments w (the (shared_data_at a)) = Some sd \<longrightarrow>
        ((fd, ch) \<in> set warnings \<longleftrightarrow> ch \<in> set (the (chunks_in_use sd)))" by auto
  have here: "(fd', ch) \<in> set warnings \<Longrightarrow> fd' \<in> set fds" for fd' ch
    using log_chunks_in_use_fds [OF w(1)] by fastforce
  have "(fd', ch) \<in> set (map (Pair fd) chunks @ warnings) \<longleftrightarrow> ch \<in> set (the (chunks_in_use sd'))"
    if t: "fd' \<in> set (fd # fds)" "by_fd s fd' = Some a'" "segments w (the (shared_data_at a')) = Some sd'" for fd' a' sd' ch
  proof (cases "fd' = fd")
    case True
    then have "sd' = sd" using t(2,3) a m by simp
    have "(fd, ch) \<in> set warnings \<longleftrightarrow> ch \<in> set chunks" if "fd \<in> set fds"
      using w(2) that a m c by (metis option.sel)
    with True \<open>sd' = sd\<close> here [of fd ch] c show ?thesis by auto
  next
    case False
    with t w(2) have "(fd', ch) \<in> set warnings \<longleftrightarrow> ch \<in> set (the (chunks_in_use sd'))" by (metis set_ConsD)
    with False show ?thesis by auto
  qed
  with a m c w(1) show ?case by simp
qed simp

text \<open>The check never goes wrong on consistent tables.  A subscriber that has read everything is
  warned exactly of what other subscribers of the segment have not read yet, although the message
  speaks of chunks that were not released.\<close>

lemma log_chunks_in_use_others:
  assumes "sub_inv s w" "set fds \<subseteq> dom (by_fd s)" "fd \<in> set fds" "by_fd s fd = Some a"
    and "segments w (the (shared_data_at a)) = Some sd" "data_inv p sd" "queue sd (unat (slot_index a)) = []" "chunk_ok ch"
  shows "\<exists>warnings. log_chunks_in_use fds s w = Some warnings \<and> ((fd, ch) \<in> set warnings
    \<longleftrightarrow> (\<exists>t. t \<noteq> unat (slot_index a) \<and> (\<exists>q \<in> set (unread sd t). chunk_at sd q = ch)))"
proof -
  obtain warnings where w: "log_chunks_in_use fds s w = Some warnings" "(fd, ch) \<in> set warnings \<longleftrightarrow> ch \<in> set (the (chunks_in_use sd))"
    using log_chunks_in_use_total [OF assms(1,2)] assms(3-5) by blast
  obtain chunks where c: "chunks_in_use sd = Some chunks" by (simp add: chunks_in_use_eq)
  have "unread sd (unat (slot_index a)) = []" using assms(7) by (simp add: queue_def)
  with chunks_in_use_unread [OF assms(6) c assms(8)] c w show ?thesis by (metis empty_iff list.set(1) option.sel)
qed

end
