(* ===== verification/Process_Setup.thy ===== *)
theory Process_Setup
  imports Status_Snapshot
begin

text \<open>
  What every process does first: the name of its log file (\<open>broker_log_path\<close>, \<open>publisher_log_path\<close>,
  \<open>subscriber_log_path\<close>), and the descriptor helpers \<open>set_fd_nonblocking\<close> and \<open>add_fd_to_epoll\<close> of
  \<open>src/fd_helpers.cpp\<close> that prepare a descriptor for the edge-triggered event loops.
\<close>

section \<open>Log files\<close>

text \<open>\<open>operator/\<close> of \<open>std::filesystem::path\<close> on POSIX: an absolute path replaces what is before it.\<close>

definition path_append :: "string \<Rightarrow> string \<Rightarrow> string" where
  "path_append a b = (if b \<noteq> [] \<and> hd b = CHR ''/'' then b
     else if a = [] \<or> last a = CHR ''/'' then a @ b else a @ ''/'' @ b)"

text \<open>The environment variable \<open>DRIVEBUS_RUN_ID\<close>, if it is set and not empty.\<close>

definition run_id :: "string option \<Rightarrow> string" where
  "run_id env = (case env of None \<Rightarrow> ''standalone'' | Some s \<Rightarrow> if s \<noteq> [] then s else ''standalone'')"

definition log_path :: "string \<Rightarrow> string option \<Rightarrow> int \<Rightarrow> int \<Rightarrow> string" where
  "log_path component env pid start_us =
     path_append (path_append (path_append ''logs'' (run_id env)) component)
       (''pid-'' @ show_int pid @ ''-start-'' @ show_int start_us @ ''.log'')"

definition broker_log_path :: "string option \<Rightarrow> int \<Rightarrow> int \<Rightarrow> string" where
  "broker_log_path = log_path ''broker''"

definition publisher_log_path :: "string option \<Rightarrow> int \<Rightarrow> int \<Rightarrow> string" where
  "publisher_log_path = log_path ''publisher''"

definition subscriber_log_path :: "string option \<Rightarrow> int \<Rightarrow> int \<Rightarrow> string" where
  "subscriber_log_path = log_path ''subscriber''"

lemma broker_log_path_example: "broker_log_path None 42 7 = ''logs/standalone/broker/pid-42-start-7.log''"
  by (simp add: broker_log_path_def log_path_def path_append_def run_id_def show_int_def show_nat.simps digit_char_def)

text \<open>No two processes share a log file: the paths of one run are different when the kind of the
  process, its number or its start differ.\<close>

lemma takeWhile_until: "x \<notin> set xs \<Longrightarrow> takeWhile (\<lambda>c. c \<noteq> x) (xs @ x # ys) = xs"
  by (induction xs) auto

lemma before_separator:
  assumes "xs @ x # ys = xs' @ x # ys'" "x \<notin> set xs" "x \<notin> set xs'"
  shows "xs = xs'" "ys = ys'"
proof -
  from arg_cong [OF assms(1), of "takeWhile (\<lambda>c. c \<noteq> x)"] show "xs = xs'"
    by (simp only: takeWhile_until [OF assms(2)] takeWhile_until [OF assms(3)])
  with assms(1) show "ys = ys'" by simp
qed

lemma show_int_inj: "show_int i = show_int j \<Longrightarrow> i = j"
  using show_int [of i] show_int [of j] by metis

lemma no_minus: "0 \<le> i \<Longrightarrow> CHR ''-'' \<notin> set (show_int i)"
  using show_nat [of "nat i"] decimal_chars [of "show_nat (nat i)"] by (simp add: show_int_def)

lemma log_file_injective:
  assumes "0 \<le> pid" "0 \<le> pid'"
    and "''pid-'' @ show_int pid @ ''-start-'' @ show_int t @ ''.log'' = ''pid-'' @ show_int pid' @ ''-start-'' @ show_int t' @ ''.log''"
  shows "pid = pid' \<and> t = t'"
proof -
  have "show_int pid @ CHR ''-'' # ''start-'' @ show_int t @ ''.log'' = show_int pid' @ CHR ''-'' # ''start-'' @ show_int t' @ ''.log''"
    using assms(3) by simp
  note s = before_separator [OF this no_minus [OF assms(1)] no_minus [OF assms(2)]]
  with show_int_inj [of pid pid'] show_int_inj [of t t'] show ?thesis by simp
qed

lemma log_path_split:
  assumes "component \<noteq> []" "CHR ''/'' \<notin> set component"
  shows "log_path component env pid t = path_append ''logs'' (run_id env)
    @ (if last (path_append ''logs'' (run_id env)) = CHR ''/'' then [] else ''/'')
    @ component @ CHR ''/'' # ''pid-'' @ show_int pid @ ''-start-'' @ show_int t @ ''.log''"
proof -
  let ?dir = "path_append ''logs'' (run_id env)"
  have "?dir \<noteq> []" by (auto simp: path_append_def)
  moreover have "hd component \<noteq> CHR ''/''" "last component \<noteq> CHR ''/''" using assms by (metis hd_in_set, metis last_in_set)
  ultimately show ?thesis using assms(1) unfolding log_path_def by (simp add: path_append_def [of _ component] path_append_def [of "_ @ _"])
qed

lemma log_paths_differ:
  assumes "component \<in> {''broker'', ''publisher'', ''subscriber''}" "component' \<in> {''broker'', ''publisher'', ''subscriber''}"
    and "0 \<le> pid" "0 \<le> pid'" "log_path component env pid t = log_path component' env pid' t'"
  shows "component = component' \<and> pid = pid' \<and> t = t'"
proof -
  have c: "component \<noteq> []" "CHR ''/'' \<notin> set component" "component' \<noteq> []" "CHR ''/'' \<notin> set component'" using assms(1,2) by auto
  from assms(5) have "component @ CHR ''/'' # ''pid-'' @ show_int pid @ ''-start-'' @ show_int t @ ''.log''
      = component' @ CHR ''/'' # ''pid-'' @ show_int pid' @ ''-start-'' @ show_int t' @ ''.log''"
    unfolding log_path_split [OF c(1,2)] log_path_split [OF c(3,4)] by (simp only: same_append_eq)
  note s = before_separator [OF this c(2,4)]
  from s(1) log_file_injective [OF assms(3,4) s(2)] show ?thesis by simp
qed

section \<open>Descriptors for the event loop\<close>

text \<open>What the kernel keeps: the status flags of every open descriptor, and for each epoll set the
  descriptors in it with their event data, always with \<open>EPOLLET | EPOLLIN\<close>.  \<open>setfl\<close> and \<open>ctl\<close> are
  the kernel's answers to \<open>F_SETFL\<close> and \<open>EPOLL_CTL_ADD\<close>; \<open>F_GETFL\<close> fails exactly for a descriptor
  that is not open.\<close>

record fd_table =
  status_flags :: "int \<rightharpoonup> u32"
  epoll_sets :: "(int \<times> int \<times> u64) list"

definition O_NONBLOCK :: u32 where "O_NONBLOCK = push_bit 11 1"

definition set_fd_nonblocking :: "(int \<Rightarrow> u32 \<Rightarrow> bool) \<Rightarrow> int \<Rightarrow> fd_table \<Rightarrow> bool \<times> fd_table" where
  "set_fd_nonblocking setfl fd k = (case status_flags k fd of
     None \<Rightarrow> (False, k)
   | Some old_option \<Rightarrow>
       let new_option = old_option OR O_NONBLOCK in
       if setfl fd new_option then (True, k\<lparr>status_flags := (status_flags k)(fd \<mapsto> new_option)\<rparr>)
       else (False, k))"

definition add_with_data ::
  "(int \<Rightarrow> u32 \<Rightarrow> bool) \<Rightarrow> (int \<Rightarrow> int \<Rightarrow> bool) \<Rightarrow> u64 \<Rightarrow> int \<Rightarrow> int \<Rightarrow> fd_table \<Rightarrow> bool \<times> fd_table"
where
  "add_with_data setfl ctl event_data epoll_fd fd k =
     (let (ok, k) = set_fd_nonblocking setfl fd k in
      if \<not> ok then (False, k)
      else if ctl epoll_fd fd then (True, k\<lparr>epoll_sets := epoll_sets k @ [(epoll_fd, fd, event_data)]\<rparr>)
      else (False, k))"

text \<open>The helper stores the descriptor itself (the \<open>int\<close> member of the union, on a little-endian
  machine the low half); the one of \<open>subscriber.cpp\<close> the id of the event.\<close>

definition add_fd_to_epoll ::
  "(int \<Rightarrow> u32 \<Rightarrow> bool) \<Rightarrow> (int \<Rightarrow> int \<Rightarrow> bool) \<Rightarrow> int \<Rightarrow> int \<Rightarrow> fd_table \<Rightarrow> bool \<times> fd_table"
where
  "add_fd_to_epoll setfl ctl epoll_fd fd = add_with_data setfl ctl (ucast (of_int fd :: u32)) epoll_fd fd"

definition sub_add_fd_to_epoll ::
  "(int \<Rightarrow> u32 \<Rightarrow> bool) \<Rightarrow> (int \<Rightarrow> int \<Rightarrow> bool) \<Rightarrow> int \<Rightarrow> int \<Rightarrow> u64 \<Rightarrow> fd_table \<Rightarrow> bool \<times> fd_table"
where
  "sub_add_fd_to_epoll setfl ctl epoll_fd fd event_id = add_with_data setfl ctl event_id epoll_fd fd"

text \<open>An edge-triggered loop reads until there is nothing left, so every descriptor it watches must
  be non-blocking; that is so however the calls succeed or fail, and no other flag changes.\<close>

definition nonblocking :: "fd_table \<Rightarrow> int \<Rightarrow> bool" where
  "nonblocking k fd \<longleftrightarrow> (\<exists>fl. status_flags k fd = Some fl \<and> bit fl 11)"

definition watches_nonblocking :: "fd_table \<Rightarrow> bool" where
  "watches_nonblocking k \<longleftrightarrow> (\<forall>(epoll_fd, fd, event_data) \<in> set (epoll_sets k). nonblocking k fd)"

lemma bit_nonblock: "bit O_NONBLOCK n \<longleftrightarrow> n = 11"
  unfolding O_NONBLOCK_def bit_push_bit_iff bit_1_iff by auto

lemma set_fd_nonblocking_ok:
  assumes "set_fd_nonblocking setfl fd k = (ok, k')"
  shows "ok \<Longrightarrow> nonblocking k' fd" "epoll_sets k' = epoll_sets k" "nonblocking k fd' \<Longrightarrow> nonblocking k' fd'"
    "n \<noteq> 11 \<Longrightarrow> map_option (\<lambda>fl. bit fl n) (status_flags k' fd') = map_option (\<lambda>fl. bit fl n) (status_flags k fd')"
  using assms by (auto simp: set_fd_nonblocking_def nonblocking_def Let_def bit_or_iff bit_nonblock split: option.splits if_splits)

lemma add_with_data_ok:
  assumes "watches_nonblocking k" "add_with_data setfl ctl event_data epoll_fd fd k = (ok, k')"
  shows "watches_nonblocking k'" "ok \<Longrightarrow> (epoll_fd, fd, event_data) \<in> set (epoll_sets k')" "\<not> ok \<Longrightarrow> epoll_sets k' = epoll_sets k"
proof -
  obtain ok1 k1 where s: "set_fd_nonblocking setfl fd k = (ok1, k1)" by fastforce
  note n = set_fd_nonblocking_ok [OF s]
  have same: "nonblocking (k1\<lparr>epoll_sets := es\<rparr>) = nonblocking k1" for es by (simp add: nonblocking_def fun_eq_iff)
  from assms(2) s n(2) show "ok \<Longrightarrow> (epoll_fd, fd, event_data) \<in> set (epoll_sets k')" "\<not> ok \<Longrightarrow> epoll_sets k' = epoll_sets k"
    by (auto simp: add_with_data_def split: if_splits)
  have "\<forall>(e, fd', d) \<in> set (epoll_sets k). nonblocking k1 fd'" using assms(1) n(3) unfolding watches_nonblocking_def by blast
  with assms s n(1,2) same show "watches_nonblocking k'"
    by (auto simp: add_with_data_def watches_nonblocking_def split: if_splits)
qed

lemma fd_of_event_data:
  assumes "0 \<le> fd" "fd < 2 ^ 31"
  shows "sint (ucast (ucast (of_int fd :: u32) :: u64) :: u32) = fd"
proof -
  have "(ucast (ucast (of_int fd :: u32) :: u64) :: u32) = of_int fd" by (rule bit_word_eqI) (auto simp: bit_ucast_iff)
  moreover have "sint (of_int fd :: u32) = fd" using assms by transfer (simp add: signed_take_bit_int_eq_self)
  ultimately show ?thesis by simp
qed

text \<open>The events of different descriptors that one process can hold are told apart by their data.\<close>

lemma add_fd_to_epoll_ok:
  assumes "watches_nonblocking k" "add_fd_to_epoll setfl ctl epoll_fd fd k = (True, k')" "0 \<le> fd" "fd < 2 ^ 31"
  shows "watches_nonblocking k' \<and> (\<exists>event_data. (epoll_fd, fd, event_data) \<in> set (epoll_sets k') \<and> sint (ucast event_data :: u32) = fd)"
  using add_with_data_ok(1,2) [OF assms(1) assms(2) [unfolded add_fd_to_epoll_def]] fd_of_event_data [OF assms(3,4)] by blast

end
