(* ===== verification/Spec2Isabelle.thy ===== *)
theory Spec2Isabelle
  imports Data_Properties Publisher_Properties Subscriber_Properties Broker_Properties Lifecycle_Properties
    Subscriber_Lifecycle_Properties Broker_Main_Properties Status_Properties Logger_Properties
    Node_Properties Introduction_Properties Debug_Checks Process_Setup
begin

text \<open>
  DriveBus is a publish/subscribe bus between processes on one machine.  A publisher owns a shared
  memory segment with a ring of descriptors and a pool of payload chunks; up to 16 subscribers map
  the segment and read the ring at their own pace; a broker process (\<open>broker.cpp\<close>) introduces the
  two sides to each other over a Unix socket and passes the descriptors (the segment and the
  eventfds that wake the other side) from one to the other.  Paths below are relative to the
  repository.

  \<^bold>\<open>The parts and their theories.\<close>

  \<^item> \<open>DriveBus_Prelude\<close>, \<open>Map_Sums\<close>, \<open>Transition_System\<close>: machine words, byte stores and the
    little-endian \<open>memcpy\<close>; sums over the entries of a map; labelled transition systems with the
    locales \<open>transition_system\<close> (an inductive invariant holds in every reachable state) and
    \<open>refinement\<close> (every run of the code is a run of an abstract system).
  \<^item> \<open>Shm_Layout\<close>, \<open>Segment_Init\<close> (\<open>include/shared_memory_layout.hpp\<close>, \<open>find_size_class\<close>,
    \<open>initialize_shared_data\<close>): the segment as the record \<open>shared_data\<close>, its sizes, and what the
    initialisation establishes.
  \<^item> \<open>Free_List\<close>, \<open>Chunk_References\<close>, \<open>Descriptor_Ring\<close> (\<open>src/publisher.cpp\<close>,
    \<open>src/subscriber.cpp\<close>): the three data structures in the segment: intrusive free lists (locale
    \<open>chunk_pool\<close>, interpreted on the list in the segment), the bit masks of readers, and the ring
    indices with their wrap-around.
  \<^item> \<open>Publisher_State\<close>, \<open>Publisher_Data\<close>, \<open>Publish_Message\<close>: \<open>track_subscriber\<close>,
    \<open>reap_dead_subscribers\<close>, \<open>try_publish_one\<close>, \<open>can_publish_next_message\<close>.
  \<^item> \<open>Subscriber_State\<close>, \<open>Subscriber_Data\<close>, \<open>Consume_Messages\<close>, \<open>Wake_Up\<close>: \<open>read_data\<close>,
    \<open>consume_contiguous_messages\<close>, \<open>handle_data_available_event\<close>, and the wake-up of a publisher
    that is held back.
  \<^item> \<open>Data_Plane\<close>, \<open>Data_Scenario\<close>, \<open>Data_Properties\<close>: publisher, segment and subscribers as a
    transition system whose steps are the operations above in any order; it refines a channel
    with one queue per subscriber.
  \<^item> \<open>Fd_Helpers\<close>, \<open>Broker_Protocol\<close> (\<open>src/fd_helpers.cpp\<close>, \<open>include/broker_protocol.hpp\<close>): the
    retry loops, guards and control messages; the packets as bytes.
  \<^item> \<open>Publisher_Control\<close>, \<open>Publisher_Async\<close>, \<open>Publish_Pending\<close>, \<open>Promise_Ledger\<close>,
    \<open>Worker_Runs\<close>, \<open>Publisher_Properties\<close>: control messages at the publisher, synchronous
    \<open>publish\<close>, asynchronous \<open>publish\<close> with its worker, and the promises as a ledger.
  \<^item> \<open>Subscriber_Control\<close>, \<open>Subscriber_Tables\<close>, \<open>Attachment_Batch\<close>, \<open>Subscriber_Properties\<close>:
    control messages at the subscriber, \<open>subscribe\<close>, the worker's \<open>run\<close>, and the two tables of
    attachments.
  \<^item> \<open>Slot_Heap\<close>, \<open>Broker_State\<close>, \<open>Broker_Handlers\<close> (\<open>broker.cpp\<close>): the free slots (locale
    \<open>slot_heap\<close>, interpreted on the sorted list that stands for the priority queue), the global
    containers as one record, one function per handler.  \<open>Broker_Outcome\<close>,
    \<open>Broker_Attachments\<close>, \<open>Broker_Registration\<close>, \<open>Broker_Invariant\<close>, \<open>Broker_Disconnect\<close>,
    \<open>Broker_Service\<close>, \<open>Broker_Account\<close>: what the handlers establish.  \<open>Broker_System\<close>: the
    broker as a transition system over the events of \<open>main\<close>.  \<open>Broker_Scenario\<close>,
    \<open>Broker_Properties\<close>: a concrete history and the properties.

  \<^item> \<open>Client_Connection\<close>: what both client libraries do with descriptors (the retry of
    \<open>connect\<close>, \<open>FdGuard\<close> as a function around its scope, locale \<open>fd_process\<close>: obtaining and
    closing a descriptor are entries of a ledger), interpreted on the publisher's and the
    subscriber's process.
  \<^item> \<open>Publisher_Lifecycle\<close>, \<open>Publisher_Resources\<close>, \<open>Publisher_Teardown\<close>,
    \<open>Lifecycle_Properties\<close> and \<open>Subscriber_Lifecycle\<close>, \<open>Subscriber_Resources\<close>,
    \<open>Subscriber_Lifecycle_Properties\<close>: \<open>create\<close>, the worker's thread, the move and the
    destructor of the two objects.  \<open>Sync_Publish\<close>: that a synchronous \<open>publish\<close> returns.
    \<open>Pub_Node\<close>, \<open>Sub_Node\<close>, \<open>Node_Properties\<close> (\<open>pub_node.cpp\<close>, \<open>sub_node.cpp\<close>): whole client
    processes as the composition of these.
  \<^item> \<open>Broker_Main\<close>, \<open>Broker_Main_Properties\<close>: \<open>main\<close> of the broker with its setup, event loop and
    shutdown.  \<open>Status_Snapshot\<close>, \<open>Status_Cli\<close>, \<open>Status_Properties\<close>
    (\<open>build_status_snapshot_payload\<close>, \<open>broker_status_cli.cpp\<close>): the status report as text, and
    the client that asks for it.
  \<^item> \<open>Broker_Actions\<close>, \<open>Broker_Notes\<close>, \<open>Publisher_Follows\<close>, \<open>Subscriber_Notes\<close>,
    \<open>Subscriber_Follows\<close>, \<open>First_Messages\<close>, \<open>Introduction_Properties\<close>: broker, publisher and
    subscriber composed.
    The events of the broker are taken apart into what it does for each client; the packets it sent
    to a client, read in order (\<open>hear\<close>, \<open>learn\<close>), amount to the tables it holds; and the client's
    own handling of these packets, with descriptor numbers new in its process, brings its active
    slots or its attachments to the same.  From there the path is followed to the first messages:
    what a new publisher publishes is what a subscriber reads that was introduced to it.
  \<^item> \<open>Async_Logger\<close>, \<open>Logger_Properties\<close> (\<open>src/logger.cpp\<close>, \<open>include/logger.h\<close>): the logger with its
    backend as a transition system that refines the list of accepted entries.
  \<^item> \<open>Process_Setup\<close>, \<open>Debug_Checks\<close>: the names of the log files, different for different
    processes; \<open>set_fd_nonblocking\<close> and \<open>add_fd_to_epoll\<close>, which keep every watched descriptor
    non-blocking; and \<open>log_chunks_in_use\<close>, whose warnings are the messages still to be read.

  \<^bold>\<open>How the code is translated.\<close>  Each operation is a function that returns the updated state.  A
  result of type \<open>option\<close> is \<open>None\<close> exactly when the C++ program has no defined result (an index
  out of range, signed overflow, \<open>std::terminate\<close>) or, in the loops that wait for the kernel, when
  the given answers are used up; the theorems state \<open>Some\<close> where the code returns.  Errors are
  \<open>Inl\<close> of the enumeration of the code; the broker's \<open>exit(1)\<close> and \<open>return 1\<close> are \<open>Inl\<close> of a
  \<open>broker_fault\<close> with the name that is logged.  Answers of the kernel are parameters: \<open>sig\<close>,
  \<open>drain\<close> and \<open>watch\<close> say on which descriptors \<open>eventfd_write\<close>, \<open>eventfd_read\<close> and \<open>epoll_ctl\<close>
  succeed, lists of answers stand for \<open>recvmsg\<close>, \<open>epoll_wait\<close>, \<open>accept\<close> and the clock in the
  order they are given, and the record \<open>kernel\<close> holds those of the broker.  Effects on the outside
  are recorded in order: descriptors closed, eventfds written, messages sent, promises completed,
  payloads handed to the callback.

  \<^bold>\<open>Concurrency.\<close>  Atomic operations on the segment are sequentially consistent here and an
  operation of the data plane is one step; the transition systems let the operations of all
  processes interleave in any order.  In the asynchronous publisher the code between two releases
  of \<open>publish_state_mutex_\<close> is one step.

  \<^bold>\<open>Bounds.\<close>  The ring has 16 descriptors and holds back at 15 unread ones; there are 16
  slots and 128 chunks in 5 size classes.  The sequence number is a signed 32-bit integer whose
  overflow is undefined, so the theorems on publishing assume fewer than \<open>2^31 - 1\<close> messages; the
  broker's attachment id is 64 bits wide and its exhaustion is a hypothesis likewise.  Recursion
  over answers is structural; \<open>consume_loop\<close> is a \<open>partial_function\<close> and is proved to return.

  The theorems that a process or a call returns say how many answers are enough: one message count
  per registration in \<open>create\<close>, one reading of the clock per reported event and two per wait in the
  synchronous \<open>publish\<close>, a signal in the event loop of the broker.

  \<^bold>\<open>Not modelled.\<close>  The log messages themselves, the removal of the
  broker's socket from the file system, the examples' messages on stderr, and the tests.  Exceptions for failed
  allocations, exceptions thrown by a callback (\<open>WorkerException\<close>) and weak memory orderings are
  not represented.  In the model a process does not see the others write to a segment in the middle
  of one of its own operations; the transition systems interleave whole operations.
\<close>

end
